(* ===== verification/Prelude.thy ===== *)
theory Prelude
  imports Main "HOL-Library.Word"
begin

unbundle bit_operations_syntax

text \<open>
  Shared ground of the development: the machine integers of the C code, a flat
  byte-addressed memory, the heap of the C library, little-endian and big-endian
  byte lists, and the small vocabulary for functions that return a status and
  change a state.  Every component theory imports this one.
\<close>

section \<open>Machine integers\<close>

text \<open>
  The program is built for a 64-bit target: \<open>size_t\<close> and pointers have 64 bits,
  and unsigned arithmetic wraps, as \<open>+\<close> on words does.
\<close>

type_synonym u8 = "8 word"
type_synonym u16 = "16 word"
type_synonym u32 = "32 word"
type_synonym u64 = "64 word"
type_synonym byte = u8
type_synonym size_t = u64
type_synonym ptr = u64

abbreviation NULL :: ptr where
  "NULL \<equiv> 0"

named_theorems byte_simps \<open>bit-level facts on bytes and words\<close>
named_theorems mem_simps \<open>reading what was written, and frames\<close>
named_theorems stream_simps \<open>one step of a stream on its contents\<close>

section \<open>Functions that return a status\<close>

text \<open>
  A C function that returns a status and changes a state \<open>'s\<close> is a function
  \<open>'s \<Rightarrow> 'a option \<times> 's\<close>: \<open>None\<close> is the failure return, \<open>Some v\<close> a success with
  what the out-parameters hold.  The state is kept on failure too, since the
  caller still owns it.
\<close>

type_synonym ('s, 'a) cfun = "'s \<Rightarrow> 'a option \<times> 's"

definition retC :: "'a \<Rightarrow> ('s, 'a) cfun" where
  "retC x s = (Some x, s)"

definition bindC :: "('s, 'a) cfun \<Rightarrow> ('a \<Rightarrow> ('s, 'b) cfun) \<Rightarrow> ('s, 'b) cfun" where
  "bindC m k s = (case m s of (None, s') \<Rightarrow> (None, s') | (Some x, s') \<Rightarrow> k x s')"

lemma bindC_Some [simp]: "m s = (Some x, s') \<Longrightarrow> bindC m k s = k x s'"
  by (simp add: bindC_def)

lemma bindC_None [simp]: "m s = (None, s') \<Longrightarrow> bindC m k s = (None, s')"
  by (simp add: bindC_def)

lemma bindC_retC [simp]: "bindC (retC x) k = k x"
  by (rule ext) (simp add: bindC_def retC_def)

lemma bindC_SomeE:
  assumes "bindC m k s = (Some y, t)"
  obtains x s' where "m s = (Some x, s')" and "k x s' = (Some y, t)"
  using assms by (auto simp: bindC_def split: prod.splits option.splits)

section \<open>Functions that may not return\<close>

text \<open>
  Where recursion follows pointers or data, whether a function returns depends on them.
  Such a function takes fuel; \<open>None\<close> says that the fuel ran out, or that the code does
  something undefined, like calling a null entry of a dispatch table.
\<close>

type_synonym ('s, 'a) pfun = "'s \<Rightarrow> ('a option \<times> 's) option"

definition liftP :: "('s, 'a) cfun \<Rightarrow> ('s, 'a) pfun" where
  "liftP f s = Some (f s)"

definition bindP :: "('s, 'a) pfun \<Rightarrow> ('a \<Rightarrow> ('s, 'b) pfun) \<Rightarrow> ('s, 'b) pfun" where
  "bindP m k s = (case m s of
     None \<Rightarrow> None
   | Some (None, s') \<Rightarrow> Some (None, s')
   | Some (Some x, s') \<Rightarrow> k x s')"

definition stuckP :: "('s, 'a) pfun" where
  "stuckP s = None"

lemma bindP_simps [simp]:
  "m s = None \<Longrightarrow> bindP m k s = None"
  "m s = Some (None, s') \<Longrightarrow> bindP m k s = Some (None, s')"
  "m s = Some (Some x, s') \<Longrightarrow> bindP m k s = k x s'"
  by (simp_all add: bindP_def)

lemma bindP_liftP: "bindP (liftP f) (\<lambda>x. liftP (g x)) = liftP (bindC f g)"
  by (rule ext) (auto simp: bindP_def liftP_def bindC_def split: prod.splits option.splits)

section \<open>Memory\<close>

type_synonym mem = "ptr \<Rightarrow> byte"

text \<open>
  The \<open>n\<close> bytes from address \<open>a\<close>, and memory after storing a list of bytes
  from \<open>a\<close> on.  Address arithmetic wraps, as pointer arithmetic on the target
  does.
\<close>

definition read_bytes :: "mem \<Rightarrow> ptr \<Rightarrow> nat \<Rightarrow> byte list" where
  "read_bytes m a n = map (\<lambda>i. m (a + of_nat i)) [0..<n]"

definition write_bytes :: "mem \<Rightarrow> ptr \<Rightarrow> byte list \<Rightarrow> mem" where
  "write_bytes m a bs = (\<lambda>p. if unat (p - a) < length bs then bs ! unat (p - a) else m p)"

text \<open>Address \<open>p\<close> lies in the \<open>n\<close> bytes from \<open>a\<close>.\<close>

definition in_block :: "ptr \<Rightarrow> nat \<Rightarrow> ptr \<Rightarrow> bool" where
  "in_block a n p \<longleftrightarrow> unat (p - a) < n"

lemma length_read_bytes [simp]: "length (read_bytes m a n) = n"
  by (simp add: read_bytes_def)

lemma nth_read_bytes [simp]: "i < n \<Longrightarrow> read_bytes m a n ! i = m (a + of_nat i)"
  by (simp add: read_bytes_def)

lemma read_bytes_0 [simp]: "read_bytes m a 0 = []"
  by (simp add: read_bytes_def)

lemma read_bytes_Suc: "read_bytes m a (Suc n) = m a # read_bytes m (a + 1) n"
proof -
  have "map (\<lambda>i. m (a + of_nat i)) [0..<Suc n] = m a # map (\<lambda>i. m (a + of_nat i)) [Suc 0..<Suc n]"
    by (subst upt_conv_Cons) auto
  also have "map (\<lambda>i. m (a + of_nat i)) [Suc 0..<Suc n] = map (\<lambda>i. m (a + 1 + of_nat i)) [0..<n]"
    by (simp add: map_Suc_upt [symmetric] add.assoc del: upt_Suc)
  finally show ?thesis by (simp add: read_bytes_def)
qed

lemma read_bytes_1: "read_bytes m a (Suc 0) = [m a]"
  by (simp add: read_bytes_Suc)

lemma read_bytes_add:
  "read_bytes m a (i + j) = read_bytes m a i @ read_bytes m (a + of_nat i) j"
proof (induction i arbitrary: a)
  case 0
  then show ?case by simp
next
  case (Suc i)
  then show ?case by (simp add: read_bytes_Suc algebra_simps)
qed

lemma write_bytes_Nil [simp]: "write_bytes m a [] = m"
  by (simp add: write_bytes_def)

lemma write_bytes_frame [mem_simps]:
  "\<not> in_block a (length bs) p \<Longrightarrow> write_bytes m a bs p = m p"
  by (simp add: write_bytes_def in_block_def)

lemma unat_of_nat_size: "i < 2 ^ 64 \<Longrightarrow> unat (of_nat i :: u64) = i"
  by (simp add: unat_of_nat)

lemma read_write_same [mem_simps]:
  assumes "length bs \<le> 2 ^ 64"
  shows "read_bytes (write_bytes m a bs) a (length bs) = bs"
proof (rule nth_equalityI)
  fix i assume "i < length (read_bytes (write_bytes m a bs) a (length bs))"
  then have "i < length bs" by simp
  with assms show "read_bytes (write_bytes m a bs) a (length bs) ! i = bs ! i"
    by (simp add: write_bytes_def unat_of_nat_size)
qed simp

lemma read_bytes_cong:
  "(\<And>p. in_block a n p \<Longrightarrow> m p = m' p) \<Longrightarrow> n \<le> 2 ^ 64 \<Longrightarrow> read_bytes m a n = read_bytes m' a n"
  by (rule nth_equalityI) (auto simp: in_block_def unat_of_nat_size)

lemma read_write_other [mem_simps]:
  assumes "\<And>p. in_block a (length bs) p \<Longrightarrow> \<not> in_block b n p" "n \<le> 2 ^ 64"
  shows "read_bytes (write_bytes m a bs) b n = read_bytes m b n"
  using assms by (intro read_bytes_cong) (auto intro: write_bytes_frame)

lemma unat_minus_of_nat:
  fixes d :: u64
  assumes "n < 2 ^ 64"
  shows "unat (d - of_nat n) = (if n \<le> unat d then unat d - n else 2 ^ 64 + unat d - n)"
  using assms by (auto simp: unat_sub_if' unat_of_nat_size)

lemma write_bytes_append:
  assumes "length xs + length ys \<le> 2 ^ 64"
  shows "write_bytes (write_bytes m a xs) (a + of_nat (length xs)) ys = write_bytes m a (xs @ ys)"
proof
  fix p
  have u: "unat (p - (a + of_nat (length xs))) =
      (if length xs \<le> unat (p - a) then unat (p - a) - length xs else 2 ^ 64 + unat (p - a) - length xs)"
    if "length xs < 2 ^ 64"
  proof -
    have "p - (a + of_nat (length xs)) = (p - a) - of_nat (length xs)" by simp
    then show ?thesis using unat_minus_of_nat [OF that, of "p - a"] by metis
  qed
  show "write_bytes (write_bytes m a xs) (a + of_nat (length xs)) ys p = write_bytes m a (xs @ ys) p"
  proof (cases "length xs < 2 ^ 64")
    case True
    with assms u [OF True] show ?thesis by (auto simp: write_bytes_def nth_append)
  next
    case False
    with assms have "length ys = 0" by linarith
    then show ?thesis by simp
  qed
qed

section \<open>Words as lists of bytes\<close>

text \<open>
  The target is little-endian.  \<open>le_bytes n w\<close> are the low \<open>n\<close> bytes of \<open>w\<close>,
  least significant first, and \<open>le_word\<close> reads such a list back.
\<close>

definition le_bytes :: "nat \<Rightarrow> 'a::len word \<Rightarrow> byte list" where
  "le_bytes n w = map (\<lambda>i. ucast (drop_bit (8 * i) w)) [0..<n]"

primrec le_word :: "byte list \<Rightarrow> 'a::len word" where
  "le_word [] = 0"
| "le_word (b # bs) = ucast b OR push_bit 8 (le_word bs)"

text \<open>The same for the big-endian order of network protocols.\<close>

definition be_bytes :: "nat \<Rightarrow> 'a::len word \<Rightarrow> byte list" where
  "be_bytes n w = rev (le_bytes n w)"

lemma length_le_bytes [simp]: "length (le_bytes n w) = n"
  by (simp add: le_bytes_def)

lemma length_be_bytes [simp]: "length (be_bytes n w) = n"
  by (simp add: be_bytes_def)

lemma le_bytes_0 [simp]: "le_bytes 0 w = []"
  by (simp add: le_bytes_def)

lemma le_bytes_Suc: "le_bytes (Suc n) w = ucast w # le_bytes n (drop_bit 8 w)"
proof -
  have "map (\<lambda>i. ucast (drop_bit (8 * i) w)) [0..<Suc n] =
      (ucast w :: byte) # map (\<lambda>i. ucast (drop_bit (8 * i) w)) [Suc 0..<Suc n]"
    by (subst upt_conv_Cons) auto
  also have "map (\<lambda>i. ucast (drop_bit (8 * i) w) :: byte) [Suc 0..<Suc n] =
      map (\<lambda>i. ucast (drop_bit (8 * i) (drop_bit 8 w))) [0..<n]"
    by (simp add: map_Suc_upt [symmetric] drop_bit_drop_bit ac_simps del: upt_Suc)
  finally show ?thesis by (simp add: le_bytes_def)
qed

lemma bit_le_word:
  "bit (le_word bs :: 'a::len word) i \<longleftrightarrow>
     i < LENGTH('a) \<and> i < 8 * length bs \<and> bit (bs ! (i div 8)) (i mod 8)"
proof (induction bs arbitrary: i)
  case Nil
  then show ?case by simp
next
  case (Cons b bs)
  show ?case
  proof (cases "i < 8")
    case True
    then show ?thesis by (auto simp: bit_simps)
  next
    case False
    then have "i div 8 = Suc ((i - 8) div 8)" "i mod 8 = (i - 8) mod 8"
      by (auto simp: le_div_geq le_mod_geq)
    with False Cons.IH [of "i - 8"] show ?thesis
      by (auto simp: bit_simps not_less dest: bit_imp_le_length)
  qed
qed

lemma bit_nth_le_bytes:
  "i < n \<Longrightarrow> bit (le_bytes n w ! i) j \<longleftrightarrow> j < 8 \<and> bit w (8 * i + j)"
  by (auto simp: le_bytes_def bit_simps dest: bit_imp_le_length)

lemma le_word_le_bytes [byte_simps]:
  "le_word (le_bytes n w) = take_bit (8 * n) w"
  by (rule bit_word_eqI) (auto simp: bit_le_word bit_nth_le_bytes bit_simps less_mult_imp_div_less mult.commute)

lemma le_word_le_bytes_full [byte_simps]:
  "LENGTH('a::len) \<le> 8 * n \<Longrightarrow> le_word (le_bytes n (w :: 'a word)) = w"
  by (simp add: le_word_le_bytes take_bit_word_eq_self)

lemma le_bytes_le_word [byte_simps]:
  assumes "8 * length bs \<le> LENGTH('a::len)"
  shows "le_bytes (length bs) (le_word bs :: 'a word) = bs"
proof (rule nth_equalityI)
  fix i assume "i < length (le_bytes (length bs) (le_word bs :: 'a word))"
  then have i: "i < length bs" by simp
  show "le_bytes (length bs) (le_word bs :: 'a word) ! i = bs ! i"
  proof (rule bit_word_eqI)
    fix j assume "j < LENGTH(8)"
    then have j: "j < 8" by simp
    then have "8 * i + j < 8 * length bs" using i by linarith
    with i j assms show "bit (le_bytes (length bs) (le_word bs :: 'a word) ! i) j = bit (bs ! i) j"
      by (simp add: bit_nth_le_bytes bit_le_word)
  qed
qed simp

text \<open>Typed access to memory.\<close>

definition load16 :: "mem \<Rightarrow> ptr \<Rightarrow> u16" where
  "load16 m a = le_word (read_bytes m a 2)"

definition load32 :: "mem \<Rightarrow> ptr \<Rightarrow> u32" where
  "load32 m a = le_word (read_bytes m a 4)"

definition load64 :: "mem \<Rightarrow> ptr \<Rightarrow> u64" where
  "load64 m a = le_word (read_bytes m a 8)"

definition store16 :: "mem \<Rightarrow> ptr \<Rightarrow> u16 \<Rightarrow> mem" where
  "store16 m a w = write_bytes m a (le_bytes 2 w)"

definition store32 :: "mem \<Rightarrow> ptr \<Rightarrow> u32 \<Rightarrow> mem" where
  "store32 m a w = write_bytes m a (le_bytes 4 w)"

definition store64 :: "mem \<Rightarrow> ptr \<Rightarrow> u64 \<Rightarrow> mem" where
  "store64 m a w = write_bytes m a (le_bytes 8 w)"

lemma load_store_same [mem_simps]:
  "load16 (store16 m a w2) a = w2"
  "load32 (store32 m a w4) a = w4"
  "load64 (store64 m a w8) a = w8"
  using read_write_same [of "le_bytes 2 w2" m a] read_write_same [of "le_bytes 4 w4" m a]
    read_write_same [of "le_bytes 8 w8" m a]
  by (simp_all add: load16_def store16_def load32_def store32_def load64_def store64_def byte_simps
      take_bit_word_eq_self)

lemma store_frame [mem_simps]:
  "\<not> in_block a 2 p \<Longrightarrow> store16 m a w2 p = m p"
  "\<not> in_block a 4 p \<Longrightarrow> store32 m a w4 p = m p"
  "\<not> in_block a 8 p \<Longrightarrow> store64 m a w8 p = m p"
  by (simp_all add: store16_def store32_def store64_def write_bytes_frame)

section \<open>Bits of words\<close>

lemma drop_bit_less_word:
  fixes v :: "'a::len word"
  assumes "v \<noteq> 0" "0 < k"
  shows "drop_bit k v < v"
proof -
  have "unat v div 2 ^ k < unat v"
    using assms one_less_power [of "2 :: nat" k] by (intro div_less_dividend) (auto simp: unat_gt_0)
  then have "drop_bit k (unat v) < unat v" by (simp add: drop_bit_eq_div)
  then show ?thesis
    by (simp only: word_less_nat_alt unat_drop_bit_eq)
qed

lemma bit_80 [simp]: "bit (0x80 :: 'a::len word) n \<longleftrightarrow> n = 7 \<and> 7 < LENGTH('a)"
proof -
  have "(0x80 :: 'a word) = 2 ^ 7" by simp
  then show ?thesis by (simp only: bit_exp_iff) auto
qed

lemma bit_80_int [simp]: "bit (0x80 :: int) n \<longleftrightarrow> n = 7"
proof -
  have "(0x80 :: int) = 2 ^ 7" by simp
  then show ?thesis by (simp only: bit_exp_iff) auto
qed

lemma u64_bit_bound: "unat (v :: u64) < 2 ^ k \<Longrightarrow> k \<le> n \<Longrightarrow> \<not> bit v n"
proof -
  assume "unat v < 2 ^ k" "k \<le> n"
  then have "unat v < 2 ^ n" by (meson less_le_trans one_le_numeral power_increasing)
  then have "\<not> bit (unat v) n" by (simp add: bit_iff_odd)
  then show ?thesis by (simp add: bit_unsigned_iff)
qed

lemma u32_bit_bound: "unat (v :: u32) < 2 ^ k \<Longrightarrow> k \<le> n \<Longrightarrow> \<not> bit v n"
proof -
  assume "unat v < 2 ^ k" "k \<le> n"
  then have "unat v < 2 ^ n" by (meson less_le_trans one_le_numeral power_increasing)
  then have "\<not> bit (unat v) n" by (simp add: bit_iff_odd)
  then show ?thesis by (simp add: bit_unsigned_iff)
qed

lemma and_7F: "(v :: 'a::len word) AND 0x7F = take_bit 7 v" if "8 \<le> LENGTH('a)"
proof -
  have "(0x7F :: 'a word) = mask 7" by (simp add: mask_eq_exp_minus_1)
  then show ?thesis by (simp add: take_bit_eq_mask)
qed

lemma and_80: "(b :: byte) AND 0x80 = (if bit b 7 then 0x80 else 0)"
  by (rule bit_word_eqI) (auto simp: bit_simps)

text \<open>No bit of \<open>v\<close> from position \<open>k\<close> on is set.\<close>

lemma drop_bit_zero_bit: "drop_bit k (v :: 'a::len word) = 0 \<Longrightarrow> k \<le> n \<Longrightarrow> \<not> bit v n"
  by (metis bit_0_eq bit_drop_bit_eq bot_apply bot_bool_def comp_apply le_add_diff_inverse)

lemma ucast_u32_u64: "(ucast (ucast (v :: u32) :: u64) :: u32) = v"
  by (rule bit_word_eqI) (simp add: bit_ucast_iff)

lemma unat_ucast_u32: "unat (ucast (v :: u32) :: u64) = unat v"
proof -
  have "unat v < 2 ^ 32" using unsigned_less [of v, where 'a = nat] by simp
  then show ?thesis by (simp add: unsigned_ucast_eq take_bit_nat_eq_self)
qed

lemma unat_drop_bit_div: "unat (drop_bit k w) = unat (w :: 'a::len word) div 2 ^ k"
  unfolding unat_drop_bit_eq by (rule drop_bit_eq_div)

lemma drop_bit_zero_iff: "drop_bit k (w :: 'a::len word) = 0 \<longleftrightarrow> unat w < 2 ^ k"
proof -
  have "drop_bit k w = 0 \<longleftrightarrow> unat w div 2 ^ k = 0"
    by (simp only: unat_eq_0 [symmetric] unat_drop_bit_div)
  then show ?thesis by (simp add: div_eq_0_iff)
qed

section \<open>The C library's sort\<close>

text \<open>
  \<open>qsort\<close> may leave elements that compare as equal in any order; the model is a stable
  insertion sort.
\<close>

primrec insert_by :: "('a \<Rightarrow> 'a \<Rightarrow> int) \<Rightarrow> 'a \<Rightarrow> 'a list \<Rightarrow> 'a list" where
  "insert_by cmp x [] = [x]"
| "insert_by cmp x (y # ys) = (if cmp x y \<le> 0 then x # y # ys else y # insert_by cmp x ys)"

definition qsort :: "('a \<Rightarrow> 'a \<Rightarrow> int) \<Rightarrow> 'a list \<Rightarrow> 'a list" where
  "qsort cmp xs = foldr (insert_by cmp) xs []"

text \<open>\<open>bsearch\<close>, which gives the index of some element that compares as equal to the key.\<close>

function bsearch_loop :: "('a \<Rightarrow> int) \<Rightarrow> 'a list \<Rightarrow> nat \<Rightarrow> nat \<Rightarrow> nat option" where
  "bsearch_loop against xs l u =
     (if l < u
      then
        let idx = (l + u) div 2; comparison = against (xs ! idx)
        in if comparison < 0 then bsearch_loop against xs l idx
           else if comparison > 0 then bsearch_loop against xs (idx + 1) u
           else Some idx
      else None)"
  by pat_completeness auto
termination bsearch_loop
  by (relation "measure (\<lambda>(_, _, l, u). u - l)") auto

declare bsearch_loop.simps [simp del]

definition bsearch :: "('a \<Rightarrow> int) \<Rightarrow> 'a list \<Rightarrow> nat option" where
  "bsearch against xs = bsearch_loop against xs 0 (length xs)"

section \<open>Comparing strings\<close>

text \<open>\<open>strcmp\<close> on the characters before the terminators: the sign is that of the first difference.\<close>

fun strcmp :: "byte list \<Rightarrow> byte list \<Rightarrow> int" where
  "strcmp [] [] = 0"
| "strcmp [] (b # bs) = - 1"
| "strcmp (a # as) [] = 1"
| "strcmp (a # as) (b # bs) = (if a = b then strcmp as bs else uint a - uint b)"

lemma strcmp_zero: "strcmp as bs = 0 \<longleftrightarrow> as = bs"
  by (induction as bs rule: strcmp.induct) (auto simp: word_uint_eq_iff)

end
