(* ===== verification/Pb_Types.thy ===== *)
theory Pb_Types
  imports Prelude
begin

text \<open>
  The data of nanopb (\<open>nanopb/pb.h\<close>, \<open>pb_encode.h\<close>, \<open>pb_decode.h\<close>): field types,
  field descriptors, the two stream structures and the C heap.  The program is
  built with \<open>PB_FIELD_32BIT\<close>, \<open>PB_ENABLE_MALLOC\<close> and \<open>PB_NO_PACKED_STRUCTS\<close>
  (\<open>Target Support Files/nanopb/nanopb.xcconfig\<close>), so \<open>pb_size_t\<close> has 32 bits.
\<close>

section \<open>Field types\<close>

type_synonym pb_type_t = u8
type_synonym pb_size_t = u32
type_synonym pb_byte_t = byte

abbreviation PB_SIZE_MAX :: pb_size_t where
  "PB_SIZE_MAX \<equiv> - 1"

definition PB_LTYPE_VARINT :: pb_type_t where "PB_LTYPE_VARINT = 0x00"
definition PB_LTYPE_UVARINT :: pb_type_t where "PB_LTYPE_UVARINT = 0x01"
definition PB_LTYPE_SVARINT :: pb_type_t where "PB_LTYPE_SVARINT = 0x02"
definition PB_LTYPE_FIXED32 :: pb_type_t where "PB_LTYPE_FIXED32 = 0x03"
definition PB_LTYPE_FIXED64 :: pb_type_t where "PB_LTYPE_FIXED64 = 0x04"
definition PB_LTYPE_LAST_PACKABLE :: pb_type_t where "PB_LTYPE_LAST_PACKABLE = 0x04"
definition PB_LTYPE_BYTES :: pb_type_t where "PB_LTYPE_BYTES = 0x05"
definition PB_LTYPE_STRING :: pb_type_t where "PB_LTYPE_STRING = 0x06"
definition PB_LTYPE_SUBMESSAGE :: pb_type_t where "PB_LTYPE_SUBMESSAGE = 0x07"
definition PB_LTYPE_EXTENSION :: pb_type_t where "PB_LTYPE_EXTENSION = 0x08"
definition PB_LTYPE_FIXED_LENGTH_BYTES :: pb_type_t where "PB_LTYPE_FIXED_LENGTH_BYTES = 0x09"

definition PB_HTYPE_REQUIRED :: pb_type_t where "PB_HTYPE_REQUIRED = 0x00"
definition PB_HTYPE_OPTIONAL :: pb_type_t where "PB_HTYPE_OPTIONAL = 0x10"
definition PB_HTYPE_REPEATED :: pb_type_t where "PB_HTYPE_REPEATED = 0x20"
definition PB_HTYPE_ONEOF :: pb_type_t where "PB_HTYPE_ONEOF = 0x30"

definition PB_ATYPE_STATIC :: pb_type_t where "PB_ATYPE_STATIC = 0x00"
definition PB_ATYPE_POINTER :: pb_type_t where "PB_ATYPE_POINTER = 0x80"
definition PB_ATYPE_CALLBACK :: pb_type_t where "PB_ATYPE_CALLBACK = 0x40"

definition PB_ATYPE :: "pb_type_t \<Rightarrow> pb_type_t" where "PB_ATYPE x = x AND 0xC0"
definition PB_HTYPE :: "pb_type_t \<Rightarrow> pb_type_t" where "PB_HTYPE x = x AND 0x30"
definition PB_LTYPE :: "pb_type_t \<Rightarrow> pb_type_t" where "PB_LTYPE x = x AND 0x0F"

lemmas pb_type_defs =
  PB_LTYPE_VARINT_def PB_LTYPE_UVARINT_def PB_LTYPE_SVARINT_def PB_LTYPE_FIXED32_def
  PB_LTYPE_FIXED64_def PB_LTYPE_LAST_PACKABLE_def PB_LTYPE_BYTES_def PB_LTYPE_STRING_def
  PB_LTYPE_SUBMESSAGE_def PB_LTYPE_EXTENSION_def PB_LTYPE_FIXED_LENGTH_BYTES_def
  PB_HTYPE_REQUIRED_def PB_HTYPE_OPTIONAL_def PB_HTYPE_REPEATED_def PB_HTYPE_ONEOF_def
  PB_ATYPE_STATIC_def PB_ATYPE_POINTER_def PB_ATYPE_CALLBACK_def
  PB_ATYPE_def PB_HTYPE_def PB_LTYPE_def

section \<open>Field descriptors\<close>

text \<open>
  The \<open>ptr\<close> of a descriptor is null, or the address of a submessage's descriptors,
  or the address of the default value.  Descriptor arrays are constants of the
  program: \<open>fields_at\<close> of the environment below gives the array at an address.
\<close>

record pb_field_t =
  ftag :: pb_size_t
  ftype :: pb_type_t
  data_offset :: pb_size_t
  size_offset :: "32 word" \<comment> \<open>\<open>pb_ssize_t\<close>, read with \<open>scast\<close>\<close>
  data_size :: pb_size_t
  array_size :: pb_size_t
  fptr :: ptr

text \<open>\<open>PB_LAST_FIELD\<close>, the terminator that a descriptor array ends with.\<close>

definition PB_LAST_FIELD :: pb_field_t where
  "PB_LAST_FIELD = \<lparr>ftag = 0, ftype = 0, data_offset = 0, size_offset = 0, data_size = 0,
     array_size = 0, fptr = NULL\<rparr>"

section \<open>Wire types\<close>

type_synonym pb_wire_type_t = u32

definition PB_WT_VARINT :: pb_wire_type_t where "PB_WT_VARINT = 0"
definition PB_WT_64BIT :: pb_wire_type_t where "PB_WT_64BIT = 1"
definition PB_WT_STRING :: pb_wire_type_t where "PB_WT_STRING = 2"
definition PB_WT_32BIT :: pb_wire_type_t where "PB_WT_32BIT = 5"

lemmas pb_wt_defs = PB_WT_VARINT_def PB_WT_64BIT_def PB_WT_STRING_def PB_WT_32BIT_def

section \<open>The C heap\<close>

text \<open>
  The state of the C program that nanopb works on: memory, the live blocks of
  \<open>malloc\<close> with their sizes, and the allocator of the C library, which from the
  live blocks and a size picks a new block's address, or \<open>NULL\<close>.
\<close>

record cstate =
  hmem :: mem
  hblocks :: "ptr \<rightharpoonup> size_t"
  halloc :: "(ptr \<rightharpoonup> size_t) \<Rightarrow> size_t \<Rightarrow> ptr"

section \<open>Streams\<close>

text \<open>
  A stream's callback is nanopb's own buffer function or a function of the
  library's user.  A user's function works on the C state and its \<open>state\<close>
  pointer; the documentation of the structures forbids it to use the byte
  counters, so it does not see them.  A read callback gives the bytes it stores in
  \<open>buf\<close> as a function of the position.
\<close>

datatype pb_read_fn =
    Buf_read
  | User_read "cstate \<Rightarrow> ptr \<Rightarrow> size_t \<Rightarrow> bool \<times> (nat \<Rightarrow> byte) \<times> cstate \<times> ptr"

datatype pb_write_fn =
    Buf_write
  | User_write "cstate \<Rightarrow> ptr \<Rightarrow> byte list \<Rightarrow> bool \<times> cstate \<times> ptr"

record pb_istream_t =
  icallback :: pb_read_fn
  istate :: ptr
  bytes_left :: size_t
  ierrmsg :: "string option"

record pb_ostream_t =
  ocallback :: "pb_write_fn option" \<comment> \<open>\<open>None\<close> is the null callback of a sizing stream\<close>
  ostate :: ptr
  max_size :: size_t
  bytes_written :: size_t
  oerrmsg :: "string option"

type_synonym 'a ifun = "(cstate \<times> pb_istream_t, 'a) cfun"
type_synonym 'a ofun = "(cstate \<times> pb_ostream_t, 'a) cfun"

text \<open>\<open>PB_RETURN_ERROR\<close>: the first error message stays, the function returns false.\<close>

definition PB_RETURN_ERROR_i :: "string \<Rightarrow> 'a ifun" where
  "PB_RETURN_ERROR_i msg = (\<lambda>(c, s).
     (None, c, s\<lparr>ierrmsg := (case ierrmsg s of None \<Rightarrow> Some msg | Some m \<Rightarrow> Some m)\<rparr>))"

definition PB_RETURN_ERROR_o :: "string \<Rightarrow> 'a ofun" where
  "PB_RETURN_ERROR_o msg = (\<lambda>(c, s).
     (None, c, s\<lparr>oerrmsg := (case oerrmsg s of None \<Rightarrow> Some msg | Some m \<Rightarrow> Some m)\<rparr>))"

lemma PB_RETURN_ERROR_i_None [simp]: "fst (PB_RETURN_ERROR_i msg st) = None"
  by (cases st) (simp add: PB_RETURN_ERROR_i_def)

lemma PB_RETURN_ERROR_o_None [simp]: "fst (PB_RETURN_ERROR_o msg st) = None"
  by (cases st) (simp add: PB_RETURN_ERROR_o_def)

lemma PB_RETURN_ERROR_not_Some [simp]:
  "PB_RETURN_ERROR_i msg st \<noteq> (Some x, st')"
  "PB_RETURN_ERROR_o msg so \<noteq> (Some y, so')"
  by (cases st, simp add: PB_RETURN_ERROR_i_def) (cases so, simp add: PB_RETURN_ERROR_o_def)

section \<open>The environment\<close>

text \<open>
  What the program around nanopb supplies: the descriptor arrays by address, and
  the meaning of the function pointers that messages and extension types hold (the
  field callbacks of \<open>pb_callback_t\<close>, which get the address of \<open>arg\<close>, and the
  handlers of \<open>pb_extension_type_t\<close>, which get the address of the extension).
  \<open>frame_count\<close> and \<open>frame_buffer\<close> are the stack addresses of two locals whose address
  the decoder takes, \<open>fixed_count_size\<close> and \<open>buffer\<close>, in the frame of each nested call.
\<close>

record pb_env =
  fields_at :: "ptr \<Rightarrow> pb_field_t list"
  decode_fn :: "ptr \<Rightarrow> pb_field_t \<Rightarrow> ptr \<Rightarrow> unit ifun"
  encode_fn :: "ptr \<Rightarrow> pb_field_t \<Rightarrow> ptr \<Rightarrow> unit ofun"
  ext_decode_fn :: "ptr \<Rightarrow> ptr \<Rightarrow> u32 \<Rightarrow> pb_wire_type_t \<Rightarrow> unit ifun"
  ext_encode_fn :: "ptr \<Rightarrow> ptr \<Rightarrow> unit ofun"
  frame_count :: "nat \<Rightarrow> ptr"
  frame_buffer :: "nat \<Rightarrow> ptr"

text \<open>
  Layout on the 64-bit target: \<open>pb_callback_t\<close> is a function pointer and \<open>arg\<close>;
  \<open>pb_extension_t\<close> is \<open>type\<close>, \<open>dest\<close>, \<open>next\<close>, \<open>found\<close>; \<open>pb_extension_type_t\<close> is
  \<open>decode\<close>, \<open>encode\<close>, \<open>arg\<close>; \<open>pb_bytes_array_t\<close> is a \<open>pb_size_t\<close> and the bytes.
\<close>

definition cb_func :: "mem \<Rightarrow> ptr \<Rightarrow> ptr" where "cb_func m p = load64 m p"
definition cb_arg :: "ptr \<Rightarrow> ptr" where "cb_arg p = p + 8"
definition ext_type :: "mem \<Rightarrow> ptr \<Rightarrow> ptr" where "ext_type m p = load64 m p"
definition ext_dest :: "ptr \<Rightarrow> ptr" where "ext_dest p = p + 8"
definition ext_next :: "mem \<Rightarrow> ptr \<Rightarrow> ptr" where "ext_next m p = load64 m (p + 16)"
definition ext_found :: "ptr \<Rightarrow> ptr" where "ext_found p = p + 24"
definition extt_decode :: "mem \<Rightarrow> ptr \<Rightarrow> ptr" where "extt_decode m p = load64 m p"
definition extt_encode :: "mem \<Rightarrow> ptr \<Rightarrow> ptr" where "extt_encode m p = load64 m (p + 8)"
definition extt_arg :: "mem \<Rightarrow> ptr \<Rightarrow> ptr" where "extt_arg m p = load64 m (p + 16)"

definition PB_BYTES_ARRAY_T_ALLOCSIZE :: "size_t \<Rightarrow> size_t" where
  "PB_BYTES_ARRAY_T_ALLOCSIZE n = n + 4"

end
