(* ===== verification/Pb_Istream.thy ===== *)
theory Pb_Istream
  imports Pb_Types
begin

text \<open>
  Input streams and the scalar decoders of \<open>nanopb/pb_decode.c\<close>: reading bytes,
  varints of 32 and 64 bits, tags, skipping a field, raw values, substreams and
  fixed-width values.  An out-parameter is part of the result; a \<open>buf\<close> that is
  filled is the list of its bytes.
\<close>

section \<open>Streams\<close>

definition buf_read :: "size_t \<Rightarrow> pb_byte_t list ifun" where
  "buf_read count = (\<lambda>(c, s).
     (Some (read_bytes (hmem c) (istate s) (unat count)), c, s\<lparr>istate := istate s + count\<rparr>))"

definition istream_callback :: "size_t \<Rightarrow> pb_byte_t list ifun" where
  "istream_callback count = (\<lambda>(c, s).
     case icallback s of
       Buf_read \<Rightarrow> buf_read count (c, s)
     | User_read f \<Rightarrow>
         (case f c (istate s) count of (ok, bs, c', p) \<Rightarrow>
            (if ok then Some (map bs [0..<unat count]) else None, c', s\<lparr>istate := p\<rparr>)))"

text \<open>\<open>pb_read\<close> with a buffer, then with a null \<open>buf\<close>, which skips the bytes.\<close>

definition pb_read_buf :: "size_t \<Rightarrow> pb_byte_t list ifun" where
  "pb_read_buf count = (\<lambda>(c, s).
     if bytes_left s < count then PB_RETURN_ERROR_i ''end-of-stream'' (c, s)
     else
       (case istream_callback count (c, s) of
          (None, st) \<Rightarrow> PB_RETURN_ERROR_i ''io error'' st
        | (Some bs, c', s') \<Rightarrow> (Some bs, c', s'\<lparr>bytes_left := bytes_left s' - count\<rparr>)))"

function pb_read_skip :: "size_t \<Rightarrow> unit ifun" where
  "pb_read_skip count st =
     (if count > 16
      then (case pb_read_buf 16 st of
              (None, st') \<Rightarrow> (None, st')
            | (Some _, st') \<Rightarrow> pb_read_skip (count - 16) st')
      else map_prod (map_option (\<lambda>_. ())) id (pb_read_buf count st))"
  by pat_completeness auto
termination pb_read_skip
  by (relation "measure (\<lambda>(count, _). unat count)")
     (auto simp: word_less_nat_alt unat_sub word_le_nat_alt)

declare pb_read_skip.simps [simp del]

definition pb_read_null :: "size_t \<Rightarrow> unit ifun" where
  "pb_read_null count st =
     (case icallback (snd st) of
        Buf_read \<Rightarrow> map_prod (map_option (\<lambda>_. ())) id (pb_read_buf count st)
      | User_read _ \<Rightarrow> pb_read_skip count st)"

definition pb_readbyte :: "pb_byte_t ifun" where
  "pb_readbyte = (\<lambda>(c, s).
     if bytes_left s = 0 then PB_RETURN_ERROR_i ''end-of-stream'' (c, s)
     else
       (case istream_callback 1 (c, s) of
          (None, st) \<Rightarrow> PB_RETURN_ERROR_i ''io error'' st
        | (Some bs, c', s') \<Rightarrow> (Some (hd bs), c', s'\<lparr>bytes_left := bytes_left s' - 1\<rparr>)))"

definition pb_istream_from_buffer :: "ptr \<Rightarrow> size_t \<Rightarrow> pb_istream_t" where
  "pb_istream_from_buffer buf bufsize =
     \<lparr>icallback = Buf_read, istate = buf, bytes_left = bufsize, ierrmsg = None\<rparr>"

lemma istream_callback_left:
  "istream_callback count (c, s) = (r, c', s') \<Longrightarrow>
     bytes_left s' = bytes_left s \<and> icallback s' = icallback s"
  by (auto simp: istream_callback_def buf_read_def split: pb_read_fn.splits prod.splits)

lemma PB_RETURN_ERROR_i_left [simp]:
  "bytes_left (snd (snd (PB_RETURN_ERROR_i msg st))) = bytes_left (snd st)"
  by (cases st) (simp add: PB_RETURN_ERROR_i_def)

lemma pb_readbyte_left:
  assumes "pb_readbyte st = (Some b, st')"
  shows "unat (bytes_left (snd st')) < unat (bytes_left (snd st))"
    and "bytes_left (snd st') = bytes_left (snd st) - 1"
    and "icallback (snd st') = icallback (snd st)"
proof -
  obtain c s c' s' where st: "st = (c, s)" "st' = (c', s')" by (cases st; cases st')
  show *: "bytes_left (snd st') = bytes_left (snd st) - 1"
    and "icallback (snd st') = icallback (snd st)"
    using assms by (auto simp: pb_readbyte_def st split: if_splits prod.splits option.splits
        dest: istream_callback_left)
  have "bytes_left s \<noteq> 0" using assms by (auto simp: pb_readbyte_def st split: if_splits)
  with * st show "unat (bytes_left (snd st')) < unat (bytes_left (snd st))"
    by (simp add: unat_minus_one unat_gt_0)
qed

lemma pb_readbyte_left_sym:
  "(Some b, st') = pb_readbyte st \<Longrightarrow> unat (bytes_left (snd st')) < unat (bytes_left (snd st))"
  by (rule pb_readbyte_left(1) [OF sym])

section \<open>Varints\<close>

text \<open>
  The multibyte loop of \<open>pb_decode_varint32_eof\<close>.  \<open>bitpos\<close> is a \<open>uint_fast8_t\<close>,
  eight bits on the target, and wraps.
\<close>

function varint32_loop :: "u8 \<Rightarrow> u32 \<Rightarrow> u32 ifun" where
  "varint32_loop bitpos result st =
     (case pb_readbyte st of
        (None, st') \<Rightarrow> (None, st')
      | (Some byte, st') \<Rightarrow>
          let sign_extension = (if bitpos < 63 then 0xFF else 0x01 :: u8);
              bitpos' = bitpos + 7;
              result' = (if bitpos \<ge> 32 then result
                         else result OR push_bit (unat bitpos) (ucast (byte AND 0x7F)))
          in if bitpos \<ge> 32 \<and> (byte AND 0x7F) \<noteq> 0
                \<and> (drop_bit 31 result = 0 \<or> byte \<noteq> sign_extension)
             then PB_RETURN_ERROR_i ''varint overflow'' st'
             else if (byte AND 0x80) \<noteq> 0 then varint32_loop bitpos' result' st'
             else if bitpos' = 35 \<and> (byte AND 0x70) \<noteq> 0
             then PB_RETURN_ERROR_i ''varint overflow'' st'
             else (Some result', st'))"
  by pat_completeness auto
termination varint32_loop
  by (relation "measure (\<lambda>(_, _, st). unat (bytes_left (snd st)))")
     (auto dest!: pb_readbyte_left_sym split: if_splits)

declare varint32_loop.simps [simp del]

text \<open>The result is \<open>*dest\<close>, with whether \<open>*eof\<close> is set to true.\<close>

definition pb_decode_varint32_eof :: "cstate \<times> pb_istream_t \<Rightarrow> u32 option \<times> bool \<times> (cstate \<times> pb_istream_t)" where
  "pb_decode_varint32_eof st =
     (case pb_readbyte st of
        (None, st') \<Rightarrow> (None, bytes_left (snd st') = 0, st')
      | (Some byte, st') \<Rightarrow>
          if (byte AND 0x80) = 0 then (Some (ucast byte), False, st')
          else (case varint32_loop 7 (ucast (byte AND 0x7F)) st' of
                  (r, st'') \<Rightarrow> (r, False, st'')))"

definition pb_decode_varint32 :: "u32 ifun" where
  "pb_decode_varint32 st = (case pb_decode_varint32_eof st of (r, _, st') \<Rightarrow> (r, st'))"

function varint_loop :: "u8 \<Rightarrow> u64 \<Rightarrow> u64 ifun" where
  "varint_loop bitpos result st =
     (if bitpos \<ge> 64 then PB_RETURN_ERROR_i ''varint overflow'' st
      else
        (case pb_readbyte st of
           (None, st') \<Rightarrow> (None, st')
         | (Some byte, st') \<Rightarrow>
             let result' = result OR push_bit (unat bitpos) (ucast (byte AND 0x7F))
             in if (byte AND 0x80) \<noteq> 0 then varint_loop (bitpos + 7) result' st'
                else (Some result', st')))"
  by pat_completeness auto
termination varint_loop
  by (relation "measure (\<lambda>(_, _, st). unat (bytes_left (snd st)))")
     (auto dest!: pb_readbyte_left_sym split: if_splits)

declare varint_loop.simps [simp del]

definition pb_decode_varint :: "u64 ifun" where
  "pb_decode_varint = varint_loop 0 0"

text \<open>The loop of \<open>pb_skip_varint\<close> reads with \<open>pb_read\<close>, one byte at a time.\<close>

lemma pb_read_buf_left:
  assumes "pb_read_buf count st = (Some bs, st')"
  shows "bytes_left (snd st') = bytes_left (snd st) - count"
    and "count \<le> bytes_left (snd st)"
    and "icallback (snd st') = icallback (snd st)"
    and "length bs = unat count"
proof -
  obtain c s c' s' where st: "st = (c, s)" "st' = (c', s')" by (cases st; cases st')
  show "bytes_left (snd st') = bytes_left (snd st) - count"
    and "count \<le> bytes_left (snd st)"
    and "icallback (snd st') = icallback (snd st)"
    using assms by (auto simp: pb_read_buf_def st not_less split: if_splits prod.splits option.splits
        dest: istream_callback_left)
  show "length bs = unat count"
    using assms by (auto simp: pb_read_buf_def istream_callback_def buf_read_def st
        split: if_splits prod.splits option.splits pb_read_fn.splits)
qed

lemma pb_read_buf_1_sym:
  assumes "(Some bs, st') = pb_read_buf 1 st"
  shows "unat (bytes_left (snd st')) < unat (bytes_left (snd st))"
  using pb_read_buf_left(1,2) [OF assms [symmetric]]
  by (auto simp: unat_sub word_le_nat_alt)

function pb_skip_varint :: "unit ifun" where
  "pb_skip_varint st =
     (case pb_read_buf 1 st of
        (None, st') \<Rightarrow> (None, st')
      | (Some bs, st') \<Rightarrow> if (hd bs AND 0x80) \<noteq> 0 then pb_skip_varint st' else (Some (), st'))"
  by pat_completeness auto
termination pb_skip_varint
  by (relation "measure (\<lambda>st. unat (bytes_left (snd st)))") (auto dest!: pb_read_buf_1_sym)

declare pb_skip_varint.simps [simp del]

definition pb_skip_string :: "unit ifun" where
  "pb_skip_string = bindC pb_decode_varint32 (\<lambda>len. pb_read_null (ucast len))"

section \<open>Tags and fields\<close>

text \<open>
  \<open>pb_decode_tag\<close> sets its out-parameters on failure too: \<open>(ok, wire_type, tag, eof)\<close>.
\<close>

definition pb_decode_tag ::
  "cstate \<times> pb_istream_t \<Rightarrow> (bool \<times> pb_wire_type_t \<times> u32 \<times> bool) \<times> (cstate \<times> pb_istream_t)" where
  "pb_decode_tag st =
     (case pb_decode_varint32_eof st of
        (None, eof, st') \<Rightarrow> ((False, 0, 0, eof), st')
      | (Some temp, _, st') \<Rightarrow>
          if temp = 0 then ((False, 0, 0, True), st')
          else ((True, temp AND 7, drop_bit 3 temp, False), st'))"

definition pb_skip_field :: "pb_wire_type_t \<Rightarrow> unit ifun" where
  "pb_skip_field wire_type =
     (if wire_type = PB_WT_VARINT then pb_skip_varint
      else if wire_type = PB_WT_64BIT then pb_read_null 8
      else if wire_type = PB_WT_STRING then pb_skip_string
      else if wire_type = PB_WT_32BIT then pb_read_null 4
      else PB_RETURN_ERROR_i ''invalid wire_type'')"

text \<open>
  \<open>read_raw_value\<close> for a buffer of \<open>max_size\<close> bytes: the bytes it stores, whose
  number is what \<open>*size\<close> holds on return.
\<close>

function raw_varint_loop :: "nat \<Rightarrow> nat \<Rightarrow> pb_byte_t list \<Rightarrow> pb_byte_t list ifun" where
  "raw_varint_loop max_sz sz acc st =
     (if Suc sz > max_sz then (None, st)
      else
        (case pb_read_buf 1 st of
           (None, st') \<Rightarrow> (None, st')
         | (Some bs, st') \<Rightarrow>
             if (hd bs AND 0x80) \<noteq> 0 then raw_varint_loop max_sz (Suc sz) (acc @ bs) st'
             else (Some (acc @ bs), st')))"
  by pat_completeness auto
termination raw_varint_loop
  by (relation "measure (\<lambda>(max_sz, sz, _, _). max_sz - sz)") auto

declare raw_varint_loop.simps [simp del]

definition read_raw_value :: "pb_wire_type_t \<Rightarrow> nat \<Rightarrow> pb_byte_t list ifun" where
  "read_raw_value wire_type max_sz =
     (if wire_type = PB_WT_VARINT then raw_varint_loop max_sz 0 []
      else if wire_type = PB_WT_64BIT then pb_read_buf 8
      else if wire_type = PB_WT_32BIT then pb_read_buf 4
      else PB_RETURN_ERROR_i ''invalid wire_type'')"

section \<open>Substreams\<close>

text \<open>The result is \<open>*substream\<close>.\<close>

definition pb_make_string_substream :: "pb_istream_t ifun" where
  "pb_make_string_substream =
     bindC pb_decode_varint32 (\<lambda>sz (c, s).
       if bytes_left s < ucast sz then PB_RETURN_ERROR_i ''parent stream too short'' (c, s)
       else (Some (s\<lparr>bytes_left := ucast sz\<rparr>), c, s\<lparr>bytes_left := bytes_left s - ucast sz\<rparr>))"

text \<open>The parent stream \<open>s\<close> takes over the position of the substream \<open>sub\<close>.\<close>

definition pb_close_string_substream ::
  "pb_istream_t \<Rightarrow> cstate \<times> pb_istream_t \<Rightarrow> bool \<times> (cstate \<times> pb_istream_t) \<times> pb_istream_t" where
  "pb_close_string_substream sub = (\<lambda>(c, s).
     if bytes_left sub \<noteq> 0
     then (case pb_read_null (bytes_left sub) (c, sub) of
             (None, c', sub') \<Rightarrow> (False, (c', s), sub')
           | (Some _, c', sub') \<Rightarrow>
               (True, (c', s\<lparr>istate := istate sub', ierrmsg := ierrmsg sub'\<rparr>), sub'))
     else (True, (c, s\<lparr>istate := istate sub, ierrmsg := ierrmsg sub\<rparr>), sub))"

section \<open>Signed and fixed-width values\<close>

definition pb_decode_svarint :: "64 word ifun" where
  "pb_decode_svarint =
     bindC pb_decode_varint (\<lambda>value.
       retC (if (value AND 1) \<noteq> 0 then NOT (drop_bit 1 value) else drop_bit 1 value))"

definition pb_decode_fixed32 :: "u32 ifun" where
  "pb_decode_fixed32 =
     bindC (pb_read_buf 4) (\<lambda>bytes.
       retC (push_bit 0 (ucast (bytes ! 0)) OR
             push_bit 8 (ucast (bytes ! 1)) OR
             push_bit 16 (ucast (bytes ! 2)) OR
             push_bit 24 (ucast (bytes ! 3))))"

definition pb_decode_fixed64 :: "u64 ifun" where
  "pb_decode_fixed64 =
     bindC (pb_read_buf 8) (\<lambda>bytes.
       retC (push_bit 0 (ucast (bytes ! 0)) OR
             push_bit 8 (ucast (bytes ! 1)) OR
             push_bit 16 (ucast (bytes ! 2)) OR
             push_bit 24 (ucast (bytes ! 3)) OR
             push_bit 32 (ucast (bytes ! 4)) OR
             push_bit 40 (ucast (bytes ! 5)) OR
             push_bit 48 (ucast (bytes ! 6)) OR
             push_bit 56 (ucast (bytes ! 7))))"

end
