(* ===== verification/Pb_Common.thy ===== *)
theory Pb_Common
  imports Pb_Types
begin

text \<open>
  The field iterator of \<open>nanopb/pb_common.c\<close>.  A descriptor array is the list of its
  entries before the terminator; reading at its length gives the terminator.
\<close>

record pb_field_iter_t =
  istart :: "pb_field_t list"
  ipos :: nat
  required_field_index :: u32
  dest_struct :: ptr
  pData :: ptr
  pSize :: ptr

definition field_entry :: "pb_field_t list \<Rightarrow> nat \<Rightarrow> pb_field_t" where
  "field_entry flds i = (if i < length flds then flds ! i else PB_LAST_FIELD)"

definition iter_field :: "pb_field_iter_t \<Rightarrow> pb_field_t" where
  "iter_field iter = field_entry (istart iter) (ipos iter)"

definition pb_field_iter_begin :: "pb_field_t list \<Rightarrow> ptr \<Rightarrow> bool \<times> pb_field_iter_t" where
  "pb_field_iter_begin flds dest =
     (let fld = field_entry flds 0;
          data = dest + ucast (data_offset fld)
      in (ftag fld \<noteq> 0,
          \<lparr>istart = flds, ipos = 0, required_field_index = 0, dest_struct = dest,
           pData = data, pSize = data + scast (size_offset fld)\<rparr>))"

definition pb_field_iter_next :: "pb_field_iter_t \<Rightarrow> bool \<times> pb_field_iter_t" where
  "pb_field_iter_next iter =
     (let prev_field = iter_field iter in
      if ftag prev_field = 0 then (False, iter)
      else
        let iter = iter\<lparr>ipos := Suc (ipos iter)\<rparr>;
            cur = iter_field iter
        in if ftag cur = 0
           then (False, snd (pb_field_iter_begin (istart iter) (dest_struct iter)))
           else if PB_HTYPE (ftype prev_field) = PB_HTYPE_ONEOF \<and>
                   PB_HTYPE (ftype cur) = PB_HTYPE_ONEOF \<and>
                   data_offset cur = PB_SIZE_MAX
           then (True, iter)
           else
             let prev_size =
                   (if PB_ATYPE (ftype prev_field) = PB_ATYPE_STATIC \<and>
                       PB_HTYPE (ftype prev_field) = PB_HTYPE_REPEATED
                    then ucast (data_size prev_field) * ucast (array_size prev_field)
                    else if PB_ATYPE (ftype prev_field) = PB_ATYPE_POINTER then 8
                    else ucast (data_size prev_field)) :: size_t;
                 req = (if PB_HTYPE (ftype prev_field) = PB_HTYPE_REQUIRED
                        then required_field_index iter + 1 else required_field_index iter);
                 data = pData iter + prev_size + ucast (data_offset cur)
             in (True, iter\<lparr>required_field_index := req, pData := data,
                            pSize := data + scast (size_offset cur)\<rparr>))"

text \<open>
  The loop of \<open>pb_field_iter_find\<close> starts at \<open>start\<close> and goes around the array once.
  The first argument bounds the steps; \<open>pb_field_iter_find_spec\<close> below shows that the
  length of the array is enough.
\<close>

primrec iter_find_loop :: "nat \<Rightarrow> (pb_field_t \<Rightarrow> bool) \<Rightarrow> nat \<Rightarrow> pb_field_iter_t \<Rightarrow> bool \<times> pb_field_iter_t" where
  "iter_find_loop 0 wanted start iter = (False, iter)"
| "iter_find_loop (Suc n) wanted start iter =
     (if wanted (iter_field iter) then (True, iter)
      else
        let iter' = snd (pb_field_iter_next iter)
        in if ipos iter' \<noteq> start then iter_find_loop n wanted start iter' else (False, iter'))"

definition pb_field_iter_find :: "pb_field_iter_t \<Rightarrow> u32 \<Rightarrow> bool \<times> pb_field_iter_t" where
  "pb_field_iter_find iter tag =
     iter_find_loop (Suc (length (istart iter)))
       (\<lambda>fld. ftag fld = tag \<and> PB_LTYPE (ftype fld) \<noteq> PB_LTYPE_EXTENSION) (ipos iter) iter"

text \<open>\<open>find_extension_field\<close> of \<open>pb_decode.c\<close> is the same loop with another test.\<close>

definition find_extension_field :: "pb_field_iter_t \<Rightarrow> bool \<times> pb_field_iter_t" where
  "find_extension_field iter =
     iter_find_loop (Suc (length (istart iter)))
       (\<lambda>fld. PB_LTYPE (ftype fld) = PB_LTYPE_EXTENSION) (ipos iter) iter"

section \<open>The iterator goes around the array\<close>

text \<open>Descriptor arrays hold no entry with tag 0 before the terminator.\<close>

definition wf_tags :: "pb_field_t list \<Rightarrow> bool" where
  "wf_tags flds \<longleftrightarrow> (\<forall>fld \<in> set flds. ftag fld \<noteq> 0)"

text \<open>The iterator after \<open>k\<close> steps from the beginning.\<close>

primrec iter_at :: "pb_field_t list \<Rightarrow> ptr \<Rightarrow> nat \<Rightarrow> pb_field_iter_t" where
  "iter_at flds dest 0 = snd (pb_field_iter_begin flds dest)"
| "iter_at flds dest (Suc k) = snd (pb_field_iter_next (iter_at flds dest k))"

text \<open>An iterator that the code made: it is where so many steps lead.\<close>

definition iter_ok :: "pb_field_iter_t \<Rightarrow> bool" where
  "iter_ok iter \<longleftrightarrow> wf_tags (istart iter) \<and> (ipos iter < length (istart iter) \<or> istart iter = []) \<and>
     iter = iter_at (istart iter) (dest_struct iter) (ipos iter)"

lemma field_entry_tag: "wf_tags flds \<Longrightarrow> ftag (field_entry flds i) = 0 \<longleftrightarrow> length flds \<le> i"
  by (auto simp: field_entry_def wf_tags_def PB_LAST_FIELD_def)

lemma pb_field_iter_begin_fields [simp]:
  "istart (snd (pb_field_iter_begin flds dest)) = flds"
  "ipos (snd (pb_field_iter_begin flds dest)) = 0"
  "dest_struct (snd (pb_field_iter_begin flds dest)) = dest"
  by (simp_all add: pb_field_iter_begin_def Let_def)

lemma pb_field_iter_next_fields [simp]:
  "istart (snd (pb_field_iter_next iter)) = istart iter"
  "dest_struct (snd (pb_field_iter_next iter)) = dest_struct iter"
  by (auto simp: pb_field_iter_next_def Let_def)

text \<open>The iterator says true only on stepping to a further entry: loops over it end.\<close>

lemma pb_field_iter_next_True:
  assumes "pb_field_iter_next iter = (True, iter')"
  shows "istart iter' = istart iter" "ipos iter' = Suc (ipos iter)" "ipos iter' < length (istart iter)"
  using assms by (auto simp: pb_field_iter_next_def Let_def iter_field_def field_entry_def
      PB_LAST_FIELD_def split: if_splits)

lemma pb_field_iter_next_measure:
  "(True, iter') = pb_field_iter_next iter \<Longrightarrow>
     length (istart iter') - ipos iter' < length (istart iter) - ipos iter"
  using pb_field_iter_next_True [of iter iter'] by auto

lemma pb_field_iter_next_pos:
  assumes "wf_tags (istart iter)" "ipos iter < length (istart iter)"
  shows "fst (pb_field_iter_next iter) \<longleftrightarrow> Suc (ipos iter) < length (istart iter)"
    and "ipos (snd (pb_field_iter_next iter)) =
      (if Suc (ipos iter) < length (istart iter) then Suc (ipos iter) else 0)"
    and "Suc (ipos iter) = length (istart iter) \<Longrightarrow>
      snd (pb_field_iter_next iter) = iter_at (istart iter) (dest_struct iter) 0"
  using assms by (auto simp: pb_field_iter_next_def Let_def iter_field_def field_entry_tag)

lemma iter_at_fields [simp]:
  "istart (iter_at flds dest k) = flds" "dest_struct (iter_at flds dest k) = dest"
  by (induction k) simp_all

lemma iter_at_pos: "wf_tags flds \<Longrightarrow> k < length flds \<Longrightarrow> ipos (iter_at flds dest k) = k"
proof (induction k)
  case (Suc k)
  then show ?case using pb_field_iter_next_pos(2) [of "iter_at flds dest k"] by simp
qed simp

lemma iter_ok_at: "wf_tags flds \<Longrightarrow> k < length flds \<Longrightarrow> iter_ok (iter_at flds dest k)"
  by (simp add: iter_ok_def iter_at_pos)

lemma iter_ok_begin: "wf_tags flds \<Longrightarrow> iter_ok (snd (pb_field_iter_begin flds dest))"
  by (auto simp: iter_ok_def)

lemma iter_ok_next:
  assumes ok: "iter_ok iter" and ne: "istart iter \<noteq> []"
  shows "snd (pb_field_iter_next iter) = iter_at (istart iter) (dest_struct iter)
    (if Suc (ipos iter) < length (istart iter) then Suc (ipos iter) else 0)"
proof -
  have wf: "wf_tags (istart iter)" "ipos iter < length (istart iter)"
    and eq: "iter_at (istart iter) (dest_struct iter) (ipos iter) = iter"
    using ok ne by (auto simp: iter_ok_def)
  show ?thesis
  proof (cases "Suc (ipos iter) < length (istart iter)")
    case True
    then show ?thesis by (simp add: eq)
  next
    case False
    with wf have "Suc (ipos iter) = length (istart iter)" by simp
    with pb_field_iter_next_pos(3) [OF wf] False show ?thesis by simp
  qed
qed

lemma iter_next_empty: "istart iter = [] \<Longrightarrow> pb_field_iter_next iter = (False, iter)"
  by (simp add: pb_field_iter_next_def iter_field_def field_entry_def PB_LAST_FIELD_def)

text \<open>
  The search meets the entries in ring order; \<open>r\<close> entries are ahead before it is
  back at \<open>start\<close>.  It stops at the first wanted entry, or at \<open>start\<close>.
\<close>

lemma iter_find_loop_ring:
  assumes "wf_tags flds" "i < length flds" "0 < r" "r \<le> length flds" "r \<le> n"
    and "start = (i + r) mod length flds"
  shows "(\<exists>k<r. iter_find_loop n wanted start (iter_at flds dest i) =
             (True, iter_at flds dest ((i + k) mod length flds)) \<and>
             wanted (flds ! ((i + k) mod length flds)) \<and>
             (\<forall>j<k. \<not> wanted (flds ! ((i + j) mod length flds)))) \<or>
         (iter_find_loop n wanted start (iter_at flds dest i) = (False, iter_at flds dest start) \<and>
             (\<forall>k<r. \<not> wanted (flds ! ((i + k) mod length flds))))"
  using assms
proof (induction n arbitrary: i r)
  case (Suc n)
  let ?len = "length flds" and ?it = "iter_at flds dest i"
  have fld: "iter_field ?it = flds ! i"
    using Suc.prems by (simp add: iter_field_def field_entry_def iter_at_pos)
  show ?case
  proof (cases "wanted (flds ! i)")
    case True
    then have "iter_find_loop (Suc n) wanted start ?it = (True, iter_at flds dest ((i + 0) mod ?len))"
      using Suc.prems fld by simp
    with True Suc.prems show ?thesis by (intro disjI1 exI [of _ 0]) simp
  next
    case False
    define i' where "i' = (i + 1) mod ?len"
    have nxt: "snd (pb_field_iter_next ?it) = iter_at flds dest i'"
    proof -
      have "Suc i mod ?len = (if Suc i < ?len then Suc i else 0)"
      proof (cases "Suc i < ?len")
        case False
        then have "Suc i = ?len" using Suc.prems(2) by linarith
        then show ?thesis by simp
      qed simp
      moreover have "istart ?it \<noteq> []" using Suc.prems(2) by auto
      ultimately show ?thesis
        using iter_ok_next [OF iter_ok_at, of flds i dest] Suc.prems(1,2)
        by (simp add: i'_def iter_at_pos del: iter_at.simps)
    qed
    have "flds \<noteq> []" using Suc.prems(2) by auto
    then have i': "i' < ?len" unfolding i'_def by simp
    then have pos': "ipos (iter_at flds dest i') = i'" using Suc.prems by (simp add: iter_at_pos)
    have shift: "(i' + k) mod ?len = (i + Suc k) mod ?len" for k
      unfolding i'_def by (simp add: mod_add_left_eq)
    have st: "start = (i' + (r - 1)) mod ?len" using Suc.prems shift [of "r - 1"] by simp
    show ?thesis
    proof (cases "r = 1")
      case True
      then have "i' = start" using st i' by simp
      then have "iter_find_loop (Suc n) wanted start ?it = (False, iter_at flds dest start)"
        using False fld nxt pos' by (simp add: Let_def del: iter_at.simps)
      with True False Suc.prems show ?thesis by (intro disjI2) simp
    next
      case r: False
      have ne: "i' \<noteq> start"
      proof
        assume "i' = start"
        then have "i' mod ?len = (i' + (r - 1)) mod ?len" using st i' by simp
        then have "?len dvd r - 1" by (metis mod_eq_dvd_iff_nat le_add1 add_diff_cancel_left')
        with r Suc.prems(3,4) show False by (auto dest: dvd_imp_le)
      qed
      then have step: "iter_find_loop (Suc n) wanted start ?it = iter_find_loop n wanted start (iter_at flds dest i')"
        using False fld nxt pos' by (simp add: Let_def del: iter_at.simps)
      have all: "(\<forall>j<Suc k. \<not> wanted (flds ! ((i + j) mod ?len))) \<longleftrightarrow>
          (\<forall>j<k. \<not> wanted (flds ! ((i' + j) mod ?len)))" for k
        using False Suc.prems(2) by (simp add: All_less_Suc2 shift)
      from Suc.IH [OF Suc.prems(1) i' _ _ _ st] r Suc.prems
      consider (found) k where "k < r - 1"
          "iter_find_loop n wanted start (iter_at flds dest i') = (True, iter_at flds dest ((i' + k) mod ?len))"
          "wanted (flds ! ((i' + k) mod ?len))" "\<forall>j<k. \<not> wanted (flds ! ((i' + j) mod ?len))"
        | (none) "iter_find_loop n wanted start (iter_at flds dest i') = (False, iter_at flds dest start)"
          "\<forall>k<r - 1. \<not> wanted (flds ! ((i' + k) mod ?len))"
        by fastforce
      then show ?thesis
      proof cases
        case found
        then have "Suc k < r" by simp
        with found step all [of k] show ?thesis
          by (intro disjI1 exI [of _ "Suc k"]) (simp add: shift)
      next
        case none
        with all [of "r - 1"] Suc.prems(3) step show ?thesis by (intro disjI2) simp
      qed
    qed
  qed
qed simp

lemma iter_find_loop_spec:
  assumes ok: "iter_ok iter" and ne: "istart iter \<noteq> []"
    and n: "length (istart iter) \<le> n"
  shows "(\<exists>j<length (istart iter). iter_find_loop n wanted (ipos iter) iter =
            (True, iter_at (istart iter) (dest_struct iter) j) \<and> wanted (istart iter ! j)) \<or>
         (iter_find_loop n wanted (ipos iter) iter = (False, iter) \<and>
            (\<forall>fld \<in> set (istart iter). \<not> wanted fld))"
proof -
  let ?len = "length (istart iter)"
  have wf: "wf_tags (istart iter)" "ipos iter < ?len"
    and eq: "iter_at (istart iter) (dest_struct iter) (ipos iter) = iter"
    using ok ne by (auto simp: iter_ok_def)
  note iter_find_loop_ring [OF wf, of ?len n "ipos iter" wanted "dest_struct iter"]
  with n wf(2) ne
  consider (found) k where "k < ?len" "iter_find_loop n wanted (ipos iter) iter =
      (True, iter_at (istart iter) (dest_struct iter) ((ipos iter + k) mod ?len))"
      "wanted (istart iter ! ((ipos iter + k) mod ?len))"
    | (none) "iter_find_loop n wanted (ipos iter) iter = (False, iter)"
      "\<forall>k<?len. \<not> wanted (istart iter ! ((ipos iter + k) mod ?len))"
    unfolding eq by fastforce
  then show ?thesis
  proof cases
    case found
    with ne show ?thesis by (intro disjI1 exI [of _ "(ipos iter + k) mod ?len"]) simp
  next
    case none
    have "\<not> wanted fld" if "fld \<in> set (istart iter)" for fld
    proof -
      from that obtain j where j: "j < ?len" "fld = istart iter ! j" by (auto simp: in_set_conv_nth)
      let ?k = "(j + ?len - ipos iter) mod ?len"
      have "(ipos iter + ?k) mod ?len = (ipos iter + (j + ?len - ipos iter)) mod ?len"
        by (simp add: mod_add_right_eq)
      also have "ipos iter + (j + ?len - ipos iter) = j + ?len" using wf(2) by simp
      finally have "(ipos iter + ?k) mod ?len = j" using j(1) by simp
      moreover have "?k < ?len" using ne by simp
      ultimately show ?thesis using none(2) j(2) by metis
    qed
    with none(1) show ?thesis by blast
  qed
qed

lemma iter_find_loop_empty:
  "istart iter = [] \<Longrightarrow> \<not> wanted PB_LAST_FIELD \<Longrightarrow> iter_find_loop (Suc n) wanted (ipos iter) iter = (False, iter)"
  by (simp add: iter_next_empty iter_field_def field_entry_def)

lemma pb_field_iter_find_cases:
  assumes "iter_ok iter" "istart iter \<noteq> []"
  shows "(\<exists>j<length (istart iter). pb_field_iter_find iter tag =
            (True, iter_at (istart iter) (dest_struct iter) j) \<and>
            ftag (istart iter ! j) = tag \<and> PB_LTYPE (ftype (istart iter ! j)) \<noteq> PB_LTYPE_EXTENSION) \<or>
         (pb_field_iter_find iter tag = (False, iter) \<and>
            (\<forall>fld \<in> set (istart iter). ftag fld = tag \<longrightarrow> PB_LTYPE (ftype fld) = PB_LTYPE_EXTENSION))"
  using iter_find_loop_spec [OF assms, of "Suc (length (istart iter))"
      "\<lambda>fld. ftag fld = tag \<and> PB_LTYPE (ftype fld) \<noteq> PB_LTYPE_EXTENSION"]
  by (auto simp: pb_field_iter_find_def)

lemma find_extension_field_cases:
  assumes "iter_ok iter" "istart iter \<noteq> []"
  shows "(\<exists>j<length (istart iter). find_extension_field iter =
            (True, iter_at (istart iter) (dest_struct iter) j) \<and>
            PB_LTYPE (ftype (istart iter ! j)) = PB_LTYPE_EXTENSION) \<or>
         (find_extension_field iter = (False, iter) \<and>
            (\<forall>fld \<in> set (istart iter). PB_LTYPE (ftype fld) \<noteq> PB_LTYPE_EXTENSION))"
  using iter_find_loop_spec [OF assms, of "Suc (length (istart iter))"
      "\<lambda>fld. PB_LTYPE (ftype fld) = PB_LTYPE_EXTENSION"]
  by (auto simp: find_extension_field_def)

text \<open>
  The tags of a message's fields are distinct.  Then a search gives the iterator of
  the field with the tag, wherever it started.
\<close>

definition distinct_tags :: "pb_field_t list \<Rightarrow> bool" where
  "distinct_tags flds \<longleftrightarrow> distinct (map ftag flds)"

lemma pb_field_iter_find_unique:
  assumes "iter_ok iter" "distinct_tags (istart iter)" "j < length (istart iter)"
    "PB_LTYPE (ftype (istart iter ! j)) \<noteq> PB_LTYPE_EXTENSION"
  shows "pb_field_iter_find iter (ftag (istart iter ! j)) =
    (True, iter_at (istart iter) (dest_struct iter) j)"
proof -
  have ne: "istart iter \<noteq> []" using assms(3) by auto
  have uniq: "k = j" if "k < length (istart iter)" "ftag (istart iter ! k) = ftag (istart iter ! j)" for k
    using assms(2,3) that nth_eq_iff_index_eq [of "map ftag (istart iter)" k j]
    by (simp add: distinct_tags_def)
  from pb_field_iter_find_cases [OF assms(1) ne, of "ftag (istart iter ! j)"] show ?thesis
    using uniq assms(3,4) nth_mem [OF assms(3)] by blast
qed

text \<open>The tag 0 is in no array, but an empty array's iterator stands on the terminator.\<close>

lemma pb_field_iter_find_zero:
  assumes "iter_ok iter"
  shows "fst (pb_field_iter_find iter 0) \<longleftrightarrow> istart iter = []"
proof (cases "istart iter = []")
  case True
  then show ?thesis
    by (simp add: pb_field_iter_find_def iter_field_def field_entry_def PB_LAST_FIELD_def
        PB_LTYPE_def PB_LTYPE_EXTENSION_def)
next
  case False
  with pb_field_iter_find_cases [OF assms False, of 0] assms show ?thesis
    by (auto simp: iter_ok_def wf_tags_def)
qed

end
