(* ===== verification/Pb_Memory.thy ===== *)
theory Pb_Memory
  imports Pb_Istream Pb_Common
begin

text \<open>
  What the decoder of \<open>nanopb/pb_decode.c\<close> does to the memory of a message: setting
  defaults, allocating the storage of pointer fields, and releasing it.  The functions
  follow pointers and take fuel; \<open>None\<close> is running out of it.
\<close>

section \<open>The C library's allocator\<close>

text \<open>
  \<open>realloc\<close> gives a block of the new size that starts with the old contents, or a
  null pointer and leaves the old block; it may give the old address again.
\<close>

definition pb_realloc :: "ptr \<Rightarrow> size_t \<Rightarrow> cstate \<Rightarrow> ptr \<times> cstate" where
  "pb_realloc old sz c =
     (let p = halloc c (hblocks c) sz;
          old_sz = (case hblocks c old of None \<Rightarrow> 0 | Some n \<Rightarrow> unat n);
          kept = read_bytes (hmem c) old (min old_sz (unat sz))
      in if p = NULL then (NULL, c)
         else (p, c\<lparr>hmem := write_bytes (hmem c) p kept,
                    hblocks := (hblocks c)(old := None, p \<mapsto> sz)\<rparr>))"

definition pb_free :: "ptr \<Rightarrow> cstate \<Rightarrow> cstate" where
  "pb_free p c = (if p = NULL then c else c\<lparr>hblocks := (hblocks c)(p := None)\<rparr>)"

definition memset0 :: "ptr \<Rightarrow> nat \<Rightarrow> cstate \<Rightarrow> cstate" where
  "memset0 p n c = c\<lparr>hmem := write_bytes (hmem c) p (replicate n 0)\<rparr>"

definition set32 :: "ptr \<Rightarrow> u32 \<Rightarrow> cstate \<Rightarrow> cstate" where
  "set32 p v c = c\<lparr>hmem := store32 (hmem c) p v\<rparr>"

definition set64 :: "ptr \<Rightarrow> u64 \<Rightarrow> cstate \<Rightarrow> cstate" where
  "set64 p v c = c\<lparr>hmem := store64 (hmem c) p v\<rparr>"

definition set_bool :: "ptr \<Rightarrow> bool \<Rightarrow> cstate \<Rightarrow> cstate" where
  "set_bool p v c = c\<lparr>hmem := (hmem c)(p := of_bool v)\<rparr>"

section \<open>Extensions as fields\<close>

definition iter_from_extension :: "pb_env \<Rightarrow> mem \<Rightarrow> ptr \<Rightarrow> pb_field_iter_t" where
  "iter_from_extension env m extension =
     (let flds = fields_at env (extt_arg m (ext_type m extension));
          dest = load64 m (ext_dest extension);
          iter = snd (pb_field_iter_begin flds dest)
      in if PB_ATYPE (ftype (field_entry flds 0)) = PB_ATYPE_POINTER
         then iter\<lparr>pData := ext_dest extension, pSize := ext_found extension\<rparr>
         else iter\<lparr>pData := dest, pSize := ext_found extension\<rparr>)"

section \<open>Default values\<close>

text \<open>The loop over the list of extensions; \<open>rec\<close> sets a field to its default.\<close>

primrec default_extensions ::
  "pb_env \<Rightarrow> (pb_field_iter_t \<Rightarrow> cstate \<Rightarrow> cstate option) \<Rightarrow> nat \<Rightarrow> ptr \<Rightarrow> cstate \<Rightarrow> cstate option" where
  "default_extensions env rec 0 ext c = None"
| "default_extensions env rec (Suc k) ext c =
     (if ext = NULL then Some c
      else
        let c1 = set_bool (ext_found ext) False c in
        (case rec (iter_from_extension env (hmem c1) ext) c1 of
           None \<Rightarrow> None
         | Some c2 \<Rightarrow> default_extensions env rec k (ext_next (hmem c2) ext) c2))"

function message_defaults_loop ::
  "(pb_field_iter_t \<Rightarrow> cstate \<Rightarrow> cstate option) \<Rightarrow> pb_field_iter_t \<Rightarrow> cstate \<Rightarrow> cstate option" where
  "message_defaults_loop rec iter c =
     (case rec iter c of
        None \<Rightarrow> None
      | Some c' \<Rightarrow>
          (case pb_field_iter_next iter of
             (again, iter') \<Rightarrow> if again then message_defaults_loop rec iter' c' else Some c'))"
  by pat_completeness auto
termination message_defaults_loop
  by (relation "measure (\<lambda>(_, iter, _). length (istart iter) - ipos iter)")
     (auto dest!: pb_field_iter_next_measure)

declare message_defaults_loop.simps [simp del]

definition message_defaults ::
  "(pb_field_iter_t \<Rightarrow> cstate \<Rightarrow> cstate option) \<Rightarrow> pb_field_t list \<Rightarrow> ptr \<Rightarrow> cstate \<Rightarrow> cstate option" where
  "message_defaults rec flds dest c =
     (case pb_field_iter_begin flds dest of
        (nonempty, iter) \<Rightarrow> if nonempty then message_defaults_loop rec iter c else Some c)"

definition field_default_body ::
  "pb_env \<Rightarrow> nat \<Rightarrow> (pb_field_iter_t \<Rightarrow> cstate \<Rightarrow> cstate option) \<Rightarrow> pb_field_iter_t \<Rightarrow> cstate \<Rightarrow> cstate option" where
  "field_default_body env n rec iter c =
     (let fld = iter_field iter; type = ftype fld in
      if PB_LTYPE type = PB_LTYPE_EXTENSION
      then default_extensions env rec n (load64 (hmem c) (pData iter)) c
      else if PB_ATYPE type = PB_ATYPE_STATIC
      then
        let optional = (PB_HTYPE type = PB_HTYPE_OPTIONAL \<and> pSize iter \<noteq> pData iter);
            counted = (PB_HTYPE type = PB_HTYPE_REPEATED \<or> PB_HTYPE type = PB_HTYPE_ONEOF);
            c1 = (if optional then set_bool (pSize iter) False c
                  else if counted then set32 (pSize iter) 0 c else c)
        in if \<not> optional \<and> counted then Some c1
           else if PB_LTYPE type = PB_LTYPE_SUBMESSAGE
           then message_defaults rec (fields_at env (fptr fld)) (pData iter) c1
           else if fptr fld \<noteq> NULL
           then Some (c1\<lparr>hmem := write_bytes (hmem c1) (pData iter)
                           (read_bytes (hmem c1) (fptr fld) (unat (data_size fld)))\<rparr>)
           else Some (memset0 (pData iter) (unat (data_size fld)) c1)
      else if PB_ATYPE type = PB_ATYPE_POINTER
      then
        let c1 = set64 (pData iter) NULL c
        in Some (if PB_HTYPE type = PB_HTYPE_REPEATED \<or> PB_HTYPE type = PB_HTYPE_ONEOF
                 then set32 (pSize iter) 0 c1 else c1)
      else Some c)"

primrec pb_field_set_to_default :: "pb_env \<Rightarrow> nat \<Rightarrow> pb_field_iter_t \<Rightarrow> cstate \<Rightarrow> cstate option" where
  "pb_field_set_to_default env 0 iter c = None"
| "pb_field_set_to_default env (Suc n) iter c =
     field_default_body env n (pb_field_set_to_default env n) iter c"

definition pb_message_set_to_defaults ::
  "pb_env \<Rightarrow> nat \<Rightarrow> pb_field_t list \<Rightarrow> ptr \<Rightarrow> cstate \<Rightarrow> cstate option" where
  "pb_message_set_to_defaults env n = message_defaults (pb_field_set_to_default env n)"

section \<open>Allocation\<close>

definition allocate_field :: "ptr \<Rightarrow> size_t \<Rightarrow> size_t \<Rightarrow> unit ifun" where
  "allocate_field data data_sz array_sz = (\<lambda>(c, s).
     let ptr0 = load64 (hmem c) data;
         check_limit = push_bit 32 1 :: size_t;
         size_max = - 1 :: size_t
     in if data_sz = 0 \<or> array_sz = 0 then PB_RETURN_ERROR_i ''invalid size'' (c, s)
        else if (data_sz \<ge> check_limit \<or> array_sz \<ge> check_limit) \<and>
                size_max div array_sz < data_sz
        then PB_RETURN_ERROR_i ''size too large'' (c, s)
        else
          (case pb_realloc ptr0 (array_sz * data_sz) c of
             (p, c') \<Rightarrow>
               if p = NULL then PB_RETURN_ERROR_i ''realloc failed'' (c', s)
               else (Some (), set64 data p c', s)))"

definition initialize_pointer_field ::
  "pb_env \<Rightarrow> nat \<Rightarrow> ptr \<Rightarrow> pb_field_iter_t \<Rightarrow> cstate \<Rightarrow> cstate option" where
  "initialize_pointer_field env n item iter c =
     (let fld = iter_field iter; lt = PB_LTYPE (ftype fld) in
      if lt = PB_LTYPE_STRING \<or> lt = PB_LTYPE_BYTES then Some (set64 item NULL c)
      else if lt = PB_LTYPE_SUBMESSAGE
      then pb_message_set_to_defaults env n (fields_at env (fptr fld)) item
             (memset0 item (unat (data_size fld)) c)
      else Some c)"

section \<open>Release\<close>

text \<open>Releasing the entries of a repeated string or bytes field: \<open>free\<close>, then null.\<close>

primrec release_entries :: "nat \<Rightarrow> ptr \<Rightarrow> cstate \<Rightarrow> cstate" where
  "release_entries 0 item c = c"
| "release_entries (Suc k) item c =
     release_entries k (item + 8) (set64 item NULL (pb_free (load64 (hmem c) item) c))"

text \<open>Releasing \<open>count\<close> submessages, \<open>sz\<close> bytes apart.\<close>

primrec release_items :: "(ptr \<Rightarrow> cstate \<Rightarrow> cstate option) \<Rightarrow> nat \<Rightarrow> ptr \<Rightarrow> size_t \<Rightarrow> cstate \<Rightarrow> cstate option" where
  "release_items rel 0 item sz c = Some c"
| "release_items rel (Suc k) item sz c =
     (case rel item c of None \<Rightarrow> None | Some c' \<Rightarrow> release_items rel k (item + sz) sz c')"

primrec release_extensions ::
  "pb_env \<Rightarrow> (pb_field_iter_t \<Rightarrow> cstate \<Rightarrow> cstate option) \<Rightarrow> nat \<Rightarrow> ptr \<Rightarrow> cstate \<Rightarrow> cstate option" where
  "release_extensions env rec 0 ext c = None"
| "release_extensions env rec (Suc k) ext c =
     (if ext = NULL then Some c
      else
        (case rec (iter_from_extension env (hmem c) ext) c of
           None \<Rightarrow> None
         | Some c' \<Rightarrow> release_extensions env rec k (ext_next (hmem c') ext) c'))"

text \<open>\<open>pb_release\<close>, over the release of one field.\<close>

definition message_release ::
  "(pb_field_iter_t \<Rightarrow> cstate \<Rightarrow> cstate option) \<Rightarrow> pb_field_t list \<Rightarrow> ptr \<Rightarrow> cstate \<Rightarrow> cstate option" where
  "message_release rec flds dest c =
     (if dest = NULL then Some c else message_defaults rec flds dest c)"

text \<open>How many submessages \<open>pb_release_single_field\<close> releases.\<close>

definition release_count :: "pb_field_iter_t \<Rightarrow> mem \<Rightarrow> pb_size_t" where
  "release_count iter m =
     (let fld = iter_field iter; type = ftype fld in
      if PB_HTYPE type = PB_HTYPE_REPEATED
      then
        let count = (if PB_ATYPE type = PB_ATYPE_STATIC \<and> pSize iter = pData iter
                     then array_size fld else load32 m (pSize iter))
        in if PB_ATYPE type = PB_ATYPE_STATIC \<and> count > array_size fld
           then array_size fld else count
      else 1)"

definition release_nested ::
  "pb_env \<Rightarrow> nat \<Rightarrow> (pb_field_iter_t \<Rightarrow> cstate \<Rightarrow> cstate option) \<Rightarrow> pb_field_iter_t \<Rightarrow> cstate \<Rightarrow> cstate option" where
  "release_nested env n rec iter c =
     (let fld = iter_field iter; type = ftype fld in
      if PB_LTYPE type = PB_LTYPE_EXTENSION
      then release_extensions env rec n (load64 (hmem c) (pData iter)) c
      else if PB_LTYPE type = PB_LTYPE_SUBMESSAGE
      then
        let item = (if PB_ATYPE type = PB_ATYPE_POINTER then load64 (hmem c) (pData iter)
                    else pData iter);
            count = release_count iter (hmem c)
        in if item \<noteq> NULL
           then release_items (message_release rec (fields_at env (fptr fld)))
                  (unat count) item (ucast (data_size fld)) c
           else Some c
      else Some c)"

definition release_main :: "pb_field_iter_t \<Rightarrow> cstate \<Rightarrow> cstate" where
  "release_main iter c =
     (let fld = iter_field iter; type = ftype fld in
      if PB_ATYPE type = PB_ATYPE_POINTER
      then
        let c1 = (if PB_HTYPE type = PB_HTYPE_REPEATED \<and>
                     (PB_LTYPE type = PB_LTYPE_STRING \<or> PB_LTYPE type = PB_LTYPE_BYTES)
                  then release_entries (unat (load32 (hmem c) (pSize iter)))
                         (load64 (hmem c) (pData iter)) c
                  else c);
            c2 = (if PB_HTYPE type = PB_HTYPE_REPEATED then set32 (pSize iter) 0 c1 else c1)
        in set64 (pData iter) NULL (pb_free (load64 (hmem c2) (pData iter)) c2)
      else c)"

definition release_field_body ::
  "pb_env \<Rightarrow> nat \<Rightarrow> (pb_field_iter_t \<Rightarrow> cstate \<Rightarrow> cstate option) \<Rightarrow> pb_field_iter_t \<Rightarrow> cstate \<Rightarrow> cstate option" where
  "release_field_body env n rec iter c =
     (if PB_HTYPE (ftype (iter_field iter)) = PB_HTYPE_ONEOF \<and>
         load32 (hmem c) (pSize iter) \<noteq> ftag (iter_field iter)
      then Some c
      else
        (case release_nested env n rec iter c of
           None \<Rightarrow> None
         | Some c' \<Rightarrow> Some (release_main iter c')))"

primrec pb_release_single_field :: "pb_env \<Rightarrow> nat \<Rightarrow> pb_field_iter_t \<Rightarrow> cstate \<Rightarrow> cstate option" where
  "pb_release_single_field env 0 iter c = None"
| "pb_release_single_field env (Suc n) iter c =
     release_field_body env n (pb_release_single_field env n) iter c"

definition pb_release :: "pb_env \<Rightarrow> nat \<Rightarrow> pb_field_t list \<Rightarrow> ptr \<Rightarrow> cstate \<Rightarrow> cstate option" where
  "pb_release env n = message_release (pb_release_single_field env n)"

text \<open>
  \<open>pb_release_union_field\<close>: what was in the oneof is released when another member
  arrives.  The iterator leaves and comes back.
\<close>

definition pb_release_union_field ::
  "pb_env \<Rightarrow> nat \<Rightarrow> pb_field_iter_t \<Rightarrow> (cstate \<times> pb_istream_t, pb_field_iter_t) pfun" where
  "pb_release_union_field env n iter = (\<lambda>(c, s).
     let old_tag = load32 (hmem c) (pSize iter);
         new_tag = ftag (iter_field iter)
     in if old_tag = 0 then Some (Some iter, c, s)
        else if old_tag = new_tag then Some (Some iter, c, s)
        else
          (case pb_field_iter_find iter old_tag of
             (False, _) \<Rightarrow> Some (PB_RETURN_ERROR_i ''invalid union tag'' (c, s))
           | (True, iter1) \<Rightarrow>
               (case pb_release_single_field env n iter1 c of
                  None \<Rightarrow> None
                | Some c' \<Rightarrow>
                    (case pb_field_iter_find iter1 new_tag of
                       (False, _) \<Rightarrow> Some (PB_RETURN_ERROR_i ''iterator error'' (c', s))
                     | (True, iter2) \<Rightarrow> Some (Some iter2, c', s)))))"

end
