(* ===== verification/Pb_Decode.thy ===== *)
theory Pb_Decode
  imports Pb_Memory
begin

text \<open>
  The field decoders and the message decoder of \<open>nanopb/pb_decode.c\<close>.  A message is
  decoded into a structure in memory, described by an array of descriptors.  Every
  function that can lead back to \<open>pb_decode\<close> takes as \<open>rec\<close> the decoder for
  submessages, whose first argument says whether it sets the defaults first (as
  \<open>pb_decode\<close> does and \<open>pb_decode_noinit\<close> does not); the knot is tied with fuel.
\<close>

type_synonym 'a iproc = "(cstate \<times> pb_istream_t, 'a) pfun"
type_synonym pb_decode_rec = "bool \<Rightarrow> pb_field_t list \<Rightarrow> ptr \<Rightarrow> unit iproc"

section \<open>Field decoders\<close>

text \<open>
  \<open>pb_read\<close> into memory.  A read callback that fails is taken to have stored nothing.
\<close>

definition pb_read_mem :: "ptr \<Rightarrow> size_t \<Rightarrow> unit ifun" where
  "pb_read_mem buf count =
     bindC (pb_read_buf count) (\<lambda>bs (c, s). (Some (), c\<lparr>hmem := write_bytes (hmem c) buf bs\<rparr>, s))"

definition set16 :: "ptr \<Rightarrow> u16 \<Rightarrow> cstate \<Rightarrow> cstate" where
  "set16 p v c = c\<lparr>hmem := store16 (hmem c) p v\<rparr>"

definition set8 :: "ptr \<Rightarrow> u8 \<Rightarrow> cstate \<Rightarrow> cstate" where
  "set8 p v c = c\<lparr>hmem := (hmem c)(p := v)\<rparr>"

text \<open>
  The cast to the width of the field with the check that it kept the value:
  \<open>scast\<close> and \<open>ucast\<close> back are the conversions of \<open>clamped\<close>.
\<close>

definition store_signed :: "pb_field_t \<Rightarrow> ptr \<Rightarrow> 64 word \<Rightarrow> unit ifun" where
  "store_signed fld dest svalue = (\<lambda>(c, s).
     if data_size fld = 8 then (Some (), set64 dest svalue c, s)
     else if data_size fld = 4
     then (if scast (ucast svalue :: 32 word) \<noteq> svalue
           then PB_RETURN_ERROR_i ''integer too large'' (set32 dest (ucast svalue) c, s)
           else (Some (), set32 dest (ucast svalue) c, s))
     else if data_size fld = 2
     then (if scast (ucast svalue :: 16 word) \<noteq> svalue
           then PB_RETURN_ERROR_i ''integer too large'' (set16 dest (ucast svalue) c, s)
           else (Some (), set16 dest (ucast svalue) c, s))
     else if data_size fld = 1
     then (if scast (ucast svalue :: 8 word) \<noteq> svalue
           then PB_RETURN_ERROR_i ''integer too large'' (set8 dest (ucast svalue) c, s)
           else (Some (), set8 dest (ucast svalue) c, s))
     else PB_RETURN_ERROR_i ''invalid data_size'' (c, s))"

definition store_unsigned :: "pb_field_t \<Rightarrow> ptr \<Rightarrow> u64 \<Rightarrow> unit ifun" where
  "store_unsigned fld dest value = (\<lambda>(c, s).
     if data_size fld = 8 then (Some (), set64 dest value c, s)
     else if data_size fld = 4
     then (if ucast (ucast value :: u32) \<noteq> value
           then PB_RETURN_ERROR_i ''integer too large'' (set32 dest (ucast value) c, s)
           else (Some (), set32 dest (ucast value) c, s))
     else if data_size fld = 2
     then (if ucast (ucast value :: u16) \<noteq> value
           then PB_RETURN_ERROR_i ''integer too large'' (set16 dest (ucast value) c, s)
           else (Some (), set16 dest (ucast value) c, s))
     else if data_size fld = 1
     then (if ucast (ucast value :: u8) \<noteq> value
           then PB_RETURN_ERROR_i ''integer too large'' (set8 dest (ucast value) c, s)
           else (Some (), set8 dest (ucast value) c, s))
     else PB_RETURN_ERROR_i ''invalid data_size'' (c, s))"

definition pb_dec_varint :: "pb_field_t \<Rightarrow> ptr \<Rightarrow> unit ifun" where
  "pb_dec_varint fld dest =
     bindC pb_decode_varint (\<lambda>value.
       let svalue = (if data_size fld = 8 then value else scast (ucast value :: 32 word))
       in store_signed fld dest svalue)"

definition pb_dec_uvarint :: "pb_field_t \<Rightarrow> ptr \<Rightarrow> unit ifun" where
  "pb_dec_uvarint fld dest = bindC pb_decode_varint (\<lambda>value. store_unsigned fld dest value)"

definition pb_dec_svarint :: "pb_field_t \<Rightarrow> ptr \<Rightarrow> unit ifun" where
  "pb_dec_svarint fld dest = bindC pb_decode_svarint (\<lambda>value. store_signed fld dest value)"

definition pb_dec_fixed32 :: "pb_field_t \<Rightarrow> ptr \<Rightarrow> unit ifun" where
  "pb_dec_fixed32 fld dest =
     bindC pb_decode_fixed32 (\<lambda>value (c, s). (Some (), set32 dest value c, s))"

definition pb_dec_fixed64 :: "pb_field_t \<Rightarrow> ptr \<Rightarrow> unit ifun" where
  "pb_dec_fixed64 fld dest =
     bindC pb_decode_fixed64 (\<lambda>value (c, s). (Some (), set64 dest value c, s))"

text \<open>
  The bytes array is at \<open>dest\<close>, or at the pointer stored there after the allocation.
  \<open>size > PB_SIZE_MAX\<close> cannot hold with a \<open>pb_size_t\<close> of 32 bits.
\<close>

definition pb_dec_bytes :: "pb_field_t \<Rightarrow> ptr \<Rightarrow> unit ifun" where
  "pb_dec_bytes fld dest =
     bindC pb_decode_varint32 (\<lambda>sz.
       let alloc_size = PB_BYTES_ARRAY_T_ALLOCSIZE (ucast sz);
           fill = (\<lambda>bdest. bindC (\<lambda>(c, s). (Some (), set32 bdest sz c, s))
                             (\<lambda>_. pb_read_mem (bdest + 4) (ucast sz)))
       in if sz > PB_SIZE_MAX then PB_RETURN_ERROR_i ''bytes overflow''
          else if ucast sz > alloc_size then PB_RETURN_ERROR_i ''size too large''
          else if PB_ATYPE (ftype fld) = PB_ATYPE_POINTER
          then bindC (allocate_field dest alloc_size 1) (\<lambda>_ (c, s). fill (load64 (hmem c) dest) (c, s))
          else if alloc_size > ucast (data_size fld) then PB_RETURN_ERROR_i ''bytes overflow''
          else fill dest)"

text \<open>\<open>size + 1\<close> is computed in 32 bits; the terminating zero is written on failure too.\<close>

definition read_string :: "ptr \<Rightarrow> u32 \<Rightarrow> unit ifun" where
  "read_string dest sz st =
     (case pb_read_mem dest (ucast sz) st of
        (status, c, s) \<Rightarrow> (status, set8 (dest + ucast sz) 0 c, s))"

definition pb_dec_string :: "pb_field_t \<Rightarrow> ptr \<Rightarrow> unit ifun" where
  "pb_dec_string fld dest =
     bindC pb_decode_varint32 (\<lambda>sz.
       let alloc_size = ucast (sz + 1) :: size_t
       in if alloc_size < ucast sz then PB_RETURN_ERROR_i ''size too large''
          else if PB_ATYPE (ftype fld) = PB_ATYPE_POINTER
          then bindC (allocate_field dest alloc_size 1)
                 (\<lambda>_ (c, s). read_string (load64 (hmem c) dest) sz (c, s))
          else if alloc_size > ucast (data_size fld) then PB_RETURN_ERROR_i ''string overflow''
          else read_string dest sz)"

definition pb_dec_fixed_length_bytes :: "pb_field_t \<Rightarrow> ptr \<Rightarrow> unit ifun" where
  "pb_dec_fixed_length_bytes fld dest =
     bindC pb_decode_varint32 (\<lambda>sz.
       if sz > PB_SIZE_MAX then PB_RETURN_ERROR_i ''bytes overflow''
       else if sz = 0
       then (\<lambda>(c, s). (Some (), memset0 dest (unat (data_size fld)) c, s))
       else if sz \<noteq> data_size fld then PB_RETURN_ERROR_i ''incorrect fixed length bytes size''
       else pb_read_mem dest (ucast (data_size fld)))"

text \<open>Close the substream \<open>sub\<close> of \<open>s\<close>, then return the status of what was read from it.\<close>

definition close_with :: "bool \<Rightarrow> pb_istream_t \<Rightarrow> unit ifun" where
  "close_with status sub st =
     (case pb_close_string_substream sub st of
        (ok, st', _) \<Rightarrow> (if ok \<and> status then Some () else None, st'))"

definition pb_dec_submessage :: "pb_env \<Rightarrow> pb_decode_rec \<Rightarrow> pb_field_t \<Rightarrow> ptr \<Rightarrow> unit iproc" where
  "pb_dec_submessage env rec fld dest =
     bindP (liftP pb_make_string_substream) (\<lambda>sub (c, s).
       if fptr fld = NULL then Some (PB_RETURN_ERROR_i ''invalid field descriptor'' (c, s))
       else
         (case rec (PB_HTYPE (ftype fld) = PB_HTYPE_REPEATED) (fields_at env (fptr fld)) dest (c, sub) of
            None \<Rightarrow> None
          | Some (status, c', sub') \<Rightarrow> Some (close_with (status \<noteq> None) sub' (c', s))))"

text \<open>The table \<open>PB_DECODERS\<close>; the entry of extensions is null.\<close>

definition PB_DECODERS :: "pb_env \<Rightarrow> pb_decode_rec \<Rightarrow> pb_type_t \<Rightarrow> pb_field_t \<Rightarrow> ptr \<Rightarrow> unit iproc" where
  "PB_DECODERS env rec ltype fld dest =
     (if ltype = PB_LTYPE_VARINT then liftP (pb_dec_varint fld dest)
      else if ltype = PB_LTYPE_UVARINT then liftP (pb_dec_uvarint fld dest)
      else if ltype = PB_LTYPE_SVARINT then liftP (pb_dec_svarint fld dest)
      else if ltype = PB_LTYPE_FIXED32 then liftP (pb_dec_fixed32 fld dest)
      else if ltype = PB_LTYPE_FIXED64 then liftP (pb_dec_fixed64 fld dest)
      else if ltype = PB_LTYPE_BYTES then liftP (pb_dec_bytes fld dest)
      else if ltype = PB_LTYPE_STRING then liftP (pb_dec_string fld dest)
      else if ltype = PB_LTYPE_SUBMESSAGE then pb_dec_submessage env rec fld dest
      else if ltype = PB_LTYPE_FIXED_LENGTH_BYTES then liftP (pb_dec_fixed_length_bytes fld dest)
      else stuckP)"

section \<open>Static fields\<close>

definition array_item :: "ptr \<Rightarrow> pb_field_t \<Rightarrow> pb_size_t \<Rightarrow> ptr" where
  "array_item base fld i = base + ucast (data_size fld * i)"

text \<open>
  The loop of a packed array; the result is \<open>status\<close>.  Each entry consumes a byte at
  least, so the number of bytes left, and one more, is fuel enough.
\<close>

primrec static_packed_loop ::
  "nat \<Rightarrow> pb_field_iter_t \<Rightarrow> (pb_field_t \<Rightarrow> ptr \<Rightarrow> unit iproc) \<Rightarrow> cstate \<times> pb_istream_t \<Rightarrow>
   (bool \<times> cstate \<times> pb_istream_t) option" where
  "static_packed_loop 0 iter func st = None"
| "static_packed_loop (Suc k) iter func st =
     (let fld = iter_field iter; count = load32 (hmem (fst st)) (pSize iter) in
      if bytes_left (snd st) > 0 \<and> count < array_size fld
      then
        (case func fld (array_item (pData iter) fld count) st of
           None \<Rightarrow> None
         | Some (None, st') \<Rightarrow> Some (False, st')
         | Some (Some _, c', sub') \<Rightarrow>
             static_packed_loop k iter func
               (set32 (pSize iter) (load32 (hmem c') (pSize iter) + 1) c', sub'))
      else Some (True, st))"

definition decode_static_packed ::
  "pb_field_iter_t \<Rightarrow> (pb_field_t \<Rightarrow> ptr \<Rightarrow> unit iproc) \<Rightarrow> unit iproc" where
  "decode_static_packed iter func =
     bindP (liftP pb_make_string_substream) (\<lambda>sub (c, s).
       case static_packed_loop (Suc (unat (bytes_left sub))) iter func (c, sub) of
         None \<Rightarrow> None
       | Some (status, c', sub') \<Rightarrow>
           Some (if bytes_left sub' \<noteq> 0 then PB_RETURN_ERROR_i ''array overflow'' (c', s)
                 else close_with status sub' (c', s)))"

definition decode_static_item ::
  "pb_field_iter_t \<Rightarrow> (pb_field_t \<Rightarrow> ptr \<Rightarrow> unit iproc) \<Rightarrow> unit iproc" where
  "decode_static_item iter func = (\<lambda>(c, s).
     let fld = iter_field iter;
         count = load32 (hmem c) (pSize iter);
         c' = set32 (pSize iter) (count + 1) c
     in if count \<ge> array_size fld then Some (PB_RETURN_ERROR_i ''array overflow'' (c', s))
        else func fld (array_item (pData iter) fld count) (c', s))"

definition decode_static_field ::
  "pb_env \<Rightarrow> nat \<Rightarrow> pb_decode_rec \<Rightarrow> pb_wire_type_t \<Rightarrow> pb_field_iter_t \<Rightarrow> unit iproc" where
  "decode_static_field env n rec wire_type iter = (\<lambda>(c, s).
     let fld = iter_field iter; type = ftype fld; func = PB_DECODERS env rec (PB_LTYPE type) in
     if PB_HTYPE type = PB_HTYPE_REQUIRED then func fld (pData iter) (c, s)
     else if PB_HTYPE type = PB_HTYPE_OPTIONAL
     then func fld (pData iter)
            (if pSize iter \<noteq> pData iter then set_bool (pSize iter) True c else c, s)
     else if PB_HTYPE type = PB_HTYPE_REPEATED
     then (if wire_type = PB_WT_STRING \<and> PB_LTYPE type \<le> PB_LTYPE_LAST_PACKABLE
           then decode_static_packed iter func (c, s)
           else decode_static_item iter func (c, s))
     else if PB_HTYPE type = PB_HTYPE_ONEOF
     then
       let c1 = set32 (pSize iter) (ftag fld) c in
       if PB_LTYPE type = PB_LTYPE_SUBMESSAGE
       then
         (case pb_message_set_to_defaults env n (fields_at env (fptr fld)) (pData iter)
                 (memset0 (pData iter) (unat (data_size fld)) c1) of
            None \<Rightarrow> None
          | Some c2 \<Rightarrow> func fld (pData iter) (c2, s))
       else func fld (pData iter) (c1, s)
     else Some (PB_RETURN_ERROR_i ''invalid field type'' (c, s)))"

section \<open>Pointer fields\<close>

text \<open>
  The loop of a packed array: the result is \<open>status\<close> and the message, if any, that is
  put into the parent stream.  Dividing by a \<open>data_size\<close> of 0 is undefined, \<open>None\<close>.
\<close>

primrec pointer_packed_loop ::
  "nat \<Rightarrow> pb_env \<Rightarrow> nat \<Rightarrow> pb_field_iter_t \<Rightarrow> (pb_field_t \<Rightarrow> ptr \<Rightarrow> unit iproc) \<Rightarrow> size_t \<Rightarrow>
   cstate \<times> pb_istream_t \<Rightarrow> ((bool \<times> string option) \<times> cstate \<times> pb_istream_t) option" where
  "pointer_packed_loop 0 env n iter func allocated_size st = None"
| "pointer_packed_loop (Suc k) env n iter func allocated_size st =
     (let fld = iter_field iter;
          count = load32 (hmem (fst st)) (pSize iter);
          grow = (ucast count + 1 > allocated_size);
          allocated_size' =
            (if grow then allocated_size + ((bytes_left (snd st) - 1) div ucast (data_size fld) + 1)
             else allocated_size)
      in if bytes_left (snd st) = 0 then Some ((True, None), st)
         else if grow \<and> data_size fld = 0 then None
         else
           (case (if grow then allocate_field (pData iter) (ucast (data_size fld)) allocated_size' st
                  else (Some (), st)) of
              (None, st1) \<Rightarrow> Some ((False, None), st1)
            | (Some _, c1, sub1) \<Rightarrow>
                let item = array_item (load64 (hmem c1) (pData iter)) fld
                             (load32 (hmem c1) (pSize iter))
                in case initialize_pointer_field env n item iter c1 of
                     None \<Rightarrow> None
                   | Some c2 \<Rightarrow>
                       (case func fld item (c2, sub1) of
                          None \<Rightarrow> None
                        | Some (None, st3) \<Rightarrow> Some ((False, None), st3)
                        | Some (Some _, c3, sub3) \<Rightarrow>
                            let count' = load32 (hmem c3) (pSize iter) in
                            if count' = PB_SIZE_MAX
                            then Some ((False, Some ''too many array entries''), c3, sub3)
                            else pointer_packed_loop k env n iter func allocated_size'
                                   (set32 (pSize iter) (count' + 1) c3, sub3))))"

definition decode_pointer_packed ::
  "pb_env \<Rightarrow> nat \<Rightarrow> pb_field_iter_t \<Rightarrow> (pb_field_t \<Rightarrow> ptr \<Rightarrow> unit iproc) \<Rightarrow> unit iproc" where
  "decode_pointer_packed env n iter func = (\<lambda>(c0, s0).
     let allocated_size = ucast (load32 (hmem c0) (pSize iter)) in
     bindP (liftP pb_make_string_substream) (\<lambda>sub (c, s).
       case pointer_packed_loop (Suc (unat (bytes_left sub))) env n iter func allocated_size (c, sub) of
         None \<Rightarrow> None
       | Some ((status, msg), c', sub') \<Rightarrow>
           let s' = (case msg of None \<Rightarrow> s | Some m \<Rightarrow> s\<lparr>ierrmsg := Some m\<rparr>)
           in Some (close_with status sub' (c', s'))) (c0, s0))"

definition decode_pointer_item ::
  "pb_env \<Rightarrow> nat \<Rightarrow> pb_field_iter_t \<Rightarrow> (pb_field_t \<Rightarrow> ptr \<Rightarrow> unit iproc) \<Rightarrow> unit iproc" where
  "decode_pointer_item env n iter func = (\<lambda>(c, s).
     let fld = iter_field iter; count = load32 (hmem c) (pSize iter) in
     if count = PB_SIZE_MAX then Some (PB_RETURN_ERROR_i ''too many array entries'' (c, s))
     else
       (case allocate_field (pData iter) (ucast (data_size fld)) (ucast (count + 1))
               (set32 (pSize iter) (count + 1) c, s) of
          (None, st) \<Rightarrow> Some (None, st)
        | (Some _, c1, s1) \<Rightarrow>
            let item = array_item (load64 (hmem c1) (pData iter)) fld
                         (load32 (hmem c1) (pSize iter) - 1)
            in case initialize_pointer_field env n item iter c1 of
                 None \<Rightarrow> None
               | Some c2 \<Rightarrow> func fld item (c2, s1)))"

definition decode_pointer_single ::
  "pb_env \<Rightarrow> nat \<Rightarrow> pb_field_iter_t \<Rightarrow> (pb_field_t \<Rightarrow> ptr \<Rightarrow> unit iproc) \<Rightarrow> unit iproc" where
  "decode_pointer_single env n iter func = (\<lambda>(c, s).
     let fld = iter_field iter; type = ftype fld; data = pData iter in
     case (if PB_LTYPE type = PB_LTYPE_SUBMESSAGE \<and> load64 (hmem c) data \<noteq> NULL
           then pb_release_single_field env n iter c else Some c) of
       None \<Rightarrow> None
     | Some c1 \<Rightarrow>
         let c2 = (if PB_HTYPE type = PB_HTYPE_ONEOF then set32 (pSize iter) (ftag fld) c1 else c1)
         in if PB_LTYPE type = PB_LTYPE_STRING \<or> PB_LTYPE type = PB_LTYPE_BYTES
            then func fld data (c2, s)
            else
              (case allocate_field data (ucast (data_size fld)) 1 (c2, s) of
                 (None, st) \<Rightarrow> Some (None, st)
               | (Some _, c3, s3) \<Rightarrow>
                   (case initialize_pointer_field env n (load64 (hmem c3) data) iter c3 of
                      None \<Rightarrow> None
                    | Some c4 \<Rightarrow> func fld (load64 (hmem c4) data) (c4, s3))))"

definition decode_pointer_field ::
  "pb_env \<Rightarrow> nat \<Rightarrow> pb_decode_rec \<Rightarrow> pb_wire_type_t \<Rightarrow> pb_field_iter_t \<Rightarrow> unit iproc" where
  "decode_pointer_field env n rec wire_type iter =
     (let type = ftype (iter_field iter); func = PB_DECODERS env rec (PB_LTYPE type) in
      if PB_HTYPE type = PB_HTYPE_REQUIRED \<or> PB_HTYPE type = PB_HTYPE_OPTIONAL \<or>
         PB_HTYPE type = PB_HTYPE_ONEOF
      then decode_pointer_single env n iter func
      else if PB_HTYPE type = PB_HTYPE_REPEATED
      then (if wire_type = PB_WT_STRING \<and> PB_LTYPE type \<le> PB_LTYPE_LAST_PACKABLE
            then decode_pointer_packed env n iter func
            else decode_pointer_item env n iter func)
      else liftP (PB_RETURN_ERROR_i ''invalid field type''))"

section \<open>Callback fields\<close>

text \<open>
  The do-while loop hands the substream to the field's callback until it is empty.  A
  callback need not consume anything, so the loop has fuel.  The result is whether no
  call failed.
\<close>

primrec callback_loop ::
  "pb_env \<Rightarrow> pb_field_t \<Rightarrow> ptr \<Rightarrow> nat \<Rightarrow> cstate \<times> pb_istream_t \<Rightarrow>
   (bool \<times> cstate \<times> pb_istream_t) option" where
  "callback_loop env fld data 0 st = None"
| "callback_loop env fld data (Suc k) st =
     (case decode_fn env (cb_func (hmem (fst st)) data) fld (cb_arg data) st of
        (None, st') \<Rightarrow> Some (False, st')
      | (Some _, st') \<Rightarrow>
          if bytes_left (snd st') \<noteq> 0 then callback_loop env fld data k st'
          else Some (True, st'))"

definition decode_callback_string ::
  "pb_env \<Rightarrow> nat \<Rightarrow> pb_field_iter_t \<Rightarrow> unit iproc" where
  "decode_callback_string env n iter =
     bindP (liftP pb_make_string_substream) (\<lambda>sub (c, s).
       case callback_loop env (iter_field iter) (pData iter) n (c, sub) of
         None \<Rightarrow> None
       | Some (False, c', _) \<Rightarrow> Some (PB_RETURN_ERROR_i ''callback failed'' (c', s))
       | Some (True, c', sub') \<Rightarrow> Some (close_with True sub' (c', s)))"

text \<open>A scalar value goes through the local \<open>buffer\<close> of 10 bytes.\<close>

definition decode_callback_scalar ::
  "pb_env \<Rightarrow> nat \<Rightarrow> pb_wire_type_t \<Rightarrow> pb_field_iter_t \<Rightarrow> unit ifun" where
  "decode_callback_scalar env n wire_type iter =
     bindC (read_raw_value wire_type 10) (\<lambda>bytes (c, s).
       let buffer = frame_buffer env n;
           c1 = c\<lparr>hmem := write_bytes (hmem c) buffer bytes\<rparr>;
           substream = pb_istream_from_buffer buffer (of_nat (length bytes));
           data = pData iter
       in case decode_fn env (cb_func (hmem c1) data) (iter_field iter) (cb_arg data) (c1, substream) of
            (status, c2, _) \<Rightarrow> (status, c2, s))"

definition decode_callback_field ::
  "pb_env \<Rightarrow> nat \<Rightarrow> pb_wire_type_t \<Rightarrow> pb_field_iter_t \<Rightarrow> unit iproc" where
  "decode_callback_field env n wire_type iter = (\<lambda>(c, s).
     if pData iter = NULL \<or> cb_func (hmem c) (pData iter) = NULL
     then Some (pb_skip_field wire_type (c, s))
     else if wire_type = PB_WT_STRING then decode_callback_string env n iter (c, s)
     else Some (decode_callback_scalar env n wire_type iter (c, s)))"

section \<open>One field\<close>

text \<open>The result is the iterator, which \<open>pb_release_union_field\<close> may have moved around.\<close>

definition decode_field_at ::
  "pb_env \<Rightarrow> nat \<Rightarrow> pb_decode_rec \<Rightarrow> pb_wire_type_t \<Rightarrow> pb_field_iter_t \<Rightarrow> unit iproc" where
  "decode_field_at env n rec wire_type iter =
     (let type = ftype (iter_field iter) in
      if PB_ATYPE type = PB_ATYPE_STATIC then decode_static_field env n rec wire_type iter
      else if PB_ATYPE type = PB_ATYPE_POINTER then decode_pointer_field env n rec wire_type iter
      else if PB_ATYPE type = PB_ATYPE_CALLBACK then decode_callback_field env n wire_type iter
      else liftP (PB_RETURN_ERROR_i ''invalid field type''))"

definition decode_field ::
  "pb_env \<Rightarrow> nat \<Rightarrow> pb_decode_rec \<Rightarrow> pb_wire_type_t \<Rightarrow> pb_field_iter_t \<Rightarrow> pb_field_iter_t iproc" where
  "decode_field env n rec wire_type iter =
     bindP (if PB_HTYPE (ftype (iter_field iter)) = PB_HTYPE_ONEOF
            then pb_release_union_field env n iter else liftP (retC iter)) (\<lambda>iter'.
       bindP (decode_field_at env n rec wire_type iter') (\<lambda>_. liftP (retC iter')))"

section \<open>Extensions\<close>

definition default_extension_decoder ::
  "pb_env \<Rightarrow> nat \<Rightarrow> pb_decode_rec \<Rightarrow> ptr \<Rightarrow> u32 \<Rightarrow> pb_wire_type_t \<Rightarrow> unit iproc" where
  "default_extension_decoder env n rec extension tag wire_type = (\<lambda>(c, s).
     let fld = field_entry (fields_at env (extt_arg (hmem c) (ext_type (hmem c) extension))) 0;
         iter = iter_from_extension env (hmem c) extension
     in if ftag fld \<noteq> tag then Some (Some (), c, s)
        else bindP (decode_field env n rec wire_type iter) (\<lambda>_. liftP (retC ()))
               (set_bool (ext_found extension) True c, s))"

text \<open>\<open>pos\<close> is the number of bytes left on entry: an extension that reads ends the loop.\<close>

primrec decode_extension_loop ::
  "pb_env \<Rightarrow> nat \<Rightarrow> pb_decode_rec \<Rightarrow> u32 \<Rightarrow> pb_wire_type_t \<Rightarrow> size_t \<Rightarrow> nat \<Rightarrow> ptr \<Rightarrow> unit iproc" where
  "decode_extension_loop env n rec tag wire_type pos 0 extension st = None"
| "decode_extension_loop env n rec tag wire_type pos (Suc k) extension st =
     (if extension \<noteq> NULL \<and> pos = bytes_left (snd st)
      then
        bindP (\<lambda>(c, s).
          let dec = extt_decode (hmem c) (ext_type (hmem c) extension) in
          if dec \<noteq> NULL then Some (ext_decode_fn env dec extension tag wire_type (c, s))
          else default_extension_decoder env n rec extension tag wire_type (c, s)) (\<lambda>_ (c, s).
        decode_extension_loop env n rec tag wire_type pos k (ext_next (hmem c) extension) (c, s)) st
      else Some (Some (), st))"

definition decode_extension ::
  "pb_env \<Rightarrow> nat \<Rightarrow> pb_decode_rec \<Rightarrow> u32 \<Rightarrow> pb_wire_type_t \<Rightarrow> pb_field_iter_t \<Rightarrow> unit iproc" where
  "decode_extension env n rec tag wire_type iter = (\<lambda>(c, s).
     decode_extension_loop env n rec tag wire_type (bytes_left s) n
       (load64 (hmem c) (pData iter)) (c, s))"

section \<open>All fields\<close>

definition PB_MAX_REQUIRED_FIELDS :: u32 where "PB_MAX_REQUIRED_FIELDS = 64"

text \<open>The locals of \<open>pb_decode_noinit\<close>; \<open>fixed_count_field\<close> is the index of the entry.\<close>

record noinit_locals =
  iter_of :: pb_field_iter_t
  fields_seen :: "u32 list"
  extension_range_start :: u32
  fixed_count_field :: "nat option"

text \<open>
  \<open>fixed_count_size\<close> is in memory, since the iterator's \<open>pSize\<close> is made to point at it.
  Whether the entries of the last fixed count field are all there:
\<close>

definition fixed_count_complete :: "ptr \<Rightarrow> noinit_locals \<Rightarrow> mem \<Rightarrow> bool" where
  "fixed_count_complete fcs loc m =
     (case fixed_count_field loc of
        None \<Rightarrow> True
      | Some i \<Rightarrow> load32 m fcs = array_size (field_entry (istart (iter_of loc)) i))"

text \<open>What happens before \<open>decode_field\<close> when the tag was found.\<close>

definition enter_fixed_count :: "ptr \<Rightarrow> noinit_locals \<Rightarrow> noinit_locals ifun" where
  "enter_fixed_count fcs loc = (\<lambda>(c, s).
     let iter = iter_of loc in
     if PB_HTYPE (ftype (iter_field iter)) = PB_HTYPE_REPEATED \<and> pSize iter = pData iter
     then
       (if fixed_count_field loc \<noteq> Some (ipos iter)
        then (if \<not> fixed_count_complete fcs loc (hmem c)
              then PB_RETURN_ERROR_i ''wrong size for fixed count field'' (c, s)
              else (Some (loc\<lparr>fixed_count_field := Some (ipos iter), iter_of := iter\<lparr>pSize := fcs\<rparr>\<rparr>),
                    set32 fcs 0 c, s))
        else (Some (loc\<lparr>iter_of := iter\<lparr>pSize := fcs\<rparr>\<rparr>), c, s))
     else (Some loc, c, s))"

definition mark_required :: "noinit_locals \<Rightarrow> noinit_locals" where
  "mark_required loc =
     (let iter = iter_of loc;
          i = required_field_index iter;
          w = unat (drop_bit 5 i);
          tmp = push_bit (unat (i AND 31)) 1 :: u32
      in if PB_HTYPE (ftype (iter_field iter)) = PB_HTYPE_REQUIRED \<and> i < PB_MAX_REQUIRED_FIELDS
         then loc\<lparr>fields_seen := (fields_seen loc)[w := fields_seen loc ! w OR tmp]\<rparr>
         else loc)"

definition decode_known_field ::
  "pb_env \<Rightarrow> nat \<Rightarrow> pb_decode_rec \<Rightarrow> pb_wire_type_t \<Rightarrow> noinit_locals \<Rightarrow> noinit_locals iproc" where
  "decode_known_field env n rec wire_type loc =
     bindP (liftP (enter_fixed_count (frame_count env n) loc)) (\<lambda>loc1.
       let loc2 = mark_required loc1 in
       bindP (decode_field env n rec wire_type (iter_of loc2)) (\<lambda>iter'.
         liftP (retC (loc2\<lparr>iter_of := iter'\<rparr>))))"

text \<open>The branch for a tag that no entry has: an extension, or data to skip.\<close>

definition decode_unknown_field ::
  "pb_env \<Rightarrow> nat \<Rightarrow> pb_decode_rec \<Rightarrow> u32 \<Rightarrow> pb_wire_type_t \<Rightarrow> noinit_locals \<Rightarrow> noinit_locals iproc" where
  "decode_unknown_field env n rec tag wire_type loc = (\<lambda>(c, s).
     let skip = (\<lambda>loc'. bindP (liftP (pb_skip_field wire_type)) (\<lambda>_. liftP (retC loc'))) in
     if tag < extension_range_start loc then skip loc (c, s)
     else
       let (found, iter) = find_extension_field (iter_of loc);
           start = (if found then ftag (iter_field iter) else - 1);
           loc' = loc\<lparr>iter_of := iter, extension_range_start := start\<rparr>;
           pos = bytes_left s
       in if tag < start then skip loc' (c, s)
          else
            bindP (decode_extension env n rec tag wire_type iter) (\<lambda>_ (c', s').
              if pos \<noteq> bytes_left s' then Some (Some loc', c', s')
              else skip loc' (c', s')) (c, s))"

text \<open>The main loop, with fuel: a handler of an extension may move the stream at will.\<close>

primrec noinit_loop ::
  "pb_env \<Rightarrow> nat \<Rightarrow> pb_decode_rec \<Rightarrow> nat \<Rightarrow> noinit_locals \<Rightarrow> noinit_locals iproc" where
  "noinit_loop env n rec 0 loc st = None"
| "noinit_loop env n rec (Suc k) loc st =
     (if bytes_left (snd st) = 0 then Some (Some loc, st)
      else
        (case pb_decode_tag st of
           ((False, _, _, eof), st') \<Rightarrow> if eof then Some (Some loc, st') else Some (None, st')
         | ((True, wire_type, tag, _), st') \<Rightarrow>
             (case pb_field_iter_find (iter_of loc) tag of
                (found, iter) \<Rightarrow>
                  let loc' = loc\<lparr>iter_of := iter\<rparr> in
                  bindP (if found then decode_known_field env n rec wire_type loc'
                         else decode_unknown_field env n rec tag wire_type loc')
                    (\<lambda>loc''. noinit_loop env n rec k loc'') st')))"

text \<open>
  The do-while loop that seeks the end of the array: the values of \<open>req_field_count\<close>
  and \<open>last_type\<close>, and the iterator, which is back at the first entry.
\<close>

function seek_end :: "pb_field_iter_t \<Rightarrow> u32 \<times> pb_type_t \<times> pb_field_iter_t" where
  "seek_end iter =
     (case pb_field_iter_next iter of
        (again, iter') \<Rightarrow>
          if again then seek_end iter'
          else (required_field_index iter, ftype (iter_field iter), iter'))"
  by pat_completeness auto
termination seek_end
  by (relation "measure (\<lambda>iter. length (istart iter) - ipos iter)")
     (auto dest!: pb_field_iter_next_measure)

declare seek_end.simps [simp del]

definition req_field_count :: "pb_field_iter_t \<Rightarrow> u32" where
  "req_field_count iter =
     (case seek_end iter of
        (count, last_type, iter') \<Rightarrow>
          let count' = (if PB_HTYPE last_type = PB_HTYPE_REQUIRED \<and> ftag (iter_field iter') \<noteq> 0
                        then count + 1 else count)
          in if count' > PB_MAX_REQUIRED_FIELDS then PB_MAX_REQUIRED_FIELDS else count')"

definition required_seen :: "u32 list \<Rightarrow> u32 \<Rightarrow> bool" where
  "required_seen seen count =
     (let whole = unat (drop_bit 5 count); rest = count AND 31 in
      (\<forall>i < whole. seen ! i = - 1) \<and>
      (rest \<noteq> 0 \<longrightarrow> seen ! whole = drop_bit (unat (32 - rest)) (- 1)))"

definition noinit_checks :: "ptr \<Rightarrow> noinit_locals \<Rightarrow> unit ifun" where
  "noinit_checks fcs loc = (\<lambda>(c, s).
     if \<not> fixed_count_complete fcs loc (hmem c)
     then PB_RETURN_ERROR_i ''wrong size for fixed count field'' (c, s)
     else if \<not> required_seen (fields_seen loc) (req_field_count (iter_of loc))
     then PB_RETURN_ERROR_i ''missing required field'' (c, s)
     else (Some (), c, s))"

definition noinit_body ::
  "pb_env \<Rightarrow> nat \<Rightarrow> pb_decode_rec \<Rightarrow> pb_field_t list \<Rightarrow> ptr \<Rightarrow> unit iproc" where
  "noinit_body env n rec flds dest = (\<lambda>(c, s).
     let loc = \<lparr>iter_of = snd (pb_field_iter_begin flds dest), fields_seen = [0, 0],
                extension_range_start = 0, fixed_count_field = None\<rparr>
     in bindP (noinit_loop env n rec n loc) (\<lambda>loc'. liftP (noinit_checks (frame_count env n) loc'))
          (set32 (frame_count env n) 0 c, s))"

text \<open>\<open>pb_decode\<close> over \<open>pb_decode_noinit\<close>: defaults first, release on failure.\<close>

definition decode_over ::
  "pb_env \<Rightarrow> nat \<Rightarrow> (pb_field_t list \<Rightarrow> ptr \<Rightarrow> unit iproc) \<Rightarrow> pb_field_t list \<Rightarrow> ptr \<Rightarrow> unit iproc" where
  "decode_over env n noinit flds dest = (\<lambda>(c, s).
     case pb_message_set_to_defaults env n flds dest c of
       None \<Rightarrow> None
     | Some c1 \<Rightarrow>
         (case noinit flds dest (c1, s) of
            None \<Rightarrow> None
          | Some (Some _, st) \<Rightarrow> Some (Some (), st)
          | Some (None, c2, s2) \<Rightarrow>
              (case pb_release env n flds dest c2 of
                 None \<Rightarrow> None
               | Some c3 \<Rightarrow> Some (None, c3, s2))))"

primrec pb_decode_noinit :: "pb_env \<Rightarrow> nat \<Rightarrow> pb_field_t list \<Rightarrow> ptr \<Rightarrow> unit iproc" where
  "pb_decode_noinit env 0 flds dest = stuckP"
| "pb_decode_noinit env (Suc n) flds dest =
     noinit_body env n
       (\<lambda>init. if init then decode_over env n (pb_decode_noinit env n) else pb_decode_noinit env n)
       flds dest"

definition pb_decode :: "pb_env \<Rightarrow> nat \<Rightarrow> pb_field_t list \<Rightarrow> ptr \<Rightarrow> unit iproc" where
  "pb_decode env n = decode_over env n (pb_decode_noinit env n)"

definition decode_delimited_by ::
  "(pb_field_t list \<Rightarrow> ptr \<Rightarrow> unit iproc) \<Rightarrow> pb_field_t list \<Rightarrow> ptr \<Rightarrow> unit iproc" where
  "decode_delimited_by dec flds dest =
     bindP (liftP pb_make_string_substream) (\<lambda>sub (c, s).
       case dec flds dest (c, sub) of
         None \<Rightarrow> None
       | Some (status, c', sub') \<Rightarrow> Some (close_with (status \<noteq> None) sub' (c', s)))"

definition pb_decode_delimited_noinit :: "pb_env \<Rightarrow> nat \<Rightarrow> pb_field_t list \<Rightarrow> ptr \<Rightarrow> unit iproc" where
  "pb_decode_delimited_noinit env n = decode_delimited_by (pb_decode_noinit env n)"

definition pb_decode_delimited :: "pb_env \<Rightarrow> nat \<Rightarrow> pb_field_t list \<Rightarrow> ptr \<Rightarrow> unit iproc" where
  "pb_decode_delimited env n = decode_delimited_by (pb_decode env n)"

definition pb_decode_nullterminated :: "pb_env \<Rightarrow> nat \<Rightarrow> pb_field_t list \<Rightarrow> ptr \<Rightarrow> unit iproc" where
  "pb_decode_nullterminated = pb_decode"

end
