(* ===== verification/Pb_Ostream.thy ===== *)
theory Pb_Ostream
  imports Pb_Types
begin

text \<open>
  Output streams and the scalar encoders of \<open>nanopb/pb_encode.c\<close>.  Every encoder
  ends in \<open>pb_write\<close>; the lemmas here give for each the bytes it writes, and say
  what a write does to a buffer stream and to a sizing stream.
\<close>

section \<open>Streams\<close>

text \<open>
  A \<open>const pb_byte_t *buf\<close> argument is the list of the bytes it points at.  The
  loop of \<open>buf_write\<close> stores them one by one from \<open>state\<close>.
\<close>

definition buf_write :: "pb_byte_t list \<Rightarrow> size_t \<Rightarrow> unit ofun" where
  "buf_write buf count = (\<lambda>(c, s).
     (Some (), c\<lparr>hmem := write_bytes (hmem c) (ostate s) (take (unat count) buf)\<rparr>,
      s\<lparr>ostate := ostate s + count\<rparr>))"

definition ostream_callback :: "pb_write_fn \<Rightarrow> pb_byte_t list \<Rightarrow> size_t \<Rightarrow> unit ofun" where
  "ostream_callback cb buf count = (\<lambda>(c, s).
     case cb of
       Buf_write \<Rightarrow> buf_write buf count (c, s)
     | User_write f \<Rightarrow>
         (case f c (ostate s) (take (unat count) buf) of (ok, c', p) \<Rightarrow>
            (if ok then Some () else None, c', s\<lparr>ostate := p\<rparr>)))"

definition pb_ostream_from_buffer :: "ptr \<Rightarrow> size_t \<Rightarrow> pb_ostream_t" where
  "pb_ostream_from_buffer buf bufsize =
     \<lparr>ocallback = Some Buf_write, ostate = buf, max_size = bufsize, bytes_written = 0,
      oerrmsg = None\<rparr>"

definition PB_OSTREAM_SIZING :: pb_ostream_t where
  "PB_OSTREAM_SIZING =
     \<lparr>ocallback = None, ostate = NULL, max_size = 0, bytes_written = 0, oerrmsg = None\<rparr>"

definition pb_write :: "pb_byte_t list \<Rightarrow> size_t \<Rightarrow> unit ofun" where
  "pb_write buf count = (\<lambda>(c, s).
     case ocallback s of
       None \<Rightarrow> (Some (), c, s\<lparr>bytes_written := bytes_written s + count\<rparr>)
     | Some cb \<Rightarrow>
         if bytes_written s + count > max_size s
         then PB_RETURN_ERROR_o ''stream full'' (c, s)
         else
           (case ostream_callback cb buf count (c, s) of
              (None, st) \<Rightarrow> PB_RETURN_ERROR_o ''io error'' st
            | (Some _, c', s') \<Rightarrow>
                (Some (), c', s'\<lparr>bytes_written := bytes_written s' + count\<rparr>)))"

section \<open>Scalar encoders\<close>

text \<open>The loop of \<open>pb_encode_varint\<close>, giving what it stores in the local \<open>buffer\<close>.\<close>

function varint_buffer :: "u64 \<Rightarrow> pb_byte_t list" where
  "varint_buffer value =
     (if value \<noteq> 0
      then ((ucast (value AND 0x7F) :: byte) OR 0x80) # varint_buffer (drop_bit 7 value)
      else [])"
  by pat_completeness auto

termination varint_buffer
  by (relation "measure unat") (auto simp: word_less_nat_alt [symmetric] intro: drop_bit_less_word)

declare varint_buffer.simps [simp del]

definition pb_encode_varint :: "u64 \<Rightarrow> unit ofun" where
  "pb_encode_varint value =
     (if value \<le> 0x7F then pb_write [ucast value] 1
      else
        let buffer = varint_buffer value;
            i = length buffer;
            buffer' = buffer[i - 1 := (buffer ! (i - 1)) AND 0x7F]
        in pb_write buffer' (of_nat i))"

definition pb_encode_svarint :: "64 word \<Rightarrow> unit ofun" where
  "pb_encode_svarint value =
     (let zigzagged = (if sint value < 0 then NOT (push_bit 1 value) else push_bit 1 value)
      in pb_encode_varint zigzagged)"

definition pb_encode_fixed32 :: "u32 \<Rightarrow> unit ofun" where
  "pb_encode_fixed32 val =
     pb_write
       [ucast (val AND 0xFF),
        ucast (drop_bit 8 val AND 0xFF),
        ucast (drop_bit 16 val AND 0xFF),
        ucast (drop_bit 24 val AND 0xFF)] 4"

definition pb_encode_fixed64 :: "u64 \<Rightarrow> unit ofun" where
  "pb_encode_fixed64 val =
     pb_write
       [ucast (val AND 0xFF),
        ucast (drop_bit 8 val AND 0xFF),
        ucast (drop_bit 16 val AND 0xFF),
        ucast (drop_bit 24 val AND 0xFF),
        ucast (drop_bit 32 val AND 0xFF),
        ucast (drop_bit 40 val AND 0xFF),
        ucast (drop_bit 48 val AND 0xFF),
        ucast (drop_bit 56 val AND 0xFF)] 8"

definition pb_encode_tag :: "pb_wire_type_t \<Rightarrow> u32 \<Rightarrow> unit ofun" where
  "pb_encode_tag wiretype field_number =
     (let tag = push_bit 3 (ucast field_number :: u64) OR ucast wiretype
      in pb_encode_varint tag)"

definition pb_encode_tag_for_field :: "pb_field_t \<Rightarrow> unit ofun" where
  "pb_encode_tag_for_field field =
     (let lt = PB_LTYPE (ftype field) in
      if lt = PB_LTYPE_VARINT \<or> lt = PB_LTYPE_UVARINT \<or> lt = PB_LTYPE_SVARINT
      then pb_encode_tag PB_WT_VARINT (ftag field)
      else if lt = PB_LTYPE_FIXED32 then pb_encode_tag PB_WT_32BIT (ftag field)
      else if lt = PB_LTYPE_FIXED64 then pb_encode_tag PB_WT_64BIT (ftag field)
      else if lt = PB_LTYPE_BYTES \<or> lt = PB_LTYPE_STRING \<or> lt = PB_LTYPE_SUBMESSAGE
        \<or> lt = PB_LTYPE_FIXED_LENGTH_BYTES
      then pb_encode_tag PB_WT_STRING (ftag field)
      else PB_RETURN_ERROR_o ''invalid field type'')"

definition pb_encode_string :: "pb_byte_t list \<Rightarrow> size_t \<Rightarrow> unit ofun" where
  "pb_encode_string buffer sz =
     bindC (pb_encode_varint sz) (\<lambda>_. pb_write buffer sz)"

section \<open>What the encoders write\<close>

text \<open>\<open>put bs\<close> writes the list \<open>bs\<close>: the form in which every encoder is restated.\<close>

definition put :: "byte list \<Rightarrow> unit ofun" where
  "put bs = pb_write bs (of_nat (length bs))"

definition varint_bytes :: "u64 \<Rightarrow> byte list" where
  "varint_bytes v =
     (if v \<le> 0x7F then [ucast v]
      else (let buf = varint_buffer v in buf[length buf - 1 := last buf AND 0x7F]))"

definition zigzag :: "64 word \<Rightarrow> u64" where
  "zigzag v = (if sint v < 0 then NOT (push_bit 1 v) else push_bit 1 v)"

lemma varint_buffer_0 [simp]: "varint_buffer 0 = []"
  by (subst varint_buffer.simps) simp

lemma varint_buffer_nonempty: "v \<noteq> 0 \<Longrightarrow> varint_buffer v \<noteq> []"
  by (subst varint_buffer.simps) simp

lemma length_varint_buffer: "unat v < 2 ^ n \<Longrightarrow> length (varint_buffer v) \<le> (n + 6) div 7"
proof (induction v arbitrary: n rule: varint_buffer.induct)
  case (1 v)
  show ?case
  proof (cases "v = 0")
    case False
    have "unat v div 2 ^ 7 < 2 ^ (n - 7)"
    proof (cases "n < 7")
      case True
      then have "(2 :: nat) ^ n \<le> 2 ^ 7" by (intro power_increasing) auto
      with "1.prems" show ?thesis by simp
    next
      case ge: False
      then have "(2 :: nat) ^ n = 2 ^ (n - 7) * 2 ^ 7" by (simp only: power_add [symmetric]) simp
      with "1.prems" show ?thesis by (metis less_mult_imp_div_less)
    qed
    then have "drop_bit 7 (unat v) < 2 ^ (n - 7)" by (simp add: drop_bit_eq_div)
    then have "unat (drop_bit 7 v) < 2 ^ (n - 7)" by (simp only: unat_drop_bit_eq)
    with False "1.IH" have "length (varint_buffer (drop_bit 7 v)) \<le> (n - 7 + 6) div 7" by blast
    moreover have "n \<noteq> 0" using False "1.prems" by (cases n) (auto simp: unat_eq_0)
    moreover have "drop_bit 7 v = 0" if "n < 7"
      using \<open>unat (drop_bit 7 v) < 2 ^ (n - 7)\<close> that by (simp add: unat_eq_0)
    ultimately have "length (varint_buffer (drop_bit 7 v)) + 1 \<le> (n + 6) div 7"
      by (cases "n < 7") auto
    with False show ?thesis by (subst varint_buffer.simps) simp
  qed simp
qed

lemma length_varint_bytes: "length (varint_bytes v) \<le> 10"
proof -
  have "unat v < 2 ^ 64" using unsigned_less [of v, where 'a = nat] by simp
  from length_varint_buffer [OF this] show ?thesis
    by (auto simp: varint_bytes_def Let_def)
qed

lemma varint_bytes_nonempty [simp]: "varint_bytes v \<noteq> []"
proof (cases "v \<le> 0x7F")
  case False
  then have "v \<noteq> 0" by auto
  with varint_buffer_nonempty [OF this] False show ?thesis
    by (simp add: varint_bytes_def Let_def)
qed (simp add: varint_bytes_def)

lemma pb_encode_varint_put: "pb_encode_varint v = put (varint_bytes v)"
proof (cases "v \<le> 0x7F")
  case False
  then have "v \<noteq> 0" by auto
  then have "varint_buffer v \<noteq> []" by (rule varint_buffer_nonempty)
  with False show ?thesis
    by (simp add: pb_encode_varint_def put_def varint_bytes_def Let_def last_conv_nth)
qed (simp add: pb_encode_varint_def put_def varint_bytes_def)

lemma pb_encode_svarint_put: "pb_encode_svarint v = put (varint_bytes (zigzag v))"
  by (simp add: pb_encode_svarint_def zigzag_def pb_encode_varint_put Let_def)

lemma ucast_AND_FF: "(ucast (w AND 0xFF) :: byte) = ucast (w :: 'a::len word)"
proof -
  have "(0xFF :: 'a word) = mask 8" by (simp add: mask_eq_exp_minus_1)
  then have "w AND 0xFF = take_bit 8 w" by (simp only: take_bit_eq_mask [symmetric])
  then show ?thesis by (simp only:) (rule bit_word_eqI, simp add: bit_simps)
qed

lemma pb_encode_fixed32_put: "pb_encode_fixed32 v = put (le_bytes 4 v)"
  by (simp add: pb_encode_fixed32_def put_def le_bytes_def ucast_AND_FF upt_rec)

lemma pb_encode_fixed64_put: "pb_encode_fixed64 v = put (le_bytes 8 v)"
  by (simp add: pb_encode_fixed64_def put_def le_bytes_def ucast_AND_FF upt_rec)

section \<open>Writing to buffer and sizing streams\<close>

text \<open>
  A stream of the library's own: a buffer stream or a sizing stream.  \<open>has_room\<close>
  says that \<open>n\<close> more bytes pass the check of \<open>pb_write\<close>, and \<open>after_write\<close> is the
  state after writing a list.
\<close>

definition std_ostream :: "pb_ostream_t \<Rightarrow> bool" where
  "std_ostream s \<longleftrightarrow> ocallback s = None \<or> ocallback s = Some Buf_write"

definition has_room :: "pb_ostream_t \<Rightarrow> nat \<Rightarrow> bool" where
  "has_room s n \<longleftrightarrow> unat (bytes_written s) + n < 2 ^ 64 \<and>
     (ocallback s \<noteq> None \<longrightarrow> unat (bytes_written s) + n \<le> unat (max_size s))"

definition after_write :: "byte list \<Rightarrow> cstate \<times> pb_ostream_t \<Rightarrow> cstate \<times> pb_ostream_t" where
  "after_write bs = (\<lambda>(c, s).
     if ocallback s = None then (c, s\<lparr>bytes_written := bytes_written s + of_nat (length bs)\<rparr>)
     else (c\<lparr>hmem := write_bytes (hmem c) (ostate s) bs\<rparr>,
           s\<lparr>ostate := ostate s + of_nat (length bs),
             bytes_written := bytes_written s + of_nat (length bs)\<rparr>))"

lemma put_after_write:
  assumes "std_ostream s" "has_room s (length bs)"
  shows "put bs (c, s) = (Some (), after_write bs (c, s))"
proof -
  have len: "length bs < 2 ^ 64" using assms(2) by (simp add: has_room_def)
  have "unat (bytes_written s + of_nat (length bs)) = unat (bytes_written s) + length bs"
    using assms(2) by (simp add: has_room_def unat_word_ariths unat_of_nat)
  then have "ocallback s \<noteq> None \<Longrightarrow> \<not> bytes_written s + of_nat (length bs) > max_size s"
    using assms(2) by (auto simp: has_room_def word_less_nat_alt)
  then show ?thesis using assms(1) len
    by (auto simp: put_def pb_write_def after_write_def std_ostream_def ostream_callback_def
        buf_write_def unat_of_nat_size)
qed

lemma put_full:
  assumes "ocallback s \<noteq> None" "unat (bytes_written s) + length bs < 2 ^ 64"
    "unat (bytes_written s) + length bs > unat (max_size s)"
  shows "put bs (c, s) = PB_RETURN_ERROR_o ''stream full'' (c, s)"
proof -
  have "unat (bytes_written s + of_nat (length bs)) = unat (bytes_written s) + length bs"
    using assms(2) by (simp add: unat_word_ariths unat_of_nat)
  then have "bytes_written s + of_nat (length bs) > max_size s"
    using assms(3) by (simp add: word_less_nat_alt)
  with assms(1) show ?thesis by (auto simp: put_def pb_write_def)
qed

lemma after_write_std [simp]:
  "std_ostream (snd (after_write bs (c, s))) = std_ostream s"
  by (auto simp: after_write_def std_ostream_def)

lemma after_write_append:
  assumes "length xs + length ys \<le> 2 ^ 64"
  shows "after_write ys (after_write xs st) = after_write (xs @ ys) st"
  using write_bytes_append [OF assms] by (cases st) (simp add: after_write_def algebra_simps)

lemma has_room_after_write:
  assumes "has_room s (length xs + n)"
  shows "has_room (snd (after_write xs (c, s))) n"
proof -
  have "unat (bytes_written s + of_nat (length xs)) = unat (bytes_written s) + length xs"
    using assms by (simp add: has_room_def unat_word_ariths unat_of_nat)
  with assms show ?thesis by (auto simp: has_room_def after_write_def)
qed

lemma put_put:
  assumes "std_ostream s" "has_room s (length xs + length ys)"
  shows "bindC (put xs) (\<lambda>_. put ys) (c, s) = put (xs @ ys) (c, s)"
proof -
  have x: "put xs (c, s) = (Some (), after_write xs (c, s))"
    using assms by (intro put_after_write) (auto simp: has_room_def)
  obtain c' s' where a: "after_write xs (c, s) = (c', s')" by (cases "after_write xs (c, s)")
  have "std_ostream s'" "has_room s' (length ys)"
    using has_room_after_write [OF assms(2), of c] after_write_std [of xs c s] assms(1) a by auto
  then have "put ys (c', s') = (Some (), after_write ys (c', s'))" by (rule put_after_write)
  moreover have "put (xs @ ys) (c, s) = (Some (), after_write (xs @ ys) (c, s))"
    using assms by (intro put_after_write) auto
  moreover have "after_write ys (c', s') = after_write (xs @ ys) (c, s)"
    using after_write_append [of xs ys "(c, s)"] assms(2) a by (simp add: has_room_def)
  ultimately show ?thesis using x a by simp
qed

end
