(* ===== verification/Pb_Encode.thy ===== *)
theory Pb_Encode
  imports Pb_Ostream Pb_Common
begin

text \<open>
  The field encoders and the message encoder of \<open>nanopb/pb_encode.c\<close>.  A message is
  a structure in memory, described by an array of descriptors.  Every function
  below that can lead back to \<open>pb_encode\<close> takes the encoder for submessages as its
  argument \<open>rec\<close>; \<open>pb_encode\<close> ties the knot with fuel.
\<close>

type_synonym 'a oproc = "(cstate \<times> pb_ostream_t, 'a) pfun"
type_synonym pb_encode_rec = "pb_field_t list \<Rightarrow> ptr \<Rightarrow> unit oproc"

section \<open>Field encoders\<close>

definition pb_enc_varint :: "pb_field_t \<Rightarrow> ptr \<Rightarrow> unit ofun" where
  "pb_enc_varint fld src = (\<lambda>(c, s).
     let m = hmem c in
     if data_size fld = 1 then pb_encode_varint (scast (m src)) (c, s)
     else if data_size fld = 2 then pb_encode_varint (scast (load16 m src)) (c, s)
     else if data_size fld = 4 then pb_encode_varint (scast (load32 m src)) (c, s)
     else if data_size fld = 8 then pb_encode_varint (load64 m src) (c, s)
     else PB_RETURN_ERROR_o ''invalid data_size'' (c, s))"

definition pb_enc_uvarint :: "pb_field_t \<Rightarrow> ptr \<Rightarrow> unit ofun" where
  "pb_enc_uvarint fld src = (\<lambda>(c, s).
     let m = hmem c in
     if data_size fld = 1 then pb_encode_varint (ucast (m src)) (c, s)
     else if data_size fld = 2 then pb_encode_varint (ucast (load16 m src)) (c, s)
     else if data_size fld = 4 then pb_encode_varint (ucast (load32 m src)) (c, s)
     else if data_size fld = 8 then pb_encode_varint (load64 m src) (c, s)
     else PB_RETURN_ERROR_o ''invalid data_size'' (c, s))"

definition pb_enc_svarint :: "pb_field_t \<Rightarrow> ptr \<Rightarrow> unit ofun" where
  "pb_enc_svarint fld src = (\<lambda>(c, s).
     let m = hmem c in
     if data_size fld = 1 then pb_encode_svarint (scast (m src)) (c, s)
     else if data_size fld = 2 then pb_encode_svarint (scast (load16 m src)) (c, s)
     else if data_size fld = 4 then pb_encode_svarint (scast (load32 m src)) (c, s)
     else if data_size fld = 8 then pb_encode_svarint (load64 m src) (c, s)
     else PB_RETURN_ERROR_o ''invalid data_size'' (c, s))"

definition pb_enc_fixed64 :: "pb_field_t \<Rightarrow> ptr \<Rightarrow> unit ofun" where
  "pb_enc_fixed64 fld src = (\<lambda>(c, s). pb_encode_fixed64 (load64 (hmem c) src) (c, s))"

definition pb_enc_fixed32 :: "pb_field_t \<Rightarrow> ptr \<Rightarrow> unit ofun" where
  "pb_enc_fixed32 fld src = (\<lambda>(c, s). pb_encode_fixed32 (load32 (hmem c) src) (c, s))"

definition pb_enc_bytes :: "pb_field_t \<Rightarrow> ptr \<Rightarrow> unit ofun" where
  "pb_enc_bytes fld src = (\<lambda>(c, s).
     if src = NULL then pb_encode_string [] 0 (c, s)
     else
       let sz = ucast (load32 (hmem c) src) :: size_t in
       if PB_ATYPE (ftype fld) = PB_ATYPE_STATIC \<and>
          PB_BYTES_ARRAY_T_ALLOCSIZE sz > ucast (data_size fld)
       then PB_RETURN_ERROR_o ''bytes size exceeded'' (c, s)
       else pb_encode_string (read_bytes (hmem c) (src + 4) (unat sz)) sz (c, s))"

text \<open>The loop of \<open>pb_enc_string\<close> that looks for the terminating zero.\<close>

function strnlen_loop :: "mem \<Rightarrow> size_t \<Rightarrow> size_t \<Rightarrow> ptr \<Rightarrow> size_t" where
  "strnlen_loop m max_sz sz p =
     (if sz < max_sz \<and> m p \<noteq> 0 then strnlen_loop m max_sz (sz + 1) (p + 1) else sz)"
  by pat_completeness auto

lemma unat_Suc_less: "(a :: size_t) < b \<Longrightarrow> unat (a + 1) = Suc (unat a)"
proof -
  assume "a < b"
  then have "Suc (unat a) < 2 ^ 64"
    using unsigned_less [of b, where 'a = nat] by (simp add: word_less_nat_alt)
  then show ?thesis by (simp add: unat_word_ariths)
qed

termination strnlen_loop
proof (relation "measure (\<lambda>(_, max_sz, sz, _). unat max_sz - unat sz)")
  fix m and max_sz sz :: size_t and p :: ptr
  assume "sz < max_sz \<and> m p \<noteq> (0 :: byte)"
  then show "((m, max_sz, sz + 1, p + 1), m, max_sz, sz, p)
      \<in> measure (\<lambda>(_, max_sz, sz, _). unat max_sz - unat sz)"
    using unat_Suc_less [of sz max_sz] by (auto simp: word_less_nat_alt)
qed simp

declare strnlen_loop.simps [simp del]

definition pb_enc_string :: "pb_field_t \<Rightarrow> ptr \<Rightarrow> unit ofun" where
  "pb_enc_string fld src = (\<lambda>(c, s).
     let max_sz = (if PB_ATYPE (ftype fld) = PB_ATYPE_POINTER then - 1 else ucast (data_size fld));
         sz = (if src = NULL then 0 else strnlen_loop (hmem c) max_sz 0 src)
     in pb_encode_string (read_bytes (hmem c) src (unat sz)) sz (c, s))"

definition pb_enc_fixed_length_bytes :: "pb_field_t \<Rightarrow> ptr \<Rightarrow> unit ofun" where
  "pb_enc_fixed_length_bytes fld src = (\<lambda>(c, s).
     pb_encode_string (read_bytes (hmem c) src (unat (data_size fld))) (ucast (data_size fld)) (c, s))"

section \<open>Submessages\<close>

definition pb_encode_submessage :: "pb_encode_rec \<Rightarrow> pb_field_t list \<Rightarrow> ptr \<Rightarrow> unit oproc" where
  "pb_encode_submessage rec flds src_struct = (\<lambda>(c, s).
     case rec flds src_struct (c, PB_OSTREAM_SIZING) of
       None \<Rightarrow> None
     | Some (None, c1, sub) \<Rightarrow> Some (None, c1, s\<lparr>oerrmsg := oerrmsg sub\<rparr>)
     | Some (Some _, c1, sub) \<Rightarrow>
         let sz = bytes_written sub in
         (case pb_encode_varint sz (c1, s) of
            (None, st) \<Rightarrow> Some (None, st)
          | (Some _, c2, s2) \<Rightarrow>
              if ocallback s2 = None then Some (pb_write [] sz (c2, s2))
              else if bytes_written s2 + sz > max_size s2
              then Some (PB_RETURN_ERROR_o ''stream full'' (c2, s2))
              else
                let sub2 = \<lparr>ocallback = ocallback s2, ostate = ostate s2, max_size = sz,
                            bytes_written = 0, oerrmsg = None\<rparr> in
                (case rec flds src_struct (c2, sub2) of
                   None \<Rightarrow> None
                 | Some (status, c3, sub3) \<Rightarrow>
                     let s3 = s2\<lparr>bytes_written := bytes_written s2 + bytes_written sub3,
                                 ostate := ostate sub3, oerrmsg := oerrmsg sub3\<rparr>
                     in if bytes_written sub3 \<noteq> sz
                        then Some (PB_RETURN_ERROR_o ''submsg size changed'' (c3, s3))
                        else Some (status, c3, s3))))"

definition pb_enc_submessage :: "pb_env \<Rightarrow> pb_encode_rec \<Rightarrow> pb_field_t \<Rightarrow> ptr \<Rightarrow> unit oproc" where
  "pb_enc_submessage env rec fld src =
     (if fptr fld = NULL then liftP (PB_RETURN_ERROR_o ''invalid field descriptor'')
      else pb_encode_submessage rec (fields_at env (fptr fld)) src)"

text \<open>The table \<open>PB_ENCODERS\<close>; the entry for extensions is null.\<close>

definition PB_ENCODERS :: "pb_env \<Rightarrow> pb_encode_rec \<Rightarrow> pb_type_t \<Rightarrow> pb_field_t \<Rightarrow> ptr \<Rightarrow> unit oproc" where
  "PB_ENCODERS env rec lt fld src =
     (if lt = PB_LTYPE_VARINT then liftP (pb_enc_varint fld src)
      else if lt = PB_LTYPE_UVARINT then liftP (pb_enc_uvarint fld src)
      else if lt = PB_LTYPE_SVARINT then liftP (pb_enc_svarint fld src)
      else if lt = PB_LTYPE_FIXED32 then liftP (pb_enc_fixed32 fld src)
      else if lt = PB_LTYPE_FIXED64 then liftP (pb_enc_fixed64 fld src)
      else if lt = PB_LTYPE_BYTES then liftP (pb_enc_bytes fld src)
      else if lt = PB_LTYPE_STRING then liftP (pb_enc_string fld src)
      else if lt = PB_LTYPE_SUBMESSAGE then pb_enc_submessage env rec fld src
      else if lt = PB_LTYPE_FIXED_LENGTH_BYTES then liftP (pb_enc_fixed_length_bytes fld src)
      else stuckP)"

section \<open>Arrays\<close>

text \<open>
  The three loops of \<open>encode_array\<close>: the sizing loop and the writing loop of a packed
  array are the same loop on different streams; in an unpacked array every item has
  its tag, and strings and bytes of a pointer field are reached through one more pointer.
\<close>

primrec encode_items :: "(pb_field_t \<Rightarrow> ptr \<Rightarrow> unit oproc) \<Rightarrow> pb_field_t \<Rightarrow> nat \<Rightarrow> ptr \<Rightarrow> unit oproc" where
  "encode_items func fld 0 p = liftP (retC ())"
| "encode_items func fld (Suc n) p =
     bindP (func fld p) (\<lambda>_. encode_items func fld n (p + ucast (data_size fld)))"

primrec encode_unpacked :: "(pb_field_t \<Rightarrow> ptr \<Rightarrow> unit oproc) \<Rightarrow> pb_field_t \<Rightarrow> nat \<Rightarrow> ptr \<Rightarrow> unit oproc" where
  "encode_unpacked func fld 0 p = liftP (retC ())"
| "encode_unpacked func fld (Suc n) p =
     bindP (liftP (pb_encode_tag_for_field fld)) (\<lambda>_.
     bindP (\<lambda>(c, s).
        if PB_ATYPE (ftype fld) = PB_ATYPE_POINTER \<and>
           (PB_LTYPE (ftype fld) = PB_LTYPE_STRING \<or> PB_LTYPE (ftype fld) = PB_LTYPE_BYTES)
        then func fld (load64 (hmem c) p) (c, s)
        else func fld p (c, s)) (\<lambda>_.
     encode_unpacked func fld n (p + ucast (data_size fld))))"

definition encode_array ::
  "(pb_field_t \<Rightarrow> ptr \<Rightarrow> unit oproc) \<Rightarrow> pb_field_t \<Rightarrow> ptr \<Rightarrow> pb_size_t \<Rightarrow> unit oproc" where
  "encode_array func fld data count =
     (if count = 0 then liftP (retC ())
      else if PB_ATYPE (ftype fld) \<noteq> PB_ATYPE_POINTER \<and> count > array_size fld
      then liftP (PB_RETURN_ERROR_o ''array max size exceeded'')
      else if PB_LTYPE (ftype fld) \<le> PB_LTYPE_LAST_PACKABLE
      then
        bindP (liftP (pb_encode_tag PB_WT_STRING (ftag fld))) (\<lambda>_ (c, s).
          let packed = (\<lambda>sz st.
                bindP (liftP (pb_encode_varint sz)) (\<lambda>_ (c', s').
                  if ocallback s' = None then Some (pb_write [] sz (c', s'))
                  else encode_items func fld (unat count) data (c', s')) st)
          in if PB_LTYPE (ftype fld) = PB_LTYPE_FIXED32 then packed (4 * ucast count) (c, s)
             else if PB_LTYPE (ftype fld) = PB_LTYPE_FIXED64 then packed (8 * ucast count) (c, s)
             else (case encode_items func fld (unat count) data (c, PB_OSTREAM_SIZING) of
                     None \<Rightarrow> None
                   | Some (None, c', _) \<Rightarrow> Some (None, c', s)
                   | Some (Some _, c', sizestream) \<Rightarrow> packed (bytes_written sizestream) (c', s)))
      else encode_unpacked func fld (unat count) data)"

section \<open>The proto3 default check\<close>

text \<open>
  \<open>pb_check_proto3_default_value\<close> only reads memory.  \<open>rec\<close> is the check of a field
  of a submessage; \<open>all_default\<close> is the loop over its fields.
\<close>

function all_default :: "(pb_field_t \<Rightarrow> ptr \<Rightarrow> bool option) \<Rightarrow> pb_field_iter_t \<Rightarrow> bool option" where
  "all_default rec iter =
     (case rec (iter_field iter) (pData iter) of
        None \<Rightarrow> None
      | Some False \<Rightarrow> Some False
      | Some True \<Rightarrow>
          (case pb_field_iter_next iter of
             (again, iter') \<Rightarrow>
               if again then all_default rec iter' else Some True))"
  by pat_completeness auto
termination all_default
  by (relation "measure (\<lambda>(_, iter). length (istart iter) - ipos iter)")
     (auto dest!: pb_field_iter_next_measure)

declare all_default.simps [simp del]

definition bytes_all_zero :: "mem \<Rightarrow> ptr \<Rightarrow> nat \<Rightarrow> bool" where
  "bytes_all_zero m p n \<longleftrightarrow> list_all (\<lambda>b. b = 0) (read_bytes m p n)"

definition proto3_default_body ::
  "pb_env \<Rightarrow> (pb_field_t \<Rightarrow> ptr \<Rightarrow> bool option) \<Rightarrow> mem \<Rightarrow> pb_field_t \<Rightarrow> ptr \<Rightarrow> bool option" where
  "proto3_default_body env rec m fld data =
     (let type = ftype fld;
          psize = data + scast (size_offset fld);
          scalar = Some (bytes_all_zero m data (unat (data_size fld)))
      in if PB_HTYPE type = PB_HTYPE_REQUIRED then Some False
         else if PB_HTYPE type = PB_HTYPE_REPEATED then Some (load32 m psize = 0)
         else if PB_HTYPE type = PB_HTYPE_ONEOF then Some (load32 m psize = 0)
         else if PB_HTYPE type = PB_HTYPE_OPTIONAL \<and> size_offset fld \<noteq> 0
         then Some (m psize = 0)
         else if PB_ATYPE type = PB_ATYPE_STATIC
         then
           if PB_LTYPE type = PB_LTYPE_BYTES then Some (load32 m data = 0)
           else if PB_LTYPE type = PB_LTYPE_STRING then Some (m data = 0)
           else if PB_LTYPE type = PB_LTYPE_FIXED_LENGTH_BYTES then Some (data_size fld = 0)
           else if PB_LTYPE type = PB_LTYPE_SUBMESSAGE
           then
             (case pb_field_iter_begin (fields_at env (fptr fld)) data of
                (nonempty, iter) \<Rightarrow> if nonempty then all_default rec iter else Some True)
           else scalar
         else scalar)"

primrec pb_check_proto3_default_value ::
  "pb_env \<Rightarrow> nat \<Rightarrow> mem \<Rightarrow> pb_field_t \<Rightarrow> ptr \<Rightarrow> bool option" where
  "pb_check_proto3_default_value env 0 m fld data = None"
| "pb_check_proto3_default_value env (Suc n) m fld data =
     proto3_default_body env (pb_check_proto3_default_value env n m) m fld data"

section \<open>Fields\<close>

text \<open>
  \<open>encode_basic_field\<close>.  The local \<open>implicit_has\<close> and the \<open>pSize\<close> that may point at it
  are a value: \<open>has_bool\<close> and \<open>has_count\<close> are what a read through \<open>pSize\<close> as
  \<open>bool\<close> and as \<open>pb_size_t\<close> gives.  A read as \<open>pb_size_t\<close> happens only where
  \<open>size_offset\<close> is not 0, but for a oneof, whose \<open>pSize\<close> is never in its data.
\<close>

definition encode_basic_field ::
  "pb_env \<Rightarrow> nat \<Rightarrow> pb_encode_rec \<Rightarrow> pb_field_t \<Rightarrow> ptr \<Rightarrow> unit oproc" where
  "encode_basic_field env n rec fld data = (\<lambda>(c, s).
     let m = hmem c;
         type = ftype fld;
         func = PB_ENCODERS env rec (PB_LTYPE type);
         psize = data + scast (size_offset fld);
         is_ptr = (PB_ATYPE type = PB_ATYPE_POINTER);
         data' = (if is_ptr then load64 m data else data);
         implicit0 =
           (if size_offset fld \<noteq> 0 then Some True
            else if PB_HTYPE type = PB_HTYPE_OPTIONAL
            then map_option Not (pb_check_proto3_default_value env n m fld data)
            else Some True)
     in case implicit0 of
          None \<Rightarrow> None
        | Some has0 \<Rightarrow>
            let implicit_has = (if is_ptr then data' \<noteq> NULL else has0);
                has_bool = (if size_offset fld \<noteq> 0 then m psize \<noteq> 0 else implicit_has);
                has_count = (if size_offset fld \<noteq> 0 then load32 m psize
                             else of_bool implicit_has);
                tag_and_data =
                  bindP (liftP (pb_encode_tag_for_field fld)) (\<lambda>_. func fld data')
            in if PB_HTYPE type = PB_HTYPE_REQUIRED
               then if data' = NULL
                    then Some (PB_RETURN_ERROR_o ''missing required field'' (c, s))
                    else tag_and_data (c, s)
               else if PB_HTYPE type = PB_HTYPE_OPTIONAL
               then if has_bool then tag_and_data (c, s) else Some (Some (), c, s)
               else if PB_HTYPE type = PB_HTYPE_REPEATED
               then encode_array func fld data'
                      (if size_offset fld \<noteq> 0 then load32 m psize else array_size fld) (c, s)
               else if has_count = ftag fld then tag_and_data (c, s)
               else Some (Some (), c, s))"

definition encode_callback_field :: "pb_env \<Rightarrow> pb_field_t \<Rightarrow> ptr \<Rightarrow> unit ofun" where
  "encode_callback_field env fld data = (\<lambda>(c, s).
     if cb_func (hmem c) data \<noteq> NULL
     then (case encode_fn env (cb_func (hmem c) data) fld (cb_arg data) (c, s) of
             (None, st) \<Rightarrow> PB_RETURN_ERROR_o ''callback error'' st
           | (Some _, st) \<Rightarrow> (Some (), st))
     else (Some (), c, s))"

definition encode_field :: "pb_env \<Rightarrow> nat \<Rightarrow> pb_encode_rec \<Rightarrow> pb_field_t \<Rightarrow> ptr \<Rightarrow> unit oproc" where
  "encode_field env n rec fld data =
     (if PB_ATYPE (ftype fld) = PB_ATYPE_STATIC \<or> PB_ATYPE (ftype fld) = PB_ATYPE_POINTER
      then encode_basic_field env n rec fld data
      else if PB_ATYPE (ftype fld) = PB_ATYPE_CALLBACK
      then liftP (encode_callback_field env fld data)
      else liftP (PB_RETURN_ERROR_o ''invalid field type''))"

section \<open>Extensions\<close>

definition default_extension_encoder :: "pb_env \<Rightarrow> nat \<Rightarrow> pb_encode_rec \<Rightarrow> ptr \<Rightarrow> unit oproc" where
  "default_extension_encoder env n rec extension = (\<lambda>(c, s).
     let m = hmem c;
         fld = field_entry (fields_at env (extt_arg m (ext_type m extension))) 0
     in if PB_ATYPE (ftype fld) = PB_ATYPE_POINTER
        then encode_field env n rec fld (ext_dest extension) (c, s)
        else encode_field env n rec fld (load64 m (ext_dest extension)) (c, s))"

text \<open>The list of extensions lives in memory and may be cyclic, so its loop has fuel too.\<close>

primrec extension_loop :: "pb_env \<Rightarrow> nat \<Rightarrow> pb_encode_rec \<Rightarrow> nat \<Rightarrow> ptr \<Rightarrow> unit oproc" where
  "extension_loop env n rec 0 extension = stuckP"
| "extension_loop env n rec (Suc k) extension =
     (if extension = NULL then liftP (retC ())
      else
        bindP (\<lambda>(c, s).
          let enc = extt_encode (hmem c) (ext_type (hmem c) extension) in
          if enc \<noteq> NULL then Some (ext_encode_fn env enc extension (c, s))
          else default_extension_encoder env n rec extension (c, s)) (\<lambda>_ (c, s).
        extension_loop env n rec k (ext_next (hmem c) extension) (c, s)))"

definition encode_extension_field :: "pb_env \<Rightarrow> nat \<Rightarrow> pb_encode_rec \<Rightarrow> ptr \<Rightarrow> unit oproc" where
  "encode_extension_field env n rec data = (\<lambda>(c, s).
     extension_loop env n rec n (load64 (hmem c) data) (c, s))"

section \<open>Messages\<close>

function encode_fields :: "pb_env \<Rightarrow> nat \<Rightarrow> pb_encode_rec \<Rightarrow> pb_field_iter_t \<Rightarrow> unit oproc" where
  "encode_fields env n rec iter st =
     (let fld = iter_field iter in
      case (if PB_LTYPE (ftype fld) = PB_LTYPE_EXTENSION
            then encode_extension_field env n rec (pData iter) st
            else encode_field env n rec fld (pData iter) st) of
        None \<Rightarrow> None
      | Some (None, st') \<Rightarrow> Some (None, st')
      | Some (Some _, st') \<Rightarrow>
          (case pb_field_iter_next iter of
             (again, iter') \<Rightarrow> if again then encode_fields env n rec iter' st' else Some (Some (), st')))"
  by pat_completeness auto
termination encode_fields
  by (relation "measure (\<lambda>(_, _, _, iter, _). length (istart iter) - ipos iter)")
     (auto dest!: pb_field_iter_next_measure)

declare encode_fields.simps [simp del]

definition pb_encode_body :: "pb_env \<Rightarrow> nat \<Rightarrow> pb_encode_rec \<Rightarrow> pb_field_t list \<Rightarrow> ptr \<Rightarrow> unit oproc" where
  "pb_encode_body env n rec flds src_struct st =
     (case pb_field_iter_begin flds src_struct of
        (nonempty, iter) \<Rightarrow>
          if nonempty then encode_fields env n rec iter st else Some (Some (), st))"

primrec pb_encode :: "pb_env \<Rightarrow> nat \<Rightarrow> pb_field_t list \<Rightarrow> ptr \<Rightarrow> unit oproc" where
  "pb_encode env 0 flds src_struct = stuckP"
| "pb_encode env (Suc n) flds src_struct = pb_encode_body env n (pb_encode env n) flds src_struct"

definition pb_encode_delimited :: "pb_env \<Rightarrow> nat \<Rightarrow> pb_field_t list \<Rightarrow> ptr \<Rightarrow> unit oproc" where
  "pb_encode_delimited env n flds src_struct = pb_encode_submessage (pb_encode env n) flds src_struct"

definition pb_encode_nullterminated :: "pb_env \<Rightarrow> nat \<Rightarrow> pb_field_t list \<Rightarrow> ptr \<Rightarrow> unit oproc" where
  "pb_encode_nullterminated env n flds src_struct =
     bindP (pb_encode env n flds src_struct) (\<lambda>_. liftP (pb_write [0] 1))"

definition pb_get_encoded_size :: "pb_env \<Rightarrow> nat \<Rightarrow> pb_field_t list \<Rightarrow> ptr \<Rightarrow> cstate \<Rightarrow> (size_t option \<times> cstate) option" where
  "pb_get_encoded_size env n flds src_struct c =
     (case pb_encode env n flds src_struct (c, PB_OSTREAM_SIZING) of
        None \<Rightarrow> None
      | Some (None, c', _) \<Rightarrow> Some (None, c')
      | Some (Some _, c', stream) \<Rightarrow> Some (Some (bytes_written stream), c'))"

end
