(* ===== verification/Pb_Total.thy ===== *)
theory Pb_Total
  imports Pb_Decode Pb_Encode
begin

text \<open>
  nanopb returns.  The recursive functions of the decoder and the encoder were given
  fuel; here a bound is computed from the message type and the input for which the
  fuel does not run out, for messages without extensions whose field types nest
  finitely and whose callbacks make progress.
\<close>

section \<open>Message types that nest finitely\<close>

text \<open>
  A field that is no extension and whose type has an entry in the dispatch tables; a
  repeated pointer field has items of some size.
\<close>

definition plain :: "pb_field_t \<Rightarrow> bool" where
  "plain fld \<longleftrightarrow> PB_LTYPE (ftype fld) \<le> PB_LTYPE_FIXED_LENGTH_BYTES \<and>
     PB_LTYPE (ftype fld) \<noteq> PB_LTYPE_EXTENSION \<and>
     (PB_ATYPE (ftype fld) = PB_ATYPE_POINTER \<longrightarrow> data_size fld \<noteq> 0)"

text \<open>\<open>ranked env d flds\<close>: submessages, embedded or by pointer, nest at most \<open>d\<close> deep.\<close>

primrec ranked :: "pb_env \<Rightarrow> nat \<Rightarrow> pb_field_t list \<Rightarrow> bool" where
  "ranked env 0 flds \<longleftrightarrow> False"
| "ranked env (Suc d) flds \<longleftrightarrow> (\<forall>fld \<in> set flds. plain fld \<and>
     (PB_LTYPE (ftype fld) = PB_LTYPE_SUBMESSAGE \<longrightarrow> ranked env d (fields_at env (fptr fld))))"

text \<open>A callback that reports success has read something, or there was nothing to read.\<close>

definition callbacks_progress :: "pb_env \<Rightarrow> bool" where
  "callbacks_progress env \<longleftrightarrow> (\<forall>f fld arg c s x c' s'. decode_fn env f fld arg (c, s) = (Some x, c', s') \<longrightarrow>
     unat (bytes_left s') \<le> unat (bytes_left s) - 1)"

lemma plain_last [simp]: "plain PB_LAST_FIELD"
  by (simp add: plain_def PB_LAST_FIELD_def pb_type_defs)

lemma iter_field_cases: "iter_field iter \<in> set (istart iter) \<or> iter_field iter = PB_LAST_FIELD"
  by (simp add: iter_field_def field_entry_def)

lemma ranked_field:
  assumes "ranked env d (istart iter)"
  shows "plain (iter_field iter)"
    and "PB_LTYPE (ftype (iter_field iter)) = PB_LTYPE_SUBMESSAGE \<Longrightarrow>
      \<exists>d'. d = Suc d' \<and> ranked env d' (fields_at env (fptr (iter_field iter)))"
proof -
  have last: "PB_LTYPE (ftype PB_LAST_FIELD) \<noteq> PB_LTYPE_SUBMESSAGE"
    by (simp add: PB_LAST_FIELD_def pb_type_defs)
  obtain d' where d: "d = Suc d'" using assms by (cases d) simp_all
  with assms iter_field_cases [of iter] show "plain (iter_field iter)" by auto
  show "\<exists>d'. d = Suc d' \<and> ranked env d' (fields_at env (fptr (iter_field iter)))"
    if "PB_LTYPE (ftype (iter_field iter)) = PB_LTYPE_SUBMESSAGE"
    using that assms d last iter_field_cases [of iter] by auto
qed

lemma iter_find_loop_wanted:
  "iter_find_loop n wanted start iter = (found, iter') \<Longrightarrow>
     istart iter' = istart iter \<and> (found \<longrightarrow> wanted (iter_field iter'))"
  by (induction n arbitrary: iter) (auto simp: Let_def split: if_splits)

section \<open>Defaults and release\<close>

lemma message_defaults_loop_total:
  assumes "\<And>it c. istart it = flds \<Longrightarrow> \<exists>c'. rec it c = Some c'" "istart iter = flds"
  shows "\<exists>c'. message_defaults_loop rec iter c = Some c'"
  using assms
proof (induction rec iter c rule: message_defaults_loop.induct)
  case (1 rec iter c)
  obtain c1 where c1: "rec iter c = Some c1" using "1.prems" by blast
  obtain again iter1 where nxt: "pb_field_iter_next iter = (again, iter1)" by fastforce
  have "istart iter1 = flds" using pb_field_iter_next_fields(1) [of iter] nxt "1.prems"(2) by simp
  then have "\<exists>c'. message_defaults_loop rec iter1 c1 = Some c'" if again
    using "1.IH" [OF c1 nxt [symmetric] that] "1.prems"(1) by blast
  then show ?case
    by (subst message_defaults_loop.simps) (simp add: c1 nxt)
qed

lemma message_defaults_total:
  assumes "\<And>it c. istart it = flds \<Longrightarrow> \<exists>c'. rec it c = Some c'"
  shows "\<exists>c'. message_defaults rec flds dest c = Some c'"
  using message_defaults_loop_total [of flds rec "snd (pb_field_iter_begin flds dest)" c] assms
  by (auto simp: message_defaults_def split: prod.splits)

lemma field_default_total:
  "ranked env d (istart iter) \<Longrightarrow> d \<le> n \<Longrightarrow> \<exists>c'. pb_field_set_to_default env n iter c = Some c'"
proof (induction d arbitrary: n iter c)
  case (Suc d)
  then obtain m where m: "n = Suc m" "d \<le> m" by (cases n) auto
  have "\<exists>c'. message_defaults (pb_field_set_to_default env m) (fields_at env (fptr (iter_field iter))) p c1 = Some c'"
    if "PB_LTYPE (ftype (iter_field iter)) = PB_LTYPE_SUBMESSAGE" for p c1
    by (rule message_defaults_total) (use ranked_field(2) [OF Suc.prems(1) that] Suc.IH m(2) in auto)
  moreover have "PB_LTYPE (ftype (iter_field iter)) \<noteq> PB_LTYPE_EXTENSION"
    using ranked_field(1) [OF Suc.prems(1)] by (simp add: plain_def)
  ultimately show ?case by (simp add: m(1) field_default_body_def Let_def)
qed simp

lemma message_default_total:
  "ranked env d flds \<Longrightarrow> d \<le> n \<Longrightarrow> \<exists>c'. pb_message_set_to_defaults env n flds dest c = Some c'"
  unfolding pb_message_set_to_defaults_def
  by (rule message_defaults_total) (use field_default_total in blast)

lemma release_items_total:
  assumes "\<And>item c. \<exists>c'. rel item c = Some c'"
  shows "\<exists>c'. release_items rel k item sz c = Some c'"
proof (induction k arbitrary: item c)
  case (Suc k)
  obtain c1 where "rel item c = Some c1" using assms by blast
  then show ?case using Suc.IH by simp
qed simp

lemma release_field_total:
  "ranked env d (istart iter) \<Longrightarrow> d \<le> n \<Longrightarrow> \<exists>c'. pb_release_single_field env n iter c = Some c'"
proof (induction d arbitrary: n iter c)
  case (Suc d)
  then obtain m where m: "n = Suc m" "d \<le> m" by (cases n) auto
  let ?rel = "message_release (pb_release_single_field env m) (fields_at env (fptr (iter_field iter)))"
  have "\<exists>c'. ?rel item c1 = Some c'"
    if "PB_LTYPE (ftype (iter_field iter)) = PB_LTYPE_SUBMESSAGE" for item c1
  proof -
    have "\<exists>c'. message_defaults (pb_release_single_field env m) (fields_at env (fptr (iter_field iter))) item c1 = Some c'"
      by (rule message_defaults_total) (use ranked_field(2) [OF Suc.prems(1) that] Suc.IH m(2) in auto)
    then show ?thesis by (simp add: message_release_def)
  qed
  then have "\<exists>c'. release_items ?rel k item sz c1 = Some c'"
    if "PB_LTYPE (ftype (iter_field iter)) = PB_LTYPE_SUBMESSAGE" for k item sz c1
    using release_items_total [of ?rel] that by blast
  moreover have "PB_LTYPE (ftype (iter_field iter)) \<noteq> PB_LTYPE_EXTENSION"
    using ranked_field(1) [OF Suc.prems(1)] by (simp add: plain_def)
  ultimately have "\<exists>c'. release_nested env m (pb_release_single_field env m) iter c = Some c'"
    by (simp add: release_nested_def Let_def)
  then show ?case by (auto simp: m(1) release_field_body_def)
qed simp

lemma release_total:
  assumes "ranked env d flds" "d \<le> n"
  shows "\<exists>c'. pb_release env n flds dest c = Some c'"
proof -
  have "\<exists>c'. message_defaults (pb_release_single_field env n) flds dest c = Some c'"
    by (rule message_defaults_total) (use release_field_total assms in blast)
  then show ?thesis by (simp add: pb_release_def message_release_def)
qed

section \<open>Reading never gives bytes back\<close>

abbreviation left :: "cstate \<times> pb_istream_t \<Rightarrow> nat" where
  "left st \<equiv> unat (bytes_left (snd st))"

definition shrinks :: "'a ifun \<Rightarrow> bool" where
  "shrinks f \<longleftrightarrow> (\<forall>st. left (snd (f st)) \<le> left st)"

named_theorems shrink_intros

lemma shrinks_left: "shrinks f \<Longrightarrow> left (snd (f st)) \<le> left st"
  by (cases st) (simp add: shrinks_def)

lemma shrinksD: "shrinks f \<Longrightarrow> f st = (r, st') \<Longrightarrow> left st' \<le> left st"
  by (metis shrinks_def snd_conv)

lemma shrinks_error [shrink_intros]: "shrinks (PB_RETURN_ERROR_i msg)"
  by (simp add: shrinks_def)

lemma shrinks_ret [shrink_intros]: "shrinks (retC x)"
  by (simp add: shrinks_def retC_def)

lemma shrinks_bind [shrink_intros]:
  assumes "shrinks f" "\<And>x. shrinks (g x)"
  shows "shrinks (bindC f g)"
  unfolding shrinks_def
proof
  fix st
  obtain r st' where f: "f st = (r, st')" by (cases "f st")
  note f' = shrinksD [OF assms(1) f]
  show "left (snd (bindC f g st)) \<le> left st"
  proof (cases r)
    case (Some x)
    have "left (snd (g x st')) \<le> left st'" by (rule shrinks_left [OF assms(2)])
    with f f' Some show ?thesis by simp
  qed (use f f' in simp)
qed

lemma shrinks_if [shrink_intros]: "shrinks f \<Longrightarrow> shrinks g \<Longrightarrow> shrinks (if b then f else g)"
  by simp

lemma shrinks_update [shrink_intros]: "shrinks (\<lambda>(c, s). (Some (), f c, s))"
  by (simp add: shrinks_def)

lemma shrinks_pick [shrink_intros]:
  "(\<And>c. shrinks (f c)) \<Longrightarrow> shrinks (\<lambda>(c, s). f c (c, s))"
  by (auto simp: shrinks_def)

lemma istream_callback_shrinks:
  "istream_callback count st = (r, st') \<Longrightarrow> bytes_left (snd st') = bytes_left (snd st)"
  by (cases st; cases st') (auto dest: istream_callback_left)

lemma unat_diff_le: "(y :: size_t) \<le> x \<Longrightarrow> unat (x - y) \<le> unat x"
  by (simp add: unat_sub)

lemma shrinks_read_buf [shrink_intros]: "shrinks (pb_read_buf count)"
  unfolding shrinks_def
proof
  fix st :: "cstate \<times> pb_istream_t"
  obtain c s where st: "st = (c, s)" by fastforce
  obtain r st' where cb: "istream_callback count (c, s) = (r, st')" by (cases "istream_callback count (c, s)")
  have "bytes_left (snd st') = bytes_left s" using istream_callback_shrinks [OF cb] by simp
  then show "left (snd (pb_read_buf count st)) \<le> left st"
    by (cases r; cases st') (auto simp: st pb_read_buf_def cb unat_diff_le not_less)
qed

lemma shrinks_readbyte [shrink_intros]: "shrinks pb_readbyte"
  unfolding shrinks_def
proof
  fix st :: "cstate \<times> pb_istream_t"
  obtain c s where st: "st = (c, s)" by fastforce
  obtain r st' where cb: "istream_callback 1 (c, s) = (r, st')" by (cases "istream_callback 1 (c, s)")
  have "bytes_left (snd st') = bytes_left s" using istream_callback_shrinks [OF cb] by simp
  moreover have "1 \<le> bytes_left s" if "bytes_left s \<noteq> 0" using that by (simp add: word_le_nat_alt unat_gt_0 Suc_le_eq)
  ultimately show "left (snd (pb_readbyte st)) \<le> left st"
    by (cases r; cases st') (auto simp: st pb_readbyte_def cb unat_diff_le)
qed

lemma shrinks_map: "shrinks f \<Longrightarrow> left (snd (map_prod h id (f st))) \<le> left st"
  by (cases st) (simp add: shrinks_def)

lemma shrinks_read_skip [shrink_intros]: "shrinks (pb_read_skip count)"
  unfolding shrinks_def
proof
  fix st show "left (snd (pb_read_skip count st)) \<le> left st"
  proof (induction count st rule: pb_read_skip.induct)
    case (1 count st)
    obtain r st' where rd: "pb_read_buf 16 st = (r, st')" by (cases "pb_read_buf 16 st")
    note le = shrinksD [OF shrinks_read_buf rd]
    show ?case
    proof (cases "count > 16")
      case True
      show ?thesis
      proof (cases r)
        case None
        with True rd le show ?thesis by (subst pb_read_skip.simps) simp
      next
        case (Some bs)
        with "1.IH" [OF True rd [symmetric, unfolded Some]] True rd le show ?thesis
          by (subst pb_read_skip.simps) simp
      qed
    next
      case False
      then show ?thesis by (subst pb_read_skip.simps) (simp add: shrinks_left [OF shrinks_read_buf])
    qed
  qed
qed

lemma shrinks_read_null [shrink_intros]: "shrinks (pb_read_null count)"
  using shrinks_read_skip [of count] shrinks_map [OF shrinks_read_buf]
  by (auto simp: shrinks_def pb_read_null_def split: pb_read_fn.splits)

lemma shrinks_varint32_loop: "left (snd (varint32_loop bitpos result st)) \<le> left st"
proof (induction bitpos result st rule: varint32_loop.induct)
  case (1 bitpos result st)
  obtain r st' where rd: "pb_readbyte st = (r, st')" by (cases "pb_readbyte st")
  note le = shrinksD [OF shrinks_readbyte rd]
  show ?case
  proof (cases r)
    case (Some byte)
    note ih = "1.IH" [OF rd [symmetric, unfolded Some] refl refl refl]
    show ?thesis
      using ih le by (subst varint32_loop.simps) (auto simp: rd Some Let_def)
  qed (use le rd in \<open>subst varint32_loop.simps; simp\<close>)
qed

lemma shrinks_varint32_eof:
  assumes "pb_decode_varint32_eof st = (r, eof, st')"
  shows "left st' \<le> left st" and "r \<noteq> None \<Longrightarrow> left st' < left st"
proof -
  obtain b st1 where rd: "pb_readbyte st = (b, st1)" by (cases "pb_readbyte st")
  note le = shrinksD [OF shrinks_readbyte rd] and lt = pb_readbyte_left(1) [of st _ st1]
  have loop: "left s' \<le> left st1" if "varint32_loop 7 x st1 = (r', s')" for x r' s'
    using shrinks_varint32_loop [of 7 x st1] that by simp
  show "left st' \<le> left st"
    using assms le by (cases b) (auto simp: pb_decode_varint32_eof_def rd split: if_splits prod.splits dest!: loop)
  show "left st' < left st" if "r \<noteq> None"
    using assms that lt by (cases b) (auto simp: pb_decode_varint32_eof_def rd split: if_splits prod.splits dest!: loop)
qed

lemma shrinks_varint32 [shrink_intros]: "shrinks pb_decode_varint32"
  using shrinks_varint32_eof(1) by (fastforce simp: shrinks_def pb_decode_varint32_def split: prod.splits)

lemma varint32_consumes: "pb_decode_varint32 st = (Some v, st') \<Longrightarrow> left st' < left st"
  using shrinks_varint32_eof(2) [of st "Some v"] by (auto simp: pb_decode_varint32_def split: prod.splits)

lemma shrinks_varint_loop: "left (snd (varint_loop bitpos result st)) \<le> left st"
proof (induction bitpos result st rule: varint_loop.induct)
  case (1 bitpos result st)
  obtain r st' where rd: "pb_readbyte st = (r, st')" by (cases "pb_readbyte st")
  note le = shrinksD [OF shrinks_readbyte rd]
  show ?case
  proof (cases "bitpos \<ge> 64 \<or> r = None")
    case True
    then show ?thesis using le rd by (subst varint_loop.simps) auto
  next
    case False
    then obtain byte where r: "r = Some byte" and b: "\<not> bitpos \<ge> 64" by auto
    note ih = "1.IH" [OF b rd [symmetric, unfolded r] refl]
    show ?thesis using ih le b by (subst varint_loop.simps) (auto simp: rd r Let_def)
  qed
qed

lemma shrinks_varint [shrink_intros]: "shrinks pb_decode_varint"
  using shrinks_varint_loop by (simp add: shrinks_def pb_decode_varint_def)

lemma varint_consumes:
  assumes "pb_decode_varint st = (Some v, st')"
  shows "left st' < left st"
proof -
  obtain r st1 where rd: "pb_readbyte st = (r, st1)" by (cases "pb_readbyte st")
  from assms obtain byte where r: "r = Some byte"
    by (cases r) (auto simp: pb_decode_varint_def varint_loop.simps [of 0] rd)
  have loop: "left s' \<le> left st1" if "varint_loop 7 x st1 = (r', s')" for x r' s'
    using shrinks_varint_loop [of 7 x st1] that by simp
  note lt = pb_readbyte_left(1) [OF rd [unfolded r]]
  show ?thesis using assms lt
    by (auto simp: pb_decode_varint_def varint_loop.simps [of 0] rd r Let_def split: if_splits dest!: loop)
qed

lemma shrinks_skip_varint [shrink_intros]: "shrinks pb_skip_varint"
  unfolding shrinks_def
proof
  fix st show "left (snd (pb_skip_varint st)) \<le> left st"
  proof (induction st rule: pb_skip_varint.induct)
    case (1 st)
    obtain r st' where rd: "pb_read_buf 1 st = (r, st')" by (cases "pb_read_buf 1 st")
    note le = shrinksD [OF shrinks_read_buf rd]
    show ?case
    proof (cases r)
      case (Some bs)
      note ih = "1.IH" [OF rd [symmetric, unfolded Some]]
      show ?thesis using ih le by (subst pb_skip_varint.simps) (auto simp: rd Some)
    qed (use le rd in \<open>subst pb_skip_varint.simps; simp\<close>)
  qed
qed

lemma shrinks_raw_varint_loop: "left (snd (raw_varint_loop max_sz sz acc st)) \<le> left st"
proof (induction max_sz sz acc st rule: raw_varint_loop.induct)
  case (1 max_sz sz acc st)
  obtain r st' where rd: "pb_read_buf 1 st = (r, st')" by (cases "pb_read_buf 1 st")
  note le = shrinksD [OF shrinks_read_buf rd]
  show ?case
  proof (cases "Suc sz > max_sz \<or> r = None")
    case True
    then show ?thesis using le rd by (subst raw_varint_loop.simps) auto
  next
    case False
    then obtain bs where r: "r = Some bs" and b: "\<not> Suc sz > max_sz" by auto
    note ih = "1.IH" [OF b rd [symmetric, unfolded r]]
    show ?thesis using ih le b by (subst raw_varint_loop.simps) (auto simp: rd r)
  qed
qed

lemma shrinks_skip_field [shrink_intros]: "shrinks (pb_skip_field wire_type)"
  unfolding pb_skip_field_def pb_skip_string_def by (intro shrink_intros)

lemma shrinks_raw_value [shrink_intros]: "shrinks (read_raw_value wire_type max_sz)"
  unfolding read_raw_value_def
  by (intro shrink_intros) (simp add: shrinks_def shrinks_raw_varint_loop)

section \<open>Functions that return\<close>

text \<open>
  \<open>goes k f P\<close>: with at most \<open>k\<close> bytes left, \<open>f\<close> returns, has given no bytes back, and what it
  returns on success has \<open>P\<close>.
\<close>

definition goes :: "nat \<Rightarrow> 'a iproc \<Rightarrow> ('a \<Rightarrow> bool) \<Rightarrow> bool" where
  "goes k f P \<longleftrightarrow> (\<forall>c s. unat (bytes_left s) \<le> k \<longrightarrow>
     (\<exists>r c' s'. f (c, s) = Some (r, c', s') \<and> unat (bytes_left s') \<le> unat (bytes_left s) \<and>
        (\<forall>x. r = Some x \<longrightarrow> P x)))"

named_theorems goes_intros

lemma goesD:
  assumes "goes k f P" "unat (bytes_left s) \<le> k"
  obtains r c' s' where "f (c, s) = Some (r, c', s')" "unat (bytes_left s') \<le> unat (bytes_left s)"
    "\<And>x. r = Some x \<Longrightarrow> P x"
  using assms unfolding goes_def by blast

lemma goesI:
  assumes "\<And>c s. unat (bytes_left s) \<le> k \<Longrightarrow> \<exists>r c' s'. f (c, s) = Some (r, c', s') \<and>
    unat (bytes_left s') \<le> unat (bytes_left s) \<and> (\<forall>x. r = Some x \<longrightarrow> P x)"
  shows "goes k f P"
  using assms by (simp add: goes_def)

lemma goes_lift [goes_intros]: "shrinks f \<Longrightarrow> goes k (liftP f) (\<lambda>_. True)"
proof (rule goesI)
  fix c and s :: pb_istream_t assume "shrinks f"
  obtain r c' s' where f: "f (c, s) = (r, c', s')" by (metis prod.exhaust)
  with shrinksD [OF \<open>shrinks f\<close> f]
  show "\<exists>r c' s'. liftP f (c, s) = Some (r, c', s') \<and> unat (bytes_left s') \<le> unat (bytes_left s) \<and>
      (\<forall>x. r = Some x \<longrightarrow> True)" by (simp add: liftP_def)
qed

lemma goes_ret [goes_intros]: "P x \<Longrightarrow> goes k (liftP (retC x)) P"
  by (rule goesI) (simp add: liftP_def retC_def)

lemma goes_error [goes_intros]: "goes k (liftP (PB_RETURN_ERROR_i msg)) P"
  by (rule goesI) (simp add: liftP_def PB_RETURN_ERROR_i_def)

lemma goes_if [goes_intros]: "(b \<Longrightarrow> goes k f P) \<Longrightarrow> (\<not> b \<Longrightarrow> goes k g P) \<Longrightarrow> goes k (if b then f else g) P"
  by simp

lemma goes_weaken: "goes k f P \<Longrightarrow> j \<le> k \<Longrightarrow> (\<And>x. P x \<Longrightarrow> Q x) \<Longrightarrow> goes j f Q"
  unfolding goes_def by (meson order_trans)

lemma goes_bind:
  assumes f: "goes k f P" and g: "\<And>x. P x \<Longrightarrow> goes k (g x) Q"
  shows "goes k (bindP f g) Q"
proof (rule goesI)
  fix c and s :: pb_istream_t assume k: "unat (bytes_left s) \<le> k"
  obtain r c' s' where 1: "f (c, s) = Some (r, c', s')" "unat (bytes_left s') \<le> unat (bytes_left s)"
    "\<And>x. r = Some x \<Longrightarrow> P x" by (rule goesD [OF f k, of c]) blast
  show "\<exists>r c' s'. bindP f g (c, s) = Some (r, c', s') \<and> unat (bytes_left s') \<le> unat (bytes_left s) \<and>
      (\<forall>x. r = Some x \<longrightarrow> Q x)"
  proof (cases r)
    case (Some x)
    have "unat (bytes_left s') \<le> k" using 1(2) k by simp
    with g [OF 1(3) [OF Some]] obtain r2 c2 s2 where "g x (c', s') = Some (r2, c2, s2)"
      "unat (bytes_left s2) \<le> unat (bytes_left s')" "\<And>x. r2 = Some x \<Longrightarrow> Q x" by (rule goesD) blast
    with 1 Some show ?thesis by simp
  qed (use 1 in simp)
qed

text \<open>Reading a substream: it has fewer bytes than the stream had, and the stream keeps the rest.\<close>

lemma substream_left:
  assumes "pb_make_string_substream (c, s) = (Some sub, c', s')"
  shows "unat (bytes_left sub) < unat (bytes_left s)" "unat (bytes_left s') \<le> unat (bytes_left s)"
proof -
  from assms obtain sz c1 s1 where v: "pb_decode_varint32 (c, s) = (Some sz, c1, s1)"
    and r: "sub = s1\<lparr>bytes_left := ucast sz\<rparr>" "s' = s1\<lparr>bytes_left := bytes_left s1 - ucast sz\<rparr>"
      "\<not> bytes_left s1 < ucast sz"
    unfolding pb_make_string_substream_def by (rule bindC_SomeE) (auto simp: PB_RETURN_ERROR_i_def split: if_splits)
  have lt: "unat (bytes_left s1) < unat (bytes_left s)" using varint32_consumes [OF v] by simp
  have le: "(ucast sz :: size_t) \<le> bytes_left s1" using r(3) by simp
  then have "unat (ucast sz :: size_t) \<le> unat (bytes_left s1)" by (simp add: word_le_nat_alt)
  with lt show "unat (bytes_left sub) < unat (bytes_left s)" unfolding r(1) by simp
  show "unat (bytes_left s') \<le> unat (bytes_left s)" unfolding r(2) using unat_diff_le [OF le] lt by simp
qed

lemma shrinks_substream: "shrinks pb_make_string_substream"
  unfolding pb_make_string_substream_def
proof (intro shrinks_bind shrinks_varint32)
  show "shrinks (\<lambda>(c, s). if bytes_left s < ucast sz then PB_RETURN_ERROR_i ''parent stream too short'' (c, s)
      else (Some (s\<lparr>bytes_left := ucast sz\<rparr>), c, s\<lparr>bytes_left := bytes_left s - ucast sz\<rparr>))" for sz :: u32
    by (auto simp: shrinks_def PB_RETURN_ERROR_i_def not_less unat_diff_le)
qed

lemma goes_substream:
  assumes "\<And>sub c s. unat (bytes_left sub) < k \<Longrightarrow> \<exists>r c' s'. h sub (c, s) = Some (r, c', s') \<and>
    bytes_left s' = bytes_left s \<and> (\<forall>x. r = Some x \<longrightarrow> P x)"
  shows "goes k (bindP (liftP pb_make_string_substream) h) P"
proof (rule goesI)
  fix c and s :: pb_istream_t assume k: "unat (bytes_left s) \<le> k"
  obtain r c1 s1 where mk: "pb_make_string_substream (c, s) = (r, c1, s1)" by (metis prod.exhaust)
  have le: "unat (bytes_left s1) \<le> unat (bytes_left s)" using shrinksD [OF shrinks_substream mk] by simp
  show "\<exists>r c' s'. bindP (liftP pb_make_string_substream) h (c, s) = Some (r, c', s') \<and>
      unat (bytes_left s') \<le> unat (bytes_left s) \<and> (\<forall>x. r = Some x \<longrightarrow> P x)"
  proof (cases r)
    case (Some sub)
    have "unat (bytes_left sub) < k" using substream_left(1) [OF mk [unfolded Some]] k by simp
    from assms [OF this, of c1 s1] obtain r2 c2 s2 where "h sub (c1, s1) = Some (r2, c2, s2)"
      "bytes_left s2 = bytes_left s1" "\<forall>x. r2 = Some x \<longrightarrow> P x" by blast
    with mk Some le show ?thesis by (simp add: bindP_def liftP_def)
  qed (use mk le in \<open>simp add: bindP_def liftP_def\<close>)
qed

lemma close_with_left: "\<exists>r c' s'. close_with status sub (c, s) = (r, c', s') \<and> bytes_left s' = bytes_left s"
  by (auto simp: close_with_def pb_close_string_substream_def split: prod.splits option.splits)

lemma error_left: "\<exists>c' s'. PB_RETURN_ERROR_i msg (c, s) = (None, c', s') \<and> bytes_left s' = bytes_left s"
  by (simp add: PB_RETURN_ERROR_i_def)

section \<open>Field decoders return\<close>

lemma store_signed_shrinks [shrink_intros]: "shrinks (store_signed fld dest v)"
  by (auto simp: shrinks_def store_signed_def PB_RETURN_ERROR_i_def)

lemma store_unsigned_shrinks [shrink_intros]: "shrinks (store_unsigned fld dest v)"
  by (auto simp: shrinks_def store_unsigned_def PB_RETURN_ERROR_i_def)

lemma allocate_field_shrinks [shrink_intros]: "shrinks (allocate_field data data_sz array_sz)"
  by (auto simp: shrinks_def allocate_field_def PB_RETURN_ERROR_i_def Let_def split: prod.splits)

lemma allocate_field_left:
  "\<exists>r c' s'. allocate_field data data_sz array_sz (c, s) = (r, c', s') \<and> bytes_left s' = bytes_left s"
  by (auto simp: allocate_field_def PB_RETURN_ERROR_i_def Let_def split: prod.splits)

lemma read_mem_shrinks [shrink_intros]: "shrinks (pb_read_mem buf count)"
  unfolding pb_read_mem_def
  by (intro shrinks_bind shrinks_read_buf) (simp add: shrinks_def)

lemma read_string_shrinks [shrink_intros]: "shrinks (read_string dest sz)"
  unfolding shrinks_def
proof
  fix st show "left (snd (read_string dest sz st)) \<le> left st"
    using shrinksD [OF read_mem_shrinks, of dest "ucast sz" st]
    by (auto simp: read_string_def split: prod.splits)
qed

lemma svarint_shrinks [shrink_intros]: "shrinks pb_decode_svarint"
  unfolding pb_decode_svarint_def by (intro shrink_intros)

definition consumes :: "'a ifun \<Rightarrow> bool" where
  "consumes f \<longleftrightarrow> (\<forall>st x st'. f st = (Some x, st') \<longrightarrow> left st' < left st)"

lemma consumesD: "consumes f \<Longrightarrow> f st = (Some x, st') \<Longrightarrow> left st' < left st"
  unfolding consumes_def by blast

lemma consumes_bind:
  assumes "consumes f" "\<And>x. shrinks (g x)"
  shows "consumes (bindC f g)"
  unfolding consumes_def
proof (intro allI impI)
  fix st y st2 assume "bindC f g st = (Some y, st2)"
  then obtain x st1 where f: "f st = (Some x, st1)" and g: "g x st1 = (Some y, st2)" by (rule bindC_SomeE)
  from consumesD [OF assms(1) f] shrinksD [OF assms(2) g] show "left st2 < left st" by simp
qed

lemma consumes_read_buf: "count \<noteq> 0 \<Longrightarrow> consumes (pb_read_buf count)"
  unfolding consumes_def
proof (intro allI impI)
  fix st bs st' assume "count \<noteq> 0" and rd: "pb_read_buf count st = (Some bs, st')"
  from pb_read_buf_left [OF rd] have "left st' = left st - unat count" "unat count \<le> left st"
    by (simp_all add: unat_sub word_le_nat_alt)
  moreover have "unat count > 0" using \<open>count \<noteq> 0\<close> by (simp add: unat_gt_0)
  ultimately show "left st' < left st" by simp
qed

lemma consumes_varint: "consumes pb_decode_varint"
  unfolding consumes_def using varint_consumes by blast

lemma packable_decoder:
  assumes "lt \<le> PB_LTYPE_LAST_PACKABLE"
  obtains g where "PB_DECODERS env rec lt = (\<lambda>fld dest. liftP (g fld dest))"
    "\<And>fld dest. shrinks (g fld dest)" "\<And>fld dest. consumes (g fld dest)"
proof -
  have sv: "consumes pb_decode_svarint"
    unfolding pb_decode_svarint_def by (intro consumes_bind consumes_varint shrink_intros)
  have f32: "shrinks pb_decode_fixed32" "consumes pb_decode_fixed32"
    unfolding pb_decode_fixed32_def by (intro shrink_intros consumes_bind consumes_read_buf; simp)+
  have f64: "shrinks pb_decode_fixed64" "consumes pb_decode_fixed64"
    unfolding pb_decode_fixed64_def by (intro shrink_intros consumes_bind consumes_read_buf; simp)+
  have "unat lt \<le> 4" using assms by (simp add: PB_LTYPE_LAST_PACKABLE_def word_le_nat_alt)
  then consider "unat lt = 0" | "unat lt = 1" | "unat lt = 2" | "unat lt = 3" | "unat lt = 4" by linarith
  then show thesis
  proof cases
    case 1
    then have "lt = 0" by (simp add: unat_eq_0)
    then have "PB_DECODERS env rec lt = (\<lambda>fld dest. liftP (pb_dec_varint fld dest))"
      by (intro ext) (simp add: PB_DECODERS_def pb_type_defs)
    then show thesis
      by (rule that; unfold pb_dec_varint_def Let_def; intro consumes_bind consumes_varint shrink_intros)
  next
    case 2
    then have "lt = 1" by (simp add: word_unat_eq_iff)
    then have "PB_DECODERS env rec lt = (\<lambda>fld dest. liftP (pb_dec_uvarint fld dest))"
      by (intro ext) (simp add: PB_DECODERS_def pb_type_defs)
    then show thesis
      by (rule that; unfold pb_dec_uvarint_def; intro consumes_bind consumes_varint shrink_intros)
  next
    case 3
    then have "lt = 2" by (simp add: word_unat_eq_iff)
    then have "PB_DECODERS env rec lt = (\<lambda>fld dest. liftP (pb_dec_svarint fld dest))"
      by (intro ext) (simp add: PB_DECODERS_def pb_type_defs)
    then show thesis
      by (rule that; unfold pb_dec_svarint_def; intro consumes_bind sv shrink_intros)
  next
    case 4
    then have "lt = 3" by (simp add: word_unat_eq_iff)
    then have "PB_DECODERS env rec lt = (\<lambda>fld dest. liftP (pb_dec_fixed32 fld dest))"
      by (intro ext) (simp add: PB_DECODERS_def pb_type_defs)
    then show thesis
      by (rule that; unfold pb_dec_fixed32_def; intro consumes_bind f32 shrink_intros)
  next
    case 5
    then have "lt = 4" by (simp add: word_unat_eq_iff)
    then have "PB_DECODERS env rec lt = (\<lambda>fld dest. liftP (pb_dec_fixed64 fld dest))"
      by (intro ext) (simp add: PB_DECODERS_def pb_type_defs)
    then show thesis
      by (rule that; unfold pb_dec_fixed64_def; intro consumes_bind f64 shrink_intros)
  qed
qed

lemma goes_at: "goes k f P \<Longrightarrow> unat (bytes_left s) \<le> k \<Longrightarrow>
    \<exists>r c' s'. f (c, s) = Some (r, c', s') \<and> unat (bytes_left s') \<le> unat (bytes_left s) \<and> (\<forall>x. r = Some x \<longrightarrow> P x)"
  by (simp add: goes_def)

lemma dec_bytes_shrinks [shrink_intros]: "shrinks (pb_dec_bytes fld dest)"
  unfolding pb_dec_bytes_def Let_def by (intro shrink_intros)

lemma dec_string_shrinks [shrink_intros]: "shrinks (pb_dec_string fld dest)"
  unfolding pb_dec_string_def Let_def by (intro shrink_intros)

lemma dec_fixed_bytes_shrinks [shrink_intros]: "shrinks (pb_dec_fixed_length_bytes fld dest)"
  unfolding pb_dec_fixed_length_bytes_def by (intro shrink_intros)

lemma dec_submessage_goes:
  assumes "\<And>init p. goes (k - 1) (rec init (fields_at env (fptr fld)) p) (\<lambda>_. True)"
  shows "goes k (pb_dec_submessage env rec fld dest) (\<lambda>_. True)"
  unfolding pb_dec_submessage_def
proof (rule goes_substream)
  fix sub :: pb_istream_t and c and s :: pb_istream_t assume sub: "unat (bytes_left sub) < k"
  let ?rec = "rec (PB_HTYPE (ftype fld) = PB_HTYPE_REPEATED) (fields_at env (fptr fld)) dest"
  from sub have "unat (bytes_left sub) \<le> k - 1" by simp
  from goes_at [OF assms this, of "PB_HTYPE (ftype fld) = PB_HTYPE_REPEATED" dest c]
  obtain r c1 sub1 where r: "?rec (c, sub) = Some (r, c1, sub1)" by blast
  obtain r2 c2 s2 where "close_with (r \<noteq> None) sub1 (c1, s) = (r2, c2, s2)" "bytes_left s2 = bytes_left s"
    using close_with_left [of "r \<noteq> None" sub1 c1 s] by blast
  with r error_left [of "''invalid field descriptor''" c s]
  show "\<exists>r' c' s'. (case (c, s) of (c, s) \<Rightarrow>
        if fptr fld = NULL then Some (PB_RETURN_ERROR_i ''invalid field descriptor'' (c, s))
        else (case ?rec (c, sub) of None \<Rightarrow> None
          | Some (status, c', sub') \<Rightarrow> Some (close_with (status \<noteq> None) sub' (c', s)))) = Some (r', c', s') \<and>
      bytes_left s' = bytes_left s \<and> (\<forall>x. r' = Some x \<longrightarrow> True)"
    by auto
qed

lemma decoder_goes:
  assumes "plain fld"
    and "PB_LTYPE (ftype fld) = PB_LTYPE_SUBMESSAGE \<Longrightarrow>
      (\<And>init p. goes (k - 1) (rec init (fields_at env (fptr fld)) p) (\<lambda>_. True))"
  shows "goes k (PB_DECODERS env rec (PB_LTYPE (ftype fld)) fld dest) (\<lambda>_. True)"
proof (cases "PB_LTYPE (ftype fld) \<le> PB_LTYPE_LAST_PACKABLE")
  case True
  then obtain g where g: "PB_DECODERS env rec (PB_LTYPE (ftype fld)) = (\<lambda>fld dest. liftP (g fld dest))"
    "\<And>fld dest. shrinks (g fld dest)" "\<And>fld dest. consumes (g fld dest)"
    by (rule packable_decoder [of _ env rec]) blast
  then show ?thesis by (simp add: goes_lift)
next
  case False
  let ?lt = "PB_LTYPE (ftype fld)"
  have "4 < unat ?lt" "unat ?lt \<le> 9" "unat ?lt \<noteq> 8"
    using False assms(1) unfolding plain_def PB_LTYPE_LAST_PACKABLE_def PB_LTYPE_FIXED_LENGTH_BYTES_def
      PB_LTYPE_EXTENSION_def by (simp_all add: word_le_nat_alt word_unat_eq_iff)
  then consider "unat ?lt = 5" | "unat ?lt = 6" | "unat ?lt = 7" | "unat ?lt = 9" by linarith
  then show ?thesis
  proof cases
    case 1
    then have lt: "?lt = 5" by (simp add: word_unat_eq_iff)
    show ?thesis unfolding lt by (simp add: PB_DECODERS_def pb_type_defs goes_lift dec_bytes_shrinks)
  next
    case 2
    then have lt: "?lt = 6" by (simp add: word_unat_eq_iff)
    show ?thesis unfolding lt by (simp add: PB_DECODERS_def pb_type_defs goes_lift dec_string_shrinks)
  next
    case 3
    then have lt: "?lt = 7" by (simp add: word_unat_eq_iff)
    have "?lt = PB_LTYPE_SUBMESSAGE" unfolding lt by (simp add: PB_LTYPE_SUBMESSAGE_def)
    note sub = dec_submessage_goes [of k rec env fld dest, OF assms(2) [OF this]]
    show ?thesis unfolding lt using sub by (simp add: PB_DECODERS_def pb_type_defs)
  next
    case 4
    then have lt: "?lt = 9" by (simp add: word_unat_eq_iff)
    show ?thesis unfolding lt by (simp add: PB_DECODERS_def pb_type_defs goes_lift dec_fixed_bytes_shrinks)
  qed
qed

lemma liftP_at: "f st = x \<Longrightarrow> liftP f st = Some x"
  by (simp add: liftP_def)

lemma goes_update: "(\<And>c. goes k (\<lambda>(c', s). f (c, s)) P) \<Longrightarrow> goes k (\<lambda>(c, s). f (h c, s)) P"
  by (auto simp: goes_def)

lemma goes_pick: "(\<And>c. goes k (f c) P) \<Longrightarrow> goes k (\<lambda>(c, s). f c (c, s)) P"
  by (auto simp: goes_def)

lemma static_packed_loop_total:
  assumes g: "\<And>fld dest. shrinks (g fld dest)" "\<And>fld dest. consumes (g fld dest)"
  shows "left st < m \<Longrightarrow> \<exists>status c' sub'. static_packed_loop m iter (\<lambda>fld dest. liftP (g fld dest)) st = Some (status, c', sub')"
proof (induction m arbitrary: st)
  case (Suc m)
  obtain c s where st: "st = (c, s)" by (cases st)
  let ?fld = "iter_field iter"
  let ?item = "array_item (pData iter) ?fld (load32 (hmem c) (pSize iter))"
  obtain r c1 s1 where g1: "g ?fld ?item (c, s) = (r, c1, s1)" by (metis prod.exhaust)
  note g2 = liftP_at [of "g ?fld ?item", OF g1]
  show ?case
  proof (cases r)
    case (Some x)
    from consumesD [OF g(2) g1 [unfolded Some]] Suc.prems st have "left (c2, s1) < m" for c2 by simp
    from Suc.IH [OF this] g2 Some show ?thesis by (auto simp: st Let_def)
  qed (use g2 in \<open>auto simp: st Let_def\<close>)
qed simp

lemma static_packed_goes:
  assumes "\<And>fld dest. shrinks (g fld dest)" "\<And>fld dest. consumes (g fld dest)"
  shows "goes k (decode_static_packed iter (\<lambda>fld dest. liftP (g fld dest))) (\<lambda>_. True)"
  unfolding decode_static_packed_def
proof (rule goes_substream)
  fix sub :: pb_istream_t and c and s :: pb_istream_t
  obtain status c1 sub1 where l: "static_packed_loop (Suc (unat (bytes_left sub))) iter
      (\<lambda>fld dest. liftP (g fld dest)) (c, sub) = Some (status, c1, sub1)"
    using static_packed_loop_total [of g "(c, sub)" "Suc (unat (bytes_left sub))" iter] assms
    by (auto simp del: static_packed_loop.simps)
  show "\<exists>r c' s'. (case (c, s) of (c, s) \<Rightarrow>
      case static_packed_loop (Suc (unat (bytes_left sub))) iter (\<lambda>fld dest. liftP (g fld dest)) (c, sub) of
        None \<Rightarrow> None
      | Some (status, c', sub') \<Rightarrow>
          Some (if bytes_left sub' \<noteq> 0 then PB_RETURN_ERROR_i ''array overflow'' (c', s)
                else close_with status sub' (c', s))) = Some (r, c', s') \<and>
      bytes_left s' = bytes_left s \<and> (\<forall>x. r = Some x \<longrightarrow> True)"
    using close_with_left [of status sub1 c1 s] error_left [of "''array overflow''" c1 s]
    by (cases "bytes_left sub1 = 0") (auto simp: l simp del: static_packed_loop.simps)
qed

text \<open>
  The setting of the following lemmas: the iterator is in a message whose fields nest \<open>Suc d\<close> deep,
  and the decoder of submessages returns on fewer bytes.
\<close>

definition setting :: "pb_env \<Rightarrow> nat \<Rightarrow> nat \<Rightarrow> nat \<Rightarrow> pb_decode_rec \<Rightarrow> bool" where
  "setting env d k n rec \<longleftrightarrow> Suc d + k \<le> n \<and> callbacks_progress env \<and>
     (\<forall>flds init p. ranked env d flds \<longrightarrow> goes (k - 1) (rec init flds p) (\<lambda>_. True))"

lemma setting_decoder:
  assumes "setting env d k n rec" "ranked env (Suc d) (istart iter)"
  shows "goes k (PB_DECODERS env rec (PB_LTYPE (ftype (iter_field iter))) (iter_field iter) dest) (\<lambda>_. True)"
proof (rule decoder_goes)
  show "plain (iter_field iter)" by (rule ranked_field(1) [OF assms(2)])
  fix init p assume "PB_LTYPE (ftype (iter_field iter)) = PB_LTYPE_SUBMESSAGE"
  with ranked_field(2) [OF assms(2)] assms(1)
  show "goes (k - 1) (rec init (fields_at env (fptr (iter_field iter))) p) (\<lambda>_. True)"
    by (auto simp: setting_def)
qed

lemma setting_defaults:
  assumes "setting env d k n rec" "ranked env (Suc d) (istart iter)"
    "PB_LTYPE (ftype (iter_field iter)) = PB_LTYPE_SUBMESSAGE"
  shows "\<exists>c'. pb_message_set_to_defaults env n (fields_at env (fptr (iter_field iter))) p c = Some c'"
  using ranked_field(2) [OF assms(2,3)] assms(1) by (auto simp: setting_def intro: message_default_total)

lemma goes_after:
  assumes "\<And>c. goes k (f c) P"
  shows "goes k (\<lambda>(c, s). f c (h c, s)) P"
proof (rule goesI)
  fix c and s :: pb_istream_t assume "unat (bytes_left s) \<le> k"
  from goes_at [OF assms this, of c "h c"]
  show "\<exists>r c' s'. (case (c, s) of (c, s) \<Rightarrow> f c (h c, s)) = Some (r, c', s') \<and>
      unat (bytes_left s') \<le> unat (bytes_left s) \<and> (\<forall>x. r = Some x \<longrightarrow> P x)" by simp
qed

lemma static_item_goes:
  assumes "\<And>dest. goes k (func (iter_field iter) dest) (\<lambda>_. True)"
  shows "goes k (decode_static_item iter func) (\<lambda>_. True)"
proof -
  let ?count = "\<lambda>c. load32 (hmem c) (pSize iter)"
  have "decode_static_item iter func = (\<lambda>(c, s).
      (if ?count c \<ge> array_size (iter_field iter) then liftP (PB_RETURN_ERROR_i ''array overflow'')
       else func (iter_field iter) (array_item (pData iter) (iter_field iter) (?count c)))
        (set32 (pSize iter) (?count c + 1) c, s))"
    by (intro ext) (simp add: decode_static_item_def Let_def liftP_def split: prod.splits)
  then show ?thesis
    by (simp only:) (intro goes_after goes_if goes_error assms)
qed

lemma static_field_goes:
  assumes set: "setting env d k n rec" and rk: "ranked env (Suc d) (istart iter)"
  shows "goes k (decode_static_field env n rec wire_type iter) (\<lambda>_. True)"
proof -
  let ?fld = "iter_field iter"
  let ?type = "ftype ?fld"
  let ?func = "PB_DECODERS env rec (PB_LTYPE ?type)"
  note dec = setting_decoder [OF set rk]
  have packed: "goes k (decode_static_packed iter ?func) (\<lambda>_. True)" if lt: "PB_LTYPE ?type \<le> PB_LTYPE_LAST_PACKABLE"
  proof -
    obtain g where g: "?func = (\<lambda>fld dest. liftP (g fld dest))"
      "\<And>fld dest. shrinks (g fld dest)" "\<And>fld dest. consumes (g fld dest)"
      by (rule packable_decoder [OF lt, of env rec]) blast
    show ?thesis unfolding g(1) by (rule static_packed_goes [OF g(2,3)])
  qed
  note item = static_item_goes [of k ?func iter, OF dec]
  show ?thesis
  proof (rule goesI)
    fix c and s :: pb_istream_t assume s: "unat (bytes_left s) \<le> k"
    let ?goal = "\<lambda>x. \<exists>r c' s'. x = Some (r, c', s') \<and> unat (bytes_left s') \<le> unat (bytes_left s) \<and>
        (\<forall>x. r = Some x \<longrightarrow> True)"
    have func: "?goal (?func ?fld dest (c', s))" for dest c' using goes_at [OF dec s] .
    have oneof: "?goal (case pb_message_set_to_defaults env n (fields_at env (fptr ?fld)) p c1 of
        None \<Rightarrow> None | Some c2 \<Rightarrow> ?func ?fld p (c2, s))" if "PB_LTYPE ?type = PB_LTYPE_SUBMESSAGE" for p c1
      using setting_defaults [OF set rk that, of p c1] func by auto
    have err: "?goal (Some (PB_RETURN_ERROR_i msg (c', s)))" for msg c'
      by (simp add: PB_RETURN_ERROR_i_def)
    show "?goal (decode_static_field env n rec wire_type iter (c, s))"
      unfolding decode_static_field_def Let_def prod.case
      by (simp only: split: if_split)
        (intro conjI impI func oneof err goes_at [OF item s] goes_at [OF packed s]; simp)
  qed
qed

section \<open>Pointer fields\<close>

lemma initialize_total:
  assumes "setting env d k n rec" "ranked env (Suc d) (istart iter)"
  shows "\<exists>c'. initialize_pointer_field env n item iter c = Some c'"
  using setting_defaults [OF assms] by (simp add: initialize_pointer_field_def Let_def)

lemma release_single_total:
  assumes "setting env d k n rec" "ranked env (Suc d) (istart iter)"
  shows "\<exists>c'. pb_release_single_field env n iter c = Some c'"
  using release_field_total [OF assms(2), of n c] assms(1) by (simp add: setting_def)

lemma allocate_goes: "goes k (liftP (allocate_field data data_sz array_sz)) (\<lambda>_. True)"
  by (intro goes_lift allocate_field_shrinks)

text \<open>After storage was allocated: initialise it, then decode into it.\<close>

lemma initialize_goes:
  assumes set: "setting env d k n rec" and rk: "ranked env (Suc d) (istart iter)"
    and dec: "\<And>dest. goes k (func (iter_field iter) dest) (\<lambda>_. True)"
  shows "goes k (\<lambda>(c, s). case initialize_pointer_field env n (item c) iter c of
      None \<Rightarrow> None | Some c2 \<Rightarrow> func (iter_field iter) (dest c2 c) (c2, s)) (\<lambda>_. True)"
proof (rule goesI)
  fix c and s :: pb_istream_t assume s: "unat (bytes_left s) \<le> k"
  obtain c2 where "initialize_pointer_field env n (item c) iter c = Some c2"
    using initialize_total [OF set rk] by blast
  with goes_at [OF dec s]
  show "\<exists>r c' s'. (case (c, s) of (c, s) \<Rightarrow> case initialize_pointer_field env n (item c) iter c of
      None \<Rightarrow> None | Some c2 \<Rightarrow> func (iter_field iter) (dest c2 c) (c2, s)) = Some (r, c', s') \<and>
      unat (bytes_left s') \<le> unat (bytes_left s) \<and> (\<forall>x. r = Some x \<longrightarrow> True)" by simp
qed

lemma pointer_item_goes:
  assumes set: "setting env d k n rec" and rk: "ranked env (Suc d) (istart iter)"
    and dec: "\<And>dest. goes k (func (iter_field iter) dest) (\<lambda>_. True)"
  shows "goes k (decode_pointer_item env n iter func) (\<lambda>_. True)"
proof -
  let ?fld = "iter_field iter" and ?count = "\<lambda>c. load32 (hmem c) (pSize iter)"
  let ?item = "\<lambda>c. array_item (load64 (hmem c) (pData iter)) ?fld (?count c - 1)"
  have "decode_pointer_item env n iter func = (\<lambda>(c, s).
      (if ?count c = PB_SIZE_MAX then liftP (PB_RETURN_ERROR_i ''too many array entries'')
       else (\<lambda>(c', s). bindP (liftP (allocate_field (pData iter) (ucast (data_size ?fld)) (ucast (?count c + 1))))
              (\<lambda>_ (c1, s1). case initialize_pointer_field env n (?item c1) iter c1 of
                  None \<Rightarrow> None | Some c2 \<Rightarrow> func ?fld (?item c1) (c2, s1))
              (set32 (pSize iter) (?count c + 1) c', s))) (c, s))"
    by (intro ext) (auto simp: decode_pointer_item_def Let_def liftP_def bindP_def split: prod.splits option.splits)
  moreover have "goes k (\<lambda>(c', s). bindP (liftP (allocate_field (pData iter) (ucast (data_size ?fld)) sz))
              (\<lambda>_ (c1, s1). case initialize_pointer_field env n (?item c1) iter c1 of
                  None \<Rightarrow> None | Some c2 \<Rightarrow> func ?fld (?item c1) (c2, s1))
              (set32 (pSize iter) cnt c', s)) (\<lambda>_. True)" for sz cnt
    by (rule goes_after) (rule goes_bind [OF allocate_goes], rule initialize_goes [of env d k n rec iter func, OF set rk dec])
  ultimately show ?thesis
    by (simp only:) (rule goes_after [where h = "\<lambda>c. c"], intro goes_if goes_error)
qed

lemma pointer_single_goes:
  assumes set: "setting env d k n rec" and rk: "ranked env (Suc d) (istart iter)"
    and dec: "\<And>dest. goes k (func (iter_field iter) dest) (\<lambda>_. True)"
  shows "goes k (decode_pointer_single env n iter func) (\<lambda>_. True)"
proof (rule goesI)
  fix c and s :: pb_istream_t assume s: "unat (bytes_left s) \<le> k"
  let ?fld = "iter_field iter"
  let ?type = "ftype ?fld"
  obtain c1 where c1: "(if PB_LTYPE ?type = PB_LTYPE_SUBMESSAGE \<and> load64 (hmem c) (pData iter) \<noteq> NULL
           then pb_release_single_field env n iter c else Some c) = Some c1"
    using release_single_total [OF set rk, of c]
    by (cases "PB_LTYPE ?type = PB_LTYPE_SUBMESSAGE \<and> load64 (hmem c) (pData iter) \<noteq> NULL") auto
  let ?c2 = "if PB_HTYPE ?type = PB_HTYPE_ONEOF then set32 (pSize iter) (ftag ?fld) c1 else c1"
  have alloc: "goes k (bindP (liftP (allocate_field (pData iter) (ucast (data_size ?fld)) 1))
      (\<lambda>_ (c3, s3). case initialize_pointer_field env n (load64 (hmem c3) (pData iter)) iter c3 of
         None \<Rightarrow> None | Some c4 \<Rightarrow> func ?fld (load64 (hmem c4) (pData iter)) (c4, s3))) (\<lambda>_. True)"
    by (rule goes_bind [OF allocate_goes], rule initialize_goes [of env d k n rec iter func, OF set rk dec])
  have eq: "(case allocate_field (pData iter) (ucast (data_size ?fld)) 1 (c2, s) of
        (None, st) \<Rightarrow> Some (None, st)
      | (Some _, c3, s3) \<Rightarrow>
          (case initialize_pointer_field env n (load64 (hmem c3) (pData iter)) iter c3 of
             None \<Rightarrow> None | Some c4 \<Rightarrow> func ?fld (load64 (hmem c4) (pData iter)) (c4, s3))) =
      bindP (liftP (allocate_field (pData iter) (ucast (data_size ?fld)) 1))
        (\<lambda>_ (c3, s3). case initialize_pointer_field env n (load64 (hmem c3) (pData iter)) iter c3 of
           None \<Rightarrow> None | Some c4 \<Rightarrow> func ?fld (load64 (hmem c4) (pData iter)) (c4, s3)) (c2, s)" for c2
    by (auto simp: liftP_def bindP_def split: prod.splits option.splits)
  show "\<exists>r c' s'. decode_pointer_single env n iter func (c, s) = Some (r, c', s') \<and>
      unat (bytes_left s') \<le> unat (bytes_left s) \<and> (\<forall>x. r = Some x \<longrightarrow> True)"
    using goes_at [OF dec s, of "pData iter" ?c2] goes_at [OF alloc s, of ?c2]
    unfolding decode_pointer_single_def Let_def prod.case c1 option.case eq
    by (simp only: split: if_split) blast
qed

lemma pointer_packed_loop_total:
  assumes set: "setting env d k n rec" and rk: "ranked env (Suc d) (istart iter)"
    and ptr: "data_size (iter_field iter) \<noteq> 0"
    and g: "\<And>fld dest. shrinks (g fld dest)" "\<And>fld dest. consumes (g fld dest)"
  shows "left st < m \<Longrightarrow> \<exists>status msg c' sub'.
    pointer_packed_loop m env n iter (\<lambda>fld dest. liftP (g fld dest)) sz st = Some ((status, msg), c', sub')"
proof (induction m arbitrary: st sz)
  case (Suc m)
  obtain c s where st: "st = (c, s)" by (cases st)
  let ?fld = "iter_field iter" and ?func = "\<lambda>fld dest. liftP (g fld dest)"
  let ?grow = "ucast (load32 (hmem c) (pSize iter)) + 1 > sz"
  define sz' where "sz' = (if ?grow then sz + ((bytes_left s - 1) div ucast (data_size ?fld) + 1) else sz)"
  obtain r1 c1 s1 where al: "(if ?grow then allocate_field (pData iter) (ucast (data_size ?fld)) sz' (c, s)
      else (Some (), (c, s))) = (r1, c1, s1)" and l1: "bytes_left s1 = bytes_left s"
    using allocate_field_left [of "pData iter" "ucast (data_size ?fld)" sz' c s] by (cases ?grow) auto
  let ?item = "array_item (load64 (hmem c1) (pData iter)) ?fld (load32 (hmem c1) (pSize iter))"
  obtain c2 where c2: "initialize_pointer_field env n ?item iter c1 = Some c2"
    using initialize_total [OF set rk] by blast
  obtain r3 c3 s3 where g3: "g ?fld ?item (c2, s1) = (r3, c3, s3)" by (metis prod.exhaust)
  note f3 = liftP_at [of "g ?fld ?item", OF g3]
  have "left (c4, s3) < m" if "r3 = Some x" for x c4
    using consumesD [OF g(2) g3 [unfolded that]] Suc.prems by (simp add: st l1)
  note ih = Suc.IH [OF this]
  show ?case
  proof (cases "bytes_left s = 0")
    case False
    then show ?thesis
      unfolding pointer_packed_loop.simps st Let_def fst_conv snd_conv al [unfolded sz'_def]
      using ptr ih c2 f3 by (cases r1; cases r3) (auto split: if_splits)
  qed (auto simp: st Let_def)
qed simp

lemma pointer_packed_goes:
  assumes set: "setting env d k n rec" and rk: "ranked env (Suc d) (istart iter)"
    and ptr: "data_size (iter_field iter) \<noteq> 0"
    and g: "\<And>fld dest. shrinks (g fld dest)" "\<And>fld dest. consumes (g fld dest)"
  shows "goes k (decode_pointer_packed env n iter (\<lambda>fld dest. liftP (g fld dest))) (\<lambda>_. True)"
  unfolding decode_pointer_packed_def Let_def
proof (rule goes_pick, rule goes_substream, goal_cases)
  case (1 c0 sub c s)
  let ?loop = "pointer_packed_loop (Suc (unat (bytes_left sub))) env n iter (\<lambda>fld dest. liftP (g fld dest))
      (ucast (load32 (hmem c0) (pSize iter))) (c, sub)"
  obtain status msg c1 sub1 where l: "?loop = Some ((status, msg), c1, sub1)"
    using pointer_packed_loop_total [OF set rk ptr, of g "(c, sub)" "Suc (unat (bytes_left sub))"
        "ucast (load32 (hmem c0) (pSize iter))"] g
    by (auto simp del: pointer_packed_loop.simps)
  have left: "bytes_left (case msg of None \<Rightarrow> s | Some m \<Rightarrow> s\<lparr>ierrmsg := Some m\<rparr>) = bytes_left s"
    by (cases msg) simp_all
  have "\<exists>r c' s'. Some (close_with status sub1 (c1, case msg of None \<Rightarrow> s | Some m \<Rightarrow> s\<lparr>ierrmsg := Some m\<rparr>)) =
      Some (r, c', s') \<and> bytes_left s' = bytes_left s"
    using close_with_left [of status sub1 c1 "case msg of None \<Rightarrow> s | Some m \<Rightarrow> s\<lparr>ierrmsg := Some m\<rparr>"] left by simp
  then show ?case using l by (simp del: pointer_packed_loop.simps)
qed

lemma pointer_field_goes:
  assumes set: "setting env d k n rec" and rk: "ranked env (Suc d) (istart iter)"
    and ptr: "PB_ATYPE (ftype (iter_field iter)) = PB_ATYPE_POINTER"
  shows "goes k (decode_pointer_field env n rec wire_type iter) (\<lambda>_. True)"
proof -
  let ?type = "ftype (iter_field iter)"
  let ?func = "PB_DECODERS env rec (PB_LTYPE ?type)"
  note dec = setting_decoder [OF set rk]
  have sz: "data_size (iter_field iter) \<noteq> 0" using ranked_field(1) [OF rk] ptr by (simp add: plain_def)
  have packed: "goes k (decode_pointer_packed env n iter ?func) (\<lambda>_. True)"
    if lt: "PB_LTYPE ?type \<le> PB_LTYPE_LAST_PACKABLE"
  proof -
    obtain g where g: "?func = (\<lambda>fld dest. liftP (g fld dest))"
      "\<And>fld dest. shrinks (g fld dest)" "\<And>fld dest. consumes (g fld dest)"
      by (rule packable_decoder [OF lt, of env rec]) blast
    show ?thesis unfolding g(1) by (rule pointer_packed_goes [OF set rk sz g(2,3)])
  qed
  show ?thesis
    unfolding decode_pointer_field_def Let_def
    by (intro goes_if goes_error pointer_single_goes [of env d k n rec iter ?func, OF set rk dec]
        pointer_item_goes [of env d k n rec iter ?func, OF set rk dec] packed; simp)
qed

section \<open>Callback fields and one field\<close>

lemma callback_loop_total:
  assumes "callbacks_progress env"
  shows "left st < m \<Longrightarrow> \<exists>ok c' s'. callback_loop env fld data m st = Some (ok, c', s')"
proof (induction m arbitrary: st)
  case (Suc m)
  obtain c s where st: "st = (c, s)" by (cases st)
  obtain r c1 s1 where f: "decode_fn env (cb_func (hmem c) data) fld (cb_arg data) (c, s) = (r, c1, s1)"
    by (metis prod.exhaust)
  show ?case
  proof (cases r)
    case (Some x)
    have "unat (bytes_left s1) \<le> unat (bytes_left s) - 1"
      using assms f Some unfolding callbacks_progress_def by blast
    moreover have "unat (bytes_left s) < Suc m" using Suc.prems by (simp add: st)
    moreover have "0 < unat (bytes_left s1)" if "bytes_left s1 \<noteq> 0" using that by (simp add: unat_gt_0)
    ultimately have "left (c1, s1) < m" if "bytes_left s1 \<noteq> 0" using that by fastforce
    from Suc.IH [OF this] show ?thesis using f Some by (cases "bytes_left s1 = 0") (auto simp: st)
  qed (use f in \<open>auto simp: st\<close>)
qed simp

lemma callback_scalar_shrinks: "shrinks (decode_callback_scalar env n wire_type iter)"
  unfolding decode_callback_scalar_def
  by (intro shrinks_bind shrinks_raw_value) (simp add: shrinks_def Let_def split: prod.splits)

lemma callback_string_goes:
  assumes set: "setting env d k n rec"
  shows "goes k (decode_callback_string env n iter) (\<lambda>_. True)"
  unfolding decode_callback_string_def
proof (rule goes_substream, goal_cases)
  case (1 sub c s)
  have "callbacks_progress env" "left (c, sub) < n" using set 1 by (simp_all add: setting_def)
  from callback_loop_total [OF this] obtain ok c1 sub1 where
    l: "callback_loop env (iter_field iter) (pData iter) n (c, sub) = Some (ok, c1, sub1)" by blast
  show ?case
    using close_with_left [of True sub1 c1 s] error_left [of "''callback failed''" c1 s]
    by (cases ok) (auto simp: l)
qed

lemma callback_field_goes:
  assumes set: "setting env d k n rec"
  shows "goes k (decode_callback_field env n wire_type iter) (\<lambda>_. True)"
proof -
  have "decode_callback_field env n wire_type iter = (\<lambda>(c, s).
      (if pData iter = NULL \<or> cb_func (hmem c) (pData iter) = NULL then liftP (pb_skip_field wire_type)
       else if wire_type = PB_WT_STRING then decode_callback_string env n iter
       else liftP (decode_callback_scalar env n wire_type iter)) (c, s))"
    by (intro ext) (auto simp: decode_callback_field_def liftP_def)
  then show ?thesis
    by (simp only:) (intro goes_pick goes_if goes_lift shrinks_skip_field callback_scalar_shrinks
        callback_string_goes [OF set])
qed

lemma field_at_goes:
  assumes set: "setting env d k n rec" and rk: "ranked env (Suc d) (istart iter)"
  shows "goes k (decode_field_at env n rec wire_type iter) (\<lambda>_. True)"
  unfolding decode_field_at_def Let_def
  by (intro goes_if goes_error static_field_goes [OF set rk] pointer_field_goes [OF set rk]
      callback_field_goes [OF set])

lemma find_start:
  assumes "pb_field_iter_find iter tag = (found, iter')"
  shows "istart iter' = istart iter"
  using iter_find_loop_wanted assms unfolding pb_field_iter_find_def by blast

lemma release_union_goes:
  assumes set: "setting env d k n rec" and rk: "ranked env (Suc d) (istart iter)"
  shows "goes k (pb_release_union_field env n iter) (\<lambda>iter'. istart iter' = istart iter)"
proof (rule goesI)
  fix c :: cstate and s :: pb_istream_t
  let ?old = "load32 (hmem c) (pSize iter)" and ?new = "ftag (iter_field iter)"
  obtain found1 iter1 where f1: "pb_field_iter_find iter ?old = (found1, iter1)" by (metis prod.exhaust)
  have st1: "istart iter1 = istart iter" by (rule find_start [OF f1])
  then obtain c1 where c1: "pb_release_single_field env n iter1 c = Some c1"
    using release_single_total [OF set, of iter1 c] rk by auto
  obtain found2 iter2 where f2: "pb_field_iter_find iter1 ?new = (found2, iter2)" by (metis prod.exhaust)
  have st2: "istart iter2 = istart iter" using find_start [OF f2] st1 by simp
  show "\<exists>r c' s'. pb_release_union_field env n iter (c, s) = Some (r, c', s') \<and>
      unat (bytes_left s') \<le> unat (bytes_left s) \<and> (\<forall>x. r = Some x \<longrightarrow> istart x = istart iter)"
    using st2 by (cases found1; cases found2)
      (auto simp: pb_release_union_field_def Let_def f1 f2 c1 PB_RETURN_ERROR_i_def)
qed

lemma field_goes:
  assumes set: "setting env d k n rec" and rk: "ranked env (Suc d) (istart iter)"
  shows "goes k (decode_field env n rec wire_type iter) (\<lambda>iter'. istart iter' = istart iter)"
  unfolding decode_field_def
proof (rule goes_bind [where P = "\<lambda>iter'. istart iter' = istart iter"])
  show "goes k (if PB_HTYPE (ftype (iter_field iter)) = PB_HTYPE_ONEOF
      then pb_release_union_field env n iter else liftP (retC iter)) (\<lambda>iter'. istart iter' = istart iter)"
    by (intro goes_if goes_ret release_union_goes [OF set rk] refl)
  fix iter' :: pb_field_iter_t assume st: "istart iter' = istart iter"
  then have "ranked env (Suc d) (istart iter')" using rk by simp
  then show "goes k (bindP (decode_field_at env n rec wire_type iter') (\<lambda>_. liftP (retC iter')))
      (\<lambda>iter'. istart iter' = istart iter)"
    using st by (intro goes_bind [OF field_at_goes [OF set]] goes_ret) auto
qed

section \<open>Messages\<close>

lemma known_field_goes:
  assumes set: "setting env d k n rec" and rk: "ranked env (Suc d) (istart (iter_of loc))"
  shows "goes k (decode_known_field env n rec wire_type loc) (\<lambda>loc'. istart (iter_of loc') = istart (iter_of loc))"
  unfolding decode_known_field_def Let_def
proof (rule goes_bind [where P = "\<lambda>loc'. istart (iter_of loc') = istart (iter_of loc)"])
  show "goes k (liftP (enter_fixed_count (frame_count env n) loc)) (\<lambda>loc'. istart (iter_of loc') = istart (iter_of loc))"
    by (rule goesI) (auto simp: liftP_def enter_fixed_count_def Let_def PB_RETURN_ERROR_i_def)
  fix loc1 :: noinit_locals assume st: "istart (iter_of loc1) = istart (iter_of loc)"
  have mk: "istart (iter_of (mark_required loc1)) = istart (iter_of loc)"
    using st by (simp add: mark_required_def Let_def)
  then have "ranked env (Suc d) (istart (iter_of (mark_required loc1)))" using rk by simp
  from field_goes [OF set this, of wire_type]
  show "goes k (bindP (decode_field env n rec wire_type (iter_of (mark_required loc1)))
      (\<lambda>iter'. liftP (retC (mark_required loc1\<lparr>iter_of := iter'\<rparr>)))) (\<lambda>loc'. istart (iter_of loc') = istart (iter_of loc))"
    by (rule goes_bind) (intro goes_ret, simp add: mk)
qed

lemma unknown_field_goes:
  assumes rk: "ranked env d (istart (iter_of loc))" and tag: "tag < - 1"
  shows "goes k (decode_unknown_field env n rec tag wire_type loc) (\<lambda>loc'. istart (iter_of loc') = istart (iter_of loc))"
proof -
  let ?P = "\<lambda>loc'. istart (iter_of loc') = istart (iter_of loc)"
  obtain found iter where f: "find_extension_field (iter_of loc) = (found, iter)" by (metis prod.exhaust)
  then have w: "istart iter = istart (iter_of loc)" "found \<Longrightarrow> PB_LTYPE (ftype (iter_field iter)) = PB_LTYPE_EXTENSION"
    using iter_find_loop_wanted unfolding find_extension_field_def by blast+
  then have "\<not> found" using ranked_field(1) [of env d iter] rk by (auto simp: plain_def)
  then have "decode_unknown_field env n rec tag wire_type loc =
      bindP (liftP (pb_skip_field wire_type)) (\<lambda>_. liftP (retC
        (if tag < extension_range_start loc then loc
         else loc\<lparr>iter_of := iter, extension_range_start := - 1\<rparr>)))"
    using tag by (intro ext) (auto simp: decode_unknown_field_def f Let_def)
  moreover have "goes k (bindP (liftP (pb_skip_field wire_type)) (\<lambda>_. liftP (retC
        (if tag < extension_range_start loc then loc
         else loc\<lparr>iter_of := iter, extension_range_start := - 1\<rparr>)))) ?P"
    by (rule goes_bind [OF goes_lift [OF shrinks_skip_field]]) (intro goes_ret, simp add: w)
  ultimately show ?thesis by simp
qed

lemma decode_tag_left:
  assumes "pb_decode_tag st = ((ok, wire_type, tag, eof), st')"
  shows "left st' \<le> left st" "ok \<Longrightarrow> left st' < left st" "ok \<Longrightarrow> tag < - 1"
proof -
  obtain r e st1 where v: "pb_decode_varint32_eof st = (r, e, st1)" by (metis prod.exhaust)
  have st': "st' = st1" using assms by (auto simp: pb_decode_tag_def v split: option.splits if_splits)
  then show "left st' \<le> left st" using shrinks_varint32_eof(1) [OF v] by simp
  show "left st' < left st" if ok
    using shrinks_varint32_eof(2) [OF v] assms st' that by (auto simp: pb_decode_tag_def v split: option.splits)
  show "tag < - 1" if ok
  proof -
    obtain temp where t: "tag = drop_bit 3 temp"
      using assms \<open>ok\<close> by (auto simp: pb_decode_tag_def v split: option.splits if_splits)
    have "unat tag = unat temp div 2 ^ 3"
      unfolding t unat_drop_bit_eq by (simp add: drop_bit_eq_div)
    then have "unat tag < 2 ^ 29" using unsigned_less [of temp, where 'a = nat] by simp
    moreover have "unat (- 1 :: u32) = 2 ^ 32 - 1" by (simp add: unsigned_minus_1_eq_mask mask_eq_exp_minus_1)
    ultimately show ?thesis by (simp add: word_less_nat_alt)
  qed
qed

lemma noinit_loop_goes:
  assumes set: "setting env d k n rec"
  shows "j < m \<Longrightarrow> j \<le> k \<Longrightarrow> ranked env (Suc d) (istart (iter_of loc)) \<Longrightarrow>
    goes j (noinit_loop env n rec m loc) (\<lambda>_. True)"
proof (induction m arbitrary: j loc)
  case (Suc m)
  show ?case
  proof (rule goesI)
    fix c :: cstate and s :: pb_istream_t assume s: "unat (bytes_left s) \<le> j"
    obtain ok wire_type tag eof c1 s1 where t: "pb_decode_tag (c, s) = ((ok, wire_type, tag, eof), c1, s1)"
      by (metis prod.exhaust)
    obtain found iter where f: "pb_field_iter_find (iter_of loc) tag = (found, iter)" by (metis prod.exhaust)
    let ?loc = "loc\<lparr>iter_of := iter\<rparr>"
    have rk: "ranked env (Suc d) (istart (iter_of ?loc))" using find_start [OF f] Suc.prems(3) by simp
    let ?step = "if found then decode_known_field env n rec wire_type ?loc
                 else decode_unknown_field env n rec tag wire_type ?loc"
    show "\<exists>r c' s'. noinit_loop env n rec (Suc m) loc (c, s) = Some (r, c', s') \<and>
        unat (bytes_left s') \<le> unat (bytes_left s) \<and> (\<forall>x. r = Some x \<longrightarrow> True)"
    proof (cases "bytes_left s = 0 \<or> \<not> ok")
      case True
      then show ?thesis using decode_tag_left(1) [OF t] by (cases eof) (auto simp: t)
    next
      case False
      then have lt: "unat (bytes_left s1) < unat (bytes_left s)" and tag: "tag < - 1"
        using decode_tag_left(2,3) [OF t] by simp_all
      define i where "i = unat (bytes_left s1)"
      have i: "i < m" "i \<le> k" "i < j" using lt s Suc.prems(1,2) by (simp_all add: i_def)
      have "goes i ?step (\<lambda>loc'. istart (iter_of loc') = istart (iter_of ?loc))"
        by (intro goes_if goes_weaken [OF known_field_goes [OF set rk] i(2)] unknown_field_goes [OF rk tag])
      then have "goes i (bindP ?step (\<lambda>loc'. noinit_loop env n rec m loc')) (\<lambda>_. True)"
        by (rule goes_bind) (use Suc.IH i rk in simp)
      from goes_at [OF this, of s1 c1] obtain r c2 s2 where
        "bindP ?step (\<lambda>loc'. noinit_loop env n rec m loc') (c1, s1) = Some (r, c2, s2)"
        "unat (bytes_left s2) \<le> unat (bytes_left s1)" by (auto simp: i_def)
      with lt False show ?thesis by (simp add: t f)
    qed
  qed
qed simp

lemma decode_over_goes:
  assumes "ranked env d flds" "d \<le> n" "\<And>p. goes k (noinit flds p) (\<lambda>_. True)"
  shows "goes k (decode_over env n noinit flds dest) (\<lambda>_. True)"
proof (rule goesI)
  fix c :: cstate and s :: pb_istream_t assume s: "unat (bytes_left s) \<le> k"
  obtain c1 where c1: "pb_message_set_to_defaults env n flds dest c = Some c1"
    using message_default_total [OF assms(1,2)] by blast
  obtain r c2 s2 where r: "noinit flds dest (c1, s) = Some (r, c2, s2)" "unat (bytes_left s2) \<le> unat (bytes_left s)"
    using goes_at [OF assms(3) s, of dest c1] by blast
  obtain c3 where c3: "pb_release env n flds dest c2 = Some c3" using release_total [OF assms(1,2)] by blast
  show "\<exists>r c' s'. decode_over env n noinit flds dest (c, s) = Some (r, c', s') \<and>
      unat (bytes_left s') \<le> unat (bytes_left s) \<and> (\<forall>x. r = Some x \<longrightarrow> True)"
    using r c3 by (cases r) (auto simp: decode_over_def c1)
qed

lemma decode_noinit_goes:
  assumes "callbacks_progress env"
  shows "ranked env d flds \<Longrightarrow> d + k < n \<Longrightarrow> goes k (pb_decode_noinit env n flds dest) (\<lambda>_. True)"
proof (induction n arbitrary: d k flds dest)
  case (Suc n)
  then obtain d' where d: "d = Suc d'" by (cases d) simp_all
  let ?rec = "\<lambda>init. if init then decode_over env n (pb_decode_noinit env n) else pb_decode_noinit env n"
  have "goes (k - 1) (?rec init flds' p) (\<lambda>_. True)" if rk: "ranked env d' flds'" for init flds' p
  proof -
    have "d' + (k - 1) < n" if "d' \<noteq> 0 \<or> k \<noteq> 0" using Suc.prems(2) d that by simp
    moreover have "d' \<noteq> 0" using rk by (cases d') simp_all
    ultimately have "goes (k - 1) (pb_decode_noinit env n flds' p') (\<lambda>_. True)" for p'
      using Suc.IH [OF rk] by simp
    then show ?thesis using decode_over_goes [OF rk] Suc.prems(2) d by simp
  qed
  then have set: "setting env d' k n ?rec" using Suc.prems(2) assms d by (simp add: setting_def)
  let ?loc = "\<lparr>iter_of = snd (pb_field_iter_begin flds dest), fields_seen = [0, 0],
                extension_range_start = 0, fixed_count_field = None\<rparr>"
  have "ranked env (Suc d') (istart (iter_of ?loc))" using Suc.prems(1) d by simp
  moreover have "k < n" using Suc.prems(2) d by simp
  ultimately have loop: "goes k (noinit_loop env n ?rec n ?loc) (\<lambda>_. True)"
    using noinit_loop_goes [OF set, of k n ?loc] by simp
  have checks: "shrinks (noinit_checks fcs loc)" for fcs loc
    by (auto simp: shrinks_def noinit_checks_def PB_RETURN_ERROR_i_def)
  show ?case
    unfolding pb_decode_noinit.simps noinit_body_def Let_def
    by (rule goes_after) (intro goes_bind [OF loop] goes_lift checks)
qed simp

text \<open>C2: Decoding returns.  If submessages of the message type nest at most \<open>d\<close> deep (embedded or
  by pointer), it has no extensions, and field callbacks that succeed read something, then
  \<open>pb_decode\<close> on any stream and any memory comes back for every fuel above \<open>d\<close> plus the number of
  bytes left, and it has given no bytes back to the stream.\<close>

theorem decode_returns:
  assumes "ranked env d flds" "callbacks_progress env" "d + unat (bytes_left s) < n"
  shows "\<exists>r c' s'. pb_decode env n flds dest (c, s) = Some (r, c', s') \<and>
    unat (bytes_left s') \<le> unat (bytes_left s)"
proof -
  have "goes (unat (bytes_left s)) (pb_decode_noinit env n flds p) (\<lambda>_. True)" for p
    by (rule decode_noinit_goes [OF assms(2,1,3)])
  with assms have "goes (unat (bytes_left s)) (pb_decode env n flds dest) (\<lambda>_. True)"
    unfolding pb_decode_def by (intro decode_over_goes [OF assms(1)]) simp_all
  from goes_at [OF this order_refl] show ?thesis by blast
qed

text \<open>A message with a repeated submessage that has two fields of its own.\<close>

definition sample_inner :: "pb_field_t list" where
  "sample_inner =
     [PB_LAST_FIELD\<lparr>ftag := 1, ftype := PB_LTYPE_UVARINT, data_size := 4\<rparr>,
      PB_LAST_FIELD\<lparr>ftag := 2, ftype := PB_LTYPE_STRING, data_size := 8\<rparr>]"

definition sample_outer :: "pb_field_t list" where
  "sample_outer =
     [PB_LAST_FIELD\<lparr>ftag := 1, ftype := PB_ATYPE_POINTER OR PB_HTYPE_REPEATED OR PB_LTYPE_SUBMESSAGE,
        size_offset := - 4, data_size := 12, fptr := 64\<rparr>]"

definition sample_env :: pb_env where
  "sample_env = \<lparr>fields_at = (\<lambda>_. sample_inner), decode_fn = (\<lambda>_ _ _ (c, s). (None, c, s)),
     encode_fn = (\<lambda>_ _ _ (c, s). (None, c, s)), ext_decode_fn = (\<lambda>_ _ _ _ (c, s). (None, c, s)),
     ext_encode_fn = (\<lambda>_ _ (c, s). (None, c, s)), frame_count = (\<lambda>_. 32), frame_buffer = (\<lambda>_. 40)\<rparr>"

lemma sample_ranked: "ranked sample_env 2 sample_outer"
  unfolding numeral_2_eq_2
  by (simp add: sample_env_def sample_outer_def sample_inner_def plain_def
      PB_LAST_FIELD_def pb_type_defs)

definition sample_memory :: cstate where
  "sample_memory = \<lparr>hmem = (\<lambda>_. 0), hblocks = (\<lambda>_. None), halloc = (\<lambda>_ _. 0)\<rparr>"

theorem decode_returns_witness:
  "\<exists>r c' s'. pb_decode sample_env 20 sample_outer 128
     (sample_memory, pb_istream_from_buffer 256 9) = Some (r, c', s') \<and> unat (bytes_left s') \<le> 9"
proof -
  have "callbacks_progress sample_env" by (simp add: callbacks_progress_def sample_env_def)
  from decode_returns [OF sample_ranked this, of "pb_istream_from_buffer 256 9" 20 128 sample_memory]
  show ?thesis by (simp add: pb_istream_from_buffer_def)
qed

end
