(* ===== verification/Pb_Size.thy ===== *)
theory Pb_Size
  imports Pb_Total
begin

text \<open>
  The size that \<open>pb_get_encoded_size\<close> computes on a sizing stream is the number of bytes
  that \<open>pb_encode\<close> hands to a real stream.  Submessages and packed arrays rely on it: their
  length prefix is computed by encoding them once to a sizing stream.
\<close>

section \<open>Sizing and writing side by side\<close>

text \<open>
  A sink is a stream whose callback keeps its bytes outside the modelled memory.
\<close>

definition sink :: "pb_ostream_t \<Rightarrow> bool" where
  "sink s \<longleftrightarrow> (\<exists>f. ocallback s = Some (User_write f) \<and> (\<forall>c p bs. fst (snd (f c p bs)) = c))"

text \<open>
  \<open>sized_at c N F\<close>: in state \<open>c\<close>, \<open>F\<close> returns on every sizing stream and every sink and leaves
  the state alone.  On a sizing stream it fails when \<open>N\<close> is \<open>None\<close> and otherwise adds \<open>N\<close> to the
  count; if it succeeds on a sink, it has written as many bytes.
\<close>

definition sized_at :: "cstate \<Rightarrow> size_t option \<Rightarrow> unit oproc \<Rightarrow> bool" where
  "sized_at c N F \<longleftrightarrow>
     (\<forall>z. ocallback z = None \<longrightarrow> (\<exists>r z'. F (c, z) = Some (r, c, z') \<and> ocallback z' = None \<and>
        (r = None \<longleftrightarrow> N = None) \<and> (\<forall>a. N = Some a \<longrightarrow> bytes_written z' = bytes_written z + a))) \<and>
     (\<forall>s. sink s \<longrightarrow> (\<exists>r s'. F (c, s) = Some (r, c, s') \<and> ocallback s' = ocallback s \<and>
        (r \<noteq> None \<longrightarrow> (\<exists>a. N = Some a \<and> bytes_written s' = bytes_written s + a))))"

definition sized :: "cstate \<Rightarrow> unit oproc \<Rightarrow> bool" where
  "sized c F \<longleftrightarrow> (\<exists>N. sized_at c N F)"

named_theorems sized_intros

lemma sized_at_sizing:
  assumes "sized_at c N F" "ocallback z = None"
  obtains r z' where "F (c, z) = Some (r, c, z')" "ocallback z' = None" "r = None \<longleftrightarrow> N = None"
    "\<And>a. N = Some a \<Longrightarrow> bytes_written z' = bytes_written z + a"
  using assms unfolding sized_at_def by blast

lemma sized_at_sink:
  assumes "sized_at c N F" "sink s"
  obtains r s' where "F (c, s) = Some (r, c, s')" "ocallback s' = ocallback s"
    "r \<noteq> None \<Longrightarrow> \<exists>a. N = Some a \<and> bytes_written s' = bytes_written s + a"
  using assms unfolding sized_at_def by blast

lemma sink_not_sizing: "sink s \<Longrightarrow> ocallback s \<noteq> None"
  by (auto simp: sink_def)

lemma sink_cong: "ocallback s = ocallback t \<Longrightarrow> sink s = sink t"
  by (simp add: sink_def)

lemma sized_at_write: "sized_at c (Some count) (liftP (pb_write bs count))"
  unfolding sized_at_def
proof (intro conjI allI impI)
  fix z :: pb_ostream_t assume "ocallback z = None"
  then show "\<exists>r z'. liftP (pb_write bs count) (c, z) = Some (r, c, z') \<and> ocallback z' = None \<and>
      (r = None \<longleftrightarrow> Some count = None) \<and> (\<forall>a. Some count = Some a \<longrightarrow> bytes_written z' = bytes_written z + a)"
    by (simp add: pb_write_def liftP_def)
next
  fix s :: pb_ostream_t assume "sink s"
  then obtain f where f: "ocallback s = Some (User_write f)" "\<And>c p bs. fst (snd (f c p bs)) = c"
    by (auto simp: sink_def)
  obtain ok p where r: "f c (ostate s) (take (unat count) bs) = (ok, c, p)"
    using f(2) [of c "ostate s" "take (unat count) bs"] by (metis prod.collapse)
  show "\<exists>r s'. liftP (pb_write bs count) (c, s) = Some (r, c, s') \<and> ocallback s' = ocallback s \<and>
      (r \<noteq> None \<longrightarrow> (\<exists>a. Some count = Some a \<and> bytes_written s' = bytes_written s + a))"
    by (cases ok) (auto simp: pb_write_def liftP_def f(1) ostream_callback_def r PB_RETURN_ERROR_o_def)
qed

lemma sized_at_error: "sized_at c None (liftP (PB_RETURN_ERROR_o msg))"
  by (simp add: sized_at_def liftP_def PB_RETURN_ERROR_o_def)

lemma sized_at_ret: "sized_at c (Some 0) (liftP (retC ()))"
  by (simp add: sized_at_def liftP_def retC_def)

lemma sized_at_bind:
  assumes F: "sized_at c (Some a) F" and G: "sized_at c N G"
  shows "sized_at c (map_option ((+) a) N) (bindP F (\<lambda>_. G))"
  unfolding sized_at_def
proof (intro conjI allI impI)
  fix z :: pb_ostream_t assume z: "ocallback z = None"
  obtain r z1 where 1: "F (c, z) = Some (r, c, z1)" "ocallback z1 = None" "r \<noteq> None"
    "bytes_written z1 = bytes_written z + a" by (rule sized_at_sizing [OF F z]) auto
  obtain r2 z2 where 2: "G (c, z1) = Some (r2, c, z2)" "ocallback z2 = None" "r2 = None \<longleftrightarrow> N = None"
    "\<And>b. N = Some b \<Longrightarrow> bytes_written z2 = bytes_written z1 + b" by (rule sized_at_sizing [OF G 1(2)]) auto
  show "\<exists>r z'. bindP F (\<lambda>_. G) (c, z) = Some (r, c, z') \<and> ocallback z' = None \<and>
      (r = None \<longleftrightarrow> map_option ((+) a) N = None) \<and>
      (\<forall>b. map_option ((+) a) N = Some b \<longrightarrow> bytes_written z' = bytes_written z + b)"
    using 1 2 by (auto simp: algebra_simps)
next
  fix s :: pb_ostream_t assume s: "sink s"
  obtain r s1 where 1: "F (c, s) = Some (r, c, s1)" "ocallback s1 = ocallback s"
    "r \<noteq> None \<Longrightarrow> bytes_written s1 = bytes_written s + a" by (rule sized_at_sink [OF F s]) auto
  have "sink s1" using s sink_cong [OF 1(2)] by simp
  from sized_at_sink [OF G this] obtain r2 s2 where 2: "G (c, s1) = Some (r2, c, s2)" "ocallback s2 = ocallback s1"
    "r2 \<noteq> None \<Longrightarrow> \<exists>b. N = Some b \<and> bytes_written s2 = bytes_written s1 + b" by blast
  show "\<exists>r s'. bindP F (\<lambda>_. G) (c, s) = Some (r, c, s') \<and> ocallback s' = ocallback s \<and>
      (r \<noteq> None \<longrightarrow> (\<exists>b. map_option ((+) a) N = Some b \<and> bytes_written s' = bytes_written s + b))"
  proof (cases r)
    case (Some x)
    then show ?thesis using 1 2 by (cases r2) (auto simp: algebra_simps)
  qed (use 1 in simp)
qed

lemma sized_at_bind_fail:
  assumes F: "sized_at c None F"
  shows "sized_at c None (bindP F G)"
  unfolding sized_at_def
proof (intro conjI allI impI)
  fix z :: pb_ostream_t assume z: "ocallback z = None"
  show "\<exists>r z'. bindP F G (c, z) = Some (r, c, z') \<and> ocallback z' = None \<and>
      (r = None \<longleftrightarrow> None = None) \<and> (\<forall>b. None = Some b \<longrightarrow> bytes_written z' = bytes_written z + b)"
    by (rule sized_at_sizing [OF F z]) auto
next
  fix s :: pb_ostream_t assume s: "sink s"
  from sized_at_sink [OF F s] obtain r s1 where 1: "F (c, s) = Some (r, c, s1)" "ocallback s1 = ocallback s"
    "r \<noteq> None \<Longrightarrow> \<exists>a. None = Some a \<and> bytes_written s1 = bytes_written s + a" by blast
  then show "\<exists>r s'. bindP F G (c, s) = Some (r, c, s') \<and> ocallback s' = ocallback s \<and>
      (r \<noteq> None \<longrightarrow> (\<exists>a. None = Some a \<and> bytes_written s' = bytes_written s + a))" by (cases r) simp_all
qed

lemma sized_bind [sized_intros]:
  assumes "sized c F" "sized c G"
  shows "sized c (bindP F (\<lambda>_. G))"
proof -
  obtain N M where F: "sized_at c N F" and G: "sized_at c M G" using assms unfolding sized_def by blast
  show ?thesis
  proof (cases N)
    case None
    with sized_at_bind_fail F show ?thesis unfolding sized_def by blast
  next
    case (Some a)
    with sized_at_bind [OF _ G] F show ?thesis unfolding sized_def by blast
  qed
qed

lemma sized_error [sized_intros]: "sized c (liftP (PB_RETURN_ERROR_o msg))"
  using sized_at_error unfolding sized_def by blast

lemma sized_ret [sized_intros]: "sized c (liftP (retC ()))"
  using sized_at_ret unfolding sized_def by blast

lemma sized_write [sized_intros]: "sized c (liftP (pb_write bs count))"
  using sized_at_write unfolding sized_def by blast

lemma sized_put [sized_intros]: "sized c (liftP (put bs))"
  unfolding put_def by (rule sized_write)

lemma sized_at_put: "sized_at c (Some (of_nat (length bs))) (liftP (put bs))"
  unfolding put_def by (rule sized_at_write)

lemma sized_if [sized_intros]: "(b \<Longrightarrow> sized c F) \<Longrightarrow> (\<not> b \<Longrightarrow> sized c G) \<Longrightarrow> sized c (if b then F else G)"
  by simp

text \<open>A function that first looks at the memory.\<close>

lemma sized_pick: "sized c (F c) \<Longrightarrow> sized c (\<lambda>(c, s). F c (c, s))"
  by (simp add: sized_def sized_at_def)

lemma sized_liftP_bind: "sized c (liftP (bindC f (\<lambda>_. g)))" if "sized c (liftP f)" "sized c (liftP g)"
  using sized_bind [OF that] by (simp add: bindP_liftP)

section \<open>Field encoders\<close>

lemma sized_string [sized_intros]: "sized c (liftP (pb_encode_string bs n))"
  unfolding pb_encode_string_def pb_encode_varint_put
  by (intro sized_liftP_bind sized_put sized_write)

lemma sized_read: "(\<And>m. sized c (liftP (f m))) \<Longrightarrow> sized c (liftP (\<lambda>(c, s). f (hmem c) (c, s)))"
  by (simp add: sized_def sized_at_def liftP_def)

lemmas encode_puts = pb_encode_varint_put pb_encode_svarint_put pb_encode_fixed32_put pb_encode_fixed64_put

text \<open>The encoders of the table other than the one of submessages.\<close>

lemma sized_cong: "sized c G \<Longrightarrow> (\<And>s. F (c, s) = G (c, s)) \<Longrightarrow> sized c F"
  by (simp add: sized_def sized_at_def)

lemma sized_by_width:
  assumes "\<And>s. F (c, s) =
    (if b1 then put x1 (c, s) else if b2 then put x2 (c, s) else if b3 then put x3 (c, s)
     else if b4 then put x4 (c, s) else PB_RETURN_ERROR_o msg (c, s))"
  shows "sized c (liftP F)"
proof (rule sized_cong)
  show "sized c (if b1 then liftP (put x1) else if b2 then liftP (put x2) else if b3 then liftP (put x3)
     else if b4 then liftP (put x4) else liftP (PB_RETURN_ERROR_o msg))" by (intro sized_intros)
qed (simp add: assms liftP_def)

lemma sized_enc_bytes: "sized c (liftP (pb_enc_bytes fld src))"
proof (rule sized_cong)
  let ?sz = "ucast (load32 (hmem c) src) :: size_t"
  show "sized c (if src = NULL then liftP (pb_encode_string [] 0)
     else if PB_ATYPE (ftype fld) = PB_ATYPE_STATIC \<and> PB_BYTES_ARRAY_T_ALLOCSIZE ?sz > ucast (data_size fld)
     then liftP (PB_RETURN_ERROR_o ''bytes size exceeded'')
     else liftP (pb_encode_string (read_bytes (hmem c) (src + 4) (unat ?sz)) ?sz))"
    by (intro sized_intros)
qed (simp add: liftP_def pb_enc_bytes_def Let_def)

lemma sized_enc_string: "sized c (liftP (pb_enc_string fld src))"
proof (rule sized_cong)
  let ?max = "if PB_ATYPE (ftype fld) = PB_ATYPE_POINTER then - 1 else ucast (data_size fld) :: size_t"
  let ?sz = "if src = NULL then 0 else strnlen_loop (hmem c) ?max 0 src"
  show "sized c (liftP (pb_encode_string (read_bytes (hmem c) src (unat ?sz)) ?sz))" by (intro sized_intros)
qed (simp add: liftP_def pb_enc_string_def Let_def)

lemma sized_enc_fixed_bytes: "sized c (liftP (pb_enc_fixed_length_bytes fld src))"
proof (rule sized_cong)
  show "sized c (liftP (pb_encode_string (read_bytes (hmem c) src (unat (data_size fld))) (ucast (data_size fld))))"
    by (intro sized_intros)
qed (simp add: liftP_def pb_enc_fixed_length_bytes_def)

lemmas sized_widths = sized_by_width [where ?b1.0 = "data_size fld = 1" and ?b2.0 = "data_size fld = 2"
    and ?b3.0 = "data_size fld = 4" and ?b4.0 = "data_size fld = 8" for fld :: pb_field_t]

lemma sized_enc_varint: "sized c (liftP (pb_enc_varint fld src))"
  by (rule sized_widths [where fld = fld and msg = "''invalid data_size''"
        and ?x1.0 = "varint_bytes (scast (hmem c src))" and ?x2.0 = "varint_bytes (scast (load16 (hmem c) src))"
        and ?x3.0 = "varint_bytes (scast (load32 (hmem c) src))" and ?x4.0 = "varint_bytes (load64 (hmem c) src)"])
    (simp add: pb_enc_varint_def encode_puts Let_def)

lemma sized_enc_uvarint: "sized c (liftP (pb_enc_uvarint fld src))"
  by (rule sized_widths [where fld = fld and msg = "''invalid data_size''"
        and ?x1.0 = "varint_bytes (ucast (hmem c src))" and ?x2.0 = "varint_bytes (ucast (load16 (hmem c) src))"
        and ?x3.0 = "varint_bytes (ucast (load32 (hmem c) src))" and ?x4.0 = "varint_bytes (load64 (hmem c) src)"])
    (simp add: pb_enc_uvarint_def encode_puts Let_def)

lemma sized_enc_svarint: "sized c (liftP (pb_enc_svarint fld src))"
  by (rule sized_widths [where fld = fld and msg = "''invalid data_size''"
        and ?x1.0 = "varint_bytes (zigzag (scast (hmem c src)))" and ?x2.0 = "varint_bytes (zigzag (scast (load16 (hmem c) src)))"
        and ?x3.0 = "varint_bytes (zigzag (scast (load32 (hmem c) src)))" and ?x4.0 = "varint_bytes (zigzag (load64 (hmem c) src))"])
    (simp add: pb_enc_svarint_def encode_puts Let_def)

lemma sized_at_fixed32: "sized_at c (Some 4) (liftP (pb_enc_fixed32 fld src))"
  using sized_at_put [of c "le_bytes 4 (load32 (hmem c) src)"]
  by (simp add: sized_at_def liftP_def pb_enc_fixed32_def encode_puts)

lemma sized_at_fixed64: "sized_at c (Some 8) (liftP (pb_enc_fixed64 fld src))"
  using sized_at_put [of c "le_bytes 8 (load64 (hmem c) src)"]
  by (simp add: sized_at_def liftP_def pb_enc_fixed64_def encode_puts)

lemma sized_tag [sized_intros]: "sized c (liftP (pb_encode_tag wiretype tag))"
  unfolding pb_encode_tag_def Let_def pb_encode_varint_put by (rule sized_put)

lemma liftP_if: "liftP (if b then f else g) = (if b then liftP f else liftP g)"
  by simp

lemma sized_tag_for_field [sized_intros]: "sized c (liftP (pb_encode_tag_for_field fld))"
  unfolding pb_encode_tag_for_field_def Let_def liftP_if by (intro sized_intros)

lemma sized_of_at: "sized_at c (Some n) F \<Longrightarrow> sized c F"
  unfolding sized_def by blast

lemmas sized_simple_rest = sized_at_fixed32 [THEN sized_of_at] sized_at_fixed64 [THEN sized_of_at]
  sized_enc_bytes sized_enc_string sized_enc_fixed_bytes

section \<open>Submessages\<close>

lemma sized_submessage:
  assumes "sized c (rec flds src)"
  shows "sized c (pb_encode_submessage rec flds src)"
proof -
  obtain N where N: "sized_at c N (rec flds src)" using assms unfolding sized_def by blast
  have sizing: "ocallback PB_OSTREAM_SIZING = None" "bytes_written PB_OSTREAM_SIZING = 0"
    by (simp_all add: PB_OSTREAM_SIZING_def)
  obtain r z where z: "rec flds src (c, PB_OSTREAM_SIZING) = Some (r, c, z)" "ocallback z = None"
    "r = None \<longleftrightarrow> N = None" "\<And>a. N = Some a \<Longrightarrow> bytes_written z = a"
    by (rule sized_at_sizing [OF N sizing(1)]) (auto simp: sizing(2))
  show ?thesis
  proof (cases N)
    case None
    then have "sized_at c None (pb_encode_submessage rec flds src)"
      using z by (simp add: sized_at_def pb_encode_submessage_def)
    then show ?thesis unfolding sized_def by blast
  next
    case (Some n)
    let ?len = "put (varint_bytes n)"
    have sub: "pb_encode_submessage rec flds src (c, s) =
      bindP (liftP ?len) (\<lambda>_ (c2, s2).
        if ocallback s2 = None then Some (pb_write [] n (c2, s2))
        else if bytes_written s2 + n > max_size s2 then Some (PB_RETURN_ERROR_o ''stream full'' (c2, s2))
        else (case rec flds src (c2, \<lparr>ocallback = ocallback s2, ostate = ostate s2, max_size = n,
                            bytes_written = 0, oerrmsg = None\<rparr>) of
             None \<Rightarrow> None
           | Some (status, c3, sub3) \<Rightarrow>
               let s3 = s2\<lparr>bytes_written := bytes_written s2 + bytes_written sub3,
                           ostate := ostate sub3, oerrmsg := oerrmsg sub3\<rparr>
               in if bytes_written sub3 \<noteq> n
                  then Some (PB_RETURN_ERROR_o ''submsg size changed'' (c3, s3))
                  else Some (status, c3, s3))) (c, s)" for s
      using z Some by (auto simp: pb_encode_submessage_def pb_encode_varint_put bindP_def liftP_def Let_def
          split: option.splits prod.splits)
    have "sized_at c (Some (of_nat (length (varint_bytes n)) + n)) (pb_encode_submessage rec flds src)"
      unfolding sized_at_def
    proof (intro conjI allI impI)
      fix s :: pb_ostream_t assume "ocallback s = None"
      then show "\<exists>r z'. pb_encode_submessage rec flds src (c, s) = Some (r, c, z') \<and> ocallback z' = None \<and>
          (r = None \<longleftrightarrow> Some (of_nat (length (varint_bytes n)) + n) = None) \<and>
          (\<forall>a. Some (of_nat (length (varint_bytes n)) + n) = Some a \<longrightarrow> bytes_written z' = bytes_written s + a)"
        unfolding sub by (simp add: bindP_def liftP_def put_def pb_write_def algebra_simps)
    next
      fix s :: pb_ostream_t assume s: "sink s"
      from sized_at_sink [OF sized_at_put [of c "varint_bytes n"] s] obtain r1 s1 where
        1: "liftP ?len (c, s) = Some (r1, c, s1)" "ocallback s1 = ocallback s"
          "r1 \<noteq> None \<Longrightarrow> bytes_written s1 = bytes_written s + of_nat (length (varint_bytes n))" by auto
      let ?sub = "\<lparr>ocallback = ocallback s1, ostate = ostate s1, max_size = n, bytes_written = 0, oerrmsg = None\<rparr>"
      have "sink ?sub" using s sink_cong [OF 1(2)] by (simp add: sink_def)
      from sized_at_sink [OF N this] obtain r2 s2 where
        2: "rec flds src (c, ?sub) = Some (r2, c, s2)"
          "r2 \<noteq> None \<Longrightarrow> \<exists>a. N = Some a \<and> bytes_written s2 = bytes_written ?sub + a" by blast
      have "ocallback s1 \<noteq> None" using sink_not_sizing [OF s] 1(2) by simp
      with 1 2 Some show "\<exists>r s'. pb_encode_submessage rec flds src (c, s) = Some (r, c, s') \<and>
          ocallback s' = ocallback s \<and> (r \<noteq> None \<longrightarrow>
            (\<exists>a. Some (of_nat (length (varint_bytes n)) + n) = Some a \<and> bytes_written s' = bytes_written s + a))"
        unfolding sub by (cases r1; cases r2)
          (auto simp: PB_RETURN_ERROR_o_def Let_def algebra_simps)
    qed
    then show ?thesis unfolding sized_def by blast
  qed
qed

lemma sized_decoder_table:
  assumes "plain fld" "PB_LTYPE (ftype fld) = PB_LTYPE_SUBMESSAGE \<Longrightarrow> sized c (rec (fields_at env (fptr fld)) src)"
  shows "sized c (PB_ENCODERS env rec (PB_LTYPE (ftype fld)) fld src)"
proof -
  let ?lt = "PB_LTYPE (ftype fld)"
  have sub: "sized c (pb_enc_submessage env rec fld src)" if "?lt = PB_LTYPE_SUBMESSAGE"
    unfolding pb_enc_submessage_def by (intro sized_intros sized_submessage assms(2) [OF that])
  have "unat ?lt \<le> 9" "unat ?lt \<noteq> 8"
    using assms(1) by (simp_all add: plain_def PB_LTYPE_FIXED_LENGTH_BYTES_def PB_LTYPE_EXTENSION_def
        word_le_nat_alt word_unat_eq_iff)
  then have "unat ?lt \<in> {0, 1, 2, 3, 4, 5, 6, 7, 9}" by auto
  then have "?lt \<in> {0, 1, 2, 3, 4, 5, 6, 7, 9}" by (auto simp: word_unat_eq_iff)
  then have entry: "?lt = PB_LTYPE_VARINT \<or> ?lt = PB_LTYPE_UVARINT \<or> ?lt = PB_LTYPE_SVARINT \<or>
      ?lt = PB_LTYPE_FIXED32 \<or> ?lt = PB_LTYPE_FIXED64 \<or> ?lt = PB_LTYPE_BYTES \<or> ?lt = PB_LTYPE_STRING \<or>
      ?lt = PB_LTYPE_SUBMESSAGE \<or> ?lt = PB_LTYPE_FIXED_LENGTH_BYTES"
    by (simp add: PB_LTYPE_VARINT_def PB_LTYPE_UVARINT_def PB_LTYPE_SVARINT_def PB_LTYPE_FIXED32_def
        PB_LTYPE_FIXED64_def PB_LTYPE_BYTES_def PB_LTYPE_STRING_def PB_LTYPE_SUBMESSAGE_def
        PB_LTYPE_FIXED_LENGTH_BYTES_def)
  show ?thesis
    unfolding PB_ENCODERS_def
    by (intro sized_if sized_enc_varint sized_enc_uvarint sized_enc_svarint sized_simple_rest sub)
      (use entry in simp_all)
qed

section \<open>Arrays\<close>

lemma sized_items: "(\<And>p. sized c (func fld p)) \<Longrightarrow> sized c (encode_items func fld n p)"
  by (induction n arbitrary: p) (auto intro: sized_intros)

lemma sized_at_items:
  assumes "\<And>p. sized_at c (Some k) (func fld p)"
  shows "sized_at c (Some (of_nat n * k)) (encode_items func fld n p)"
proof (induction n arbitrary: p)
  case (Suc n)
  from sized_at_bind [OF assms Suc.IH, of p] show ?case by (simp add: algebra_simps)
qed (simp add: sized_at_ret)

lemma sized_unpacked:
  assumes "\<And>p. sized c (func fld p)"
  shows "sized c (encode_unpacked func fld n p)"
proof (induction n arbitrary: p)
  case (Suc n)
  have "sized c (\<lambda>(c, s). if PB_ATYPE (ftype fld) = PB_ATYPE_POINTER \<and>
           (PB_LTYPE (ftype fld) = PB_LTYPE_STRING \<or> PB_LTYPE (ftype fld) = PB_LTYPE_BYTES)
        then func fld (load64 (hmem c) p) (c, s) else func fld p (c, s))"
    by (rule sized_cong [of _ "func fld (if PB_ATYPE (ftype fld) = PB_ATYPE_POINTER \<and>
           (PB_LTYPE (ftype fld) = PB_LTYPE_STRING \<or> PB_LTYPE (ftype fld) = PB_LTYPE_BYTES)
        then load64 (hmem c) p else p)"]) (auto intro: assms)
  then show ?case by (auto intro!: sized_bind sized_tag_for_field Suc.IH)
qed (simp add: sized_ret)

text \<open>The length prefix and the items of a packed array.\<close>

definition packed_items :: "size_t \<Rightarrow> unit oproc \<Rightarrow> unit oproc" where
  "packed_items sz items =
     bindP (liftP (pb_encode_varint sz)) (\<lambda>_ (c', s').
       if ocallback s' = None then Some (pb_write [] sz (c', s')) else items (c', s'))"

lemma sized_packed:
  assumes "sized_at c (Some sz) items"
  shows "sized c (packed_items sz items)"
proof -
  have "sized_at c (Some sz) (\<lambda>(c', s'). if ocallback s' = None then Some (pb_write [] sz (c', s')) else items (c', s'))"
    unfolding sized_at_def
  proof (intro conjI allI impI)
    fix z :: pb_ostream_t assume "ocallback z = None"
    then show "\<exists>r z'. (case (c, z) of (c', s') \<Rightarrow> if ocallback s' = None then Some (pb_write [] sz (c', s')) else items (c', s')) =
        Some (r, c, z') \<and> ocallback z' = None \<and> (r = None \<longleftrightarrow> Some sz = None) \<and>
        (\<forall>a. Some sz = Some a \<longrightarrow> bytes_written z' = bytes_written z + a)"
      by (simp add: pb_write_def)
  next
    fix s :: pb_ostream_t assume s: "sink s"
    from sized_at_sink [OF assms s] obtain r s1 where "items (c, s) = Some (r, c, s1)" "ocallback s1 = ocallback s"
      "r \<noteq> None \<Longrightarrow> \<exists>a. Some sz = Some a \<and> bytes_written s1 = bytes_written s + a" by blast
    with sink_not_sizing [OF s] show "\<exists>r s'. (case (c, s) of (c', s') \<Rightarrow> if ocallback s' = None then Some (pb_write [] sz (c', s')) else items (c', s')) =
        Some (r, c, s') \<and> ocallback s' = ocallback s \<and>
        (r \<noteq> None \<longrightarrow> (\<exists>a. Some sz = Some a \<and> bytes_written s' = bytes_written s + a))" by (cases r) auto
  qed
  then show ?thesis unfolding packed_items_def pb_encode_varint_put by (intro sized_bind sized_put) (auto simp: sized_def)
qed

text \<open>A packed array of entries without a fixed width is sized on a sizing stream first.\<close>

lemma sized_measured:
  assumes "sized c items"
  shows "sized c (\<lambda>(c, s). case items (c, PB_OSTREAM_SIZING) of
      None \<Rightarrow> None | Some (None, c', _) \<Rightarrow> Some (None, c', s)
    | Some (Some _, c', sizestream) \<Rightarrow> packed_items (bytes_written sizestream) items (c', s))"
proof -
  obtain N where N: "sized_at c N items" using assms unfolding sized_def by blast
  have sizing: "ocallback PB_OSTREAM_SIZING = None" "bytes_written PB_OSTREAM_SIZING = 0"
    by (simp_all add: PB_OSTREAM_SIZING_def)
  obtain r z where z: "items (c, PB_OSTREAM_SIZING) = Some (r, c, z)" "r = None \<longleftrightarrow> N = None"
    "\<And>a. N = Some a \<Longrightarrow> bytes_written z = a"
    by (rule sized_at_sizing [OF N sizing(1)]) (auto simp: sizing(2))
  show ?thesis
  proof (cases N)
    case None
    with z have "sized_at c None (\<lambda>(c, s). case items (c, PB_OSTREAM_SIZING) of
      None \<Rightarrow> None | Some (None, c', _) \<Rightarrow> Some (None, c', s)
    | Some (Some _, c', sizestream) \<Rightarrow> packed_items (bytes_written sizestream) items (c', s))"
      by (simp add: sized_at_def)
    then show ?thesis unfolding sized_def by blast
  next
    case (Some n)
    have "sized_at c (Some n) items" using N Some by simp
    from sized_packed [OF this] show ?thesis
      by (rule sized_cong) (use z Some in auto)
  qed
qed

lemma sized_array:
  assumes pl: "plain fld"
    and func: "func = PB_ENCODERS env rec (PB_LTYPE (ftype fld))" "\<And>p. sized c (func fld p)"
  shows "sized c (encode_array func fld data count)"
proof -
  let ?lt = "PB_LTYPE (ftype fld)"
  let ?items = "encode_items func fld (unat count) data"
  have f32: "sized c (packed_items (4 * ucast count) ?items)" if "?lt = PB_LTYPE_FIXED32"
  proof -
    have "sized_at c (Some 4) (func fld p)" for p
      unfolding func(1) that using sized_at_fixed32 by (simp add: PB_ENCODERS_def pb_type_defs)
    from sized_at_items [of c 4 func fld "unat count" data, OF this]
    have "sized_at c (Some (4 * ucast count)) ?items" by (simp add: mult.commute)
    then show ?thesis by (rule sized_packed)
  qed
  have f64: "sized c (packed_items (8 * ucast count) ?items)" if "?lt = PB_LTYPE_FIXED64"
  proof -
    have "sized_at c (Some 8) (func fld p)" for p
      unfolding func(1) that using sized_at_fixed64 by (simp add: PB_ENCODERS_def pb_type_defs)
    from sized_at_items [of c 8 func fld "unat count" data, OF this]
    have "sized_at c (Some (8 * ucast count)) ?items" by (simp add: mult.commute)
    then show ?thesis by (rule sized_packed)
  qed
  let ?measured = "\<lambda>(c, s). case ?items (c, PB_OSTREAM_SIZING) of
      None \<Rightarrow> None | Some (None, c', _) \<Rightarrow> Some (None, c', s)
    | Some (Some _, c', sizestream) \<Rightarrow> packed_items (bytes_written sizestream) ?items (c', s)"
  let ?body = "if ?lt = PB_LTYPE_FIXED32 then packed_items (4 * ucast count) ?items
      else if ?lt = PB_LTYPE_FIXED64 then packed_items (8 * ucast count) ?items else ?measured"
  have body: "sized c ?body"
    by (intro sized_if f32 f64 sized_measured sized_items func(2))
  have "encode_array func fld data count =
     (if count = 0 then liftP (retC ())
      else if PB_ATYPE (ftype fld) \<noteq> PB_ATYPE_POINTER \<and> count > array_size fld
      then liftP (PB_RETURN_ERROR_o ''array max size exceeded'')
      else if ?lt \<le> PB_LTYPE_LAST_PACKABLE
      then bindP (liftP (pb_encode_tag PB_WT_STRING (ftag fld))) (\<lambda>_. ?body)
      else encode_unpacked func fld (unat count) data)"
    unfolding encode_array_def packed_items_def Let_def
    by (intro if_cong refl arg_cong2 [where f = bindP] ext) (auto split: prod.splits option.splits)
  then show ?thesis
    by (simp only:) (intro sized_intros body sized_unpacked func(2))
qed

section \<open>Messages\<close>

text \<open>Message types without callbacks, extensions and endless nesting.\<close>

primrec encodable :: "pb_env \<Rightarrow> nat \<Rightarrow> pb_field_t list \<Rightarrow> bool" where
  "encodable env 0 flds \<longleftrightarrow> False"
| "encodable env (Suc d) flds \<longleftrightarrow> (\<forall>fld \<in> set flds. plain fld \<and> PB_ATYPE (ftype fld) \<noteq> PB_ATYPE_CALLBACK \<and>
     (PB_LTYPE (ftype fld) = PB_LTYPE_SUBMESSAGE \<longrightarrow> encodable env d (fields_at env (fptr fld))))"

lemma encodable_ranked: "encodable env d flds \<Longrightarrow> ranked env d flds"
  by (induction d arbitrary: flds) auto

lemma encodable_field:
  assumes "encodable env (Suc d) (istart iter)"
  shows "plain (iter_field iter)" "PB_ATYPE (ftype (iter_field iter)) \<noteq> PB_ATYPE_CALLBACK"
    "PB_LTYPE (ftype (iter_field iter)) = PB_LTYPE_SUBMESSAGE \<Longrightarrow> encodable env d (fields_at env (fptr (iter_field iter)))"
proof -
  have last: "PB_LTYPE (ftype PB_LAST_FIELD) \<noteq> PB_LTYPE_SUBMESSAGE" "PB_ATYPE (ftype PB_LAST_FIELD) \<noteq> PB_ATYPE_CALLBACK"
    by (simp_all add: PB_LAST_FIELD_def pb_type_defs)
  show "plain (iter_field iter)" "PB_ATYPE (ftype (iter_field iter)) \<noteq> PB_ATYPE_CALLBACK"
    "PB_LTYPE (ftype (iter_field iter)) = PB_LTYPE_SUBMESSAGE \<Longrightarrow> encodable env d (fields_at env (fptr (iter_field iter)))"
    using assms iter_field_cases [of iter] last by auto
qed

lemma all_default_total:
  assumes "\<And>it. istart it = flds \<Longrightarrow> \<exists>b. rec (iter_field it) (pData it) = Some b" "istart iter = flds"
  shows "\<exists>b. all_default rec iter = Some b"
  using assms
proof (induction rec iter rule: all_default.induct)
  case (1 rec iter)
  obtain b where b: "rec (iter_field iter) (pData iter) = Some b" using "1.prems" by blast
  obtain again iter1 where nxt: "pb_field_iter_next iter = (again, iter1)" by fastforce
  have st: "istart iter1 = flds" using pb_field_iter_next_fields(1) [of iter] nxt "1.prems"(2) by simp
  have "\<exists>b'. all_default rec iter1 = Some b'" if b again
    using "1.IH" [OF b _ nxt [symmetric] that(2) "1.prems"(1) st] that(1) by simp
  then show ?case by (cases b; cases again; subst all_default.simps) (simp_all add: b nxt ex_bool_eq)
qed

lemma default_check_total:
  "plain fld \<Longrightarrow> (PB_LTYPE (ftype fld) = PB_LTYPE_SUBMESSAGE \<Longrightarrow> ranked env d (fields_at env (fptr fld))) \<Longrightarrow> d < n \<Longrightarrow>
    \<exists>b. pb_check_proto3_default_value env n m fld data = Some b"
proof (induction n arbitrary: d fld data)
  case (Suc n)
  have "\<exists>b. all_default (pb_check_proto3_default_value env n m) iter = Some b"
    if sub: "PB_LTYPE (ftype fld) = PB_LTYPE_SUBMESSAGE" and it: "istart iter = fields_at env (fptr fld)" for iter
  proof (rule all_default_total [OF _ it])
    fix it' :: pb_field_iter_t assume "istart it' = fields_at env (fptr fld)"
    then have rk: "ranked env d (istart it')" using Suc.prems(2) [OF sub] by simp
    then obtain d' where d: "d = Suc d'" by (cases d) simp_all
    show "\<exists>b. pb_check_proto3_default_value env n m (iter_field it') (pData it') = Some b"
      by (rule Suc.IH [of _ d']) (use ranked_field [OF rk] d Suc.prems(3) in auto)
  qed
  moreover obtain nonempty iter0 where bg: "pb_field_iter_begin (fields_at env (fptr fld)) data = (nonempty, iter0)"
    by fastforce
  moreover have "istart iter0 = fields_at env (fptr fld)"
    using pb_field_iter_begin_fields(1) [of "fields_at env (fptr fld)" data] bg by simp
  ultimately show ?case by (auto simp: proto3_default_body_def Let_def ex_bool_eq)
qed simp

lemma if_apply: "(if b then F else G) x = (if b then F x else G x)"
  by simp

lemma sized_basic_field:
  assumes pl: "plain fld"
    and rk: "PB_LTYPE (ftype fld) = PB_LTYPE_SUBMESSAGE \<Longrightarrow> ranked env d (fields_at env (fptr fld))" and n: "d < n"
    and func: "\<And>p. sized c (PB_ENCODERS env rec (PB_LTYPE (ftype fld)) fld p)"
  shows "sized c (encode_basic_field env n rec fld data)"
proof -
  let ?type = "ftype fld"
  let ?func = "PB_ENCODERS env rec (PB_LTYPE ?type)"
  let ?psize = "data + scast (size_offset fld)"
  obtain b where chk: "pb_check_proto3_default_value env n (hmem c) fld data = Some b"
    using default_check_total [OF pl rk n] by blast
  obtain has0 where has0: "(if size_offset fld \<noteq> 0 then Some True
            else if PB_HTYPE ?type = PB_HTYPE_OPTIONAL
            then map_option Not (pb_check_proto3_default_value env n (hmem c) fld data)
            else Some True) = Some has0"
    using chk by (cases "size_offset fld \<noteq> 0"; cases "PB_HTYPE ?type = PB_HTYPE_OPTIONAL") simp_all
  let ?data = "if PB_ATYPE ?type = PB_ATYPE_POINTER then load64 (hmem c) data else data"
  let ?has = "if PB_ATYPE ?type = PB_ATYPE_POINTER then ?data \<noteq> NULL else has0"
  let ?both = "bindP (liftP (pb_encode_tag_for_field fld)) (\<lambda>_. ?func fld ?data)"
  have both: "sized c ?both" by (intro sized_intros func)
  have array: "sized c (encode_array ?func fld ?data count)" for count
    by (rule sized_array [OF pl refl func])
  let ?G = "if PB_HTYPE ?type = PB_HTYPE_REQUIRED
     then if ?data = NULL then liftP (PB_RETURN_ERROR_o ''missing required field'') else ?both
     else if PB_HTYPE ?type = PB_HTYPE_OPTIONAL
     then if (if size_offset fld \<noteq> 0 then hmem c ?psize \<noteq> 0 else ?has) then ?both else liftP (retC ())
     else if PB_HTYPE ?type = PB_HTYPE_REPEATED
     then encode_array ?func fld ?data
            (if size_offset fld \<noteq> 0 then load32 (hmem c) ?psize else array_size fld)
     else if (if size_offset fld \<noteq> 0 then load32 (hmem c) ?psize else of_bool ?has) = ftag fld
     then ?both else liftP (retC ())"
  have G: "sized c ?G" by (intro sized_if sized_error sized_ret both array)
  have "encode_basic_field env n rec fld data (c, s) = ?G (c, s)" for s
    unfolding encode_basic_field_def Let_def prod.case has0 option.case
    by (simp only: if_apply liftP_def retC_def)
  then show ?thesis by (rule sized_cong [OF G])
qed

lemma sized_encode_field:
  assumes enc: "encodable env (Suc d) (istart iter)" and n: "d < n"
    and rec: "\<And>flds p. encodable env d flds \<Longrightarrow> sized c (rec flds p)"
  shows "sized c (encode_field env n rec (iter_field iter) p)"
proof -
  let ?fld = "iter_field iter"
  note fld = encodable_field [OF enc]
  have "sized c (PB_ENCODERS env rec (PB_LTYPE (ftype ?fld)) ?fld q)" for q
    by (rule sized_decoder_table [OF fld(1)]) (rule rec [OF fld(3)])
  from sized_basic_field [of ?fld env d n c rec p, OF fld(1) encodable_ranked [OF fld(3)] n this]
  have basic: "sized c (encode_basic_field env n rec ?fld p)" .
  have "encode_field env n rec ?fld p =
      (if PB_ATYPE (ftype ?fld) = PB_ATYPE_STATIC \<or> PB_ATYPE (ftype ?fld) = PB_ATYPE_POINTER
       then encode_basic_field env n rec ?fld p else liftP (PB_RETURN_ERROR_o ''invalid field type''))"
    using fld(2) by (simp add: encode_field_def)
  then show ?thesis by (simp only:) (intro sized_if sized_error basic)
qed

lemma encode_fields_bind:
  "encode_fields env n rec iter =
     bindP (if PB_LTYPE (ftype (iter_field iter)) = PB_LTYPE_EXTENSION
            then encode_extension_field env n rec (pData iter)
            else encode_field env n rec (iter_field iter) (pData iter))
       (\<lambda>_. case pb_field_iter_next iter of
          (again, iter') \<Rightarrow> if again then encode_fields env n rec iter' else liftP (retC ()))"
  by (rule ext, subst encode_fields.simps)
    (auto simp: bindP_def Let_def liftP_def retC_def split: option.splits prod.splits)

lemma sized_fields:
  assumes enc: "encodable env (Suc d) flds" and n: "d < n"
    and rec: "\<And>flds p. encodable env d flds \<Longrightarrow> sized c (rec flds p)"
  shows "istart iter = flds \<Longrightarrow> sized c (encode_fields env n rec iter)"
proof (induction "length flds - ipos iter" arbitrary: iter rule: less_induct)
  case less
  have enc': "encodable env (Suc d) (istart iter)" using enc less.prems by simp
  have ext: "PB_LTYPE (ftype (iter_field iter)) \<noteq> PB_LTYPE_EXTENSION"
    using encodable_field(1) [OF enc'] by (simp add: plain_def)
  have field: "sized c (encode_field env n rec (iter_field iter) (pData iter))"
    by (rule sized_encode_field [OF enc' n]) (rule rec)
  obtain again iter' where nxt: "pb_field_iter_next iter = (again, iter')" by fastforce
  have more: "sized c (encode_fields env n rec iter')" if again
  proof (rule less.hyps)
    show "istart iter' = flds" using pb_field_iter_next_fields(1) [of iter] nxt less.prems by simp
    show "length flds - ipos iter' < length flds - ipos iter"
      using pb_field_iter_next_measure [of iter' iter] nxt that less.prems pb_field_iter_next_fields(1) [of iter] by simp
  qed
  have "encode_fields env n rec iter =
      bindP (encode_field env n rec (iter_field iter) (pData iter))
        (\<lambda>_. if again then encode_fields env n rec iter' else liftP (retC ()))"
    by (subst encode_fields_bind) (simp add: ext nxt)
  then show ?case by (simp only:) (intro sized_bind sized_if sized_ret field more)
qed

lemma sized_encode:
  "encodable env d flds \<Longrightarrow> d < n \<Longrightarrow> sized c (pb_encode env n flds src)"
proof (induction n arbitrary: d flds src)
  case (Suc n)
  then obtain d' where d: "d = Suc d'" by (cases d) simp_all
  have rec: "sized c (pb_encode env n flds' p)" if "encodable env d' flds'" for flds' p
    using Suc.IH [OF that] Suc.prems(2) d by simp
  obtain nonempty iter where bg: "pb_field_iter_begin flds src = (nonempty, iter)" by fastforce
  have st: "istart iter = flds" using pb_field_iter_begin_fields(1) [of flds src] bg by simp
  have "sized c (encode_fields env n (pb_encode env n) iter)"
    by (rule sized_fields [of env d' flds n c "pb_encode env n" iter, OF _ _ rec st]) (use Suc.prems d in simp_all)
  moreover have "pb_encode env (Suc n) flds src =
      (if nonempty then encode_fields env n (pb_encode env n) iter else liftP (retC ()))"
    by (rule ext) (simp add: pb_encode_body_def bg liftP_def retC_def)
  ultimately show ?case by (simp add: sized_ret)
qed simp

text \<open>C1: \<open>pb_get_encoded_size\<close> is exact, for a message type whose submessages nest at most \<open>d\<close> deep
  (so none contains itself), without callback fields and extensions, any fuel above \<open>d\<close>, and an output
  stream with a user callback that leaves all of the modelled memory as it is (it sends the bytes elsewhere;
  the stream of \<open>pb_ostream_from_buffer\<close>, which writes to the modelled memory, is not covered).  Then \<open>pb_get_encoded_size\<close> and \<open>pb_encode\<close> return, both leave the
  memory alone, and when \<open>pb_encode\<close> succeeds, the size is computed and is what \<open>bytes_written\<close> of the
  stream has grown by; so a message whose size cannot be computed is never written to the end.\<close>

theorem encoded_size_exact:
  assumes "encodable env d flds" "d < n" "sink s"
  shows "\<exists>size r s'. pb_get_encoded_size env n flds src c = Some (size, c) \<and>
    pb_encode env n flds src (c, s) = Some (r, c, s') \<and>
    (r \<noteq> None \<longrightarrow> (\<exists>a. size = Some a \<and> bytes_written s' = bytes_written s + a))"
proof -
  obtain N where N: "sized_at c N (pb_encode env n flds src)"
    using sized_encode [OF assms(1,2)] unfolding sized_def by blast
  have sizing: "ocallback PB_OSTREAM_SIZING = None" "bytes_written PB_OSTREAM_SIZING = 0"
    by (simp_all add: PB_OSTREAM_SIZING_def)
  obtain r z where "pb_encode env n flds src (c, PB_OSTREAM_SIZING) = Some (r, c, z)" "r = None \<longleftrightarrow> N = None"
    "\<And>a. N = Some a \<Longrightarrow> bytes_written z = a"
    by (rule sized_at_sizing [OF N sizing(1)]) (auto simp: sizing(2))
  then have "pb_get_encoded_size env n flds src c = Some (N, c)"
    by (cases N; cases r) (auto simp: pb_get_encoded_size_def)
  moreover from sized_at_sink [OF N assms(3)] obtain r2 s2 where
    "pb_encode env n flds src (c, s) = Some (r2, c, s2)"
    "r2 \<noteq> None \<Longrightarrow> \<exists>a. N = Some a \<and> bytes_written s2 = bytes_written s + a" by blast
  ultimately show ?thesis by (intro exI [of _ N] exI [of _ r2] exI [of _ s2] conjI impI)
qed

definition sample_sink :: pb_ostream_t where
  "sample_sink = \<lparr>ocallback = Some (User_write (\<lambda>c p bs. (True, c, p + of_nat (length bs)))), ostate = 0,
     max_size = 100, bytes_written = 0, oerrmsg = None\<rparr>"

theorem encoded_size_exact_witness:
  "\<exists>size r s'. pb_get_encoded_size sample_env 3 sample_outer 128 sample_memory = Some (size, sample_memory) \<and>
    pb_encode sample_env 3 sample_outer 128 (sample_memory, sample_sink) = Some (r, sample_memory, s') \<and>
    (r \<noteq> None \<longrightarrow> (\<exists>a. size = Some a \<and> bytes_written s' = a))"
proof -
  have "encodable sample_env (Suc (Suc 0)) sample_outer"
    by (simp add: sample_env_def sample_outer_def sample_inner_def plain_def PB_LAST_FIELD_def pb_type_defs)
  moreover have "sink sample_sink" by (simp add: sink_def sample_sink_def)
  ultimately show ?thesis
    using encoded_size_exact [of sample_env "Suc (Suc 0)" sample_outer 3 sample_sink 128 sample_memory]
    by (simp add: sample_sink_def)
qed

end
