(* ===== verification/Pb_Wire.thy ===== *)
theory Pb_Wire
  imports Pb_Ostream Pb_Istream
begin

text \<open>
  The wire format: what the scalar encoders write is what the scalar decoders read.
  The interface is the locale \<open>wire_codec\<close>; varints, zigzag varints, the fixed-width
  values and tags are its instances.
\<close>

section \<open>The contents of a buffer stream\<close>

definition content :: "cstate \<times> pb_istream_t \<Rightarrow> byte list" where
  "content = (\<lambda>(c, s). read_bytes (hmem c) (istate s) (unat (bytes_left s)))"

definition advance :: "nat \<Rightarrow> pb_istream_t \<Rightarrow> pb_istream_t" where
  "advance n s = s\<lparr>istate := istate s + of_nat n, bytes_left := bytes_left s - of_nat n\<rparr>"

lemma length_content [simp]: "length (content (c, s)) = unat (bytes_left s)"
  by (simp add: content_def)

lemma advance_fields [simp]:
  "icallback (advance n s) = icallback s" "ierrmsg (advance n s) = ierrmsg s"
  "istate (advance n s) = istate s + of_nat n"
  "bytes_left (advance n s) = bytes_left s - of_nat n"
  by (simp_all add: advance_def)

lemma advance_0 [simp]: "advance 0 s = s"
  by (simp add: advance_def)

lemma advance_advance [simp]: "advance n (advance m s) = advance (m + n) s"
  by (simp add: advance_def algebra_simps)

lemma content_bound:
  "content (c, s) = xs @ rest \<Longrightarrow> length xs \<le> unat (bytes_left s) \<and> length xs < 2 ^ 64"
proof -
  assume "content (c, s) = xs @ rest"
  then have "length xs + length rest = unat (bytes_left s)"
    by (metis length_append length_content)
  moreover have "unat (bytes_left s) < 2 ^ 64"
    using unsigned_less [of "bytes_left s", where 'a = nat] by simp
  ultimately show ?thesis by linarith
qed

lemma content_advance [stream_simps]:
  assumes "content (c, s) = xs @ rest"
  shows "content (c, advance (length xs) s) = rest"
proof -
  have b: "length xs \<le> unat (bytes_left s)" "length xs < 2 ^ 64"
    using content_bound [OF assms] by auto
  have l: "unat (bytes_left s - of_nat (length xs)) = unat (bytes_left s) - length xs"
    using b by (simp add: unat_minus_of_nat)
  have "content (c, s) = read_bytes (hmem c) (istate s) (length xs)
      @ read_bytes (hmem c) (istate s + of_nat (length xs)) (unat (bytes_left s) - length xs)"
    using read_bytes_add [of "hmem c" "istate s" "length xs" "unat (bytes_left s) - length xs"] b
    by (simp add: content_def)
  then have "rest = read_bytes (hmem c) (istate s + of_nat (length xs)) (unat (bytes_left s) - length xs)"
    using assms by (metis append_eq_append_conv length_read_bytes)
  with l show ?thesis by (simp add: content_def)
qed

lemma content_take:
  assumes "content (c, s) = xs @ rest"
  shows "read_bytes (hmem c) (istate s) (length xs) = xs"
proof -
  have b: "length xs \<le> unat (bytes_left s)" using content_bound [OF assms] by auto
  have "content (c, s) = read_bytes (hmem c) (istate s) (length xs)
      @ read_bytes (hmem c) (istate s + of_nat (length xs)) (unat (bytes_left s) - length xs)"
    using read_bytes_add [of "hmem c" "istate s" "length xs" "unat (bytes_left s) - length xs"] b
    by (simp add: content_def)
  with assms show ?thesis by (metis append_eq_append_conv length_read_bytes)
qed

lemma pb_read_buf_content [stream_simps]:
  assumes "icallback s = Buf_read" "content (c, s) = xs @ rest"
  shows "pb_read_buf (of_nat (length xs)) (c, s) = (Some xs, c, advance (length xs) s)"
proof -
  have b: "length xs \<le> unat (bytes_left s)" "length xs < 2 ^ 64"
    using content_bound [OF assms(2)] by auto
  then have "\<not> bytes_left s < of_nat (length xs)"
    by (simp add: word_less_nat_alt unat_of_nat_size)
  then show ?thesis using assms(1) b content_take [OF assms(2)]
    by (simp add: pb_read_buf_def istream_callback_def buf_read_def advance_def unat_of_nat_size)
qed

lemma pb_read_null_content [stream_simps]:
  assumes "icallback s = Buf_read" "content (c, s) = xs @ rest"
  shows "pb_read_null (of_nat (length xs)) (c, s) = (Some (), c, advance (length xs) s)"
  using pb_read_buf_content [OF assms] assms(1) by (simp add: pb_read_null_def)

lemma pb_readbyte_content [stream_simps]:
  assumes "icallback s = Buf_read" "content (c, s) = b # rest"
  shows "pb_readbyte (c, s) = (Some b, c, advance 1 s)"
proof -
  have "content (c, s) = [b] @ rest" using assms(2) by simp
  from content_bound [OF this] content_take [OF this]
  show ?thesis using assms(1)
    by (auto simp: pb_readbyte_def istream_callback_def buf_read_def advance_def)
qed

lemma content_advance_1 [stream_simps]:
  "content (c, s) = b # rest \<Longrightarrow> content (c, advance 1 s) = rest"
  using content_advance [of c s "[b]" rest] by simp

lemmas content_advance_Suc0 [stream_simps] = content_advance_1 [unfolded One_nat_def]

section \<open>The codec interface\<close>

text \<open>What was put into a buffer is the content of an input stream on it.\<close>

lemma put_content:
  assumes cb: "ocallback s = Some Buf_write" and room: "has_room s (length bs)"
    and run: "put bs (c, s) = (r, c', s')"
  shows "r = Some ()" "bytes_written s' - bytes_written s = of_nat (length bs)"
    "bytes_written s' = bytes_written s + of_nat (length bs)"
    "c' = c\<lparr>hmem := write_bytes (hmem c) (ostate s) bs\<rparr>"
    "content (c', pb_istream_from_buffer (ostate s) (of_nat (length bs))) = bs"
    "advance (length bs) (pb_istream_from_buffer (ostate s) (of_nat (length bs))) =
      pb_istream_from_buffer (ostate s') 0"
proof -
  have len: "length bs < 2 ^ 64" using room by (simp add: has_room_def)
  have std: "std_ostream s" using cb by (simp add: std_ostream_def)
  have w: "(r, c', s') = (Some (), after_write bs (c, s))"
    using run put_after_write [OF std room, of c] by simp
  then show "r = Some ()" "bytes_written s' - bytes_written s = of_nat (length bs)"
    "bytes_written s' = bytes_written s + of_nat (length bs)"
    and c': "c' = c\<lparr>hmem := write_bytes (hmem c) (ostate s) bs\<rparr>"
    using cb by (auto simp: after_write_def)
  have "ostate s' = ostate s + of_nat (length bs)" using w cb by (auto simp: after_write_def)
  then show "advance (length bs) (pb_istream_from_buffer (ostate s) (of_nat (length bs))) =
      pb_istream_from_buffer (ostate s') 0"
    by (simp add: advance_def pb_istream_from_buffer_def)
  show "content (c', pb_istream_from_buffer (ostate s) (of_nat (length bs))) = bs"
    using len by (simp add: content_def c' pb_istream_from_buffer_def unat_of_nat_size mem_simps)
qed

lemma pb_istream_from_buffer_callback [simp]: "icallback (pb_istream_from_buffer a n) = Buf_read"
  by (simp add: pb_istream_from_buffer_def)

text \<open>A state with a given buffer.\<close>

definition buffer_state :: "byte list \<Rightarrow> cstate" where
  "buffer_state bs = \<lparr>hmem = write_bytes (\<lambda>_. 0) 0 bs, hblocks = Map.empty, halloc = (\<lambda>_ _. 0)\<rparr>"

lemma content_buffer_state:
  "length bs < 2 ^ 64 \<Longrightarrow> content (buffer_state bs, pb_istream_from_buffer 0 (of_nat (length bs))) = bs"
  by (simp add: content_def buffer_state_def pb_istream_from_buffer_def unat_of_nat_size mem_simps)

text \<open>
  An encoder and a decoder agree on a format \<open>bytes\<close> when the encoder writes
  \<open>bytes v\<close> and the decoder, on a buffer that starts with \<open>bytes v\<close>, gives \<open>v\<close> and
  has consumed exactly these bytes.
\<close>

locale wire_codec =
  fixes enc :: "'v \<Rightarrow> unit ofun"
    and dec :: "'v ifun"
    and bytes :: "'v \<Rightarrow> byte list"
    and valid :: "'v \<Rightarrow> bool"
  assumes enc_put: "valid v \<Longrightarrow> enc v = put (bytes v)"
    and dec_bytes: "\<lbrakk>valid v; icallback s = Buf_read; content (c, s) = bytes v @ rest\<rbrakk>
      \<Longrightarrow> dec (c, s) = (Some v, c, advance (length (bytes v)) s)"
begin

text \<open>No encoding is the beginning of another one: what follows cannot change the reading.\<close>

lemma prefix_free:
  assumes v: "valid v" and w: "valid w" and eq: "bytes v @ xs = bytes w @ ys"
    and len: "length (bytes v @ xs) < 2 ^ 64"
  shows "v = w \<and> xs = ys"
proof -
  let ?c = "buffer_state (bytes v @ xs)"
  let ?s = "pb_istream_from_buffer 0 (of_nat (length (bytes v @ xs)))"
  have cont: "content (?c, ?s) = bytes v @ xs" by (rule content_buffer_state [OF len])
  have "dec (?c, ?s) = (Some v, ?c, advance (length (bytes v)) ?s)"
    by (rule dec_bytes [OF v _ cont]) simp
  moreover have "dec (?c, ?s) = (Some w, ?c, advance (length (bytes w)) ?s)"
    using cont eq by (intro dec_bytes [OF w, where rest = ys]) simp_all
  ultimately have "v = w" by simp
  with eq show ?thesis by simp
qed

text \<open>Encoding to a buffer and decoding from that buffer gives the value back.\<close>

lemma enc_dec_memory:
  assumes v: "valid v" and cb: "ocallback s = Some Buf_write" and room: "has_room s (length (bytes v))"
    and run: "enc v (c, s) = (r, c', s')"
  shows "r = Some () \<and> bytes_written s' = bytes_written s + of_nat (length (bytes v)) \<and>
    dec (c', pb_istream_from_buffer (ostate s) (bytes_written s' - bytes_written s)) =
      (Some v, c', (pb_istream_from_buffer (ostate s') 0))"
proof -
  have "put (bytes v) (c, s) = (r, c', s')" using run enc_put [OF v] by simp
  note w = put_content [OF cb room this]
  from dec_bytes [OF v, of "pb_istream_from_buffer (ostate s) (of_nat (length (bytes v)))" c' "[]"] w
  show ?thesis by simp
qed

end

section \<open>Varints\<close>

lemma byte_7F: "(0x7F :: 'a::len word) = mask 7" if "LENGTH('a) \<ge> 8"
  by (simp add: mask_eq_exp_minus_1)

lemma and_7F_u64: "v AND 0x7F = take_bit 7 (v :: u64)"
  using byte_7F [where 'a = 64] by (simp add: take_bit_eq_mask)

lemma and_7F_byte: "b AND 0x7F = take_bit 7 (b :: byte)"
  using byte_7F [where 'a = 8] by (simp add: take_bit_eq_mask)

lemma split_7:
  fixes v :: u64
  shows "v = take_bit 7 v OR push_bit 7 (drop_bit 7 v)"
proof (rule bit_word_eqI)
  fix n assume "n < LENGTH(64)"
  then show "bit v n \<longleftrightarrow> bit (take_bit 7 v OR push_bit 7 (drop_bit 7 v)) n"
    by (cases "n < 7") (auto simp: bit_simps)
qed

text \<open>A continuation byte carries seven bits and a set top bit.\<close>

lemma cont_byte [byte_simps]:
  "((ucast (v AND 0x7F) :: byte) OR 0x80) AND 0x80 \<noteq> 0"
  "ucast (((ucast (v AND 0x7F) :: byte) OR 0x80) AND 0x7F) = (v AND 0x7F :: u64)"
proof -
  have "bit (((ucast (v AND 0x7F) :: byte) OR 0x80) AND 0x80) 7" by (simp add: bit_simps)
  then show "((ucast (v AND 0x7F) :: byte) OR 0x80) AND 0x80 \<noteq> 0" by (metis bit_0_eq bot_apply bot_bool_def)
  show "ucast (((ucast (v AND 0x7F) :: byte) OR 0x80) AND 0x7F) = (v AND 0x7F :: u64)"
    by (rule bit_word_eqI) (auto simp: and_7F_u64 and_7F_byte bit_simps)
qed

lemma last_byte [byte_simps]:
  assumes "(v :: u64) \<le> 0x7F"
  shows "(ucast v :: byte) AND 0x80 = 0" "ucast ((ucast v :: byte) AND 0x7F) = v"
    "((ucast (v AND 0x7F) :: byte) OR 0x80) AND 0x7F = ucast v" "drop_bit 7 v = 0"
proof -
  have "v < 2 ^ 7" using assms by (simp add: word_le_nat_alt word_less_nat_alt)
  then have "take_bit 7 (unat v) = unat v"
    by (simp add: take_bit_nat_eq_self_iff word_less_nat_alt)
  then have t: "take_bit 7 v = v" by (simp add: unsigned_take_bit_eq word_unat_eq_iff)
  have hi: "\<not> bit v n" if "n \<ge> 7" for n using that by (metis t bit_take_bit_iff not_le)
  show "(ucast v :: byte) AND 0x80 = 0"
  proof (rule bit_word_eqI)
    fix n
    show "bit ((ucast v :: byte) AND 0x80) n \<longleftrightarrow> bit (0 :: byte) n"
      unfolding bit_and_iff bit_80 using hi [of n] by (auto simp: bit_ucast_iff)
  qed
  have hi': "bit v n \<Longrightarrow> n < 7" for n by (rule ccontr) (simp add: hi)
  show "ucast ((ucast v :: byte) AND 0x7F) = v"
    by (rule bit_word_eqI) (auto simp: and_7F_byte bit_simps dest: hi')
  show "((ucast (v AND 0x7F) :: byte) OR 0x80) AND 0x7F = ucast v"
    by (rule bit_word_eqI) (auto simp: and_7F_u64 and_7F_byte bit_simps dest: hi')
  show "drop_bit 7 v = 0" by (rule bit_word_eqI) (auto simp: bit_simps hi)
qed

lemma drop_bit_7_nonzero: "\<not> (v :: u64) \<le> 0x7F \<Longrightarrow> drop_bit 7 v \<noteq> 0"
proof
  assume *: "\<not> v \<le> 0x7F" "drop_bit 7 v = 0"
  have "v = v AND 0x7F" using split_7 [of v] *(2) by (simp add: and_7F_u64)
  then have "v \<le> 0x7F" by (metis word_and_le1)
  with * show False by simp
qed

lemma varint_bytes_rec:
  "varint_bytes v = (if v \<le> 0x7F then [ucast v]
     else ((ucast (v AND 0x7F) :: byte) OR 0x80) # varint_bytes (drop_bit 7 v))"
proof (cases "v \<le> 0x7F")
  case False
  let ?w = "drop_bit 7 v"
  have w0: "?w \<noteq> 0" and v0: "v \<noteq> 0" using drop_bit_7_nonzero [OF False] False by auto
  have vb: "varint_buffer v = ((ucast (v AND 0x7F) :: byte) OR 0x80) # varint_buffer ?w"
    using v0 by (subst varint_buffer.simps) simp
  have ne: "varint_buffer ?w \<noteq> []" by (rule varint_buffer_nonempty [OF w0])
  show ?thesis
  proof (cases "?w \<le> 0x7F")
    case True
    have "varint_buffer ?w = [(ucast (?w AND 0x7F) :: byte) OR 0x80]"
      using w0 last_byte(4) [OF True] by (subst varint_buffer.simps) simp
    with False True vb last_byte(3) [OF True] show ?thesis by (simp add: varint_bytes_def Let_def)
  next
    case w: False
    with False vb ne show ?thesis
      by (cases "varint_buffer ?w") (auto simp: varint_bytes_def Let_def)
  qed
qed (simp add: varint_bytes_def)

lemma varint_loop_bytes:
  assumes "icallback s = Buf_read" "content (c, s) = varint_bytes v @ rest"
    "unat bitpos = 7 * k" "k \<le> 9" "unat v < 2 ^ (64 - 7 * k)"
  shows "varint_loop bitpos result (c, s) =
    (Some (result OR push_bit (7 * k) v), c, advance (length (varint_bytes v)) s)"
  using assms
proof (induction "unat v" arbitrary: v s bitpos k result rule: less_induct)
  case less
  have pos: "\<not> bitpos \<ge> 64" using less.prems(3,4) by (simp add: word_le_nat_alt)
  show ?case
  proof (cases "v \<le> 0x7F")
    case True
    then have vb: "varint_bytes v = [ucast v]" by (simp add: varint_bytes_rec [of v])
    with less.prems have "pb_readbyte (c, s) = (Some (ucast v), c, advance 1 s)"
      by (intro pb_readbyte_content) auto
    with pos True less.prems(3) vb show ?thesis
      by (subst varint_loop.simps) (simp add: last_byte)
  next
    case False
    let ?b = "(ucast (v AND 0x7F) :: byte) OR 0x80" and ?w = "drop_bit 7 v"
    have v0: "v \<noteq> 0" using False by auto
    have vb: "varint_bytes v = ?b # varint_bytes ?w" using False by (simp add: varint_bytes_rec [of v])
    have rb: "pb_readbyte (c, s) = (Some ?b, c, advance 1 s)"
      using less.prems vb by (intro pb_readbyte_content) auto
    have k: "k < 9"
    proof (rule ccontr)
      assume "\<not> k < 9"
      with less.prems(4) have "k = 9" by simp
      with less.prems(5) have "unat v < 2" by simp
      with False show False by (simp add: word_le_nat_alt)
    qed
    have "varint_loop (bitpos + 7) (result OR push_bit (unat bitpos) (ucast (?b AND 0x7F))) (c, advance 1 s) =
        (Some ((result OR push_bit (unat bitpos) (ucast (?b AND 0x7F))) OR push_bit (7 * (k + 1)) ?w), c,
         advance (length (varint_bytes ?w)) (advance 1 s))"
    proof (rule less.hyps)
      show "unat ?w < unat v"
        using drop_bit_less_word [of v 7] v0 by (simp add: word_less_nat_alt)
      show "content (c, advance 1 s) = varint_bytes ?w @ rest"
        using less.prems(2) vb by (intro content_advance_1) simp
      show "unat (bitpos + 7) = 7 * (k + 1)"
        using less.prems(3) k by (simp add: unat_word_ariths)
      have "64 - 7 * k = (64 - 7 * (k + 1)) + 7" using k by simp
      then have "unat v < 2 ^ (64 - 7 * (k + 1)) * 2 ^ 7" using less.prems(5) by (simp only: power_add)
      then have "unat v div 2 ^ 7 < 2 ^ (64 - 7 * (k + 1))" by (rule less_mult_imp_div_less)
      then have "drop_bit 7 (unat v) < 2 ^ (64 - 7 * (k + 1))" by (simp add: drop_bit_eq_div)
      then show "unat ?w < 2 ^ (64 - 7 * (k + 1))" by (simp only: unat_drop_bit_eq)
    qed (use less.prems k in auto)
    moreover have "(result OR push_bit (7 * k) (v AND 0x7F)) OR push_bit (7 * (k + 1)) ?w = result OR push_bit (7 * k) v"
      using arg_cong [OF split_7 [of v], of "push_bit (7 * k)"]
      by (simp add: and_7F_u64 push_bit_or push_bit_push_bit or.assoc algebra_simps)
    ultimately show ?thesis using pos rb vb less.prems(3)
      by (subst varint_loop.simps) (simp add: cont_byte)
  qed
qed

lemma pb_decode_varint_bytes:
  assumes "icallback s = Buf_read" "content (c, s) = varint_bytes v @ rest"
  shows "pb_decode_varint (c, s) = (Some v, c, advance (length (varint_bytes v)) s)"
  using varint_loop_bytes [OF assms, of 0 0 0] unsigned_less [of v, where 'a = nat]
  by (simp add: pb_decode_varint_def)

interpretation varint: wire_codec pb_encode_varint pb_decode_varint varint_bytes "\<lambda>_. True"
  by unfold_locales (auto simp: pb_encode_varint_put pb_decode_varint_bytes)

section \<open>Zigzag varints\<close>

lemma unzigzag_zigzag:
  "(if (zigzag v AND 1) \<noteq> 0 then NOT (drop_bit 1 (zigzag v)) else drop_bit 1 (zigzag v)) = v"
proof -
  define P where "P = push_bit 1 v"
  have bP: "bit P n \<longleftrightarrow> 1 \<le> n \<and> n < 64 \<and> bit v (n - 1)" for n
    unfolding P_def by (simp only: bit_push_bit_iff) (auto dest: bit_imp_le_length)
  have sgn: "sint v < 0 \<longleftrightarrow> bit v 63" using bit_last_iff [of v] by simp
  have z: "zigzag v = (if bit v 63 then NOT P else P)" by (simp only: zigzag_def sgn P_def)
  have "bit (zigzag v) 0 \<longleftrightarrow> bit v 63" by (simp add: z bP bit_not_iff)
  then have odd: "zigzag v AND 1 \<noteq> 0 \<longleftrightarrow> bit v 63"
    by (simp add: and_one_eq mod_2_eq_odd bit_0)
  show ?thesis
  proof (rule bit_word_eqI)
    fix n assume n: "n < LENGTH(64)"
    show "bit (if zigzag v AND 1 \<noteq> 0 then NOT (drop_bit 1 (zigzag v)) else drop_bit 1 (zigzag v)) n = bit v n"
      using n unfolding odd
      by (cases "n = 63") (auto simp: z bP bit_not_iff bit_drop_bit_eq)
  qed
qed

lemma pb_decode_svarint_bytes:
  assumes "icallback s = Buf_read" "content (c, s) = varint_bytes (zigzag v) @ rest"
  shows "pb_decode_svarint (c, s) = (Some v, c, advance (length (varint_bytes (zigzag v))) s)"
  using pb_decode_varint_bytes [OF assms] unzigzag_zigzag [of v]
  by (simp add: pb_decode_svarint_def retC_def)

interpretation svarint: wire_codec pb_encode_svarint pb_decode_svarint
  "\<lambda>v. varint_bytes (zigzag v)" "\<lambda>_. True"
  by unfold_locales (auto simp: pb_encode_svarint_put pb_decode_svarint_bytes)

section \<open>Fixed-width values\<close>

lemma pb_decode_fixed32_bytes:
  assumes "icallback s = Buf_read" "content (c, s) = le_bytes 4 v @ rest"
  shows "pb_decode_fixed32 (c, s) = (Some v, c, advance 4 s)"
proof -
  have r: "pb_read_buf 4 (c, s) = (Some (le_bytes 4 v), c, advance 4 s)"
    using pb_read_buf_content [OF assms] by simp
  have "(push_bit 0 (ucast (le_bytes 4 v ! 0)) OR push_bit 8 (ucast (le_bytes 4 v ! 1)) OR
      push_bit 16 (ucast (le_bytes 4 v ! 2)) OR push_bit 24 (ucast (le_bytes 4 v ! 3))) =
      (le_word (le_bytes 4 v) :: u32)"
    by (simp add: le_bytes_def upt_rec push_bit_or push_bit_push_bit)
  then show ?thesis using r
    by (simp add: pb_decode_fixed32_def retC_def le_word_le_bytes_full)
qed

lemma pb_decode_fixed64_bytes:
  assumes "icallback s = Buf_read" "content (c, s) = le_bytes 8 v @ rest"
  shows "pb_decode_fixed64 (c, s) = (Some v, c, advance 8 s)"
proof -
  have r: "pb_read_buf 8 (c, s) = (Some (le_bytes 8 v), c, advance 8 s)"
    using pb_read_buf_content [OF assms] by simp
  have "(push_bit 0 (ucast (le_bytes 8 v ! 0)) OR push_bit 8 (ucast (le_bytes 8 v ! 1)) OR
      push_bit 16 (ucast (le_bytes 8 v ! 2)) OR push_bit 24 (ucast (le_bytes 8 v ! 3)) OR
      push_bit 32 (ucast (le_bytes 8 v ! 4)) OR push_bit 40 (ucast (le_bytes 8 v ! 5)) OR
      push_bit 48 (ucast (le_bytes 8 v ! 6)) OR push_bit 56 (ucast (le_bytes 8 v ! 7))) =
      (le_word (le_bytes 8 v) :: u64)"
    by (simp add: le_bytes_def upt_rec push_bit_or push_bit_push_bit)
  then show ?thesis using r
    by (simp add: pb_decode_fixed64_def retC_def le_word_le_bytes_full)
qed

interpretation fixed32: wire_codec pb_encode_fixed32 pb_decode_fixed32 "le_bytes 4" "\<lambda>_. True"
  by unfold_locales (auto simp: pb_encode_fixed32_put pb_decode_fixed32_bytes)

interpretation fixed64: wire_codec pb_encode_fixed64 pb_decode_fixed64 "le_bytes 8" "\<lambda>_. True"
  by unfold_locales (auto simp: pb_encode_fixed64_put pb_decode_fixed64_bytes)

section \<open>Varints of 32 bits\<close>

text \<open>
  \<open>pb_decode_varint32\<close> accepts a value below \<open>2 ^ 32\<close>, and a negative value that was
  sign-extended to 64 bits.
\<close>

definition fits32 :: "u64 \<Rightarrow> bool" where
  "fits32 v \<longleftrightarrow> unat v < 2 ^ 32 \<or> drop_bit 31 v = 0x1FFFFFFFF"

lemma high_ones:
  assumes "drop_bit 31 (v :: u64) = 0x1FFFFFFFF" "31 \<le> n" "n < 64"
  shows "bit v n"
proof -
  have "(0x1FFFFFFFF :: u64) = mask 33" by (simp add: mask_eq_exp_minus_1)
  with assms(1) have "bit (drop_bit 31 v) (n - 31) \<longleftrightarrow> bit (mask 33 :: u64) (n - 31)" by simp
  moreover have "n - 31 < 33" using assms by linarith
  ultimately show ?thesis using assms(2) by (simp add: bit_simps)
qed

lemma le_7F_bit: "(v :: u64) \<le> 0x7F \<Longrightarrow> bit v n \<Longrightarrow> n < 7"
  using u64_bit_bound [of v 7 n] by (auto simp: word_le_nat_alt not_less [symmetric])

lemma varint32_loop_last:
  assumes "pb_readbyte st = (Some b, st')" "b AND 0x80 = 0"
    "\<not> (32 \<le> bitpos \<and> b AND 0x7F \<noteq> 0 \<and> (drop_bit 31 result = 0 \<or> b \<noteq> (if bitpos < 63 then 0xFF else 0x01)))"
    "\<not> (bitpos + 7 = 35 \<and> b AND 0x70 \<noteq> 0)"
  shows "varint32_loop bitpos result st =
    (Some (if 32 \<le> bitpos then result else result OR push_bit (unat bitpos) (ucast (b AND 0x7F))), st')"
  by (subst varint32_loop.simps) (simp only: assms Let_def prod.case option.case if_False simp_thms)

lemma varint32_loop_more:
  assumes "pb_readbyte st = (Some b, st')" "b AND 0x80 \<noteq> 0"
    "\<not> (32 \<le> bitpos \<and> b AND 0x7F \<noteq> 0 \<and> (drop_bit 31 result = 0 \<or> b \<noteq> (if bitpos < 63 then 0xFF else 0x01)))"
  shows "varint32_loop bitpos result st = varint32_loop (bitpos + 7)
    (if 32 \<le> bitpos then result else result OR push_bit (unat bitpos) (ucast (b AND 0x7F))) st'"
  by (subst varint32_loop.simps)
     (simp only: assms Let_def prod.case option.case if_False if_True simp_thms)

lemma varint32_step_small:
  assumes u: "drop_bit (7 * k) v \<le> (0x7F :: u64)" and k: "1 \<le> k" "k \<le> 9"
    and fit: "fits32 v" and nz: "drop_bit (7 * k) v \<noteq> 0"
    and cb: "icallback s = Buf_read"
    and cont: "content (c, s) = varint_bytes (drop_bit (7 * k) v) @ rest"
  shows "varint32_loop (of_nat (7 * k)) (ucast (take_bit (7 * k) v)) (c, s) =
    (Some (ucast v), c, advance 1 s)"
proof -
  let ?u = "drop_bit (7 * k) v"
  have vb: "varint_bytes ?u = [ucast ?u]" using u by (simp add: varint_bytes_rec [of ?u])
  have rb: "pb_readbyte (c, s) = (Some (ucast ?u), c, advance 1 s)"
    using cont vb cb by (intro pb_readbyte_content) auto
  have pos: "unat (of_nat (7 * k) :: u8) = 7 * k" using k by (simp only: unat_of_nat) simp
  have ubit: "bit v (7 * k + n) \<Longrightarrow> n < 7" for n
  proof (rule ccontr)
    assume b: "bit v (7 * k + n)" "\<not> n < 7"
    have "unat ?u < 2 ^ 7" using u by (simp add: word_le_nat_alt)
    then have "\<not> bit ?u n" using b(2) u64_bit_bound [of ?u 7 n] by simp
    with b(1) show False by (simp add: bit_drop_bit_eq)
  qed
  have low: "\<not> k \<le> 4 \<Longrightarrow> (ucast (take_bit (7 * k) v) :: u32) = ucast v"
    by (rule bit_word_eqI) (auto simp: bit_simps)
  have join: "ucast (take_bit (7 * k) v) OR push_bit (7 * k) (ucast ((ucast ?u :: byte) AND 0x7F)) = (ucast v :: u32)"
  proof (rule bit_word_eqI)
    fix n assume n: "n < LENGTH(32)"
    show "bit (ucast (take_bit (7 * k) v) OR push_bit (7 * k) (ucast ((ucast ?u :: byte) AND 0x7F)) :: u32) n
        \<longleftrightarrow> bit (ucast v :: u32) n"
    proof (cases "n < 7 * k")
      case False
      then show ?thesis using n ubit [of "n - 7 * k"]
        by (auto simp: and_7F_byte bit_simps)
    qed (use n in \<open>auto simp: bit_simps\<close>)
  qed
  consider (lo) "unat v < 2 ^ 32" | (hi) "drop_bit 31 v = 0x1FFFFFFFF" using fit by (auto simp: fits32_def)
  then show ?thesis
  proof cases
    case lo
    have k4: "k \<le> 4"
    proof (rule ccontr)
      assume "\<not> k \<le> 4"
      then have "\<not> bit v (7 * k + n)" for n by (intro u64_bit_bound [OF lo]) auto
      then have "?u = 0" by (intro bit_word_eqI) (simp add: bit_drop_bit_eq)
      with nz show False by simp
    qed
    have "(ucast ?u :: byte) AND 0x70 = 0" if "k = 4"
    proof (rule bit_word_eqI)
      fix n
      have "(0x70 :: byte) = 2 ^ 4 OR 2 ^ 5 OR 2 ^ 6" by simp
      then have "bit (0x70 :: byte) n \<longleftrightarrow> n = 4 \<or> n = 5 \<or> n = 6"
        by (simp only: bit_or_iff bit_exp_iff) auto
      moreover have "\<not> bit v (28 + n)" if "4 \<le> n" using that by (intro u64_bit_bound [OF lo]) auto
      ultimately show "bit ((ucast ?u :: byte) AND 0x70) n \<longleftrightarrow> bit (0 :: byte) n"
        using \<open>k = 4\<close> by (auto simp: bit_and_iff bit_ucast_iff bit_drop_bit_eq)
    qed
    moreover have "of_nat (7 * k) + 7 = (35 :: u8) \<Longrightarrow> k = 4"
      using k4 by (auto simp: word_unat_eq_iff unat_word_ariths unat_of_nat)
    ultimately have c2: "\<not> (of_nat (7 * k) + 7 = (35 :: u8) \<and> (ucast ?u :: byte) AND 0x70 \<noteq> 0)" by blast
    have lt: "\<not> 32 \<le> (of_nat (7 * k) :: u8)" using k4 pos by (simp only: word_le_nat_alt) simp
    then have c1: "\<not> (32 \<le> (of_nat (7 * k) :: u8) \<and> (ucast ?u :: byte) AND 0x7F \<noteq> 0 \<and>
      (drop_bit 31 (ucast (take_bit (7 * k) v) :: u32) = 0 \<or>
       (ucast ?u :: byte) \<noteq> (if (of_nat (7 * k) :: u8) < 63 then 0xFF else 0x01)))" by blast
    note varint32_loop_last [OF rb last_byte(1) [OF u] c1 c2]
    then show ?thesis by (simp only: lt pos join if_False)
  next
    case hi
    have k9: "k = 9"
    proof (rule ccontr)
      assume "k \<noteq> 9"
      then have "7 * k + 7 < 64" using k by simp
      then have "bit v (7 * k + (max 7 (31 - 7 * k)))"
        by (intro high_ones [OF hi]) auto
      from ubit [OF this] show False by simp
    qed
    have b63: "bit v 63" by (rule high_ones [OF hi]) auto
    have u1: "?u = 1"
      using b63 k9 by (intro bit_word_eqI) (auto simp: bit_drop_bit_eq bit_1_iff not_less
          dest: bit_imp_le_length intro: ccontr)
    have "bit (ucast (take_bit 63 v) :: u32) 31" using high_ones [OF hi, of 31] by (simp add: bit_simps)
    then have "bit (drop_bit 31 (ucast (take_bit 63 v) :: u32)) 0" by (simp only: bit_drop_bit_eq) simp
    then have "drop_bit 31 (ucast (take_bit 63 v) :: u32) \<noteq> 0" by (metis bit_0_eq bot_apply bot_bool_def)
    then have "varint32_loop 63 (ucast (take_bit 63 v)) (c, s) =
      (Some (if 32 \<le> (63 :: u8) then ucast (take_bit 63 v)
        else ucast (take_bit 63 v) OR push_bit (unat (63 :: u8)) (ucast ((1 :: byte) AND 0x7F))), c, advance 1 s)"
      using rb u1 k9 by (intro varint32_loop_last) auto
    then show ?thesis using low k9 by simp
  qed
qed

lemma varint32_step_more:
  assumes u: "\<not> drop_bit (7 * k) v \<le> (0x7F :: u64)" and k: "1 \<le> k"
    and fit: "fits32 v" and cb: "icallback s = Buf_read"
    and cont: "content (c, s) = varint_bytes (drop_bit (7 * k) v) @ rest"
  shows "k < 9 \<and> varint32_loop (of_nat (7 * k)) (ucast (take_bit (7 * k) v)) (c, s) =
    varint32_loop (of_nat (7 * (k + 1))) (ucast (take_bit (7 * (k + 1)) v)) (c, advance 1 s)"
proof -
  let ?u = "drop_bit (7 * k) v" and ?b = "(ucast (drop_bit (7 * k) v AND 0x7F) :: byte) OR 0x80"
  have k9: "k < 9"
  proof (rule ccontr)
    assume "\<not> k < 9"
    then have "drop_bit 7 ?u = 0"
      by (intro bit_word_eqI) (auto simp: bit_drop_bit_eq dest: bit_imp_le_length)
    with drop_bit_7_nonzero [OF u] show False by simp
  qed
  have rb: "pb_readbyte (c, s) = (Some ?b, c, advance 1 s)"
    using cont u cb by (intro pb_readbyte_content) (auto simp: varint_bytes_rec [of ?u])
  have pos: "unat (of_nat (7 * k) :: u8) = 7 * k" using k9 by (simp only: unat_of_nat) simp
  have nxt: "of_nat (7 * k) + 7 = (of_nat (7 * (k + 1)) :: u8)" by simp
  have byte: "(ucast (?b AND 0x7F) :: u32) = ucast (?u AND 0x7F)"
    by (rule bit_word_eqI) (auto simp: and_7F_u64 and_7F_byte bit_simps)
  have c1: "\<not> (32 \<le> (of_nat (7 * k) :: u8) \<and> ?b AND 0x7F \<noteq> 0 \<and>
      (drop_bit 31 (ucast (take_bit (7 * k) v) :: u32) = 0 \<or> ?b \<noteq> (if (of_nat (7 * k) :: u8) < 63 then 0xFF else 0x01)))"
    and res: "(if 32 \<le> (of_nat (7 * k) :: u8) then ucast (take_bit (7 * k) v)
       else ucast (take_bit (7 * k) v) OR push_bit (unat (of_nat (7 * k) :: u8)) (ucast (?b AND 0x7F))) =
      (ucast (take_bit (7 * (k + 1)) v) :: u32)"
  proof -
    have "(\<not> (32 \<le> (of_nat (7 * k) :: u8) \<and> ?b AND 0x7F \<noteq> 0 \<and>
      (drop_bit 31 (ucast (take_bit (7 * k) v) :: u32) = 0 \<or> ?b \<noteq> (if (of_nat (7 * k) :: u8) < 63 then 0xFF else 0x01)))) \<and>
      (if 32 \<le> (of_nat (7 * k) :: u8) then ucast (take_bit (7 * k) v)
       else ucast (take_bit (7 * k) v) OR push_bit (unat (of_nat (7 * k) :: u8)) (ucast (?b AND 0x7F))) =
      (ucast (take_bit (7 * (k + 1)) v) :: u32)"
    proof (cases "k \<le> 4")
      case True
      have lt: "\<not> 32 \<le> (of_nat (7 * k) :: u8)" using True pos by (simp only: word_le_nat_alt) simp
      have "ucast (take_bit (7 * k) v) OR push_bit (7 * k) (ucast (?u AND 0x7F)) = (ucast (take_bit (7 * (k + 1)) v) :: u32)"
      proof (rule bit_word_eqI)
        fix n assume n: "n < LENGTH(32)"
        show "bit (ucast (take_bit (7 * k) v) OR push_bit (7 * k) (ucast (?u AND 0x7F)) :: u32) n
          \<longleftrightarrow> bit (ucast (take_bit (7 * (k + 1)) v) :: u32) n"
          using n by (cases "n < 7 * k") (auto simp: and_7F_u64 bit_simps)
      qed
      then show ?thesis using lt pos byte by (simp only: if_False simp_thms)
    next
      case False
      have hi: "drop_bit 31 v = 0x1FFFFFFFF"
      proof (rule ccontr)
        assume "drop_bit 31 v \<noteq> 0x1FFFFFFFF"
        then have "unat v < 2 ^ 32" using fit by (simp add: fits32_def)
        then have "\<not> bit v (7 * k + n)" for n using False by (intro u64_bit_bound [of v 32]) auto
        then have "?u = 0" by (intro bit_word_eqI) (simp add: bit_drop_bit_eq)
        with u show False by simp
      qed
      have bFF: "?b = 0xFF"
      proof (rule bit_word_eqI)
        fix n assume n: "n < LENGTH(8)"
        have "(0xFF :: byte) = mask 8" by (simp add: mask_eq_exp_minus_1)
        then have "bit (0xFF :: byte) n" using n by (simp only: bit_mask_iff) simp
        moreover have "bit ?b n"
          using n False k9 high_ones [OF hi, of "7 * k + n"]
          by (cases "n = 7") (auto simp: and_7F_u64 bit_simps)
        ultimately show "bit ?b n \<longleftrightarrow> bit (0xFF :: byte) n" by simp
      qed
      have "bit (ucast (take_bit (7 * k) v) :: u32) 31" using high_ones [OF hi, of 31] False by (simp add: bit_simps)
      then have "bit (drop_bit 31 (ucast (take_bit (7 * k) v) :: u32)) 0" by (simp only: bit_drop_bit_eq) simp
      then have nz: "drop_bit 31 (ucast (take_bit (7 * k) v) :: u32) \<noteq> 0" by (metis bit_0_eq bot_apply bot_bool_def)
      have ge: "32 \<le> (of_nat (7 * k) :: u8)" and lt: "(of_nat (7 * k) :: u8) < 63"
        using False k9 pos by (simp_all only: word_le_nat_alt word_less_nat_alt) simp_all
      have "(ucast (take_bit (7 * k) v) :: u32) = ucast (take_bit (7 * (k + 1)) v)"
        using False by (intro bit_word_eqI) (auto simp: bit_simps)
      then show ?thesis using bFF nz ge lt by (simp only: if_True simp_thms)
    qed
    then show "\<not> (32 \<le> (of_nat (7 * k) :: u8) \<and> ?b AND 0x7F \<noteq> 0 \<and>
      (drop_bit 31 (ucast (take_bit (7 * k) v) :: u32) = 0 \<or> ?b \<noteq> (if (of_nat (7 * k) :: u8) < 63 then 0xFF else 0x01)))"
      and "(if 32 \<le> (of_nat (7 * k) :: u8) then ucast (take_bit (7 * k) v)
       else ucast (take_bit (7 * k) v) OR push_bit (unat (of_nat (7 * k) :: u8)) (ucast (?b AND 0x7F))) =
      (ucast (take_bit (7 * (k + 1)) v) :: u32)" by blast+
  qed
  note varint32_loop_more [OF rb cont_byte(1) c1, unfolded res nxt]
  with k9 show ?thesis by (rule conjI)
qed

lemma varint32_loop_bytes:
  assumes "fits32 v" "icallback s = Buf_read" "1 \<le> k" "k \<le> 9" "drop_bit (7 * k) v \<noteq> 0"
    "content (c, s) = varint_bytes (drop_bit (7 * k) v) @ rest"
  shows "varint32_loop (of_nat (7 * k)) (ucast (take_bit (7 * k) v)) (c, s) =
    (Some (ucast v), c, advance (length (varint_bytes (drop_bit (7 * k) v))) s)"
  using assms
proof (induction "9 - k" arbitrary: k s)
  case 0
  then have u: "drop_bit (7 * k) v \<le> 0x7F"
    using varint32_step_more [of k v s c rest] by linarith
  then have "varint_bytes (drop_bit (7 * k) v) = [ucast (drop_bit (7 * k) v)]"
    by (subst varint_bytes_rec) (simp only: if_True)
  then show ?case using varint32_step_small [OF u] 0 by simp
next
  case (Suc j)
  show ?case
  proof (cases "drop_bit (7 * k) v \<le> 0x7F")
    case True
    then have "varint_bytes (drop_bit (7 * k) v) = [ucast (drop_bit (7 * k) v)]"
      by (subst varint_bytes_rec) (simp only: if_True)
    then show ?thesis using varint32_step_small [OF True] Suc.prems by simp
  next
    case False
    have dd: "drop_bit 7 (drop_bit (7 * k) v) = drop_bit (7 * (k + 1)) v"
      by (simp add: drop_bit_drop_bit algebra_simps)
    have vb: "varint_bytes (drop_bit (7 * k) v) =
        ((ucast (drop_bit (7 * k) v AND 0x7F) :: byte) OR 0x80) # varint_bytes (drop_bit (7 * (k + 1)) v)"
      using False dd by (subst varint_bytes_rec) (simp only: if_False)
    have step: "k < 9" "varint32_loop (of_nat (7 * k)) (ucast (take_bit (7 * k) v)) (c, s) =
        varint32_loop (of_nat (7 * (k + 1))) (ucast (take_bit (7 * (k + 1)) v)) (c, advance 1 s)"
      using varint32_step_more [OF False Suc.prems(3) Suc.prems(1,2,6)] by auto
    have "varint32_loop (of_nat (7 * (k + 1))) (ucast (take_bit (7 * (k + 1)) v)) (c, advance 1 s) =
        (Some (ucast v), c, advance (length (varint_bytes (drop_bit (7 * (k + 1)) v))) (advance 1 s))"
    proof (rule Suc.hyps(1))
      show "drop_bit (7 * (k + 1)) v \<noteq> 0" using drop_bit_7_nonzero [OF False] dd by simp
      show "content (c, advance 1 s) = varint_bytes (drop_bit (7 * (k + 1)) v) @ rest"
        using Suc.prems(6) vb by (intro content_advance_1) simp
    qed (use Suc.hyps(2) Suc.prems step in auto)
    then show ?thesis using step vb by (simp add: add.commute)
  qed
qed

lemma pb_decode_varint32_eof_bytes:
  assumes "fits32 v" "icallback s = Buf_read" "content (c, s) = varint_bytes v @ rest"
  shows "pb_decode_varint32_eof (c, s) =
    (Some (ucast v), False, c, advance (length (varint_bytes v)) s)"
proof (cases "v \<le> 0x7F")
  case True
  then have vb: "varint_bytes v = [ucast v]" by (simp add: varint_bytes_rec [of v])
  then have "pb_readbyte (c, s) = (Some (ucast v), c, advance 1 s)"
    using assms by (intro pb_readbyte_content) auto
  moreover have "(ucast (ucast v :: byte) :: u32) = ucast v"
    by (rule bit_word_eqI) (auto simp: bit_ucast_iff dest: le_7F_bit [OF True])
  ultimately show ?thesis using vb last_byte(1) [OF True]
    by (simp add: pb_decode_varint32_eof_def)
next
  case False
  let ?b = "(ucast (v AND 0x7F) :: byte) OR 0x80"
  have vb: "varint_bytes v = ?b # varint_bytes (drop_bit 7 v)"
    using False by (simp add: varint_bytes_rec [of v])
  have rb: "pb_readbyte (c, s) = (Some ?b, c, advance 1 s)"
    using assms vb by (intro pb_readbyte_content) auto
  have r: "(ucast (?b AND 0x7F) :: u32) = ucast (take_bit (7 * 1) v)"
    by (rule bit_word_eqI) (auto simp: and_7F_u64 and_7F_byte bit_simps)
  have cont1: "content (c, advance 1 s) = varint_bytes (drop_bit 7 v) @ rest"
    using assms(3) vb by (intro content_advance_1) simp
  have "varint32_loop (of_nat (7 * 1)) (ucast (take_bit (7 * 1) v)) (c, advance 1 s) =
      (Some (ucast v), c, advance (length (varint_bytes (drop_bit (7 * 1) v))) (advance 1 s))"
    using assms(1,2) drop_bit_7_nonzero [OF False] cont1
    by (intro varint32_loop_bytes [where rest = rest]) auto
  then show ?thesis using rb vb r cont_byte(1)
    by (simp add: pb_decode_varint32_eof_def)
qed

lemma pb_decode_varint32_bytes:
  assumes "fits32 v" "icallback s = Buf_read" "content (c, s) = varint_bytes v @ rest"
  shows "pb_decode_varint32 (c, s) = (Some (ucast v), c, advance (length (varint_bytes v)) s)"
  using pb_decode_varint32_eof_bytes [OF assms] by (simp add: pb_decode_varint32_def)

lemma pb_encode_varint_u32: "fits32 (ucast (v :: u32))"
proof -
  have "unat v < 2 ^ 32" using unsigned_less [of v, where 'a = nat] by simp
  moreover from this have "unat (ucast v :: u64) = unat v"
    by (simp add: unsigned_ucast_eq take_bit_nat_eq_self_iff)
  ultimately show ?thesis by (simp add: fits32_def)
qed

lemma fits32_of_nat: "n < 2 ^ 32 \<Longrightarrow> fits32 (of_nat n)"
  by (simp add: fits32_def unat_of_nat)

lemma pb_decode_varint32_u32:
  "icallback s = Buf_read \<Longrightarrow> content (c, s) = varint_bytes (ucast (v :: u32)) @ rest \<Longrightarrow>
   pb_decode_varint32 (c, s) = (Some v, c, advance (length (varint_bytes (ucast v))) s)"
  using pb_decode_varint32_bytes [OF pb_encode_varint_u32] ucast_u32_u64 [of v] by metis

lemma ucast_len32:
  assumes "n < 2 ^ 32"
  shows "(ucast (ucast (of_nat n :: u64) :: u32) :: u64) = of_nat n"
proof (rule bit_word_eqI)
  fix i assume "i < LENGTH(64)"
  moreover have "unat (of_nat n :: u64) < 2 ^ 32" using assms by (simp add: unat_of_nat)
  then have "bit (of_nat n :: u64) i \<Longrightarrow> i < 32"
    using u64_bit_bound [of "of_nat n" 32 i] by (auto simp: not_less [symmetric])
  ultimately show "bit (ucast (ucast (of_nat n :: u64) :: u32) :: u64) i \<longleftrightarrow> bit (of_nat n :: u64) i"
    by (auto simp: bit_ucast_iff)
qed

interpretation varint32: wire_codec "\<lambda>v. pb_encode_varint (ucast v)" pb_decode_varint32
  "\<lambda>v. varint_bytes (ucast (v :: u32))" "\<lambda>_. True"
  by unfold_locales (auto simp: pb_encode_varint_put pb_decode_varint32_u32)

section \<open>Tags\<close>

definition tag_value :: "pb_wire_type_t \<Rightarrow> u32 \<Rightarrow> u64" where
  "tag_value wiretype field_number = push_bit 3 (ucast field_number) OR ucast wiretype"

text \<open>A tag that the encoder may write: a wire type below 8, a field number of 29 bits, not both 0.\<close>

definition valid_tag :: "pb_wire_type_t \<times> u32 \<Rightarrow> bool" where
  "valid_tag = (\<lambda>(w, t). w < 8 \<and> t < 0x20000000 \<and> (w, t) \<noteq> (0, 0))"

definition pb_decode_tag_ok :: "(pb_wire_type_t \<times> u32) ifun" where
  "pb_decode_tag_ok st = (case pb_decode_tag st of ((ok, w, t, _), st') \<Rightarrow> (if ok then Some (w, t) else None, st'))"

lemma tag_value_parts:
  assumes "valid_tag (w, t)"
  shows "fits32 (tag_value w t)" "(ucast (tag_value w t) :: u32) \<noteq> 0"
    "(ucast (tag_value w t) :: u32) AND 7 = w" "drop_bit 3 (ucast (tag_value w t) :: u32) = t"
proof -
  have w: "bit w n \<Longrightarrow> n < 3" and t: "bit t n \<Longrightarrow> n < 29" for n
    using assms u32_bit_bound [of w 3 n] u32_bit_bound [of t 29 n]
    by (auto simp: valid_tag_def word_less_nat_alt not_less [symmetric])
  have b: "bit (tag_value w t) n \<longleftrightarrow> n < 64 \<and> (if n < 3 then bit w n else bit t (n - 3))" for n
    unfolding tag_value_def by (auto simp: bit_or_iff bit_push_bit_iff bit_ucast_iff dest: w t)
  have "tag_value w t = take_bit 32 (tag_value w t)"
    by (rule bit_word_eqI) (auto simp: b bit_take_bit_iff dest: w t)
  then have "unat (tag_value w t) = take_bit 32 (unat (tag_value w t))" by (metis unsigned_take_bit_eq)
  then have "unat (tag_value w t) < 2 ^ 32" by (metis take_bit_nat_less_exp)
  then show "fits32 (tag_value w t)" by (simp add: fits32_def)
  have m7: "(7 :: u32) = mask 3" by (simp add: mask_eq_exp_minus_1)
  show a: "(ucast (tag_value w t) :: u32) AND 7 = w"
    unfolding m7 by (rule bit_word_eqI) (auto simp: b bit_and_iff bit_ucast_iff bit_mask_iff dest: w)
  show d: "drop_bit 3 (ucast (tag_value w t) :: u32) = t"
    by (rule bit_word_eqI) (auto simp: b bit_drop_bit_eq bit_ucast_iff dest: t)
  show "(ucast (tag_value w t) :: u32) \<noteq> 0"
  proof
    assume "(ucast (tag_value w t) :: u32) = 0"
    with a d have "w = 0" "t = 0" by auto
    with assms show False by (simp add: valid_tag_def)
  qed
qed

lemma pb_encode_tag_put: "pb_encode_tag w t = put (varint_bytes (tag_value w t))"
  by (simp add: pb_encode_tag_def tag_value_def pb_encode_varint_put Let_def)

lemma pb_decode_tag_bytes:
  assumes "valid_tag (w, t)" "icallback s = Buf_read"
    "content (c, s) = varint_bytes (tag_value w t) @ rest"
  shows "pb_decode_tag (c, s) =
    ((True, w, t, False), c, advance (length (varint_bytes (tag_value w t))) s)"
  using pb_decode_varint32_eof_bytes [OF tag_value_parts(1) assms(2,3)] tag_value_parts [OF assms(1)] assms(1)
  by (simp add: pb_decode_tag_def)

interpretation tag: wire_codec "\<lambda>(w, t). pb_encode_tag w t" pb_decode_tag_ok
  "\<lambda>(w, t). varint_bytes (tag_value w t)" valid_tag
  by unfold_locales (auto simp: pb_encode_tag_put pb_decode_tag_ok_def pb_decode_tag_bytes)

section \<open>Skipping a field\<close>

text \<open>The bytes of a value after its tag, by wire type.\<close>

inductive wire_value :: "pb_wire_type_t \<Rightarrow> byte list \<Rightarrow> bool" where
  wire_varint: "wire_value PB_WT_VARINT (varint_bytes v)"
| wire_64bit: "length bs = 8 \<Longrightarrow> wire_value PB_WT_64BIT bs"
| wire_32bit: "length bs = 4 \<Longrightarrow> wire_value PB_WT_32BIT bs"
| wire_string: "length bs < 2 ^ 32 \<Longrightarrow>
    wire_value PB_WT_STRING (varint_bytes (of_nat (length bs)) @ bs)"

inductive_cases wire_valueE: "wire_value w bs"

lemma pb_skip_varint_bytes:
  assumes "icallback s = Buf_read" "content (c, s) = varint_bytes v @ rest"
  shows "pb_skip_varint (c, s) = (Some (), c, advance (length (varint_bytes v)) s)"
  using assms
proof (induction "unat v" arbitrary: v s rule: less_induct)
  case less
  obtain b bs where vb: "varint_bytes v = b # bs" by (cases "varint_bytes v") auto
  have rb: "pb_read_buf 1 (c, s) = (Some [b], c, advance 1 s)"
    using pb_read_buf_content [of s c "[b]" "bs @ rest"] less.prems vb by simp
  show ?case
  proof (cases "v \<le> 0x7F")
    case True
    then have "b = ucast v" "bs = []" using vb by (simp_all add: varint_bytes_rec [of v])
    with rb vb last_byte(1) [OF True] show ?thesis by (subst pb_skip_varint.simps) simp
  next
    case False
    then have b: "b = (ucast (v AND 0x7F) :: byte) OR 0x80" "bs = varint_bytes (drop_bit 7 v)"
      using vb by (simp_all add: varint_bytes_rec [of v])
    have "v \<noteq> 0" using False by auto
    then have "unat (drop_bit 7 v) < unat v"
      using drop_bit_less_word [of v 7] by (simp add: word_less_nat_alt)
    then have "pb_skip_varint (c, advance 1 s) = (Some (), c, advance (length bs) (advance 1 s))"
      unfolding b(2) using less.prems vb b(2)
      by (intro less.hyps) (auto intro!: content_advance_Suc0)
    moreover have "b AND 0x80 \<noteq> 0" unfolding b(1) by (rule cont_byte(1))
    ultimately show ?thesis using rb vb by (subst pb_skip_varint.simps) simp
  qed
qed

lemma pb_skip_string_bytes:
  assumes "icallback s = Buf_read" "length bs < 2 ^ 32"
    "content (c, s) = varint_bytes (of_nat (length bs)) @ bs @ rest"
  shows "pb_skip_string (c, s) =
    (Some (), c, advance (length (varint_bytes (of_nat (length bs))) + length bs) s)"
proof -
  let ?n = "length (varint_bytes (of_nat (length bs)))"
  have d: "pb_decode_varint32 (c, s) = (Some (ucast (of_nat (length bs) :: u64)), c, advance ?n s)"
    using assms by (intro pb_decode_varint32_bytes fits32_of_nat) auto
  have u: "(ucast (ucast (of_nat (length bs) :: u64) :: u32) :: u64) = of_nat (length bs)"
    using assms(2) by (rule ucast_len32)
  have "content (c, advance ?n s) = bs @ rest" using assms(3) by (rule content_advance)
  then have "pb_read_null (of_nat (length bs)) (c, advance ?n s) =
      (Some (), c, advance (length bs) (advance ?n s))"
    using assms(1) by (intro pb_read_null_content) auto
  with d u show ?thesis by (simp add: pb_skip_string_def bindC_def)
qed

lemma pb_skip_field_value:
  assumes "wire_value w bs" "icallback s = Buf_read" "content (c, s) = bs @ rest"
  shows "pb_skip_field w (c, s) = (Some (), c, advance (length bs) s)"
  using assms(1)
proof (cases rule: wire_value.cases)
  case (wire_varint v)
  with assms show ?thesis by (simp add: pb_skip_field_def pb_skip_varint_bytes)
next
  case wire_64bit
  then show ?thesis using pb_read_null_content [OF assms(2,3)] by (simp add: pb_skip_field_def pb_wt_defs)
next
  case wire_32bit
  then show ?thesis using pb_read_null_content [OF assms(2,3)] by (simp add: pb_skip_field_def pb_wt_defs)
next
  case (wire_string ys)
  then show ?thesis using pb_skip_string_bytes [OF assms(2), of ys c rest] assms(3)
    by (simp add: pb_skip_field_def pb_wt_defs)
qed

section \<open>Malformed varints\<close>

lemma varint_loop_continue:
  assumes "icallback s = Buf_read" "content (c, s) = bs @ rest" "\<forall>b \<in> set bs. b AND 0x80 \<noteq> 0"
    "unat bitpos = 7 * k" "k + length bs = 10"
  shows "varint_loop bitpos result (c, s) =
    PB_RETURN_ERROR_i ''varint overflow'' (c, advance (length bs) s)"
  using assms
proof (induction bs arbitrary: s bitpos k result)
  case Nil
  then have "bitpos \<ge> 64" by (simp add: word_le_nat_alt)
  then show ?case by (simp add: varint_loop.simps)
next
  case (Cons b bs)
  then have k: "k < 10" by simp
  then have bp: "\<not> bitpos \<ge> 64" using Cons.prems(4) by (simp add: word_le_nat_alt)
  have rb: "pb_readbyte (c, s) = (Some b, c, advance 1 s)"
    using pb_readbyte_content [OF Cons.prems(1), of c b "bs @ rest"] Cons.prems(2) by simp
  have u: "unat (bitpos + 7) = 7 * (k + 1)" using Cons.prems(4) k by (simp add: unat_word_ariths)
  have "content (c, advance 1 s) = bs @ rest"
    using content_advance_1 [of c s b "bs @ rest"] Cons.prems(2) by simp
  from Cons.IH [OF _ this _ u] Cons.prems
  have "varint_loop (bitpos + 7) r (c, advance 1 s) =
      PB_RETURN_ERROR_i ''varint overflow'' (c, advance (Suc (length bs)) s)" for r
    by simp
  then show ?case using bp rb Cons.prems(3)
    by (subst varint_loop.simps) (simp add: Let_def del: advance_fields)
qed

text \<open>In the 32-bit decoder a byte \<open>0x80\<close> passes at every position and only moves \<open>bitpos\<close>.\<close>

lemma varint32_loop_zeros:
  assumes "icallback s = Buf_read" "content (c, s) = replicate n 0x80 @ rest"
  shows "varint32_loop bitpos result (c, s) =
    varint32_loop (bitpos + 7 * of_nat n) result (c, advance n s)"
  using assms
proof (induction n arbitrary: s bitpos)
  case 0
  then show ?case by simp
next
  case (Suc n)
  have rb: "pb_readbyte (c, s) = (Some 0x80, c, advance 1 s)"
    using pb_readbyte_content [OF Suc.prems(1), of c "0x80" "replicate n 0x80 @ rest"] Suc.prems(2)
    by simp
  have "varint32_loop bitpos result (c, s) = varint32_loop (bitpos + 7) result (c, advance 1 s)"
    using varint32_loop_more [OF rb, of bitpos result] by simp
  also have "\<dots> = varint32_loop (bitpos + 7 + 7 * of_nat n) result (c, advance n (advance 1 s))"
    using content_advance_1 [of c s "0x80" "replicate n 0x80 @ rest"] Suc.prems
    by (intro Suc.IH) simp_all
  finally show ?case by (simp add: algebra_simps)
qed

section \<open>Properties\<close>

text \<open>A buffer stream of 64 bytes, for the concrete instances.\<close>

definition sample_out :: pb_ostream_t where
  "sample_out = pb_ostream_from_buffer 0x100 64"

definition sample_c :: cstate where
  "sample_c = buffer_state []"

lemma sample_out_room: "ocallback sample_out = Some Buf_write" "n \<le> 64 \<Longrightarrow> has_room sample_out n"
  by (simp_all add: sample_out_def pb_ostream_from_buffer_def has_room_def)

lemma has_room_le: "has_room s n \<Longrightarrow> k \<le> n \<Longrightarrow> has_room s k"
  by (auto simp: has_room_def)

text \<open>A signed 64-bit value written by \<open>pb_encode_svarint\<close> into a buffer with at least ten
  bytes of room is read back by \<open>pb_decode_svarint\<close> from the bytes just written, which are
  consumed exactly: zigzag coding and the base-128 loop invert each other at full width.\<close>

theorem svarint_roundtrip:
  assumes "ocallback s = Some Buf_write" "has_room s 10"
    and "pb_encode_svarint v (c, s) = (r, c', s')"
  shows "r = Some () \<and>
    pb_decode_svarint (c', pb_istream_from_buffer (ostate s) (bytes_written s' - bytes_written s)) =
      (Some v, c', pb_istream_from_buffer (ostate s') 0)"
  using svarint.enc_dec_memory [OF TrueI assms(1) has_room_le assms(3)] assms(2) length_varint_bytes
  by blast

theorem svarint_roundtrip_witness:
  "\<exists>c' s'. pb_encode_svarint (- 150) (sample_c, sample_out) = (Some (), c', s') \<and>
    pb_decode_svarint (c', pb_istream_from_buffer 0x100 (bytes_written s')) =
      (Some (- 150), c', pb_istream_from_buffer (ostate s') 0)"
proof -
  obtain r c' s' where run: "pb_encode_svarint (- 150) (sample_c, sample_out) = (r, c', s')"
    by (cases "pb_encode_svarint (- 150) (sample_c, sample_out)") auto
  from svarint_roundtrip [OF sample_out_room(1) sample_out_room(2) run] run show ?thesis
    by (simp add: sample_out_def pb_ostream_from_buffer_def)
qed

text \<open>A tag with a wire type below 8 and a field number of 29 bits, not both zero, written by
  \<open>pb_encode_tag\<close> is what \<open>pb_decode_tag\<close> reads back, with \<open>eof\<close> unset and the following bytes
  untouched.\<close>

theorem tag_roundtrip:
  assumes "w < 8" "t < 0x20000000" "(w, t) \<noteq> (0, 0)"
    and "ocallback s = Some Buf_write" "has_room s 10"
    and "pb_encode_tag w t (c, s) = (r, c', s')"
  shows "r = Some () \<and>
    pb_decode_tag (c', pb_istream_from_buffer (ostate s) (bytes_written s' - bytes_written s)) =
      ((True, w, t, False), c', pb_istream_from_buffer (ostate s') 0)"
proof -
  have v: "valid_tag (w, t)" using assms(1-3) by (simp add: valid_tag_def)
  have put: "put (varint_bytes (tag_value w t)) (c, s) = (r, c', s')"
    using assms(6) by (simp add: pb_encode_tag_put)
  note p = put_content [OF assms(4) has_room_le [OF assms(5) length_varint_bytes] put]
  from pb_decode_tag_bytes [OF v pb_istream_from_buffer_callback, of c' _ _ "[]"] p show ?thesis
    by simp
qed

theorem tag_roundtrip_witness:
  "\<exists>c' s'. pb_encode_tag 2 1000 (sample_c, sample_out) = (Some (), c', s') \<and>
    pb_decode_tag (c', pb_istream_from_buffer 0x100 (bytes_written s')) =
      ((True, 2, 1000, False), c', pb_istream_from_buffer (ostate s') 0)"
proof -
  obtain r c' s' where run: "pb_encode_tag 2 1000 (sample_c, sample_out) = (r, c', s')"
    by (cases "pb_encode_tag 2 1000 (sample_c, sample_out)") auto
  from tag_roundtrip [OF _ _ _ sample_out_room(1) sample_out_room(2) run] run show ?thesis
    by (simp add: sample_out_def pb_ostream_from_buffer_def)
qed

text \<open>C4: \<open>pb_skip_field\<close> on a well-formed value of its wire type (a varint, 4 or 8 raw bytes, or a
  length and that many bytes) succeeds and moves the stream past exactly that value.\<close>

theorem skip_field_exact:
  assumes "wire_value w bs" "icallback s = Buf_read" "content (c, s) = bs @ rest"
  shows "pb_skip_field w (c, s) = (Some (), c, advance (length bs) s) \<and>
    content (c, advance (length bs) s) = rest"
  using pb_skip_field_value [OF assms] content_advance [OF assms(3)] by simp

theorem skip_field_exact_witness:
  "pb_skip_field PB_WT_STRING (buffer_state [2, 7, 8, 9], pb_istream_from_buffer 0 4) =
    (Some (), buffer_state [2, 7, 8, 9], advance 3 (pb_istream_from_buffer 0 4))"
proof -
  have "varint_bytes 2 = [2]" by (simp add: varint_bytes_def)
  then have "wire_value PB_WT_STRING [2, 7, 8]" using wire_string [of "[7, 8]"] by simp
  moreover have "content (buffer_state [2, 7, 8, 9], pb_istream_from_buffer 0 4) = [2, 7, 8] @ [9]"
    using content_buffer_state [of "[2, 7, 8, 9]"] by simp
  ultimately show ?thesis using skip_field_exact [of PB_WT_STRING "[2, 7, 8]"] by fastforce
qed

text \<open>C5: \<open>pb_decode_varint32\<close> accepts every varint of a value below \<open>2 ^ 32\<close> and every
  sign-extended negative 32-bit value (ten bytes on the wire), returns its low 32 bits and consumes
  exactly the varint.\<close>

theorem varint32_accepts:
  assumes "unat v < 2 ^ 32 \<or> (\<exists>i :: 32 word. sint i < 0 \<and> v = scast i)"
    and "icallback s = Buf_read" "content (c, s) = varint_bytes v @ rest"
  shows "pb_decode_varint32 (c, s) = (Some (ucast v), c, advance (length (varint_bytes v)) s)"
proof -
  have "drop_bit 31 (scast i :: u64) = 0x1FFFFFFFF" if "sint i < 0" for i :: "32 word"
  proof -
    have "bit i 31" using that bit_last_iff [of i] by simp
    then have "drop_bit 31 (scast i :: u64) = mask 33"
      by (intro bit_word_eqI) (auto simp: bit_simps min_def not_less)
    then show ?thesis by (simp add: mask_eq_exp_minus_1)
  qed
  then have "fits32 v" using assms(1) by (auto simp: fits32_def)
  from pb_decode_varint32_bytes [OF this assms(2,3)] show ?thesis .
qed

theorem varint32_accepts_witness:
  "pb_decode_varint32 (buffer_state (varint_bytes (- 2)), pb_istream_from_buffer 0
      (of_nat (length (varint_bytes (- 2))))) =
    (Some (- 2), buffer_state (varint_bytes (- 2)),
     advance (length (varint_bytes (- 2)))
       (pb_istream_from_buffer 0 (of_nat (length (varint_bytes (- 2))))))"
proof -
  have "content (buffer_state (varint_bytes (- 2)), pb_istream_from_buffer 0
      (of_nat (length (varint_bytes (- 2))))) = varint_bytes (- 2) @ []"
    using length_varint_bytes [of "- 2"] by (simp add: content_buffer_state)
  moreover have "\<exists>i :: 32 word. sint i < 0 \<and> (- 2 :: u64) = scast i"
    by (rule exI [of _ "- 2"]) simp
  ultimately show ?thesis
    using varint32_accepts [of "- 2" _ "buffer_state (varint_bytes (- 2))" "[]"] by simp
qed

text \<open>C6: A varint whose first ten bytes all have the continuation bit makes \<open>pb_decode_varint\<close>
  fail with ``varint overflow'', whatever follows, after reading exactly these ten bytes.\<close>

theorem varint_overflow:
  assumes "icallback s = Buf_read" "content (c, s) = bs @ rest" "length bs = 10"
    and "\<forall>b \<in> set bs. b AND 0x80 \<noteq> 0"
  shows "pb_decode_varint (c, s) = PB_RETURN_ERROR_i ''varint overflow'' (c, advance 10 s)"
  using varint_loop_continue [OF assms(1,2,4), of 0 0 0] assms(3) by (simp add: pb_decode_varint_def)

theorem varint_overflow_witness:
  "fst (pb_decode_varint (buffer_state (replicate 10 0xFF), pb_istream_from_buffer 0 10)) = None"
proof -
  have "content (buffer_state (replicate 10 0xFF), pb_istream_from_buffer 0 10) = replicate 10 0xFF @ []"
    using content_buffer_state [of "replicate 10 0xFF"] by simp
  from varint_overflow [OF _ this] show ?thesis by simp
qed

text \<open>C40: \<open>pb_decode_varint32_eof\<close> has no such limit: its 8-bit \<open>bitpos\<close> wraps around.  The
  varint of 37 bytes \<open>0x80\<close> and a byte \<open>0x01\<close> is rejected by \<open>pb_decode_varint\<close>, but the 32-bit
  decoder accepts it and returns 8, having shifted the last byte by \<open>259 mod 256 = 3\<close>.\<close>

theorem varint32_bitpos_wraps:
  assumes "icallback s = Buf_read" "content (c, s) = replicate 37 0x80 @ 0x01 # rest"
  shows "pb_decode_varint32 (c, s) = (Some 8, c, advance 38 s) \<and> fst (pb_decode_varint (c, s)) = None"
proof
  have c1: "content (c, s) = 0x80 # replicate 36 0x80 @ 0x01 # rest"
    using assms(2) by (simp add: numeral_eq_Suc)
  have rb: "pb_readbyte (c, s) = (Some 0x80, c, advance 1 s)"
    by (rule pb_readbyte_content [OF assms(1) c1])
  have c2: "content (c, advance 1 s) = replicate 36 0x80 @ 0x01 # rest"
    by (rule content_advance_1 [OF c1])
  have z: "varint32_loop 7 0 (c, advance 1 s) = varint32_loop 3 0 (c, advance 36 (advance 1 s))"
  proof -
    have "(7 :: u8) + 7 * of_nat 36 = 3" by (simp add: word_unat_eq_iff)
    then show ?thesis
      using varint32_loop_zeros [OF _ c2, of 7 0] assms(1) by (simp only: advance_fields)
  qed
  have "content (c, advance 36 (advance 1 s)) = 0x01 # rest"
    using content_advance [OF c2] by simp
  then have rb2: "pb_readbyte (c, advance 36 (advance 1 s)) = (Some 0x01, c, advance 1 (advance 36 (advance 1 s)))"
    using assms(1) by (intro pb_readbyte_content) simp_all
  have "varint32_loop 3 0 (c, advance 36 (advance 1 s)) = (Some 8, c, advance 38 s)"
    using varint32_loop_last [OF rb2, of 3 0] by simp
  with z rb show "pb_decode_varint32 (c, s) = (Some 8, c, advance 38 s)"
    by (simp add: pb_decode_varint32_def pb_decode_varint32_eof_def)
  have ten: "content (c, s) = replicate 10 0x80 @ (replicate 27 0x80 @ 0x01 # rest)"
    using assms(2) by (simp add: numeral_eq_Suc)
  have "varint_loop 0 0 (c, s) = PB_RETURN_ERROR_i ''varint overflow'' (c, advance 10 s)"
    using varint_loop_continue [OF assms(1) ten, of 0 0 0] by simp
  then show "fst (pb_decode_varint (c, s)) = None" by (simp add: pb_decode_varint_def)
qed

theorem varint32_bitpos_wraps_witness:
  "fst (pb_decode_varint32 (buffer_state (replicate 37 0x80 @ [0x01]), pb_istream_from_buffer 0 38)) = Some 8"
proof -
  have "content (buffer_state (replicate 37 0x80 @ [0x01]), pb_istream_from_buffer 0 38) =
      replicate 37 0x80 @ 0x01 # []"
    using content_buffer_state [of "replicate 37 0x80 @ [0x01]"] by simp
  from varint32_bitpos_wraps [OF _ this] show ?thesis by simp
qed

end
