(* ===== verification/Pb_Scalar.thy ===== *)
theory Pb_Scalar
  imports Pb_Wire Pb_Encode Pb_Decode
begin

text \<open>
  Scalar fields: what the encoder of a field writes, the decoder of the same
  descriptor turns back into the same bytes of memory, at every width.
\<close>

section \<open>The bytes of a scalar field\<close>

text \<open>
  The value that the bytes \<open>bs\<close> of a field in memory stand for, unsigned and
  signed, and the bytes that its encoder writes.
\<close>

definition uval64 :: "byte list \<Rightarrow> u64" where
  "uval64 bs = le_word bs"

definition sval64 :: "byte list \<Rightarrow> 64 word" where
  "sval64 bs = signed_take_bit (8 * length bs - 1) (le_word bs)"

definition scalar_bytes :: "pb_type_t \<Rightarrow> byte list \<Rightarrow> byte list" where
  "scalar_bytes lt bs =
     (if lt = PB_LTYPE_VARINT then varint_bytes (sval64 bs)
      else if lt = PB_LTYPE_UVARINT then varint_bytes (uval64 bs)
      else if lt = PB_LTYPE_SVARINT then varint_bytes (zigzag (sval64 bs))
      else bs)"

text \<open>The widths that a scalar field's descriptor may have.\<close>

definition scalar_size :: "pb_type_t \<Rightarrow> pb_size_t \<Rightarrow> bool" where
  "scalar_size lt sz \<longleftrightarrow>
     (lt \<in> {PB_LTYPE_VARINT, PB_LTYPE_UVARINT, PB_LTYPE_SVARINT} \<and> sz \<in> {1, 2, 4, 8}) \<or>
     (lt = PB_LTYPE_FIXED32 \<and> sz = 4) \<or> (lt = PB_LTYPE_FIXED64 \<and> sz = 8)"

lemma bit_uval64: "length bs \<le> 8 \<Longrightarrow> bit (uval64 bs) i \<longleftrightarrow> i < 8 * length bs \<and> bit (bs ! (i div 8)) (i mod 8)"
  by (auto simp: uval64_def bit_le_word)

lemma bit_sval64:
  assumes "0 < length bs" "length bs \<le> 8"
  shows "bit (sval64 bs) i \<longleftrightarrow> i < 64 \<and>
    (let j = min i (8 * length bs - 1) in bit (bs ! (j div 8)) (j mod 8))"
  using assms by (auto simp: sval64_def bit_signed_take_bit_iff bit_le_word Let_def min_def)

lemma bit_byte_bound: "bit (b :: byte) n \<Longrightarrow> n < 8"
  using bit_imp_le_length [of b n] by simp

lemma load_sval64:
  "scast b = sval64 [b]"
  "length bs = 2 \<Longrightarrow> scast (le_word bs :: u16) = sval64 bs"
  "length bs = 4 \<Longrightarrow> scast (le_word bs :: u32) = sval64 bs"
  "length bs = 8 \<Longrightarrow> le_word bs = sval64 bs"
proof -
  show "scast b = sval64 [b]"
    by (rule bit_word_eqI) (auto simp: bit_sval64 bit_simps Let_def min_def not_le)
  show "scast (le_word bs :: u16) = sval64 bs" if "length bs = 2"
    using that by (intro bit_word_eqI) (auto simp: bit_sval64 bit_simps bit_le_word Let_def min_def)
  show "scast (le_word bs :: u32) = sval64 bs" if "length bs = 4"
    using that by (intro bit_word_eqI) (auto simp: bit_sval64 bit_simps bit_le_word Let_def min_def)
  show "le_word bs = sval64 bs" if "length bs = 8"
    using that by (intro bit_word_eqI) (auto simp: bit_sval64 bit_simps bit_le_word Let_def min_def)
qed

lemma load_uval64:
  "ucast b = uval64 [b]"
  "length bs = 2 \<Longrightarrow> ucast (le_word bs :: u16) = uval64 bs"
  "length bs = 4 \<Longrightarrow> ucast (le_word bs :: u32) = uval64 bs"
  "length bs = 8 \<Longrightarrow> le_word bs = uval64 bs"
proof -
  show "ucast b = uval64 [b]"
  proof (rule bit_word_eqI)
    fix n assume "n < LENGTH(64)"
    then show "bit (ucast b :: u64) n = bit (uval64 [b]) n"
      using bit_byte_bound [of b n] by (cases "n < 8") (auto simp: bit_uval64 bit_simps)
  qed
  show "ucast (le_word bs :: u16) = uval64 bs" if "length bs = 2"
    using that by (intro bit_word_eqI) (auto simp: bit_uval64 bit_simps bit_le_word)
  show "ucast (le_word bs :: u32) = uval64 bs" if "length bs = 4"
    using that by (intro bit_word_eqI) (auto simp: bit_uval64 bit_simps bit_le_word)
  show "le_word bs = uval64 bs" if "length bs = 8"
    using that by (simp add: uval64_def)
qed

text \<open>Storing the low bytes of the value gives the bytes back.\<close>

lemma le_bytes_sval64:
  fixes bs
  defines "n \<equiv> length bs"
  assumes "n \<in> {1, 2, 4, 8}" "8 * n \<le> LENGTH('a::len)"
  shows "le_bytes n (ucast (sval64 bs) :: 'a word) = bs"
    and "le_bytes n (ucast (uval64 bs) :: 'a word) = bs"
proof -
  have n: "0 < length bs" "length bs \<le> 8" using assms by auto
  show "le_bytes n (ucast (sval64 bs) :: 'a word) = bs"
  proof (rule nth_equalityI)
    fix i assume "i < length (le_bytes n (ucast (sval64 bs) :: 'a word))"
    then have i: "i < n" by simp
    show "le_bytes n (ucast (sval64 bs) :: 'a word) ! i = bs ! i"
    proof (rule bit_word_eqI)
      fix j assume j: "j < LENGTH(8)"
      then have "8 * i + j < 8 * n" using i by simp
      moreover from this have "8 * i + j < LENGTH('a)" "8 * i + j < 64" using assms(3) n n_def by linarith+
      moreover have "min (8 * i + j) (8 * length bs - 1) = 8 * i + j"
        using \<open>8 * i + j < 8 * n\<close> by (simp add: n_def)
      ultimately show "bit (le_bytes n (ucast (sval64 bs) :: 'a word) ! i) j = bit (bs ! i) j"
        using i j n by (simp add: bit_nth_le_bytes bit_sval64 bit_simps Let_def n_def)
    qed
  qed (simp add: n_def)
  show "le_bytes n (ucast (uval64 bs) :: 'a word) = bs"
  proof (rule nth_equalityI)
    fix i assume "i < length (le_bytes n (ucast (uval64 bs) :: 'a word))"
    then have i: "i < n" by simp
    show "le_bytes n (ucast (uval64 bs) :: 'a word) ! i = bs ! i"
    proof (rule bit_word_eqI)
      fix j assume j: "j < LENGTH(8)"
      then have "8 * i + j < 8 * n" using i by simp
      moreover from this have "8 * i + j < LENGTH('a)" "8 * i + j < 64" using assms(3) n n_def by linarith+
      ultimately show "bit (le_bytes n (ucast (uval64 bs) :: 'a word) ! i) j = bit (bs ! i) j"
        using i j n by (simp add: bit_nth_le_bytes bit_uval64 bit_simps n_def)
    qed
  qed (simp add: n_def)
qed

text \<open>A value of at most 32 bits survives the casts of the decoders.\<close>

lemma sval64_fits:
  "length bs = 1 \<Longrightarrow> scast (ucast (sval64 bs) :: 8 word) = sval64 bs"
  "length bs = 2 \<Longrightarrow> scast (ucast (sval64 bs) :: 16 word) = sval64 bs"
  "length bs \<in> {1, 2, 4} \<Longrightarrow> scast (ucast (sval64 bs) :: 32 word) = sval64 bs"
  by (rule bit_word_eqI, auto simp: bit_sval64 bit_simps Let_def min_def)+

lemma uval64_fits:
  "length bs = 1 \<Longrightarrow> ucast (ucast (uval64 bs) :: u8) = uval64 bs"
  "length bs = 2 \<Longrightarrow> ucast (ucast (uval64 bs) :: u16) = uval64 bs"
  "length bs = 4 \<Longrightarrow> ucast (ucast (uval64 bs) :: u32) = uval64 bs"
  by (rule bit_word_eqI, auto simp: bit_uval64 bit_simps)+

section \<open>Encoding and decoding one scalar field\<close>

lemma load_read:
  "load16 m a = le_word (read_bytes m a 2)" "load32 m a = le_word (read_bytes m a 4)"
  "load64 m a = le_word (read_bytes m a 8)"
  by (simp_all add: load16_def load32_def load64_def)

definition data_bytes :: "mem \<Rightarrow> ptr \<Rightarrow> pb_size_t \<Rightarrow> byte list" where
  "data_bytes m a sz = read_bytes m a (unat sz)"

lemma length_data_bytes [simp]: "length (data_bytes m a sz) = unat sz"
  by (simp add: data_bytes_def)

lemma scalar_enc_put:
  assumes "scalar_size lt (data_size fld)"
  shows "PB_ENCODERS env rec lt fld src (c, s) =
    Some (put (scalar_bytes lt (data_bytes (hmem c) src (data_size fld))) (c, s))"
proof -
  have "le_bytes 4 (load32 (hmem c) src) = read_bytes (hmem c) src 4"
    "le_bytes 8 (load64 (hmem c) src) = read_bytes (hmem c) src 8"
    using le_bytes_le_word [of "read_bytes (hmem c) src 4", where 'a = 32]
      le_bytes_le_word [of "read_bytes (hmem c) src 8", where 'a = 64]
    by (simp_all add: load_read)
  moreover have "scast (load16 (hmem c) src) = sval64 (read_bytes (hmem c) src 2)"
    "scast (load32 (hmem c) src) = sval64 (read_bytes (hmem c) src 4)"
    "load64 (hmem c) src = sval64 (read_bytes (hmem c) src 8)"
    "scast (hmem c src) = sval64 (read_bytes (hmem c) src (Suc 0))"
    by (simp_all add: load_read load_sval64 read_bytes_1)
  moreover have "ucast (load16 (hmem c) src) = uval64 (read_bytes (hmem c) src 2)"
    "ucast (load32 (hmem c) src) = uval64 (read_bytes (hmem c) src 4)"
    "load64 (hmem c) src = uval64 (read_bytes (hmem c) src 8)"
    "ucast (hmem c src) = uval64 (read_bytes (hmem c) src (Suc 0))"
    by (simp_all add: load_read load_uval64 read_bytes_1)
  ultimately show ?thesis
    using assms
    by (auto simp: scalar_size_def PB_ENCODERS_def pb_type_defs liftP_def scalar_bytes_def
        data_bytes_def pb_enc_varint_def pb_enc_uvarint_def pb_enc_svarint_def pb_enc_fixed32_def
        pb_enc_fixed64_def pb_encode_varint_put pb_encode_svarint_put pb_encode_fixed32_put
        pb_encode_fixed64_put Let_def)
qed

text \<open>Storing the decoded value is storing the bytes.\<close>

lemma set_write:
  "set8 p v c = c\<lparr>hmem := write_bytes (hmem c) p [v]\<rparr>"
  "set16 p v2 c = c\<lparr>hmem := write_bytes (hmem c) p (le_bytes 2 v2)\<rparr>"
  "set32 p v4 c = c\<lparr>hmem := write_bytes (hmem c) p (le_bytes 4 v4)\<rparr>"
  "set64 p v8 c = c\<lparr>hmem := write_bytes (hmem c) p (le_bytes 8 v8)\<rparr>"
proof -
  have "(hmem c)(p := v) = write_bytes (hmem c) p [v]"
    by (rule ext) (auto simp: write_bytes_def unat_eq_0)
  then show "set8 p v c = c\<lparr>hmem := write_bytes (hmem c) p [v]\<rparr>" by (simp add: set8_def)
qed (simp_all add: set16_def set32_def set64_def store16_def store32_def store64_def)

definition stored :: "ptr \<Rightarrow> byte list \<Rightarrow> cstate \<Rightarrow> cstate" where
  "stored p bs c = c\<lparr>hmem := write_bytes (hmem c) p bs\<rparr>"

lemma set_stored:
  assumes "length bs = n"
  shows "n = 1 \<Longrightarrow> set8 p (ucast (sval64 bs)) c = stored p bs c"
    "n = 2 \<Longrightarrow> set16 p (ucast (sval64 bs)) c = stored p bs c"
    "n = 4 \<Longrightarrow> set32 p (ucast (sval64 bs)) c = stored p bs c"
    "n = 8 \<Longrightarrow> set64 p (sval64 bs) c = stored p bs c"
    "n = 1 \<Longrightarrow> set8 p (ucast (uval64 bs)) c = stored p bs c"
    "n = 2 \<Longrightarrow> set16 p (ucast (uval64 bs)) c = stored p bs c"
    "n = 4 \<Longrightarrow> set32 p (ucast (uval64 bs)) c = stored p bs c"
    "n = 8 \<Longrightarrow> set64 p (uval64 bs) c = stored p bs c"
  using assms le_bytes_sval64 [of bs, where 'a = 8] le_bytes_sval64 [of bs, where 'a = 16]
    le_bytes_sval64 [of bs, where 'a = 32] le_bytes_sval64 [of bs, where 'a = 64]
  by (simp_all add: set_write stored_def le_bytes_Suc)

lemma store_signed_sval64:
  assumes "data_size fld \<in> {1, 2, 4, 8}" "length bs = unat (data_size fld)"
  shows "store_signed fld dest (sval64 bs) (c, s) = (Some (), stored dest bs c, s)"
  using assms sval64_fits [of bs] set_stored [of bs "unat (data_size fld)" dest c]
  by (auto simp: store_signed_def)

lemma store_unsigned_uval64:
  assumes "data_size fld \<in> {1, 2, 4, 8}" "length bs = unat (data_size fld)"
  shows "store_unsigned fld dest (uval64 bs) (c, s) = (Some (), stored dest bs c, s)"
  using assms uval64_fits [of bs] set_stored [of bs "unat (data_size fld)" dest c]
  by (auto simp: store_unsigned_def)

lemma scalar_dec_bytes:
  assumes "scalar_size lt (data_size fld)" "length bs = unat (data_size fld)"
    and cb: "icallback s = Buf_read" and cont: "content (c, s) = scalar_bytes lt bs @ rest"
  shows "PB_DECODERS env rec lt fld dest (c, s) =
    Some (Some (), stored dest bs c, advance (length (scalar_bytes lt bs)) s)"
proof -
  note dec = pb_decode_varint_bytes [OF cb] pb_decode_svarint_bytes [OF cb]
  consider (v) "lt = PB_LTYPE_VARINT" "data_size fld \<in> {1, 2, 4, 8}"
    | (u) "lt = PB_LTYPE_UVARINT" "data_size fld \<in> {1, 2, 4, 8}"
    | (s) "lt = PB_LTYPE_SVARINT" "data_size fld \<in> {1, 2, 4, 8}"
    | (f32) "lt = PB_LTYPE_FIXED32" "data_size fld = 4"
    | (f64) "lt = PB_LTYPE_FIXED64" "data_size fld = 8"
    using assms(1) by (auto simp: scalar_size_def)
  then show ?thesis
  proof cases
    case v
    have "(if data_size fld = 8 then sval64 bs else scast (ucast (sval64 bs) :: 32 word)) = sval64 bs"
      using v(2) assms(2) sval64_fits(3) [of bs] by auto
    with v cont store_signed_sval64 [OF v(2) assms(2)] dec(1) [of c "sval64 bs" rest] show ?thesis
      by (simp add: PB_DECODERS_def liftP_def pb_dec_varint_def scalar_bytes_def Let_def)
  next
    case u
    with cont store_unsigned_uval64 [OF u(2) assms(2)] dec(1) [of c "uval64 bs" rest] show ?thesis
      by (simp add: PB_DECODERS_def liftP_def pb_dec_uvarint_def scalar_bytes_def pb_type_defs)
  next
    case s
    with cont store_signed_sval64 [OF s(2) assms(2)] dec(2) [of c "sval64 bs" rest] show ?thesis
      by (simp add: PB_DECODERS_def liftP_def pb_dec_svarint_def scalar_bytes_def pb_type_defs)
  next
    case f32
    have "content (c, s) = le_bytes 4 (le_word bs :: u32) @ rest"
      using f32 cont assms(2) le_bytes_le_word [of bs, where 'a = 32]
      by (simp add: scalar_bytes_def pb_type_defs)
    from pb_decode_fixed32_bytes [OF cb this] f32 assms(2) le_bytes_le_word [of bs, where 'a = 32]
    show ?thesis
      by (simp add: PB_DECODERS_def liftP_def pb_dec_fixed32_def scalar_bytes_def pb_type_defs set_write stored_def)
  next
    case f64
    have "content (c, s) = le_bytes 8 (le_word bs :: u64) @ rest"
      using f64 cont assms(2) le_bytes_le_word [of bs, where 'a = 64]
      by (simp add: scalar_bytes_def pb_type_defs)
    from pb_decode_fixed64_bytes [OF cb this] f64 assms(2) le_bytes_le_word [of bs, where 'a = 64]
    show ?thesis
      by (simp add: PB_DECODERS_def liftP_def pb_dec_fixed64_def scalar_bytes_def pb_type_defs set_write stored_def)
  qed
qed

section \<open>Properties\<close>

lemma length_scalar_bytes:
  "scalar_size lt sz \<Longrightarrow> length bs = unat sz \<Longrightarrow> length (scalar_bytes lt bs) \<le> 10"
  using length_varint_bytes by (auto simp: scalar_size_def scalar_bytes_def)

text \<open>C3: For every scalar type and width that a descriptor may name (varint, unsigned and zigzag
  varints of 1, 2, 4 and 8 bytes, \<open>fixed32\<close>, \<open>fixed64\<close>), encoding the field at \<open>src\<close> through
  \<open>PB_ENCODERS\<close> into a memory buffer with room for ten bytes returns and succeeds, and decoding what was
  written at \<open>dest\<close> through \<open>PB_DECODERS\<close> succeeds, stores at \<open>dest\<close> the very bytes that were at \<open>src\<close>,
  changes no other memory and reads exactly what was written.\<close>

theorem scalar_field_roundtrip:
  assumes "scalar_size lt (data_size fld)" "ocallback s = Some Buf_write" "has_room s 10"
  shows "\<exists>c' s'. PB_ENCODERS env rec lt fld src (c, s) = Some (Some (), c', s') \<and>
    PB_DECODERS env rec' lt fld dest
      (c', pb_istream_from_buffer (ostate s) (bytes_written s' - bytes_written s)) =
    Some (Some (), c'\<lparr>hmem := write_bytes (hmem c') dest
        (read_bytes (hmem c) src (unat (data_size fld)))\<rparr>,
      pb_istream_from_buffer (ostate s') 0)"
proof -
  let ?bs = "data_bytes (hmem c) src (data_size fld)"
  obtain r c' s' where put: "put (scalar_bytes lt ?bs) (c, s) = (r, c', s')" by (metis prod_cases3)
  from put_content [OF assms(2) has_room_le [OF assms(3) length_scalar_bytes [OF assms(1)]] this]
  have p: "r = Some ()" "bytes_written s' - bytes_written s = of_nat (length (scalar_bytes lt ?bs))"
    "content (c', pb_istream_from_buffer (ostate s) (of_nat (length (scalar_bytes lt ?bs)))) =
      scalar_bytes lt ?bs"
    "advance (length (scalar_bytes lt ?bs))
       (pb_istream_from_buffer (ostate s) (of_nat (length (scalar_bytes lt ?bs)))) =
      pb_istream_from_buffer (ostate s') 0"
    by simp_all
  have "PB_ENCODERS env rec lt fld src (c, s) = Some (Some (), c', s')"
    using scalar_enc_put [OF assms(1)] put p(1) by simp
  with scalar_dec_bytes [OF assms(1) _ pb_istream_from_buffer_callback, of ?bs c' _ _ "[]"] p
  show ?thesis by (auto simp: stored_def data_bytes_def)
qed

definition sample_field :: pb_field_t where
  "sample_field = \<lparr>ftag = 3, ftype = PB_LTYPE_SVARINT, data_offset = 0, size_offset = 0,
     data_size = 4, array_size = 0, fptr = NULL\<rparr>"

definition sample_env :: pb_env where
  "sample_env = \<lparr>fields_at = (\<lambda>_. []), decode_fn = (\<lambda>_ _ _. retC ()), encode_fn = (\<lambda>_ _ _. retC ()),
     ext_decode_fn = (\<lambda>_ _ _ _. retC ()), ext_encode_fn = (\<lambda>_ _. retC ()),
     frame_count = (\<lambda>n. 0x10000 + of_nat (32 * n)), frame_buffer = (\<lambda>n. 0x20000 + of_nat (32 * n))\<rparr>"

theorem scalar_field_roundtrip_witness:
  "\<exists>c' s'. PB_ENCODERS sample_env (\<lambda>_ _. stuckP) PB_LTYPE_SVARINT sample_field 0 (buffer_state [1, 2, 3, 255], sample_out)
      = Some (Some (), c', s') \<and>
    PB_DECODERS sample_env (\<lambda>_ _ _. stuckP) PB_LTYPE_SVARINT sample_field 0x80
      (c', pb_istream_from_buffer 0x100 (bytes_written s')) =
    Some (Some (), c'\<lparr>hmem := write_bytes (hmem c') 0x80 [1, 2, 3, 255]\<rparr>,
      pb_istream_from_buffer (ostate s') 0)"
proof -
  let ?c = "buffer_state [1, 2, 3, 255]"
  have sz: "scalar_size PB_LTYPE_SVARINT (data_size sample_field)"
    by (simp add: scalar_size_def sample_field_def)
  have l: "length [1, 2, 3, 255 :: byte] = 4" by simp
  have "read_bytes (hmem ?c) 0 4 = [1, 2, 3, 255]"
    using read_write_same [of "[1, 2, 3, 255]" "\<lambda>_. 0" 0, unfolded l] by (simp add: buffer_state_def)
  with scalar_field_roundtrip [OF sz sample_out_room(1) sample_out_room(2), where env = sample_env and rec = "\<lambda>_ _. stuckP"
      and src = 0 and c = ?c and rec' = "\<lambda>_ _ _. stuckP" and dest = "0x80"]
  show ?thesis by (simp add: sample_out_def pb_ostream_from_buffer_def sample_field_def)
qed

end
