(* ===== verification/Cbs.thy ===== *)
theory Cbs
  imports Prelude
begin

text \<open>
  The byte-string reader of \<open>BoringSSL-GRPC/crypto/bytestring/cbs.c\<close>.  A \<open>CBS\<close> is a
  pointer and a length into memory that is only read, so it is the list of the bytes
  it has left.  A function that advances a \<open>CBS\<close> is a state function on that list, and
  the list after a failure is what the C code leaves behind; what out-parameters hold
  after a failure is not modelled.
\<close>

section \<open>Constants\<close>

type_synonym CBS = "byte list"
type_synonym asn1_tag = u32

definition CBS_ASN1_TAG_SHIFT :: nat where "CBS_ASN1_TAG_SHIFT = 24"
definition CBS_ASN1_CONSTRUCTED :: asn1_tag where "CBS_ASN1_CONSTRUCTED = 0x20000000"
definition CBS_ASN1_TAG_NUMBER_MASK :: asn1_tag where "CBS_ASN1_TAG_NUMBER_MASK = 0x1FFFFFFF"
definition CBS_ASN1_BOOLEAN :: asn1_tag where "CBS_ASN1_BOOLEAN = 0x1"
definition CBS_ASN1_INTEGER :: asn1_tag where "CBS_ASN1_INTEGER = 0x2"
definition CBS_ASN1_BITSTRING :: asn1_tag where "CBS_ASN1_BITSTRING = 0x3"
definition CBS_ASN1_OCTETSTRING :: asn1_tag where "CBS_ASN1_OCTETSTRING = 0x4"

lemmas cbs_asn1_defs = CBS_ASN1_TAG_SHIFT_def CBS_ASN1_CONSTRUCTED_def CBS_ASN1_TAG_NUMBER_MASK_def
  CBS_ASN1_BOOLEAN_def CBS_ASN1_INTEGER_def CBS_ASN1_BITSTRING_def CBS_ASN1_OCTETSTRING_def

named_theorems cbs_simps \<open>one step of a reader on a list of bytes\<close>

section \<open>Reading bytes and integers\<close>

definition failC :: "('s, 'a) cfun" where
  "failC s = (None, s)"

definition cbs_get :: "nat \<Rightarrow> (CBS, byte list) cfun" where
  "cbs_get n cbs = (if length cbs < n then (None, cbs) else (Some (take n cbs), drop n cbs))"

definition CBS_skip :: "nat \<Rightarrow> (CBS, unit) cfun" where
  "CBS_skip n = bindC (cbs_get n) (\<lambda>_. retC ())"

text \<open>\<open>malloc_ok n\<close> says that the C library's \<open>malloc\<close> gives a block of \<open>n\<close> bytes.\<close>

definition CBS_stow :: "(nat \<Rightarrow> bool) \<Rightarrow> CBS \<Rightarrow> byte list option option" where
  "CBS_stow malloc_ok cbs =
     (if cbs = [] then Some None
      else if malloc_ok (length cbs) then Some (Some cbs) else None)"

text \<open>\<open>BUF_strndup\<close> copies up to the first zero byte and adds a terminator.\<close>

definition CBS_strdup :: "(nat \<Rightarrow> bool) \<Rightarrow> CBS \<Rightarrow> byte list option" where
  "CBS_strdup malloc_ok cbs =
     (let s = takeWhile (\<lambda>b. b \<noteq> 0) cbs
      in if malloc_ok (length s + 1) then Some (s @ [0]) else None)"

definition CBS_contains_zero_byte :: "CBS \<Rightarrow> bool" where
  "CBS_contains_zero_byte cbs \<longleftrightarrow> list_ex (\<lambda>b. b = 0) cbs"

text \<open>\<open>CRYPTO_memcmp\<close> of \<open>mem.c\<close> looks at every byte of both.\<close>

fun memcmp_acc :: "byte \<Rightarrow> byte list \<Rightarrow> byte list \<Rightarrow> byte" where
  "memcmp_acc x (a # as) (b # bs) = memcmp_acc (x OR (a XOR b)) as bs"
| "memcmp_acc x _ _ = x"

definition CRYPTO_memcmp :: "byte list \<Rightarrow> byte list \<Rightarrow> byte" where
  "CRYPTO_memcmp = memcmp_acc 0"

definition CBS_mem_equal :: "CBS \<Rightarrow> byte list \<Rightarrow> bool" where
  "CBS_mem_equal cbs data \<longleftrightarrow>
     (if length data \<noteq> length cbs then False else CRYPTO_memcmp cbs data = 0)"

definition cbs_get_u :: "nat \<Rightarrow> (CBS, u32) cfun" where
  "cbs_get_u n =
     bindC (cbs_get n) (\<lambda>data. retC (foldl (\<lambda>r b. push_bit 8 r OR ucast b) 0 data))"

definition CBS_get_u8 :: "(CBS, u8) cfun" where
  "CBS_get_u8 = bindC (cbs_get 1) (\<lambda>v. retC (hd v))"

definition CBS_get_u16 :: "(CBS, u16) cfun" where
  "CBS_get_u16 = bindC (cbs_get_u 2) (\<lambda>v. retC (ucast v))"

definition CBS_get_u24 :: "(CBS, u32) cfun" where
  "CBS_get_u24 = cbs_get_u 3"

definition CBS_get_u32 :: "(CBS, u32) cfun" where
  "CBS_get_u32 = cbs_get_u 4"

definition CBS_get_last_u8 :: "(CBS, u8) cfun" where
  "CBS_get_last_u8 cbs = (if cbs = [] then (None, cbs) else (Some (last cbs), butlast cbs))"

definition CBS_get_bytes :: "nat \<Rightarrow> (CBS, CBS) cfun" where
  "CBS_get_bytes n = bindC (cbs_get n) (\<lambda>v. retC v)"

definition CBS_copy_bytes :: "nat \<Rightarrow> (CBS, byte list) cfun" where
  "CBS_copy_bytes n = bindC (cbs_get n) (\<lambda>v. retC v)"

definition cbs_get_length_prefixed :: "nat \<Rightarrow> (CBS, CBS) cfun" where
  "cbs_get_length_prefixed len_len = bindC (cbs_get_u len_len) (\<lambda>len. CBS_get_bytes (unat len))"

definition CBS_get_u8_length_prefixed :: "(CBS, CBS) cfun" where
  "CBS_get_u8_length_prefixed = cbs_get_length_prefixed 1"

definition CBS_get_u16_length_prefixed :: "(CBS, CBS) cfun" where
  "CBS_get_u16_length_prefixed = cbs_get_length_prefixed 2"

definition CBS_get_u24_length_prefixed :: "(CBS, CBS) cfun" where
  "CBS_get_u24_length_prefixed = cbs_get_length_prefixed 3"

section \<open>Tags and lengths of ASN.1\<close>

fun parse_base128_loop :: "u64 \<Rightarrow> (CBS, u64) cfun" where
  "parse_base128_loop v [] = (None, [])"
| "parse_base128_loop v (b # cbs) =
     (if drop_bit (64 - 7) v \<noteq> 0 then (None, cbs)
      else if v = 0 \<and> b = 0x80 then (None, cbs)
      else
        let v' = push_bit 7 v OR ucast (b AND 0x7F)
        in if (b AND 0x80) \<noteq> 0 then parse_base128_loop v' cbs else (Some v', cbs))"

definition parse_base128_integer :: "(CBS, u64) cfun" where
  "parse_base128_integer = parse_base128_loop 0"

definition parse_asn1_tag :: "(CBS, asn1_tag) cfun" where
  "parse_asn1_tag =
     bindC CBS_get_u8 (\<lambda>tag_byte.
       let tag = push_bit CBS_ASN1_TAG_SHIFT (ucast tag_byte AND 0xE0) :: asn1_tag;
           tag_number = ucast (tag_byte AND 0x1F) :: asn1_tag
       in if tag_number = 0x1F
          then
            bindC parse_base128_integer (\<lambda>v.
              if v > ucast CBS_ASN1_TAG_NUMBER_MASK \<or> v < 0x1F then failC
              else retC (tag OR ucast v))
          else retC (tag OR tag_number))"

text \<open>
  The length octets after a tag, as a reader of the copy \<open>header\<close>: \<open>None\<close> is the
  indefinite length, \<open>Some (len, n)\<close> a length that took \<open>n\<close> octets after the first.
\<close>

definition parse_asn1_length :: "bool \<Rightarrow> asn1_tag \<Rightarrow> (CBS, (nat \<times> nat) option) cfun" where
  "parse_asn1_length ber_ok tag =
     bindC CBS_get_u8 (\<lambda>length_byte.
       if (length_byte AND 0x80) = 0 then retC (Some (unat length_byte, 0))
       else
         let num_bytes = unat (length_byte AND 0x7F) in
         if ber_ok \<and> (tag AND CBS_ASN1_CONSTRUCTED) \<noteq> 0 \<and> num_bytes = 0 then retC None
         else if num_bytes = 0 \<or> num_bytes > 4 then failC
         else
           bindC (cbs_get_u num_bytes) (\<lambda>len32.
             if len32 < 128 then failC
             else if drop_bit ((num_bytes - 1) * 8) len32 = 0 then failC
             else retC (Some (unat len32, num_bytes))))"

text \<open>
  The result is the element, its tag and the length of its header.  The copy \<open>header\<close>
  is parsed first; only then is \<open>cbs\<close> advanced.  \<open>size_t\<close> has 64 bits.
\<close>

definition cbs_get_any_asn1_element :: "bool \<Rightarrow> (CBS, CBS \<times> asn1_tag \<times> nat) cfun" where
  "cbs_get_any_asn1_element ber_ok cbs =
     (case parse_asn1_tag cbs of
        (None, _) \<Rightarrow> (None, cbs)
      | (Some tag, header) \<Rightarrow>
          (case parse_asn1_length ber_ok tag header of
             (None, _) \<Rightarrow> (None, cbs)
           | (Some None, header1) \<Rightarrow>
               let header_len = length cbs - length header1
               in bindC (CBS_get_bytes header_len) (\<lambda>out. retC (out, tag, header_len)) cbs
           | (Some (Some (len, num_bytes)), _) \<Rightarrow>
               let header_len = length cbs - (length header - 1);
                   total = len + header_len + num_bytes
               in if total mod 2 ^ 64 < len then (None, cbs)
                  else bindC (CBS_get_bytes total) (\<lambda>out. retC (out, tag, header_len + num_bytes)) cbs))"

definition CBS_get_any_asn1_element :: "(CBS, CBS \<times> asn1_tag \<times> nat) cfun" where
  "CBS_get_any_asn1_element = cbs_get_any_asn1_element False"

definition CBS_get_any_ber_asn1_element :: "(CBS, CBS \<times> asn1_tag \<times> nat) cfun" where
  "CBS_get_any_ber_asn1_element = cbs_get_any_asn1_element True"

definition CBS_get_any_asn1 :: "(CBS, CBS \<times> asn1_tag) cfun" where
  "CBS_get_any_asn1 =
     bindC CBS_get_any_asn1_element (\<lambda>(out, tag, header_len).
       case CBS_skip header_len out of
         (None, _) \<Rightarrow> failC
       | (Some _, out') \<Rightarrow> retC (out', tag))"

definition cbs_get_asn1 :: "asn1_tag \<Rightarrow> bool \<Rightarrow> (CBS, CBS) cfun" where
  "cbs_get_asn1 tag_value skip_header =
     bindC CBS_get_any_asn1_element (\<lambda>(out, tag, header_len).
       if tag \<noteq> tag_value then failC
       else if skip_header
       then (case CBS_skip header_len out of
               (None, _) \<Rightarrow> failC
             | (Some _, out') \<Rightarrow> retC out')
       else retC out)"

definition CBS_get_asn1 :: "asn1_tag \<Rightarrow> (CBS, CBS) cfun" where
  "CBS_get_asn1 tag_value = cbs_get_asn1 tag_value True"

definition CBS_get_asn1_element :: "asn1_tag \<Rightarrow> (CBS, CBS) cfun" where
  "CBS_get_asn1_element tag_value = cbs_get_asn1 tag_value False"

definition CBS_peek_asn1_tag :: "asn1_tag \<Rightarrow> CBS \<Rightarrow> bool" where
  "CBS_peek_asn1_tag tag_value cbs \<longleftrightarrow>
     (if length cbs < 1 then False else fst (parse_asn1_tag cbs) = Some tag_value)"

section \<open>ASN.1 values\<close>

fun uint64_loop :: "u64 \<Rightarrow> byte list \<Rightarrow> u64 option" where
  "uint64_loop out [] = Some out"
| "uint64_loop out (b # bs) =
     (if drop_bit 56 out \<noteq> 0 then None else uint64_loop (push_bit 8 out OR ucast b) bs)"

definition CBS_get_asn1_uint64 :: "(CBS, u64) cfun" where
  "CBS_get_asn1_uint64 =
     bindC (CBS_get_asn1 CBS_ASN1_INTEGER) (\<lambda>data.
       if data = [] then failC
       else if (data ! 0 AND 0x80) \<noteq> 0 then failC
       else if data ! 0 = 0 \<and> length data > 1 \<and> (data ! 1 AND 0x80) = 0 then failC
       else (case uint64_loop 0 data of None \<Rightarrow> failC | Some out \<Rightarrow> retC out))"

definition CBS_get_asn1_bool :: "(CBS, bool) cfun" where
  "CBS_get_asn1_bool =
     bindC (CBS_get_asn1 CBS_ASN1_BOOLEAN) (\<lambda>data.
       if length data \<noteq> 1 then failC
       else if hd data \<noteq> 0 \<and> hd data \<noteq> 0xFF then failC
       else retC (hd data \<noteq> 0))"

text \<open>\<open>None\<close> is an element that is not present.\<close>

definition CBS_get_optional_asn1 :: "asn1_tag \<Rightarrow> (CBS, CBS option) cfun" where
  "CBS_get_optional_asn1 tag cbs =
     (if CBS_peek_asn1_tag tag cbs then bindC (CBS_get_asn1 tag) (\<lambda>out. retC (Some out)) cbs
      else (Some None, cbs))"

definition CBS_get_optional_asn1_octet_string :: "asn1_tag \<Rightarrow> (CBS, CBS \<times> bool) cfun" where
  "CBS_get_optional_asn1_octet_string tag =
     bindC (CBS_get_optional_asn1 tag) (\<lambda>present.
       case present of
         Some child \<Rightarrow>
           (case CBS_get_asn1 CBS_ASN1_OCTETSTRING child of
              (Some out, child') \<Rightarrow> if length child' \<noteq> 0 then failC else retC (out, True)
            | (None, _) \<Rightarrow> failC)
       | None \<Rightarrow> retC ([], False))"

definition CBS_get_optional_asn1_uint64 :: "asn1_tag \<Rightarrow> u64 \<Rightarrow> (CBS, u64) cfun" where
  "CBS_get_optional_asn1_uint64 tag default_value =
     bindC (CBS_get_optional_asn1 tag) (\<lambda>present.
       case present of
         Some child \<Rightarrow>
           (case CBS_get_asn1_uint64 child of
              (Some out, child') \<Rightarrow> if length child' \<noteq> 0 then failC else retC out
            | (None, _) \<Rightarrow> failC)
       | None \<Rightarrow> retC default_value)"

definition CBS_get_optional_asn1_bool :: "asn1_tag \<Rightarrow> int \<Rightarrow> (CBS, int) cfun" where
  "CBS_get_optional_asn1_bool tag default_value =
     bindC (CBS_get_optional_asn1 tag) (\<lambda>present.
       case present of
         Some child \<Rightarrow>
           (case CBS_get_asn1 CBS_ASN1_BOOLEAN child of
              (Some child2, child') \<Rightarrow>
                if length child2 \<noteq> 1 \<or> length child' \<noteq> 0 then failC
                else if hd child2 = 0 then retC 0
                else if hd child2 = 0xFF then retC 1
                else failC
            | (None, _) \<Rightarrow> failC)
       | None \<Rightarrow> retC default_value)"

definition CBS_is_valid_asn1_bitstring :: "CBS \<Rightarrow> bool" where
  "CBS_is_valid_asn1_bitstring cbs =
     (case CBS_get_u8 cbs of
        (None, _) \<Rightarrow> False
      | (Some num_unused_bits, cbs1) \<Rightarrow>
          if num_unused_bits > 7 then False
          else if num_unused_bits = 0 then True
          else
            (case CBS_get_last_u8 cbs1 of
               (None, _) \<Rightarrow> False
             | (Some last_byte, _) \<Rightarrow>
                 (last_byte AND (push_bit (unat num_unused_bits) 1 - 1)) = 0))"

definition CBS_asn1_bitstring_has_bit :: "CBS \<Rightarrow> u32 \<Rightarrow> bool" where
  "CBS_asn1_bitstring_has_bit cbs i =
     (if \<not> CBS_is_valid_asn1_bitstring cbs then False
      else
        let byte_num = unat (drop_bit 3 i + 1); bit_num = unat (7 - (i AND 7))
        in byte_num < length cbs \<and> (cbs ! byte_num AND push_bit bit_num 1) \<noteq> 0)"

section \<open>Comparison in constant time\<close>

lemma or_xor_zero: "x OR (a XOR b) = 0 \<longleftrightarrow> x = 0 \<and> a = (b :: byte)"
  by (auto simp: bit_eq_iff bit_simps)

lemma memcmp_acc_zero:
  "length as = length bs \<Longrightarrow> memcmp_acc x as bs = 0 \<longleftrightarrow> x = 0 \<and> as = bs"
  by (induction x as bs rule: memcmp_acc.induct) (auto simp: or_xor_zero)

text \<open>\<open>CBS_mem_equal\<close>, which compares with \<open>CRYPTO_memcmp\<close> in constant time, decides
  equality of the two byte strings.\<close>

theorem mem_equal_iff: "CBS_mem_equal cbs data \<longleftrightarrow> cbs = data"
  by (auto simp: CBS_mem_equal_def CRYPTO_memcmp_def memcmp_acc_zero)

end
