(* ===== verification/Cbb.thy ===== *)
theory Cbb
  imports Cbs
begin

text \<open>
  The byte-string builder of \<open>BoringSSL-GRPC/crypto/bytestring/cbb.c\<close>.  A top-level
  \<open>CBB\<close> owns a buffer; at any time it has at most one open child, which has at most
  one open child, and so on, so the open builders are a chain.  A builder is named by its
  depth \<open>d\<close> in the chain, 0 for the top level: writing to it first flushes what is
  deeper.  The \<open>CBB\<close> that the C caller passes is the one that stands at that depth.
\<close>

section \<open>State\<close>

text \<open>
  The buffer holds its valid bytes and its capacity; \<open>realloc_ok n\<close> says that the C
  library can give \<open>n\<close> bytes.  \<open>size_t\<close> has 64 bits and the sums of sizes wrap.
\<close>

record cbb_buffer =
  buf :: "byte list"
  cap :: nat
  can_resize :: bool
  cbb_error :: bool
  realloc_ok :: "nat \<Rightarrow> bool"

record cbb_child =
  offset :: nat
  pending_len_len :: nat
  pending_is_asn1 :: bool

record CBB =
  cbb_base :: "cbb_buffer option" \<comment> \<open>\<open>None\<close> after \<open>CBB_cleanup\<close> and \<open>CBB_finish\<close>\<close>
  cbb_chain :: "cbb_child list"

type_synonym 'a cbb_fun = "(CBB, 'a) cfun"

definition size_wrap :: "nat \<Rightarrow> nat" where
  "size_wrap n = n mod 2 ^ 64"

text \<open>Apply a function of the buffer; without a buffer it fails.\<close>

definition on_base :: "(cbb_buffer, 'a) cfun \<Rightarrow> 'a cbb_fun" where
  "on_base f cbb =
     (case cbb_base cbb of
        None \<Rightarrow> (None, cbb)
      | Some base \<Rightarrow> (case f base of (r, base') \<Rightarrow> (r, cbb\<lparr>cbb_base := Some base'\<rparr>)))"

section \<open>The buffer\<close>

definition cbb_init :: "nat \<Rightarrow> bool \<Rightarrow> (nat \<Rightarrow> bool) \<Rightarrow> cbb_buffer" where
  "cbb_init capacity resizable alloc =
     \<lparr>buf = [], cap = capacity, can_resize = resizable, cbb_error = False, realloc_ok = alloc\<rparr>"

text \<open>
  \<open>alloc\<close> is the allocator; 40 is \<open>sizeof(struct cbb_buffer_st)\<close>.
\<close>

definition CBB_init :: "(nat \<Rightarrow> bool) \<Rightarrow> nat \<Rightarrow> CBB option" where
  "CBB_init alloc initial_capacity =
     (if initial_capacity > 0 \<and> \<not> alloc initial_capacity then None
      else if \<not> alloc 40 then None
      else Some \<lparr>cbb_base = Some (cbb_init initial_capacity True alloc), cbb_chain = []\<rparr>)"

definition CBB_init_fixed :: "(nat \<Rightarrow> bool) \<Rightarrow> nat \<Rightarrow> CBB option" where
  "CBB_init_fixed alloc len =
     (if \<not> alloc 40 then None
      else Some \<lparr>cbb_base = Some (cbb_init len False alloc), cbb_chain = []\<rparr>)"

definition CBB_cleanup :: "CBB \<Rightarrow> CBB" where
  "CBB_cleanup cbb = cbb\<lparr>cbb_base := None\<rparr>"

definition cbb_buffer_reserve :: "nat \<Rightarrow> (cbb_buffer, unit) cfun" where
  "cbb_buffer_reserve n base =
     (let len = length (buf base);
          newlen = size_wrap (len + n);
          err = (None, base\<lparr>cbb_error := True\<rparr>)
      in if newlen < len then err
         else if newlen > cap base
         then
           let newcap0 = size_wrap (cap base * 2);
               newcap = (if newcap0 < cap base \<or> newcap0 < newlen then newlen else newcap0)
           in if \<not> can_resize base then err
              else if \<not> realloc_ok base newcap then err
              else (Some (), base\<lparr>cap := newcap\<rparr>)
         else (Some (), base))"

text \<open>
  \<open>cbb_buffer_add\<close>, with what is then stored at \<open>*out\<close>: the caller always fills the
  space it was given.
\<close>

definition cbb_buffer_add :: "byte list \<Rightarrow> (cbb_buffer, unit) cfun" where
  "cbb_buffer_add bs =
     bindC (cbb_buffer_reserve (length bs)) (\<lambda>_ base. (Some (), base\<lparr>buf := buf base @ bs\<rparr>))"

definition cbb_buffer_add_u :: "u32 \<Rightarrow> nat \<Rightarrow> (cbb_buffer, unit) cfun" where
  "cbb_buffer_add_u v len_len =
     (if len_len = 0 then retC ()
      else
        bindC (cbb_buffer_add (be_bytes len_len v)) (\<lambda>_ base.
          if drop_bit (8 * len_len) v \<noteq> 0 then (None, base\<lparr>cbb_error := True\<rparr>)
          else (Some (), base)))"

section \<open>Flushing\<close>

text \<open>The octets that \<open>CBB_flush\<close> puts before a DER body of \<open>len\<close> bytes; \<open>None\<close> is too large.\<close>

definition der_prefix :: "nat \<Rightarrow> (byte \<times> nat) option" where
  "der_prefix len =
     (if len > 0xFFFFFFFE then None
      else if len > 0xFFFFFF then Some (0x80 OR 4, 4)
      else if len > 0xFFFF then Some (0x80 OR 3, 3)
      else if len > 0xFF then Some (0x80 OR 2, 2)
      else if len > 0x7F then Some (0x80 OR 1, 1)
      else Some (of_nat len, 0))"

text \<open>
  Writing the pending length of the child \<open>ch\<close>.  A DER body may have to move to make
  room for more length octets, which needs more space in the buffer.
\<close>

definition flush_child :: "cbb_child \<Rightarrow> (cbb_buffer, unit) cfun" where
  "flush_child ch base =
     (let off = offset ch;
          child_start = size_wrap (off + pending_len_len ch);
          len = length (buf base) - child_start;
          body = drop child_start (buf base);
          err = (\<lambda>b. (None, b\<lparr>cbb_error := True\<rparr>))
      in if child_start < off \<or> length (buf base) < child_start then err base
         else if pending_is_asn1 ch
         then
           (case der_prefix len of
              None \<Rightarrow> err base
            | Some (initial_length_byte, extra_bytes) \<Rightarrow>
                (case (if extra_bytes = 0 then (Some (), base)
                       else cbb_buffer_reserve extra_bytes base) of
                   (None, base1) \<Rightarrow> err base1
                 | (Some _, base1) \<Rightarrow>
                     (Some (), base1\<lparr>buf := take off (buf base) @ [initial_length_byte] @
                        be_bytes extra_bytes (of_nat len :: size_t) @ body\<rparr>)))
         else
           let base1 = base\<lparr>buf := take off (buf base) @
                 be_bytes (pending_len_len ch) (of_nat len :: size_t) @ body\<rparr>
           in if drop_bit (8 * pending_len_len ch) (of_nat len :: size_t) \<noteq> 0 then err base1
              else (Some (), base1))"

text \<open>
  \<open>CBB_flush\<close> of a builder whose open descendants are the list: the deepest is
  flushed first.  The result says whether it succeeds, which descendants stay attached and
  what becomes of the buffer; a failure keeps those whose length is not yet written.
\<close>

fun flush_chain :: "cbb_child list \<Rightarrow> cbb_buffer \<Rightarrow> bool \<times> cbb_child list \<times> cbb_buffer" where
  "flush_chain [] base = (\<not> cbb_error base, [], base)"
| "flush_chain (ch # chain) base =
     (if cbb_error base then (False, ch # chain, base)
      else if pending_len_len ch = 0 then (True, ch # chain, base)
      else
        (case flush_chain chain base of
           (False, rest, base1) \<Rightarrow> (False, ch # rest, base1\<lparr>cbb_error := True\<rparr>)
         | (True, rest, base1) \<Rightarrow>
             (case flush_child ch base1 of
                (None, base2) \<Rightarrow> (False, ch # rest, base2)
              | (Some _, base2) \<Rightarrow> (True, [], base2))))"

definition CBB_flush :: "nat \<Rightarrow> unit cbb_fun" where
  "CBB_flush d cbb =
     (if length (cbb_chain cbb) < d then (None, cbb)
      else
        (case cbb_base cbb of
           None \<Rightarrow> (None, cbb)
         | Some base \<Rightarrow>
             (case flush_chain (drop d (cbb_chain cbb)) base of
                (ok, rest, base') \<Rightarrow>
                  (if ok then Some () else None,
                   cbb\<lparr>cbb_base := Some base', cbb_chain := take d (cbb_chain cbb) @ rest\<rparr>))))"

text \<open>\<open>want\<close> says that the caller passes non-null out-pointers.\<close>

definition CBB_finish :: "nat \<Rightarrow> bool \<Rightarrow> byte list cbb_fun" where
  "CBB_finish d want =
     (if d \<noteq> 0 then (\<lambda>cbb. (None, cbb))
      else
        bindC (CBB_flush 0) (\<lambda>_ cbb.
          case cbb_base cbb of
            None \<Rightarrow> (None, cbb)
          | Some base \<Rightarrow>
              if can_resize base \<and> \<not> want then (None, cbb)
              else (Some (buf base), CBB_cleanup cbb)))"

text \<open>The start of what the builder at depth \<open>d\<close> wrote itself.\<close>

definition cbb_start :: "CBB \<Rightarrow> nat \<Rightarrow> nat" where
  "cbb_start cbb d =
     (if d = 0 then 0
      else let ch = cbb_chain cbb ! (d - 1) in offset ch + pending_len_len ch)"

definition CBB_data :: "CBB \<Rightarrow> nat \<Rightarrow> byte list" where
  "CBB_data cbb d =
     (case cbb_base cbb of None \<Rightarrow> [] | Some base \<Rightarrow> drop (cbb_start cbb d) (buf base))"

definition CBB_len :: "CBB \<Rightarrow> nat \<Rightarrow> nat" where
  "CBB_len cbb d =
     (case cbb_base cbb of None \<Rightarrow> 0 | Some base \<Rightarrow> length (buf base) - cbb_start cbb d)"

section \<open>Adding bytes, integers and children\<close>

definition add_child :: "nat \<Rightarrow> cbb_child \<Rightarrow> unit cbb_fun" where
  "add_child d ch cbb = (Some (), cbb\<lparr>cbb_chain := take d (cbb_chain cbb) @ [ch]\<rparr>)"

definition base_len :: "CBB \<Rightarrow> nat" where
  "base_len cbb = (case cbb_base cbb of None \<Rightarrow> 0 | Some base \<Rightarrow> length (buf base))"

definition cbb_add_length_prefixed :: "nat \<Rightarrow> nat \<Rightarrow> unit cbb_fun" where
  "cbb_add_length_prefixed d len_len =
     bindC (CBB_flush d) (\<lambda>_ cbb.
       let off = base_len cbb in
       bindC (on_base (cbb_buffer_add (replicate len_len 0)))
         (\<lambda>_. add_child d \<lparr>offset = off, pending_len_len = len_len, pending_is_asn1 = False\<rparr>) cbb)"

definition CBB_add_u8_length_prefixed :: "nat \<Rightarrow> unit cbb_fun" where
  "CBB_add_u8_length_prefixed d = cbb_add_length_prefixed d 1"

definition CBB_add_u16_length_prefixed :: "nat \<Rightarrow> unit cbb_fun" where
  "CBB_add_u16_length_prefixed d = cbb_add_length_prefixed d 2"

definition CBB_add_u24_length_prefixed :: "nat \<Rightarrow> unit cbb_fun" where
  "CBB_add_u24_length_prefixed d = cbb_add_length_prefixed d 3"

definition cbb_add_u :: "nat \<Rightarrow> u32 \<Rightarrow> nat \<Rightarrow> unit cbb_fun" where
  "cbb_add_u d v len_len = bindC (CBB_flush d) (\<lambda>_. on_base (cbb_buffer_add_u v len_len))"

definition CBB_add_u8 :: "nat \<Rightarrow> u8 \<Rightarrow> unit cbb_fun" where
  "CBB_add_u8 d value = cbb_add_u d (ucast value) 1"

definition CBB_add_u16 :: "nat \<Rightarrow> u16 \<Rightarrow> unit cbb_fun" where
  "CBB_add_u16 d value = cbb_add_u d (ucast value) 2"

definition CBB_add_u24 :: "nat \<Rightarrow> u32 \<Rightarrow> unit cbb_fun" where
  "CBB_add_u24 d value = cbb_add_u d value 3"

definition CBB_add_u32 :: "nat \<Rightarrow> u32 \<Rightarrow> unit cbb_fun" where
  "CBB_add_u32 d value = cbb_add_u d value 4"

definition CBB_add_bytes :: "nat \<Rightarrow> byte list \<Rightarrow> unit cbb_fun" where
  "CBB_add_bytes d data = bindC (CBB_flush d) (\<lambda>_. on_base (cbb_buffer_add data))"

text \<open>\<open>CBB_add_space\<close> with what the caller stores in the space.\<close>

definition CBB_add_space :: "nat \<Rightarrow> byte list \<Rightarrow> unit cbb_fun" where
  "CBB_add_space d data = bindC (CBB_flush d) (\<lambda>_. on_base (cbb_buffer_add data))"

definition CBB_reserve :: "nat \<Rightarrow> nat \<Rightarrow> unit cbb_fun" where
  "CBB_reserve d n = bindC (CBB_flush d) (\<lambda>_. on_base (cbb_buffer_reserve n))"

text \<open>
  \<open>CBB_did_write\<close> of what the caller stored behind the valid bytes.  On a builder without a
  buffer, where the code follows a null pointer, it fails here.
\<close>

definition CBB_did_write :: "nat \<Rightarrow> byte list \<Rightarrow> unit cbb_fun" where
  "CBB_did_write d data cbb =
     (if length (cbb_chain cbb) < d then (None, cbb)
      else
        on_base (\<lambda>base.
          let len = length (buf base); newlen = size_wrap (len + length data) in
          if d < length (cbb_chain cbb) \<or> newlen < len \<or> newlen > cap base then (None, base)
          else (Some (), base\<lparr>buf := buf base @ data\<rparr>)) cbb)"

definition CBB_discard_child :: "nat \<Rightarrow> CBB \<Rightarrow> CBB" where
  "CBB_discard_child d cbb =
     (if length (cbb_chain cbb) \<le> d then cbb
      else
        cbb\<lparr>cbb_base := map_option (\<lambda>base. base\<lparr>buf := take (offset (cbb_chain cbb ! d)) (buf base)\<rparr>)
               (cbb_base cbb),
            cbb_chain := take d (cbb_chain cbb)\<rparr>)"

section \<open>ASN.1\<close>

text \<open>The number of octets of a base-128 integer, and the loop that writes them.\<close>

function base128_octets :: "u64 \<Rightarrow> nat" where
  "base128_octets copy = (if copy > 0 then Suc (base128_octets (drop_bit 7 copy)) else 0)"
  by pat_completeness auto
termination base128_octets
  by (relation "measure unat")
    (auto simp: word_less_nat_alt [symmetric] word_neq_0_conv [symmetric] intro: drop_bit_less_word)

declare base128_octets.simps [simp del]

primrec add_base128_loop :: "nat \<Rightarrow> nat \<Rightarrow> u64 \<Rightarrow> unit cbb_fun" where
  "add_base128_loop d 0 v = retC ()"
| "add_base128_loop d (Suc i) v =
     (let byte = ucast (drop_bit (7 * i) v AND 0x7F) :: byte;
          byte' = (if i \<noteq> 0 then byte OR 0x80 else byte)
      in bindC (CBB_add_u8 d byte') (\<lambda>_. add_base128_loop d i v))"

definition add_base128_integer :: "nat \<Rightarrow> u64 \<Rightarrow> unit cbb_fun" where
  "add_base128_integer d v =
     (let len_len = base128_octets v;
          len_len' = (if len_len = 0 then 1 else len_len)
      in add_base128_loop d len_len' v)"

definition CBB_add_asn1 :: "nat \<Rightarrow> asn1_tag \<Rightarrow> unit cbb_fun" where
  "CBB_add_asn1 d tag =
     bindC (CBB_flush d) (\<lambda>_.
       let tag_bits = ucast (drop_bit CBS_ASN1_TAG_SHIFT tag) AND 0xE0 :: byte;
           tag_number = tag AND CBS_ASN1_TAG_NUMBER_MASK
       in bindC
            (if tag_number \<ge> 0x1F
             then bindC (CBB_add_u8 d (tag_bits OR 0x1F)) (\<lambda>_. add_base128_integer d (ucast tag_number))
             else CBB_add_u8 d (tag_bits OR ucast tag_number)) (\<lambda>_ cbb.
          let off = base_len cbb in
          bindC (CBB_add_u8 d 0)
            (\<lambda>_. add_child d \<lparr>offset = off, pending_len_len = 1, pending_is_asn1 = True\<rparr>) cbb))"

text \<open>The loop over the eight octets of the value; the child stands at depth \<open>d\<close>.\<close>

primrec add_uint64_loop :: "nat \<Rightarrow> bool \<Rightarrow> byte list \<Rightarrow> bool cbb_fun" where
  "add_uint64_loop d started [] = retC started"
| "add_uint64_loop d started (byte # bs) =
     (if \<not> started \<and> byte = 0 then add_uint64_loop d started bs
      else
        bindC (if \<not> started \<and> (byte AND 0x80) \<noteq> 0 then CBB_add_u8 d 0 else retC ()) (\<lambda>_.
        bindC (CBB_add_u8 d byte) (\<lambda>_. add_uint64_loop d True bs)))"

definition CBB_add_asn1_uint64 :: "nat \<Rightarrow> u64 \<Rightarrow> unit cbb_fun" where
  "CBB_add_asn1_uint64 d value =
     bindC (CBB_add_asn1 d CBS_ASN1_INTEGER) (\<lambda>_.
     bindC (add_uint64_loop (Suc d) False (be_bytes 8 value)) (\<lambda>started.
     bindC (if \<not> started then CBB_add_u8 (Suc d) 0 else retC ()) (\<lambda>_.
     CBB_flush d)))"

definition CBB_add_asn1_octet_string :: "nat \<Rightarrow> byte list \<Rightarrow> unit cbb_fun" where
  "CBB_add_asn1_octet_string d data =
     bindC (CBB_add_asn1 d CBS_ASN1_OCTETSTRING) (\<lambda>_.
     bindC (CBB_add_bytes (Suc d) data) (\<lambda>_.
     CBB_flush d))"

definition CBB_add_asn1_bool :: "nat \<Rightarrow> int \<Rightarrow> unit cbb_fun" where
  "CBB_add_asn1_bool d value =
     bindC (CBB_add_asn1 d CBS_ASN1_BOOLEAN) (\<lambda>_.
     bindC (CBB_add_u8 (Suc d) (if value \<noteq> 0 then 0xFF else 0)) (\<lambda>_.
     CBB_flush d))"

section \<open>Object identifiers\<close>

text \<open>The loop of \<open>parse_dotted_decimal\<close>; 46, 48 and 57 are the characters dot, 0 and 9.\<close>

fun dotted_decimal_loop :: "u64 \<Rightarrow> bool \<Rightarrow> (CBS, u64) cfun" where
  "dotted_decimal_loop out seen_digit [] = (if seen_digit then Some out else None, [])"
| "dotted_decimal_loop out seen_digit (u # cbs) =
     (if u = 46 \<and> length cbs > 0 then (if seen_digit then Some out else None, cbs)
      else if u < 48 \<or> u > 57 \<or> (seen_digit \<and> out = 0) \<or> out > (- 1) div 10 \<or>
              out * 10 > - 1 - (ucast u - 48)
      then (None, cbs)
      else dotted_decimal_loop (out * 10 + (ucast u - 48)) True cbs)"

definition parse_dotted_decimal :: "(CBS, u64) cfun" where
  "parse_dotted_decimal = dotted_decimal_loop 0 False"

text \<open>
  The remaining components.  The builder and the text are separate states; each
  component takes a character at least, so the length of the text is fuel enough.
\<close>

primrec add_oid_components :: "nat \<Rightarrow> nat \<Rightarrow> CBS \<Rightarrow> unit cbb_fun" where
  "add_oid_components 0 d cbs = (\<lambda>cbb. (if cbs = [] then Some () else None, cbb))"
| "add_oid_components (Suc k) d cbs =
     (if cbs = [] then retC ()
      else
        (case parse_dotted_decimal cbs of
           (None, _) \<Rightarrow> (\<lambda>cbb. (None, cbb))
         | (Some a, cbs') \<Rightarrow>
             bindC (add_base128_integer d a) (\<lambda>_. add_oid_components k d cbs')))"

definition CBB_add_asn1_oid_from_text :: "nat \<Rightarrow> byte list \<Rightarrow> unit cbb_fun" where
  "CBB_add_asn1_oid_from_text d text =
     bindC (CBB_flush d) (\<lambda>_.
       case parse_dotted_decimal text of
         (None, _) \<Rightarrow> (\<lambda>cbb. (None, cbb))
       | (Some a, cbs1) \<Rightarrow>
           (case parse_dotted_decimal cbs1 of
              (None, _) \<Rightarrow> (\<lambda>cbb. (None, cbb))
            | (Some b, cbs2) \<Rightarrow>
                if a > 2 \<or> (a < 2 \<and> b > 39) \<or> b > - 1 - 80 then (\<lambda>cbb. (None, cbb))
                else bindC (add_base128_integer d (40 * a + b))
                       (\<lambda>_. add_oid_components (length cbs2) d cbs2)))"

text \<open>
  \<open>CBS_asn1_oid_to_text\<close> of \<open>cbs.c\<close>, which builds its text with a \<open>CBB\<close>.  \<open>decimal\<close> is
  what \<open>%llu\<close> prints.
\<close>

fun decimal :: "nat \<Rightarrow> byte list" where
  "decimal n = (if n < 10 then [of_nat (48 + n)] else decimal (n div 10) @ [of_nat (48 + n mod 10)])"

declare decimal.simps [simp del]

definition add_decimal :: "u64 \<Rightarrow> unit cbb_fun" where
  "add_decimal v = CBB_add_bytes 0 (decimal (unat v))"

primrec oid_text_components :: "nat \<Rightarrow> CBS \<Rightarrow> unit cbb_fun" where
  "oid_text_components 0 cbs = (\<lambda>cbb. (if cbs = [] then Some () else None, cbb))"
| "oid_text_components (Suc k) cbs =
     (if cbs = [] then retC ()
      else
        (case parse_base128_integer cbs of
           (None, _) \<Rightarrow> (\<lambda>cbb. (None, cbb))
         | (Some v, cbs') \<Rightarrow>
             bindC (CBB_add_u8 0 46) (\<lambda>_.
             bindC (add_decimal v) (\<lambda>_. oid_text_components k cbs'))))"

definition oid_text :: "CBS \<Rightarrow> byte list cbb_fun" where
  "oid_text cbs =
     (case parse_base128_integer cbs of
        (None, _) \<Rightarrow> (\<lambda>cbb. (None, cbb))
      | (Some v, copy) \<Rightarrow>
          bindC (if v \<ge> 80
                 then bindC (CBB_add_bytes 0 [50, 46]) (\<lambda>_. add_decimal (v - 80))
                 else bindC (add_decimal (v div 40)) (\<lambda>_.
                      bindC (CBB_add_u8 0 46) (\<lambda>_. add_decimal (v mod 40)))) (\<lambda>_.
          bindC (oid_text_components (length copy) copy) (\<lambda>_.
          bindC (CBB_add_u8 0 0) (\<lambda>_. CBB_finish 0 True))))"

definition CBS_asn1_oid_to_text :: "(nat \<Rightarrow> bool) \<Rightarrow> CBS \<Rightarrow> byte list option" where
  "CBS_asn1_oid_to_text alloc cbs =
     (case CBB_init alloc 32 of None \<Rightarrow> None | Some cbb \<Rightarrow> fst (oid_text cbs cbb))"

section \<open>Sorting the elements of a SET OF\<close>

text \<open>\<open>memcmp\<close> of two lists of the same length: the difference of the first bytes that differ.\<close>

fun OPENSSL_memcmp :: "byte list \<Rightarrow> byte list \<Rightarrow> int" where
  "OPENSSL_memcmp (a # as) (b # bs) =
     (if a = b then OPENSSL_memcmp as bs else uint a - uint b)"
| "OPENSSL_memcmp _ _ = 0"

definition compare_set_of_element :: "CBS \<Rightarrow> CBS \<Rightarrow> int" where
  "compare_set_of_element a b =
     (let a_len = length a; b_len = length b;
          min_len = (if a_len < b_len then a_len else b_len);
          ret = OPENSSL_memcmp (take min_len a) (take min_len b)
      in if ret \<noteq> 0 then ret
         else if a_len = b_len then 0
         else if a_len < b_len then - 1 else 1)"

text \<open>The children of the contents; each has two bytes at least.\<close>

primrec set_of_children :: "nat \<Rightarrow> CBS \<Rightarrow> CBS list option" where
  "set_of_children 0 cbs = (if cbs = [] then Some [] else None)"
| "set_of_children (Suc k) cbs =
     (if cbs = [] then Some []
      else
        (case CBS_get_any_asn1_element cbs of
           (None, _) \<Rightarrow> None
         | (Some (out, _, _), rest) \<Rightarrow> map_option ((#) out) (set_of_children k rest)))"

primrec add_all_bytes :: "nat \<Rightarrow> byte list list \<Rightarrow> unit cbb_fun" where
  "add_all_bytes d [] = retC ()"
| "add_all_bytes d (x # xs) = bindC (CBB_add_bytes d x) (\<lambda>_. add_all_bytes d xs)"

text \<open>16 is \<open>sizeof(CBS)\<close>; \<open>alloc\<close> is the allocator of the two temporary blocks.\<close>

definition CBB_flush_asn1_set_of :: "(nat \<Rightarrow> bool) \<Rightarrow> nat \<Rightarrow> unit cbb_fun" where
  "CBB_flush_asn1_set_of alloc d =
     bindC (CBB_flush d) (\<lambda>_ cbb.
       let contents = CBB_data cbb d in
       case set_of_children (length contents) contents of
         None \<Rightarrow> (None, cbb)
       | Some children \<Rightarrow>
           let num_children = length children in
           if num_children < 2 then (Some (), cbb)
           else if num_children > (2 ^ 64 - 1) div 16 then (None, cbb)
           else if \<not> alloc (length contents) \<or> \<not> alloc (num_children * 16) then (None, cbb)
           else
             let start = cbb_start cbb d;
                 cbb1 = cbb\<lparr>cbb_base := map_option (\<lambda>base. base\<lparr>buf := take start (buf base)\<rparr>)
                              (cbb_base cbb)\<rparr>
             in add_all_bytes d (qsort compare_set_of_element children) cbb1)"

end
