(* ===== verification/Der.thy ===== *)
theory Der
  imports Cbs
begin

text \<open>
  The formats that \<open>cbs.c\<close> reads, as functions from values to byte lists, and the
  proof that each reader accepts exactly the encodings of its format.
\<close>

section \<open>The interface of a format\<close>

text \<open>
  A reader and a format agree when the reader takes an encoding off the front, and
  succeeds on nothing else.  The second law makes the encoding canonical.
\<close>

locale byte_format =
  fixes parse :: "(CBS, 'v) cfun"
    and bytes :: "'v \<Rightarrow> byte list"
    and valid :: "'v \<Rightarrow> bool"
  assumes parse_bytes: "valid v \<Longrightarrow> parse (bytes v @ rest) = (Some v, rest)"
    and parse_sound: "parse cbs = (Some v, rest) \<Longrightarrow> valid v \<and> cbs = bytes v @ rest"
begin

lemma parse_iff: "parse cbs = (Some v, rest) \<longleftrightarrow> valid v \<and> cbs = bytes v @ rest"
  by (auto simp: parse_bytes dest: parse_sound)

lemma prefix_free:
  assumes "valid v" "valid w" "bytes v @ xs = bytes w @ ys"
  shows "v = w \<and> xs = ys"
proof -
  have "parse (bytes w @ ys) = (Some v, xs)"
    unfolding assms(3) [symmetric] by (rule parse_bytes [OF assms(1)])
  moreover have "parse (bytes w @ ys) = (Some w, ys)" by (rule parse_bytes [OF assms(2)])
  ultimately show ?thesis by (simp only: prod.inject option.inject)
qed

lemma bind_bytes: "valid v \<Longrightarrow> bindC parse f (bytes v @ rest) = f v rest"
  by (rule bindC_Some) (rule parse_bytes)

lemma bind_SomeE:
  assumes "bindC parse f cbs = (Some y, t)"
  obtains v rest where "valid v" "cbs = bytes v @ rest" "f v rest = (Some y, t)"
proof -
  from assms obtain v s where v: "parse cbs = (Some v, s)" "f v s = (Some y, t)"
    by (rule bindC_SomeE)
  note s = parse_sound [OF v(1)]
  show thesis by (rule that [OF conjunct1 [OF s] conjunct2 [OF s] v(2)])
qed

end

section \<open>Integers\<close>

lemma foldl_le_word:
  "foldl (\<lambda>r b. push_bit 8 r OR ucast b) 0 bs = (le_word (rev bs) :: u32)"
  by (induction bs rule: rev_induct) (simp_all add: or.commute)

lemma cbs_get_append: "cbs_get n (xs @ rest) = (Some xs, rest)" if "length xs = n"
  using that by (simp add: cbs_get_def)

lemma cbs_get_SomeD: "cbs_get n cbs = (Some xs, rest) \<Longrightarrow> length xs = n \<and> cbs = xs @ rest"
  by (auto simp: cbs_get_def split: if_splits)

lemma cbs_get_u_be:
  assumes "n \<le> 4"
  shows "cbs_get_u n (be_bytes n w @ rest) = (Some (take_bit (8 * n) (w :: u32)), rest)"
  by (simp add: cbs_get_u_def bindC_def cbs_get_append foldl_le_word be_bytes_def le_word_le_bytes retC_def)

lemma cbs_get_u_SomeD:
  assumes "cbs_get_u n cbs = (Some w, rest)" "n \<le> 4"
  shows "cbs = be_bytes n w @ rest \<and> take_bit (8 * n) w = w"
proof -
  from assms(1) obtain data where d: "cbs_get n cbs = (Some data, rest)" "w = le_word (rev data)"
    by (auto simp: cbs_get_u_def bindC_def foldl_le_word retC_def split: prod.splits option.splits)
  from cbs_get_SomeD [OF d(1)] have l: "length data = n" "cbs = data @ rest" by simp_all
  have "le_bytes (length (rev data)) (le_word (rev data) :: u32) = rev data"
    using l assms(2) by (intro le_bytes_le_word) simp
  then have "be_bytes n w = data" using d l by (simp add: be_bytes_def)
  moreover have "take_bit (8 * n) w = w"
    unfolding d(2) using l by (intro bit_word_eqI) (auto simp: bit_simps bit_le_word)
  ultimately show ?thesis using l by simp
qed

text \<open>\<open>n\<close>-byte integers as a format, for \<open>n\<close> from 1 to 4.\<close>

lemma byte_format_u:
  assumes "n \<le> 4"
  shows "byte_format (cbs_get_u n) (be_bytes n) (\<lambda>w. take_bit (8 * n) w = w)"
  using cbs_get_u_be [OF assms] cbs_get_u_SomeD [OF _ assms] by unfold_locales auto

interpretation u24: byte_format CBS_get_u24 "be_bytes 3" "\<lambda>w. take_bit 24 w = w"
  using byte_format_u [of 3] by (simp add: CBS_get_u24_def)

interpretation u32: byte_format CBS_get_u32 "be_bytes 4" "\<lambda>_. True"
  using byte_format_u [of 4] by (simp add: CBS_get_u32_def take_bit_word_eq_self)

interpretation u8: byte_format CBS_get_u8 "\<lambda>b. [b]" "\<lambda>_. True"
  by unfold_locales
    (auto simp: CBS_get_u8_def cbs_get_def bindC_def retC_def Suc_le_eq neq_Nil_conv split: if_splits)

lemma CBS_get_u8_Cons [cbs_simps]: "CBS_get_u8 (b # cbs) = (Some b, cbs)"
  using u8.parse_bytes [of b cbs] by simp

lemma CBS_get_u8_Nil [cbs_simps]: "CBS_get_u8 [] = (None, [])"
  by (simp add: CBS_get_u8_def cbs_get_def bindC_def)

lemma be_bytes_ucast16: "be_bytes 2 (ucast (v :: u16) :: u32) = be_bytes 2 v"
proof -
  have "le_bytes 2 (ucast v :: u32) = le_bytes 2 v"
  proof (rule nth_equalityI)
    fix i assume "i < length (le_bytes 2 (ucast v :: u32))"
    then show "le_bytes 2 (ucast v :: u32) ! i = le_bytes 2 v ! i"
      by (intro bit_word_eqI) (auto simp: bit_nth_le_bytes bit_simps dest: bit_imp_le_length)
  qed simp
  then show ?thesis by (simp add: be_bytes_def)
qed

interpretation u16: byte_format CBS_get_u16 "be_bytes 2" "\<lambda>_. True"
proof unfold_locales
  fix v :: u16 and rest
  have "(ucast (take_bit (8 * 2) (ucast v :: u32)) :: u16) = v"
    by (rule bit_word_eqI) (auto simp: bit_simps)
  with cbs_get_u_be [of 2 "ucast v" rest] show "CBS_get_u16 (be_bytes 2 v @ rest) = (Some v, rest)"
    by (simp add: CBS_get_u16_def bindC_def be_bytes_ucast16 retC_def)
next
  fix cbs v rest assume "CBS_get_u16 cbs = (Some v, rest)"
  then obtain w where w: "cbs_get_u 2 cbs = (Some w, rest)" "v = ucast w"
    by (auto simp: CBS_get_u16_def bindC_def retC_def split: prod.splits option.splits)
  from cbs_get_u_SomeD [OF w(1)] have "cbs = be_bytes 2 w @ rest" "take_bit 16 w = w" by simp_all
  moreover from this(2) have "ucast v = w" using w(2)
    by (simp add: unsigned_ucast_eq)
  ultimately show "True \<and> cbs = be_bytes 2 v @ rest" using be_bytes_ucast16 [of v] by simp
qed

section \<open>Base-128 integers\<close>

text \<open>The octets with a continuation bit that stand for \<open>v\<close>, and the whole encoding.\<close>

function base128_cont :: "u64 \<Rightarrow> byte list" where
  "base128_cont v =
     (if v = 0 then [] else base128_cont (drop_bit 7 v) @ [ucast (v AND 0x7F) OR 0x80])"
  by pat_completeness auto

termination base128_cont
  by (relation "measure unat") (auto simp: word_less_nat_alt [symmetric] intro: drop_bit_less_word)

declare base128_cont.simps [simp del]

definition base128_bytes :: "u64 \<Rightarrow> byte list" where
  "base128_bytes v = base128_cont (drop_bit 7 v) @ [ucast (v AND 0x7F)]"

lemma base128_cont_0 [simp]: "base128_cont 0 = []"
  by (simp add: base128_cont.simps)

lemma cont_octet:
  "((ucast (v AND 0x7F :: u64) :: byte) OR 0x80) AND 0x80 \<noteq> 0"
  "ucast (((ucast (v AND 0x7F :: u64) :: byte) OR 0x80) AND 0x7F) = (v AND 0x7F :: u64)"
  "((ucast (v AND 0x7F :: u64) :: byte) OR 0x80 = 0x80) \<longleftrightarrow> v AND 0x7F = 0"
proof -
  have "bit (((ucast (v AND 0x7F) :: byte) OR 0x80) AND 0x80) 7" by (simp add: bit_simps)
  then show "((ucast (v AND 0x7F) :: byte) OR 0x80) AND 0x80 \<noteq> 0" by (metis bit_0_eq bot_apply bot_bool_def)
  show b: "ucast (((ucast (v AND 0x7F) :: byte) OR 0x80) AND 0x7F) = (v AND 0x7F :: u64)"
    by (rule bit_word_eqI) (auto simp: bit_simps and_7F)
  show "((ucast (v AND 0x7F) :: byte) OR 0x80 = 0x80) \<longleftrightarrow> v AND 0x7F = 0"
  proof
    assume "(ucast (v AND 0x7F) :: byte) OR 0x80 = 0x80"
    with b have "v AND 0x7F = (ucast ((0x80 :: byte) AND 0x7F) :: u64)" by simp
    then show "v AND 0x7F = 0" by simp
  qed simp
qed

lemma last_octet:
  "(ucast (v AND 0x7F :: u64) :: byte) AND 0x80 = 0"
  "ucast ((ucast (v AND 0x7F :: u64) :: byte) AND 0x7F) = (v AND 0x7F :: u64)"
  by (rule bit_word_eqI, auto simp: bit_simps and_7F)+

lemma join_7: "push_bit 7 (drop_bit 7 v) OR (v AND 0x7F) = (v :: u64)"
  by (rule bit_word_eqI) (auto simp: bit_simps and_7F)

lemma drop_57_7: "drop_bit 57 (drop_bit 7 v) = (0 :: u64)"
  by (rule bit_word_eqI) (auto simp: bit_simps dest: bit_imp_le_length)

lemma parse_base128_cont:
  "drop_bit 57 w = 0 \<Longrightarrow> parse_base128_loop 0 (base128_cont w @ xs) = parse_base128_loop w xs"
proof (induction w arbitrary: xs rule: base128_cont.induct)
  case (1 w)
  show ?case
  proof (cases "w = 0")
    case False
    let ?b = "(ucast (w AND 0x7F) :: byte) OR 0x80"
    have nz: "\<not> (drop_bit 7 w = 0 \<and> ?b = 0x80)"
      using False join_7 [of w] by (auto simp: cont_octet(3))
    have d: "drop_bit (64 - 7) (drop_bit 7 w) = 0" using drop_57_7 [of w] by simp
    have "parse_base128_loop 0 (base128_cont w @ xs) =
        parse_base128_loop 0 (base128_cont (drop_bit 7 w) @ ?b # xs)"
      using False by (simp add: base128_cont.simps [of w])
    also have "\<dots> = parse_base128_loop (drop_bit 7 w) (?b # xs)"
      using "1.IH" [OF False drop_57_7] .
    also have "\<dots> = parse_base128_loop w xs"
      by (simp only: parse_base128_loop.simps nz d cont_octet(1,2) join_7 Let_def if_False if_True not_True_eq_False
          not_False_eq_True simp_thms)
    finally show ?thesis .
  qed simp
qed

lemma parse_base128_bytes: "parse_base128_integer (base128_bytes v @ rest) = (Some v, rest)"
proof -
  have "(ucast (v AND 0x7F) :: byte) \<noteq> 0x80" using last_octet(1) [of v] by auto
  then show ?thesis
    using parse_base128_cont [OF drop_57_7, of v] last_octet [of v] join_7 [of v] drop_57_7 [of v]
    by (simp add: parse_base128_integer_def base128_bytes_def Let_def)
qed

lemma push_7_parts:
  fixes v :: u64
  assumes "drop_bit 57 v = 0"
  shows "drop_bit 7 (push_bit 7 v OR ucast (b AND 0x7F :: byte)) = v"
    "(push_bit 7 v OR ucast (b AND 0x7F :: byte)) AND 0x7F = ucast (b AND 0x7F)"
proof -
  have hi: "\<not> bit v n" if "57 \<le> n" for n
  proof -
    have "\<not> bit (drop_bit 57 v) (n - 57)" using assms by simp
    with that show ?thesis by (simp add: bit_simps)
  qed
  have lo: "bit (b AND 0x7F) n \<Longrightarrow> n < 7" for n by (auto simp: and_7F bit_simps)
  show "drop_bit 7 (push_bit 7 v OR ucast (b AND 0x7F)) = v"
  proof (rule bit_word_eqI)
    fix n assume n: "n < LENGTH(64)"
    show "bit (drop_bit 7 (push_bit 7 v OR ucast (b AND 0x7F))) n = bit v n"
    proof (cases "n < 57")
      case True
      then show ?thesis using lo [of "7 + n"]
        by (auto simp: bit_push_bit_iff bit_drop_bit_eq bit_or_iff bit_unsigned_iff)
    next
      case False
      then show ?thesis using hi [of n] lo [of "7 + n"]
        by (auto simp: bit_push_bit_iff bit_drop_bit_eq bit_or_iff bit_unsigned_iff)
    qed
  qed
  show "(push_bit 7 v OR ucast (b AND 0x7F)) AND 0x7F = ucast (b AND 0x7F)"
    by (rule bit_word_eqI) (auto simp: and_7F bit_simps)
qed

lemma octet_split:
  fixes b :: byte
  shows "b AND 0x80 \<noteq> 0 \<Longrightarrow> ucast (ucast (b AND 0x7F) :: u64) OR 0x80 = b"
    "b AND 0x80 = 0 \<Longrightarrow> ucast (ucast (b AND 0x7F) :: u64) = b"
proof -
  have e: "b AND 0x80 = (if bit b 7 then 0x80 else 0)"
    by (rule bit_word_eqI) (auto simp: bit_simps)
  have b7: "n < 8 \<Longrightarrow> n \<noteq> 7 \<Longrightarrow> n < 7" for n :: nat by simp
  show "b AND 0x80 \<noteq> 0 \<Longrightarrow> ucast (ucast (b AND 0x7F) :: u64) OR 0x80 = b"
    using e b7 by (intro bit_word_eqI) (auto simp: and_7F bit_simps split: if_splits)
  assume "b AND 0x80 = 0"
  with e have "\<not> bit b 7" by (simp split: if_splits)
  then show "ucast (ucast (b AND 0x7F) :: u64) = b"
    by (intro bit_word_eqI) (auto simp: and_7F bit_simps intro!: b7)
qed

lemma parse_base128_loop_sound:
  "parse_base128_loop w cbs = (Some v, rest) \<Longrightarrow> base128_cont w @ cbs = base128_bytes v @ rest"
proof (induction w cbs rule: parse_base128_loop.induct)
  case (1 w)
  then show ?case by simp
next
  case (2 w b cbs)
  let ?v = "push_bit 7 w OR ucast (b AND 0x7F)"
  have c: "drop_bit 57 w = 0" "\<not> (w = 0 \<and> b = 0x80)"
    using "2.prems" by (auto split: if_splits)
  note parts = push_7_parts [OF c(1), of b]
  show ?case
  proof (cases "b AND 0x80 = 0")
    case True
    then have "v = ?v" "rest = cbs" using "2.prems" c by (simp_all add: Let_def split: if_splits)
    then show ?thesis using parts octet_split(2) [OF True] by (simp add: base128_bytes_def)
  next
    case False
    then have "parse_base128_loop ?v cbs = (Some v, rest)"
      using "2.prems" c by (simp add: Let_def split: if_splits)
    from "2.IH" [OF _ c(2) refl False this] c(1)
    have ih: "base128_cont ?v @ cbs = base128_bytes v @ rest" by simp
    have "?v \<noteq> 0"
    proof
      assume z: "?v = 0"
      have "w = 0" using parts(1) z by simp
      moreover have "ucast (b AND 0x7F) = (0 :: u64)" using parts(2) z by simp
      then have "b = 0x80" using octet_split(1) [OF False] by simp
      ultimately show False using c(2) by simp
    qed
    then have "base128_cont ?v = base128_cont w @ [b]"
      using parts octet_split(1) [OF False] by (simp add: base128_cont.simps [of ?v])
    with ih show ?thesis by simp
  qed
qed

interpretation base128: byte_format parse_base128_integer base128_bytes "\<lambda>_. True"
proof unfold_locales
  fix cbs v rest assume "parse_base128_integer cbs = (Some v, rest)"
  then show "True \<and> cbs = base128_bytes v @ rest"
    using parse_base128_loop_sound [of 0 cbs v rest] by (simp add: parse_base128_integer_def)
qed (rule parse_base128_bytes)

section \<open>Tags\<close>

lemma bit_tag_masks [simp]:
  "bit (0xE0 :: int) n \<longleftrightarrow> 5 \<le> n \<and> n < 8"
  "bit (0x1F :: int) n \<longleftrightarrow> n < 5"
  "bit (0x1FFFFFFF :: int) n \<longleftrightarrow> n < 29"
  "bit (0xE0000000 :: int) n \<longleftrightarrow> 29 \<le> n \<and> n < 32"
proof -
  have e: "(0xE0 :: int) = push_bit 5 (mask 3)" "(0x1F :: int) = mask 5" "(0x1FFFFFFF :: int) = mask 29"
    "(0xE0000000 :: int) = push_bit 29 (mask 3)"
    by (simp_all add: mask_eq_exp_minus_1 push_bit_eq_mult)
  show "bit (0xE0 :: int) n \<longleftrightarrow> 5 \<le> n \<and> n < 8"
    unfolding e(1) by (auto simp: bit_push_bit_iff bit_mask_iff)
  show "bit (0xE0000000 :: int) n \<longleftrightarrow> 29 \<le> n \<and> n < 32"
    unfolding e(4) by (auto simp: bit_push_bit_iff bit_mask_iff)
  show "bit (0x1F :: int) n \<longleftrightarrow> n < 5" "bit (0x1FFFFFFF :: int) n \<longleftrightarrow> n < 29"
    unfolding e(2,3) by (simp_all add: bit_mask_iff)
qed

definition tag_class :: "asn1_tag \<Rightarrow> byte" where
  "tag_class tag = ucast (drop_bit CBS_ASN1_TAG_SHIFT tag) AND 0xE0"

definition tag_num :: "asn1_tag \<Rightarrow> asn1_tag" where
  "tag_num tag = tag AND CBS_ASN1_TAG_NUMBER_MASK"

definition der_tag_bytes :: "asn1_tag \<Rightarrow> byte list" where
  "der_tag_bytes tag =
     (if tag_num tag \<ge> 0x1F then (tag_class tag OR 0x1F) # base128_bytes (ucast (tag_num tag))
      else [tag_class tag OR ucast (tag_num tag)])"

lemma bit_tag_class: "bit (tag_class tag) n \<longleftrightarrow> 5 \<le> n \<and> n < 8 \<and> bit tag (24 + n)"
  by (auto simp: tag_class_def CBS_ASN1_TAG_SHIFT_def bit_simps)

lemma bit_tag_num: "bit (tag_num tag) n \<longleftrightarrow> n < 29 \<and> bit tag n"
  by (auto simp: tag_num_def CBS_ASN1_TAG_NUMBER_MASK_def bit_simps dest: bit_imp_le_length)

text \<open>A tag number below 31 has its bits below position 5.\<close>

lemma small_num_bit: "(w :: 32 word) < 0x1F \<Longrightarrow> bit w n \<Longrightarrow> n < 5"
  using u32_bit_bound [of w 5 n] by (auto simp: word_less_nat_alt not_less [symmetric])

lemma tag_parts: "push_bit 24 (ucast (tag_class tag OR ucast x) AND 0xE0) OR tag_num tag = tag"
  if "\<And>n. bit (x :: 32 word) n \<Longrightarrow> n < 5"
proof (rule bit_word_eqI)
  fix n assume n: "n < LENGTH(32)"
  have "n < 29 \<or> 5 \<le> n - 24 \<and> n - 24 < 8 \<and> 24 + (n - 24) = n" using n by auto
  moreover have "\<not> bit x (n - 24)" if "29 \<le> n" using that \<open>\<And>n. bit x n \<Longrightarrow> n < 5\<close> [of "n - 24"] by auto
  ultimately show "bit (push_bit 24 (ucast (tag_class tag OR ucast x) AND 0xE0) OR tag_num tag) n = bit tag n"
    using n by (cases "n < 29") (auto simp: bit_tag_num bit_tag_class bit_simps)
qed

lemma tag_byte_low:
  assumes "\<And>n. bit (x :: 32 word) n \<Longrightarrow> n < 5"
  shows "ucast ((tag_class tag OR ucast x) AND 0x1F :: byte) = x"
proof (rule bit_word_eqI)
  fix n assume "n < LENGTH(32)"
  then show "bit (ucast ((tag_class tag OR ucast x) AND 0x1F :: byte) :: 32 word) n = bit x n"
    using assms [of n] by (auto simp: bit_tag_class bit_simps)
qed

lemma num_1F_bits: "bit (0x1F :: 32 word) n \<Longrightarrow> n < 5"
  by simp

lemma parse_asn1_tag_bytes: "parse_asn1_tag (der_tag_bytes tag @ rest) = (Some tag, rest)"
proof (cases "tag_num tag \<ge> 0x1F")
  case True
  let ?b = "tag_class tag OR ucast (0x1F :: 32 word)"
  have low: "ucast (?b AND 0x1F) = (0x1F :: 32 word)" by (rule tag_byte_low [OF num_1F_bits])
  have v: "\<not> (ucast (tag_num tag) > (ucast CBS_ASN1_TAG_NUMBER_MASK :: u64) \<or> ucast (tag_num tag) < (0x1F :: u64))"
    and u: "ucast (ucast (tag_num tag) :: u64) = tag_num tag"
  proof -
    have "unat (tag_num tag) \<le> unat CBS_ASN1_TAG_NUMBER_MASK" unfolding tag_num_def
      using word_and_le1 [of tag CBS_ASN1_TAG_NUMBER_MASK] by (simp add: word_le_nat_alt)
    moreover have "0x1F \<le> unat (tag_num tag)" using True by (simp add: word_le_nat_alt)
    ultimately show "\<not> (ucast (tag_num tag) > (ucast CBS_ASN1_TAG_NUMBER_MASK :: u64) \<or> ucast (tag_num tag) < (0x1F :: u64))"
      by (simp add: word_less_nat_alt unat_ucast_u32)
    show "ucast (ucast (tag_num tag) :: u64) = tag_num tag" by (rule ucast_u32_u64)
  qed
  have "parse_asn1_tag (?b # base128_bytes (ucast (tag_num tag)) @ rest) =
      (Some (push_bit 24 (ucast ?b AND 0xE0) OR tag_num tag), rest)"
    using low v u
    by (simp add: parse_asn1_tag_def cbs_simps base128.parse_bytes Let_def CBS_ASN1_TAG_SHIFT_def retC_def)
  also have "push_bit 24 (ucast ?b AND 0xE0) OR tag_num tag = tag"
    by (rule tag_parts [OF num_1F_bits])
  finally show ?thesis using True by (simp add: der_tag_bytes_def)
next
  case False
  let ?b = "tag_class tag OR ucast (tag_num tag) :: byte"
  have s: "\<And>n. bit (tag_num tag) n \<Longrightarrow> n < 5" using False small_num_bit by (auto simp: not_le)
  have low: "ucast (?b AND 0x1F) = tag_num tag" by (rule tag_byte_low [OF s])
  have "tag_num tag \<noteq> 0x1F" using False by auto
  then have "parse_asn1_tag (?b # rest) = (Some (push_bit 24 (ucast ?b AND 0xE0) OR tag_num tag), rest)"
    using low
    by (simp add: parse_asn1_tag_def cbs_simps Let_def CBS_ASN1_TAG_SHIFT_def retC_def)
  also have "push_bit 24 (ucast ?b AND 0xE0) OR tag_num tag = tag" by (rule tag_parts [OF s])
  finally show ?thesis using False by (simp add: der_tag_bytes_def)
qed

lemma tag_join:
  assumes "\<And>n. bit (num :: 32 word) n \<Longrightarrow> n < 29"
  shows "tag_class (push_bit 24 (ucast b AND 0xE0) OR num) = b AND 0xE0"
    and "tag_num (push_bit 24 (ucast b AND 0xE0) OR num) = num"
proof -
  show "tag_class (push_bit 24 (ucast b AND 0xE0) OR num) = b AND 0xE0"
  proof (rule bit_word_eqI)
    fix n assume "n < LENGTH(8)"
    then show "bit (tag_class (push_bit 24 (ucast b AND 0xE0) OR num)) n = bit (b AND 0xE0) n"
      using assms [of "24 + n"] by (auto simp: bit_tag_class bit_simps)
  qed
  show "tag_num (push_bit 24 (ucast b AND 0xE0) OR num) = num"
    using assms by (intro bit_word_eqI) (auto simp: bit_tag_num bit_simps)
qed

lemma byte_join:
  "(b AND 0xE0) OR (b AND 0x1F) = (b :: byte)"
  "ucast (ucast (b AND 0x1F) :: 32 word) = b AND 0x1F"
  "bit (ucast (b AND 0x1F) :: 32 word) n \<Longrightarrow> n < 5"
proof -
  show "(b AND 0xE0) OR (b AND 0x1F) = b"
  proof (rule bit_word_eqI)
    fix n assume "n < LENGTH(8)"
    then show "bit ((b AND 0xE0) OR (b AND 0x1F)) n = bit b n"
      by (cases "n < 5") (auto simp: bit_simps)
  qed
  show "ucast (ucast (b AND 0x1F) :: 32 word) = b AND 0x1F"
    by (rule bit_word_eqI) (auto simp: bit_simps)
  show "bit (ucast (b AND 0x1F) :: 32 word) n \<Longrightarrow> n < 5"
    by (auto simp: bit_simps)
qed

lemma byte_num_31:
  assumes "ucast (b AND 0x1F :: byte) = (0x1F :: 32 word)"
  shows "(b AND 0xE0) OR 0x1F = b"
proof -
  have "b AND 0x1F = ucast (0x1F :: 32 word)" using byte_join(2) [of b] assms by simp
  then show ?thesis using byte_join(1) [of b] by simp
qed

lemma parse_asn1_tag_sound:
  assumes "parse_asn1_tag cbs = (Some tag, rest)"
  shows "cbs = der_tag_bytes tag @ rest"
proof -
  from assms obtain b cs where cbs: "cbs = b # cs" by (cases cbs) (simp_all add: parse_asn1_tag_def cbs_simps)
  show ?thesis
  proof (cases "ucast (b AND 0x1F) = (0x1F :: 32 word)")
    case False
    let ?num = "ucast (b AND 0x1F) :: 32 word"
    have r: "tag = push_bit 24 (ucast b AND 0xE0) OR ?num" "rest = cs"
      using assms False by (simp_all add: parse_asn1_tag_def cbs cbs_simps Let_def CBS_ASN1_TAG_SHIFT_def retC_def)
    have num: "n < 29" if "bit ?num n" for n using byte_join(3) [OF that] by simp
    have "?num \<le> 0x1F"
    proof -
      have "?num = ?num AND 0x1F" by (rule bit_word_eqI) (auto simp: bit_simps)
      then show ?thesis by (metis word_and_le1)
    qed
    with False have "\<not> ?num \<ge> 0x1F" by auto
    then show ?thesis using r cbs tag_join [OF num, where b = b] byte_join(1,2) [of b]
      by (simp add: der_tag_bytes_def)
  next
    case True
    have "bindC parse_base128_integer (\<lambda>v. if v > ucast CBS_ASN1_TAG_NUMBER_MASK \<or> v < 0x1F then failC
        else retC (push_bit 24 (ucast b AND 0xE0) OR ucast v)) cs = (Some tag, rest)"
      using assms True
      by (simp only: parse_asn1_tag_def cbs CBS_get_u8_Cons bindC_Some Let_def CBS_ASN1_TAG_SHIFT_def if_True simp_thms)
    then obtain v r1 where v: "cs = base128_bytes v @ r1"
      "(if v > ucast CBS_ASN1_TAG_NUMBER_MASK \<or> v < 0x1F then failC
        else retC (push_bit 24 (ucast b AND 0xE0) OR ucast v)) r1 = (Some tag, rest)"
      by (rule base128.bind_SomeE) blast
    then have c: "v \<le> 0x1FFFFFFF" "0x1F \<le> v" and r: "tag = push_bit 24 (ucast b AND 0xE0) OR ucast v" "rest = r1"
      by (auto simp: failC_def retC_def CBS_ASN1_TAG_NUMBER_MASK_def not_less split: if_splits)
    let ?num = "ucast v :: 32 word"
    have "unat v < 2 ^ 29" using c(1) by (simp add: word_le_nat_alt)
    then have vb: "\<And>n. bit v n \<Longrightarrow> n < 29" using u64_bit_bound [of v 29] by (meson not_less)
    then have num: "\<And>n. bit ?num n \<Longrightarrow> n < 29" by (auto simp: bit_simps)
    have vb32: "n < 32" if "bit v n" for n using vb [OF that] by simp
    have rt: "ucast ?num = v" using vb32 by (intro bit_word_eqI) (auto simp: bit_simps)
    have "unat ?num = unat v" using rt unat_ucast_u32 [of ?num] by simp
    then have "?num \<ge> 0x1F" using c(2) by (simp add: word_le_nat_alt)
    then show ?thesis using r cbs v(1) tag_join [OF num, where b = b] byte_num_31 [OF True] rt
      by (simp add: der_tag_bytes_def)
  qed
qed

interpretation asn1_tag: byte_format parse_asn1_tag der_tag_bytes "\<lambda>_. True"
  using parse_asn1_tag_bytes parse_asn1_tag_sound by unfold_locales auto

section \<open>Lengths\<close>

definition len_octets :: "nat \<Rightarrow> nat" where
  "len_octets n = (if n > 0xFFFFFF then 4 else if n > 0xFFFF then 3 else if n > 0xFF then 2 else 1)"

definition der_length_bytes :: "nat \<Rightarrow> byte list" where
  "der_length_bytes n =
     (if n < 128 then [of_nat n]
      else (0x80 OR of_nat (len_octets n)) # be_bytes (len_octets n) (of_nat n :: u32))"

lemma len_octets_bounds:
  assumes "128 \<le> n" "n < 2 ^ 32"
  shows "1 \<le> len_octets n" "len_octets n \<le> 4" "n < 2 ^ (8 * len_octets n)"
    "2 ^ (8 * (len_octets n - 1)) \<le> n"
  using assms by (auto simp: len_octets_def)

lemma len_octets_unique:
  assumes "1 \<le> k" "k \<le> 4" "n < 2 ^ (8 * k)" "128 \<le> n" "2 ^ (8 * (k - 1)) \<le> n"
  shows "len_octets n = k"
proof -
  have "k = 1 \<or> k = 2 \<or> k = 3 \<or> k = 4" using assms(1,2) by linarith
  with assms(3-5) show ?thesis by (auto simp: len_octets_def)
qed

lemma long_form_byte:
  assumes "k \<le> 4"
  shows "(0x80 OR of_nat k :: byte) AND 0x80 \<noteq> 0" "unat ((0x80 OR of_nat k :: byte) AND 0x7F) = k"
proof -
  have "k = 0 \<or> k = 1 \<or> k = 2 \<or> k = 3 \<or> k = 4" using assms by linarith
  then show "(0x80 OR of_nat k :: byte) AND 0x80 \<noteq> 0" "unat ((0x80 OR of_nat k :: byte) AND 0x7F) = k"
    by auto
qed

lemma short_form_byte: "b AND 0x80 = 0 \<longleftrightarrow> unat (b :: byte) < 128"
proof -
  have "b AND 0x80 = 0 \<longleftrightarrow> \<not> bit b 7" by (simp add: and_80)
  also have "\<dots> \<longleftrightarrow> drop_bit 7 b = 0"
  proof
    assume "\<not> bit b 7"
    then show "drop_bit 7 b = 0"
      by (intro bit_word_eqI) (auto simp: bit_simps less_Suc_eq numeral_eq_Suc dest: bit_imp_le_length)
  next
    assume "drop_bit 7 b = 0"
    then show "\<not> bit b 7" by (rule drop_bit_zero_bit) simp
  qed
  also have "\<dots> \<longleftrightarrow> unat b < 2 ^ 7" by (rule drop_bit_zero_iff)
  finally show ?thesis by simp
qed

lemma parse_asn1_length_bytes:
  assumes "n < 2 ^ 32"
  shows "parse_asn1_length ber_ok tag (der_length_bytes n @ rest) =
    (Some (Some (n, length (der_length_bytes n) - 1)), rest)"
proof (cases "n < 128")
  case True
  then have "unat (of_nat n :: byte) = n" by (simp add: unat_of_nat)
  with True short_form_byte [of "of_nat n"] show ?thesis
    by (simp add: parse_asn1_length_def der_length_bytes_def cbs_simps retC_def)
next
  case False
  let ?k = "len_octets n"
  have b: "1 \<le> ?k" "?k \<le> 4" "n < 2 ^ (8 * ?k)" "2 ^ (8 * (?k - 1)) \<le> n"
    using len_octets_bounds [of n] False assms by auto
  have u: "unat (of_nat n :: u32) = n" using assms by (simp add: unat_of_nat)
  have tb: "take_bit (8 * ?k) (of_nat n :: u32) = of_nat n"
    using b(3) u by (intro word_unat_eq_iff [THEN iffD2]) (simp add: unsigned_take_bit_eq take_bit_nat_eq_self)
  have "cbs_get_u ?k (be_bytes ?k (of_nat n :: u32) @ rest) = (Some (of_nat n), rest)"
    using cbs_get_u_be [OF b(2), of "of_nat n" rest] tb by simp
  moreover have "\<not> (of_nat n :: u32) < 128" using False u by (simp add: word_less_nat_alt)
  moreover have "drop_bit ((?k - 1) * 8) (of_nat n :: u32) \<noteq> 0"
    using b(4) u by (simp add: drop_bit_zero_iff mult.commute)
  moreover have "?k \<noteq> 0" "\<not> 4 < ?k" using b by auto
  ultimately show ?thesis using False u long_form_byte [OF b(2)]
    by (simp add: parse_asn1_length_def der_length_bytes_def cbs_simps Let_def retC_def)
qed

lemma parse_asn1_length_sound:
  assumes "parse_asn1_length False tag cbs = (Some r, rest)"
  shows "\<exists>n < 2 ^ 32. r = Some (n, length (der_length_bytes n) - 1) \<and> cbs = der_length_bytes n @ rest"
proof -
  from assms obtain b cs where cbs: "cbs = b # cs" by (cases cbs) (simp_all add: parse_asn1_length_def cbs_simps)
  show ?thesis
  proof (cases "b AND 0x80 = 0")
    case True
    then have "unat b < 128" "of_nat (unat b) = b" by (simp_all add: short_form_byte)
    with True assms show ?thesis
      by (intro exI [of _ "unat b"])
        (auto simp: parse_asn1_length_def cbs cbs_simps retC_def der_length_bytes_def)
  next
    case False
    let ?k = "unat (b AND 0x7F)"
    have k: "?k \<noteq> 0" "\<not> ?k > 4" and g: "bindC (cbs_get_u ?k) (\<lambda>len32.
        if len32 < 128 then failC
        else if drop_bit ((?k - 1) * 8) len32 = 0 then failC
        else retC (Some (unat len32, ?k))) cs = (Some r, rest)"
      using assms False by (auto simp: parse_asn1_length_def cbs cbs_simps Let_def failC_def split: if_splits)
    from g obtain w r1 where w: "cbs_get_u ?k cs = (Some w, r1)"
      and c: "(if w < 128 then failC else if drop_bit ((?k - 1) * 8) w = 0 then failC
        else retC (Some (unat w, ?k))) r1 = (Some r, rest)"
      by (rule bindC_SomeE)
    have ge: "128 \<le> unat w" "2 ^ (8 * (?k - 1)) \<le> unat w" and r: "r = Some (unat w, ?k)" "rest = r1"
      using c by (auto simp: failC_def retC_def drop_bit_zero_iff word_less_nat_alt mult.commute split: if_splits)
    have k4: "?k \<le> 4" using k by simp
    from cbs_get_u_SomeD [OF w k4] have cs: "cs = be_bytes ?k w @ r1" and tb: "take_bit (8 * ?k) w = w"
      by simp_all
    have "unat w = take_bit (8 * ?k) (unat w)" using tb by (metis unsigned_take_bit_eq)
    then have lt: "unat w < 2 ^ (8 * ?k)" by (metis take_bit_nat_less_exp)
    have lo: "len_octets (unat w) = ?k"
      using k ge lt by (intro len_octets_unique) auto
    have "(0x80 OR of_nat ?k :: byte) = b"
    proof -
      have "(of_nat ?k :: byte) = b AND 0x7F" by simp
      moreover have "0x80 OR (b AND 0x7F) = b"
      proof (rule bit_word_eqI)
        fix n assume n: "n < LENGTH(8)"
        have "bit b 7" using False by (simp add: and_80 split: if_splits)
        moreover have "n < 7 \<or> n = 7" using n by auto
        ultimately show "bit (0x80 OR (b AND 0x7F)) n = bit b n" by (auto simp: and_7F bit_simps)
      qed
      ultimately show ?thesis by simp
    qed
    then have "cbs = der_length_bytes (unat w) @ rest"
      using ge(1) lo cs r cbs by (simp add: der_length_bytes_def)
    moreover have "length (der_length_bytes (unat w)) - 1 = ?k"
      using ge(1) lo by (simp add: der_length_bytes_def)
    moreover have "unat w < 2 ^ 32" using unsigned_less [of w, where 'a = nat] by simp
    ultimately show ?thesis using r(1) by auto
  qed
qed

interpretation asn1_length: byte_format "parse_asn1_length False tag"
  "\<lambda>r. der_length_bytes (fst (the r))"
  "\<lambda>r. \<exists>n < 2 ^ 32. r = Some (n, length (der_length_bytes n) - 1)" for tag
proof unfold_locales
  fix r rest assume "\<exists>n < 2 ^ 32. r = Some (n, length (der_length_bytes n) - 1)"
  then show "parse_asn1_length False tag (der_length_bytes (fst (the r)) @ rest) = (Some r, rest)"
    using parse_asn1_length_bytes by auto
next
  fix cbs r rest assume "parse_asn1_length False tag cbs = (Some r, rest)"
  from parse_asn1_length_sound [OF this]
  show "(\<exists>n < 2 ^ 32. r = Some (n, length (der_length_bytes n) - 1)) \<and>
      cbs = der_length_bytes (fst (the r)) @ rest"
    by auto
qed

section \<open>Elements\<close>

definition der_header :: "asn1_tag \<Rightarrow> nat \<Rightarrow> byte list" where
  "der_header tag n = der_tag_bytes tag @ der_length_bytes n"

definition der_element :: "asn1_tag \<Rightarrow> byte list \<Rightarrow> byte list" where
  "der_element tag body = der_header tag (length body) @ body"

lemma der_tag_bytes_nonempty: "der_tag_bytes tag \<noteq> []"
  by (simp add: der_tag_bytes_def)

lemma length_base128_cont:
  "unat v < 2 ^ (7 * n) \<Longrightarrow> length (base128_cont v) \<le> n"
proof (induction n arbitrary: v)
  case 0
  then show ?case by (simp add: unat_eq_0)
next
  case (Suc n)
  have "unat (drop_bit 7 v) < 2 ^ (7 * n)"
    using Suc.prems by (simp add: unat_drop_bit_div power_add less_mult_imp_div_less mult.commute)
  from Suc.IH [OF this] show ?case by (subst base128_cont.simps) simp
qed

lemma length_base128_bytes: "length (base128_bytes v) \<le> 10"
proof -
  have "unat (drop_bit 7 v) < 2 ^ (7 * 9)"
    using unsigned_less [of v, where 'a = nat] by (simp add: unat_drop_bit_div less_mult_imp_div_less)
  from length_base128_cont [OF this] show ?thesis by (simp add: base128_bytes_def)
qed

lemma length_der_header: "length (der_header tag n) \<le> 16"
proof -
  have "length (der_length_bytes n) \<le> 5" by (simp add: der_length_bytes_def len_octets_def)
  moreover have "length (der_tag_bytes tag) \<le> 11"
    using length_base128_bytes by (simp add: der_tag_bytes_def)
  ultimately show ?thesis by (simp add: der_header_def)
qed

lemma der_length_bytes_nonempty: "der_length_bytes n \<noteq> []"
  by (simp add: der_length_bytes_def)

text \<open>The element whose header has been read, from the list that starts with the header.\<close>

lemma cbs_get_any_asn1_element_header:
  assumes "n < 2 ^ 32"
  shows "cbs_get_any_asn1_element ber_ok (der_header tag n @ rest) =
    bindC (CBS_get_bytes (n + length (der_header tag n)))
      (\<lambda>out. retC (out, tag, length (der_header tag n))) (der_header tag n @ rest)"
proof -
  let ?l = "der_length_bytes n" and ?cbs = "der_header tag n @ rest"
  have tag: "parse_asn1_tag ?cbs = (Some tag, ?l @ rest)"
    by (simp add: der_header_def asn1_tag.parse_bytes)
  have len: "parse_asn1_length ber_ok tag (?l @ rest) = (Some (Some (n, length ?l - 1)), rest)"
    by (rule parse_asn1_length_bytes [OF assms])
  have l: "0 < length ?l" using der_length_bytes_nonempty by simp
  have h: "length (der_header tag n) = length (der_tag_bytes tag) + length ?l"
    by (simp add: der_header_def)
  have hl: "length ?cbs - (length (?l @ rest) - 1) = length (der_header tag n) - (length ?l - 1)"
    using l by (simp only: length_append h)
  have sum: "n + (length (der_header tag n) - (length ?l - 1)) + (length ?l - 1) = n + length (der_header tag n)"
    "(length (der_header tag n) - (length ?l - 1)) + (length ?l - 1) = length (der_header tag n)"
    using l by (simp_all only: h)
  have "n + length (der_header tag n) < 2 ^ 64"
    using assms length_der_header [of tag n] by simp
  then have ov: "\<not> (n + length (der_header tag n)) mod 2 ^ 64 < n" by simp
  show ?thesis
    unfolding cbs_get_any_asn1_element_def tag prod.case option.case len hl Let_def sum
    using ov by simp
qed

lemma CBS_get_bytes_append: "length xs = n \<Longrightarrow> CBS_get_bytes n (xs @ rest) = (Some xs, rest)"
  by (simp add: CBS_get_bytes_def bindC_def cbs_get_append retC_def)

lemma CBS_get_bytes_SomeD: "CBS_get_bytes n cbs = (Some xs, rest) \<Longrightarrow> length xs = n \<and> cbs = xs @ rest"
  using cbs_get_SomeD [of n cbs xs rest]
  by (auto simp: CBS_get_bytes_def bindC_def retC_def split: prod.splits option.splits)

lemma cbs_get_any_asn1_element_der:
  assumes "length body < 2 ^ 32"
  shows "cbs_get_any_asn1_element ber_ok (der_element tag body @ rest) =
    (Some (der_element tag body, tag, length (der_header tag (length body))), rest)"
proof -
  have "CBS_get_bytes (length body + length (der_header tag (length body)))
      (der_header tag (length body) @ body @ rest) = (Some (der_element tag body), rest)"
    using CBS_get_bytes_append [of "der_element tag body" _ rest] by (simp add: der_element_def add.commute)
  then show ?thesis
    using cbs_get_any_asn1_element_header [OF assms, of ber_ok tag "body @ rest"]
    by (simp add: der_element_def retC_def)
qed

lemma CBS_get_any_asn1_element_sound:
  assumes "CBS_get_any_asn1_element cbs = (Some (out, tag, hl), rest)"
  shows "\<exists>body. length body < 2 ^ 32 \<and> out = der_element tag body \<and>
    hl = length (der_header tag (length body)) \<and> cbs = out @ rest"
proof -
  obtain t header where t: "parse_asn1_tag cbs = (Some t, header)"
    using assms by (auto simp: CBS_get_any_asn1_element_def cbs_get_any_asn1_element_def split: prod.splits option.splits)
  obtain r h2 where r: "parse_asn1_length False t header = (Some r, h2)"
    using assms t by (auto simp: CBS_get_any_asn1_element_def cbs_get_any_asn1_element_def split: prod.splits option.splits)
  from asn1_tag.parse_sound [OF t] parse_asn1_length_sound [OF r] obtain n where
    n: "n < 2 ^ 32" and cbs: "cbs = der_header t n @ h2" by (auto simp: der_header_def)
  have "bindC (CBS_get_bytes (n + length (der_header t n)))
      (\<lambda>out. retC (out, t, length (der_header t n))) cbs = (Some (out, tag, hl), rest)"
    using assms cbs_get_any_asn1_element_header [OF n, of False t h2] cbs
    by (simp add: CBS_get_any_asn1_element_def)
  then have g: "CBS_get_bytes (n + length (der_header t n)) cbs = (Some out, rest)"
    "tag = t" "hl = length (der_header t n)"
    by (auto simp: retC_def elim!: bindC_SomeE)
  from CBS_get_bytes_SomeD [OF g(1)] have out: "length out = n + length (der_header t n)" "cbs = out @ rest"
    by simp_all
  let ?body = "drop (length (der_header t n)) out"
  have "take (length (der_header t n)) out = der_header t n"
    using cbs out by (metis append_eq_conv_conj le_add2 take_append take_all diff_is_0_eq' append_Nil2 take_eq_Nil)
  then have "out = der_header t n @ ?body" by (metis append_take_drop_id)
  moreover have "length ?body = n" using out by simp
  ultimately show ?thesis using n g out(2) by (intro exI [of _ ?body]) (simp add: der_element_def)
qed

interpretation any_element: byte_format CBS_get_any_asn1_element "\<lambda>(out, _, _). out"
  "\<lambda>(out, tag, hl). \<exists>body. length body < 2 ^ 32 \<and> out = der_element tag body \<and>
     hl = length (der_header tag (length body))"
proof unfold_locales
  fix v and rest :: CBS
  assume "case v of (out, tag, hl) \<Rightarrow> \<exists>body. length body < 2 ^ 32 \<and> out = der_element tag body \<and>
     hl = length (der_header tag (length body))"
  then show "CBS_get_any_asn1_element ((case v of (out, _, _) \<Rightarrow> out) @ rest) = (Some v, rest)"
    by (auto simp: CBS_get_any_asn1_element_def cbs_get_any_asn1_element_der)
next
  fix cbs v rest assume "CBS_get_any_asn1_element cbs = (Some v, rest)"
  then show "(case v of (out, tag, hl) \<Rightarrow> \<exists>body. length body < 2 ^ 32 \<and> out = der_element tag body \<and>
     hl = length (der_header tag (length body))) \<and> cbs = (case v of (out, _, _) \<Rightarrow> out) @ rest"
    using CBS_get_any_asn1_element_sound [of cbs "fst v" "fst (snd v)" "snd (snd v)" rest]
    by (auto split: prod.splits)
qed

lemma CBS_skip_header:
  "CBS_skip (length (der_header tag (length body))) (der_element tag body) = (Some (), body)"
  by (simp add: CBS_skip_def bindC_def cbs_get_def der_element_def retC_def)

lemma CBS_get_asn1_der:
  assumes "length body < 2 ^ 32"
  shows "CBS_get_asn1 tag (der_element tag body @ rest) = (Some body, rest)"
    and "CBS_get_asn1_element tag (der_element tag body @ rest) = (Some (der_element tag body), rest)"
    and "CBS_get_any_asn1 (der_element tag body @ rest) = (Some (body, tag), rest)"
  using cbs_get_any_asn1_element_der [OF assms, of False tag rest]
  by (simp_all add: CBS_get_asn1_def CBS_get_asn1_element_def CBS_get_any_asn1_def cbs_get_asn1_def
      CBS_get_any_asn1_element_def CBS_skip_header retC_def)

lemma CBS_get_asn1_sound:
  assumes "CBS_get_asn1 tag cbs = (Some body, rest)"
  shows "length body < 2 ^ 32 \<and> cbs = der_element tag body @ rest"
proof -
  from assms obtain v r1 where v: "CBS_get_any_asn1_element cbs = (Some v, r1)"
    and k: "(\<lambda>(out, tag', header_len).
       if tag' \<noteq> tag then failC
       else if True
       then (case CBS_skip header_len out of (None, _) \<Rightarrow> failC | (Some _, out') \<Rightarrow> retC out')
       else retC out) v r1 = (Some body, rest)"
    unfolding CBS_get_asn1_def cbs_get_asn1_def by (rule bindC_SomeE)
  obtain out tag' hl where vv: "v = (out, tag', hl)" by (cases v)
  from CBS_get_any_asn1_element_sound [OF v [unfolded vv]] obtain body' where
    b: "length body' < 2 ^ 32" "out = der_element tag' body'"
      "hl = length (der_header tag' (length body'))" "cbs = out @ r1" by auto
  with k vv show ?thesis
    by (auto simp: CBS_skip_header failC_def retC_def split: if_splits)
qed

interpretation asn1: byte_format "CBS_get_asn1 tag" "der_element tag" "\<lambda>body. length body < 2 ^ 32" for tag
  using CBS_get_asn1_der(1) CBS_get_asn1_sound by unfold_locales auto

section \<open>Properties\<close>

text \<open>C12: \<open>CBS_get_asn1\<close> returns \<open>body\<close> and leaves \<open>rest\<close> if and only if the input is the DER
  encoding of an element with that tag and that body, followed by \<open>rest\<close>, and the body has fewer
  than \<open>2 ^ 32\<close> bytes.  So overlong tags and lengths and indefinite lengths are refused and the
  parse is unique.\<close>

theorem get_asn1_iff_der:
  "CBS_get_asn1 tag cbs = (Some body, rest) \<longleftrightarrow>
    length body < 2 ^ 32 \<and> cbs = der_element tag body @ rest"
  by (rule asn1.parse_iff)

text \<open>C16: No DER element is a proper prefix of another: when two elements that
  \<open>CBS_get_any_asn1_element\<close> reads start the same input, they are equal and leave the same rest.\<close>

theorem elements_prefix_free:
  assumes "CBS_get_any_asn1_element cbs1 = (Some (out1, tag1, h1), rest1)"
    and "CBS_get_any_asn1_element cbs2 = (Some (out2, tag2, h2), rest2)"
    and "out1 @ xs = out2 @ ys"
  shows "out1 = out2 \<and> tag1 = tag2 \<and> h1 = h2 \<and> xs = ys"
proof -
  have "(out1, tag1, h1) = (out2, tag2, h2) \<and> xs = ys"
    using any_element.parse_sound [OF assms(1)] any_element.parse_sound [OF assms(2)] assms(3)
    by (intro any_element.prefix_free) auto
  then show ?thesis by simp
qed

lemma sample_element: "CBS_get_any_asn1_element ([2, 1, 5] @ rest) = (Some ([2, 1, 5], 2, 2), rest)"
  using any_element.parse_bytes [of "([2, 1, 5], 2, 2)" rest]
  by (simp add: exI [of _ "[5]"] der_element_def der_header_def der_tag_bytes_def der_length_bytes_def tag_class_def
      tag_num_def cbs_asn1_defs)

theorem elements_prefix_free_witness:
  "[2, 1, 5 :: byte] = [2, 1, 5] \<and> (2 :: asn1_tag) = 2 \<and> (2 :: nat) = 2 \<and> [7 :: byte] = [7]"
  by (rule elements_prefix_free [OF sample_element [of "[7]"] sample_element [of "[8]"]]) simp

end
