(* ===== verification/Ber.thy ===== *)
theory Ber
  imports Cbb Der
begin

text \<open>
  The conversion of BER to DER of \<open>BoringSSL-GRPC/crypto/bytestring/ber.c\<close>.
\<close>

section \<open>Reading an element makes progress\<close>

lemma parse_asn1_length_left:
  assumes "parse_asn1_length ber_ok tag cbs = (Some r, rest)"
  shows "length rest < length cbs"
proof -
  from assms obtain b cs where cbs: "cbs = b # cs"
    by (cases cbs) (simp_all add: parse_asn1_length_def cbs_simps)
  have "length rest \<le> length cs"
  proof (cases "b AND 0x80 = 0 \<or> ber_ok \<and> tag AND CBS_ASN1_CONSTRUCTED \<noteq> 0 \<and> unat (b AND 0x7F) = 0")
    case True
    with assms show ?thesis
      by (auto simp: parse_asn1_length_def cbs cbs_simps retC_def Let_def split: if_splits)
  next
    case False
    with assms have "unat (b AND 0x7F) \<le> 4" and "bindC (cbs_get_u (unat (b AND 0x7F))) (\<lambda>len32.
        if len32 < 128 then failC
        else if drop_bit ((unat (b AND 0x7F) - 1) * 8) len32 = 0 then failC
        else retC (Some (unat len32, unat (b AND 0x7F)))) cs = (Some r, rest)"
      by (auto simp: parse_asn1_length_def cbs cbs_simps failC_def Let_def split: if_splits)
    then obtain w where "cbs_get_u (unat (b AND 0x7F)) cs = (Some w, rest)"
      by (auto simp: failC_def retC_def elim!: bindC_SomeE split: if_splits)
    with \<open>unat (b AND 0x7F) \<le> 4\<close> show ?thesis
      using cbs_get_u_SomeD [of "unat (b AND 0x7F)" cs w rest] by auto
  qed
  then show ?thesis by (simp add: cbs)
qed

lemma cbs_get_any_asn1_element_progress:
  assumes "cbs_get_any_asn1_element ber_ok cbs = (Some (out, tag, hl), rest)"
  shows "length rest < length cbs" "cbs = out @ rest" "2 \<le> hl" "hl \<le> length out"
proof -
  obtain t header where t: "parse_asn1_tag cbs = (Some t, header)"
    using assms by (auto simp: cbs_get_any_asn1_element_def split: prod.splits option.splits)
  obtain r header1 where r: "parse_asn1_length ber_ok t header = (Some r, header1)"
    using assms t by (auto simp: cbs_get_any_asn1_element_def split: prod.splits option.splits)
  have lt: "length header < length cbs"
    using asn1_tag.parse_sound [OF t] der_tag_bytes_nonempty [of t] by auto
  have lr: "length header1 < length header" by (rule parse_asn1_length_left [OF r])
  obtain n where out: "CBS_get_bytes n cbs = (Some out, rest)" "2 \<le> hl" "hl \<le> n"
  proof (cases r)
    case None
    with assms t r have "bindC (CBS_get_bytes (length cbs - length header1))
        (\<lambda>out. retC (out, t, length cbs - length header1)) cbs = (Some (out, tag, hl), rest)"
      by (simp add: cbs_get_any_asn1_element_def Let_def)
    then have "CBS_get_bytes (length cbs - length header1) cbs = (Some out, rest)"
      "hl = length cbs - length header1"
      by (auto simp: retC_def elim!: bindC_SomeE)
    with lt lr show thesis by (intro that [of "length cbs - length header1"]) auto
  next
    case (Some p)
    obtain len k where p: "p = (len, k)" by (cases p)
    let ?h = "length cbs - (length header - 1)"
    have "bindC (CBS_get_bytes (len + ?h + k)) (\<lambda>out. retC (out, t, ?h + k)) cbs = (Some (out, tag, hl), rest)"
      using assms t r Some p by (auto simp: cbs_get_any_asn1_element_def Let_def split: if_splits)
    then have "CBS_get_bytes (len + ?h + k) cbs = (Some out, rest)" "hl = ?h + k"
      by (auto simp: retC_def elim!: bindC_SomeE)
    with lt lr show thesis by (intro that [of "len + ?h + k"]) auto
  qed
  from CBS_get_bytes_SomeD [OF out(1)] out(2,3)
  show "length rest < length cbs" "cbs = out @ rest" "2 \<le> hl" "hl \<le> length out" by auto
qed

lemma CBS_get_any_ber_progress:
  assumes "(Some (out, tag, hl), rest) = CBS_get_any_ber_asn1_element cbs"
  shows "length rest < length cbs \<and> length out \<le> length cbs \<and> 2 \<le> hl \<and> hl \<le> length out"
  using cbs_get_any_asn1_element_progress [of True cbs out tag hl rest] assms
  by (auto simp: CBS_get_any_ber_asn1_element_def)

lemma CBS_skip_SomeD: "CBS_skip n cbs = (Some u, rest) \<Longrightarrow> length rest + n = length cbs \<and> rest = drop n cbs"
  by (auto simp: CBS_skip_def bindC_def cbs_get_def retC_def split: if_splits)

section \<open>Looking for BER\<close>

definition kMaxDepth :: nat where "kMaxDepth = 2048"

definition is_string_type :: "asn1_tag \<Rightarrow> bool" where
  "is_string_type tag \<longleftrightarrow>
     tag AND NOT CBS_ASN1_CONSTRUCTED \<in>
       {0x3, 0x4, 0xC, 0x12, 0x13, 0x14, 0x15, 0x16, 0x19, 0x1A, 0x1B, 0x1C, 0x1E}"

text \<open>The test for an element whose length is indefinite.\<close>

definition is_indefinite :: "CBS \<Rightarrow> nat \<Rightarrow> bool" where
  "is_indefinite contents header_len \<longleftrightarrow>
     length contents = header_len \<and> header_len > 0 \<and> contents ! (header_len - 1) = 0x80"

text \<open>
  The loop of \<open>cbs_find_ber\<close>; \<open>found\<close> is \<open>*ber_found\<close>, which a nested call sets anew.
  The result is \<open>*ber_found\<close>, or \<open>None\<close> for the return of zero.
\<close>

function find_ber_loop :: "bool \<Rightarrow> nat \<Rightarrow> CBS \<Rightarrow> bool option" where
  "find_ber_loop found depth cbs =
     (if cbs = [] then Some found
      else
        (case CBS_get_any_ber_asn1_element cbs of
           (None, _) \<Rightarrow> None
         | (Some (contents, tag, header_len), rest) \<Rightarrow>
             if is_indefinite contents header_len then Some True
             else if (tag AND CBS_ASN1_CONSTRUCTED) \<noteq> 0
             then
               if is_string_type tag then Some True
               else
                 (case CBS_skip header_len contents of
                    (None, _) \<Rightarrow> None
                  | (Some _, body) \<Rightarrow>
                      if depth + 1 > kMaxDepth then None
                      else
                        (case find_ber_loop False (depth + 1) body of
                           None \<Rightarrow> None
                         | Some found' \<Rightarrow> find_ber_loop found' depth rest))
             else find_ber_loop found depth rest))"
  by pat_completeness auto
termination find_ber_loop
  by (relation "measure (\<lambda>(_, _, cbs). length cbs)")
    (auto dest!: CBS_get_any_ber_progress CBS_skip_SomeD [OF sym])

declare find_ber_loop.simps [simp del]

definition cbs_find_ber :: "CBS \<Rightarrow> nat \<Rightarrow> bool option" where
  "cbs_find_ber orig_in depth =
     (if depth > kMaxDepth then None else find_ber_loop False depth orig_in)"

section \<open>Conversion\<close>

definition is_eoc :: "nat \<Rightarrow> CBS \<Rightarrow> bool" where
  "is_eoc header_len contents \<longleftrightarrow> header_len = 2 \<and> length contents = 2 \<and> contents = [0, 0]"

text \<open>
  Where the contents of an element go: the builder's depth and the string tag of the
  children.  In a constructed string they go to \<open>out\<close> itself, otherwise to a new child.
\<close>

definition open_element :: "nat \<Rightarrow> asn1_tag \<Rightarrow> asn1_tag \<Rightarrow> (nat \<times> asn1_tag) cbb_fun" where
  "open_element d string_tag tag =
     (if string_tag \<noteq> 0
      then (if tag AND NOT CBS_ASN1_CONSTRUCTED \<noteq> string_tag then failC else retC (d, string_tag))
      else
        let constructed_string = ((tag AND CBS_ASN1_CONSTRUCTED) \<noteq> 0 \<and> is_string_type tag);
            out_tag = (if constructed_string then tag AND NOT CBS_ASN1_CONSTRUCTED else tag);
            child_string_tag = (if constructed_string then out_tag else string_tag)
        in bindC (CBB_add_asn1 d out_tag) (\<lambda>_. retC (Suc d, child_string_tag)))"

text \<open>
  \<open>cbs_convert_ber\<close> from \<open>in\<close> to the builder at depth \<open>d\<close>.  The loop is a recursive
  call with the same arguments.  Every call has a shorter input, so a fuel larger than
  the length of the input is enough (\<open>convert_ber_fuel\<close> below).
\<close>

primrec cbs_convert_ber ::
  "nat \<Rightarrow> nat \<Rightarrow> asn1_tag \<Rightarrow> bool \<Rightarrow> nat \<Rightarrow> (CBS \<times> CBB, unit) pfun" where
  "cbs_convert_ber 0 d string_tag looking_for_eoc depth st = None"
| "cbs_convert_ber (Suc k) d string_tag looking_for_eoc depth st =
     (case st of (cbs, out) \<Rightarrow>
      if depth > kMaxDepth then Some (None, st)
      else if cbs = [] then Some (if looking_for_eoc then None else Some (), st)
      else
        (case CBS_get_any_ber_asn1_element cbs of
           (None, cbs1) \<Rightarrow> Some (None, cbs1, out)
         | (Some (contents, tag, header_len), cbs1) \<Rightarrow>
             if is_eoc header_len contents
             then Some (if looking_for_eoc then Some () else None, cbs1, out)
             else
               (case open_element d string_tag tag out of
                  (None, out1) \<Rightarrow> Some (None, cbs1, out1)
                | (Some (dc, child_string_tag), out1) \<Rightarrow>
                    if is_indefinite contents header_len
                    then
                      (case cbs_convert_ber k dc child_string_tag True (depth + 1) (cbs1, out1) of
                         None \<Rightarrow> None
                       | Some (None, st2) \<Rightarrow> Some (None, st2)
                       | Some (Some _, cbs2, out2) \<Rightarrow>
                           (case CBB_flush d out2 of
                              (None, out3) \<Rightarrow> Some (None, cbs2, out3)
                            | (Some _, out3) \<Rightarrow>
                                cbs_convert_ber k d string_tag looking_for_eoc depth (cbs2, out3)))
                    else
                      (case CBS_skip header_len contents of
                         (None, _) \<Rightarrow> Some (None, cbs1, out1)
                       | (Some _, body) \<Rightarrow>
                           (case (if (tag AND CBS_ASN1_CONSTRUCTED) \<noteq> 0
                                  then map_option (\<lambda>(r, _, out2). (r, out2))
                                         (cbs_convert_ber k dc child_string_tag False (depth + 1) (body, out1))
                                  else Some (CBB_add_bytes dc body out1)) of
                              None \<Rightarrow> None
                            | Some (None, out2) \<Rightarrow> Some (None, cbs1, out2)
                            | Some (Some _, out2) \<Rightarrow>
                                (case CBB_flush d out2 of
                                   (None, out3) \<Rightarrow> Some (None, cbs1, out3)
                                 | (Some _, out3) \<Rightarrow>
                                     cbs_convert_ber k d string_tag looking_for_eoc depth (cbs1, out3)))))))"

text \<open>
  The result of \<open>CBS_asn1_ber_to_der\<close> is what \<open>*out\<close> holds, \<open>Some None\<close> being the null
  pointer of an input that needs no conversion, with what is left of \<open>in\<close>.
\<close>

definition CBS_asn1_ber_to_der ::
  "(nat \<Rightarrow> bool) \<Rightarrow> nat \<Rightarrow> CBS \<Rightarrow> (byte list option option \<times> CBS) option" where
  "CBS_asn1_ber_to_der alloc fuel cbs =
     (case cbs_find_ber cbs 0 of
        None \<Rightarrow> Some (None, cbs)
      | Some False \<Rightarrow> Some (Some None, cbs)
      | Some True \<Rightarrow>
          (case CBB_init alloc (length cbs) of
             None \<Rightarrow> Some (None, cbs)
           | Some cbb \<Rightarrow>
               (case cbs_convert_ber fuel 0 0 False 0 (cbs, cbb) of
                  None \<Rightarrow> None
                | Some (None, cbs1, _) \<Rightarrow> Some (None, cbs1)
                | Some (Some _, cbs1, cbb1) \<Rightarrow>
                    (case CBB_finish 0 True cbb1 of
                       (None, _) \<Rightarrow> Some (None, cbs1)
                     | (Some der, _) \<Rightarrow> Some (Some (Some der), cbs1)))))"

text \<open>The loop that concatenates the chunks of a constructed string.\<close>

primrec implicit_string_loop :: "nat \<Rightarrow> asn1_tag \<Rightarrow> CBS \<Rightarrow> unit cbb_fun" where
  "implicit_string_loop 0 inner_tag child = (if child = [] then retC () else failC)"
| "implicit_string_loop (Suc k) inner_tag child =
     (if child = [] then retC ()
      else
        (case CBS_get_asn1 inner_tag child of
           (None, _) \<Rightarrow> failC
         | (Some chunk, child') \<Rightarrow>
             bindC (CBB_add_bytes 0 chunk) (\<lambda>_. implicit_string_loop k inner_tag child')))"

text \<open>The result is \<open>*out\<close> with whether it is in new storage (\<open>*out_storage\<close> is not null).\<close>

definition CBS_get_asn1_implicit_string ::
  "(nat \<Rightarrow> bool) \<Rightarrow> asn1_tag \<Rightarrow> asn1_tag \<Rightarrow> (CBS, CBS \<times> bool) cfun" where
  "CBS_get_asn1_implicit_string alloc outer_tag inner_tag cbs =
     (if CBS_peek_asn1_tag outer_tag cbs
      then bindC (CBS_get_asn1 outer_tag) (\<lambda>out. retC (out, False)) cbs
      else
        (case CBB_init alloc (length cbs) of
           None \<Rightarrow> (None, cbs)
         | Some result \<Rightarrow>
             (case CBS_get_asn1 (outer_tag OR CBS_ASN1_CONSTRUCTED) cbs of
                (None, cbs') \<Rightarrow> (None, cbs')
              | (Some child, cbs') \<Rightarrow>
                  (case bindC (implicit_string_loop (length child) inner_tag child)
                          (\<lambda>_. CBB_finish 0 True) result of
                     (None, _) \<Rightarrow> (None, cbs')
                   | (Some data, _) \<Rightarrow> (Some (data, True), cbs')))))"

section \<open>The conversion ends\<close>

text \<open>
  With more fuel than the input has bytes there is a result, and no call leaves
  more input than it was given.
\<close>

lemma convert_ber_step:
  assumes IH: "\<And>d string_tag eoc depth cbs out. length cbs < k \<Longrightarrow>
      \<exists>r cbs' out'. cbs_convert_ber k d string_tag eoc depth (cbs, out) = Some (r, cbs', out') \<and> length cbs' \<le> length cbs"
    and read: "CBS_get_any_ber_asn1_element cbs = (Some (contents, tag, hl), cbs1)" and l: "length cbs < Suc k"
  shows "\<exists>r cbs' out'. cbs_convert_ber (Suc k) d string_tag eoc depth (cbs, out) = Some (r, cbs', out') \<and>
    length cbs' \<le> length cbs"
proof -
  have p: "length cbs1 < length cbs" "length contents \<le> length cbs" "2 \<le> hl"
    using CBS_get_any_ber_progress [OF read [symmetric]] by auto
  then have cbs: "cbs \<noteq> []" by auto
  have again: "\<exists>r cbs' out'. cbs_convert_ber k d string_tag eoc depth (cbs2, out2) = Some (r, cbs', out') \<and>
      length cbs' \<le> length cbs" if "length cbs2 \<le> length cbs1" for d string_tag eoc depth cbs2 out2
    using IH [of cbs2 d string_tag eoc depth out2] that p l by fastforce
  have body: "\<exists>r cbs' out'. cbs_convert_ber k d string_tag eoc depth (body, out2) = Some (r, cbs', out')"
    if "CBS_skip hl contents = (Some u, body)" for d string_tag eoc depth body out2 u
    using IH [of body d string_tag eoc depth out2] CBS_skip_SomeD [OF that] p l by fastforce
  show ?thesis
  proof (cases "depth > kMaxDepth \<or> is_eoc hl contents")
    case True
    with cbs read p show ?thesis by auto
  next
    case False
    obtain ro out1 where o: "open_element d string_tag tag out = (ro, out1)"
      by (cases "open_element d string_tag tag out")
    show ?thesis
    proof (cases ro)
      case None
      with False cbs read p o show ?thesis by auto
    next
      case (Some q)
      obtain dc ctag where q: "q = (dc, ctag)" by (cases q)
      show ?thesis
      proof (cases "is_indefinite contents hl")
        case True
        obtain r2 cbs2 out2 where r2: "cbs_convert_ber k dc ctag True (depth + 1) (cbs1, out1) = Some (r2, cbs2, out2)"
          and l2: "length cbs2 \<le> length cbs1"
          using IH [of cbs1 dc ctag True "depth + 1" out1] p l by auto
        show ?thesis
          using False cbs read p o Some q True r2 l2 again [OF l2]
          by (cases r2) (auto split: option.splits prod.splits)
      next
        case definite: False
        obtain rs b where skip: "CBS_skip hl contents = (rs, b)" by (cases "CBS_skip hl contents")
        show ?thesis
        proof (cases rs)
          case None
          with False cbs read p o Some q definite skip show ?thesis by auto
        next
          case rsome: (Some u)
          obtain rb out2 where rb: "(if tag AND CBS_ASN1_CONSTRUCTED \<noteq> 0
              then map_option (\<lambda>(r, _, out2). (r, out2)) (cbs_convert_ber k dc ctag False (depth + 1) (b, out1))
              else Some (CBB_add_bytes dc b out1)) = Some (rb, out2)"
            using body [OF skip [unfolded rsome], of dc ctag False "depth + 1" out1]
            by (cases "tag AND CBS_ASN1_CONSTRUCTED \<noteq> 0"; cases "CBB_add_bytes dc b out1") auto
          show ?thesis
            using False cbs read p o Some q definite skip rsome again [of cbs1] rb
            by (cases rb) (auto split: option.splits prod.splits simp del: if_split)
        qed
      qed
    qed
  qed
qed

lemma convert_ber_fuel:
  "length cbs < k \<Longrightarrow>
    \<exists>r cbs' out'. cbs_convert_ber k d string_tag eoc depth (cbs, out) = Some (r, cbs', out') \<and> length cbs' \<le> length cbs"
proof (induction k arbitrary: d string_tag eoc depth cbs out)
  case (Suc k)
  show ?case
  proof (cases "CBS_get_any_ber_asn1_element cbs")
    case (Pair r cbs1)
    show ?thesis
    proof (cases r)
      case None
      have "cbs1 = cbs \<or> length cbs1 \<le> length cbs"
        using Pair None by (auto simp: CBS_get_any_ber_asn1_element_def cbs_get_any_asn1_element_def Let_def
            CBS_get_bytes_def bindC_def cbs_get_def retC_def split: prod.splits option.splits if_splits)
      with Pair None show ?thesis by auto
    next
      case (Some v)
      obtain contents tag hl where "v = (contents, tag, hl)" by (cases v)
      with Pair Some Suc.prems show ?thesis by (intro convert_ber_step [OF Suc.IH]) auto
    qed
  qed
qed simp

text \<open>C19: \<open>CBS_asn1_ber_to_der\<close> returns on every input: one more unit of fuel than the input has
  bytes is enough for the recursion of \<open>cbs_convert_ber\<close>, whatever the nesting, and no input is
  put back.\<close>

theorem ber_to_der_returns:
  "\<exists>r rest. CBS_asn1_ber_to_der alloc (Suc (length cbs)) cbs = Some (r, rest) \<and> length rest \<le> length cbs"
proof (cases "cbs_find_ber cbs 0")
  case (Some found)
  show ?thesis
  proof (cases "found \<and> CBB_init alloc (length cbs) \<noteq> None")
    case True
    then obtain cbb where cbb: "CBB_init alloc (length cbs) = Some cbb" by auto
    obtain r cbs' out' where c: "cbs_convert_ber (Suc (length cbs)) 0 0 False 0 (cbs, cbb) = Some (r, cbs', out')"
      and l: "length cbs' \<le> length cbs"
      using convert_ber_fuel [of cbs "Suc (length cbs)" 0 0 False 0 cbb] by auto
    then have "\<exists>r rest. (case cbs_convert_ber (Suc (length cbs)) 0 0 False 0 (cbs, cbb) of
                  None \<Rightarrow> None
                | Some (None, cbs1, _) \<Rightarrow> Some (None, cbs1)
                | Some (Some _, cbs1, cbb1) \<Rightarrow>
                    (case CBB_finish 0 True cbb1 of
                       (None, _) \<Rightarrow> Some (None, cbs1)
                     | (Some der, _) \<Rightarrow> Some (Some (Some der), cbs1))) = Some (r, rest) \<and> length rest \<le> length cbs"
      by (simp only: c option.case prod.case) (auto split: option.splits prod.splits)
    with Some True cbb show ?thesis by (simp add: CBS_asn1_ber_to_der_def del: cbs_convert_ber.simps)
  next
    case False
    with Some show ?thesis
      by (cases found) (auto simp: CBS_asn1_ber_to_der_def simp del: cbs_convert_ber.simps)
  qed
qed (simp add: CBS_asn1_ber_to_der_def)

section \<open>A nested indefinite length that is overlooked\<close>

definition hidden_ber :: "byte list" where
  "hidden_ber = [0x30, 8, 0x30, 4, 0x30, 0x80, 0, 0, 0x30, 0]"

lemma sequence_read:
  assumes "length body < 128"
  shows "CBS_get_any_ber_asn1_element ([0x30, of_nat (length body)] @ body @ rest) =
    (Some ([0x30, of_nat (length body)] @ body, 0x20000010, 2), rest)"
proof -
  have "der_element 0x20000010 body = [0x30, of_nat (length body)] @ body"
    "length (der_header 0x20000010 (length body)) = 2"
    using assms by (simp_all add: der_element_def der_header_def der_tag_bytes_def der_length_bytes_def tag_class_def
      tag_num_def cbs_asn1_defs)
  moreover have "length body < 2 ^ 32" using assms by simp
  ultimately show ?thesis
    using cbs_get_any_asn1_element_der [of body True "0x20000010" rest]
    by (simp add: CBS_get_any_ber_asn1_element_def)
qed

lemma indefinite_read:
  "CBS_get_any_ber_asn1_element [0x30, 0x80, 0, 0] = (Some ([0x30, 0x80], 0x20000010, 2), [0, 0])"
  by (simp add: CBS_get_any_ber_asn1_element_def cbs_get_any_asn1_element_def parse_asn1_tag_def parse_asn1_length_def
      cbs_simps cbs_asn1_defs retC_def CBS_get_bytes_def cbs_get_def bindC_def)

text \<open>C20: \<open>cbs_find_ber\<close> overlooks an indefinite length when a constructed element follows the one
  that holds it: the nested call for the later sibling resets \<open>*ber_found\<close>.  The input below is
  reported as free of BER, although its first element alone, with the same bytes, is reported
  as BER, and so \<open>CBS_asn1_ber_to_der\<close> returns it unconverted.\<close>

theorem find_ber_overlooks:
  "cbs_find_ber [0x30, 4, 0x30, 0x80, 0, 0] 0 = Some True \<and>
   cbs_find_ber hidden_ber 0 = Some False \<and>
   CBS_asn1_ber_to_der alloc fuel hidden_ber = Some (Some None, hidden_ber)"
proof (intro conjI)
  have inner: "find_ber_loop False d [0x30, 0x80, 0, 0] = Some True" for d
    by (simp add: find_ber_loop.simps [of False d] indefinite_read is_indefinite_def)
  have skip: "CBS_skip 2 (a # b # body) = (Some (), body)" for a b body
    by (simp add: CBS_skip_def cbs_get_def bindC_def retC_def)
  have seq: "find_ber_loop found d ([0x30, of_nat (length body)] @ body @ rest) =
      (case find_ber_loop False (d + 1) body of None \<Rightarrow> None | Some found' \<Rightarrow> find_ber_loop found' d rest)"
    if "length body < 128" "d < kMaxDepth" for found d body rest
  proof -
    have "\<not> is_indefinite ([0x30, of_nat (length body)] @ body) 2"
      using that(1) by (auto simp: is_indefinite_def)
    moreover have "\<not> is_string_type 0x20000010"
      by (simp add: is_string_type_def cbs_asn1_defs)
    ultimately show ?thesis
      using that sequence_read [OF that(1), of rest]
      by (subst find_ber_loop.simps) (simp add: skip cbs_asn1_defs)
  qed
  have e1: "find_ber_loop False d [0x30, 4, 0x30, 0x80, 0, 0] = Some True" if "d < 100" for d
    using seq [of "[0x30, 0x80, 0, 0]" d False "[]"] that inner
    by (simp add: kMaxDepth_def find_ber_loop.simps [of True d "[]"])
  then show "cbs_find_ber [0x30, 4, 0x30, 0x80, 0, 0] 0 = Some True" by (simp add: cbs_find_ber_def)
  have e2: "find_ber_loop True d [0x30, 0] = Some False" if "d < 100" for d
    using seq [of "[]" d True "[]"] that
    by (simp add: kMaxDepth_def find_ber_loop.simps [of False _ "[]"])
  have e3: "find_ber_loop False 1 [0x30, 4, 0x30, 0x80, 0, 0, 0x30, 0] = Some False"
    using seq [of "[0x30, 0x80, 0, 0]" 1 False "[0x30, 0]"] inner e2 [of 1] by (simp add: kMaxDepth_def)
  then show f: "cbs_find_ber hidden_ber 0 = Some False"
    using seq [of "[0x30, 4, 0x30, 0x80, 0, 0, 0x30, 0]" 0 False "[]"]
    by (simp add: cbs_find_ber_def kMaxDepth_def hidden_ber_def find_ber_loop.simps [of False 0 "[]"])
  then show "CBS_asn1_ber_to_der alloc fuel hidden_ber = Some (Some None, hidden_ber)"
    by (simp add: CBS_asn1_ber_to_der_def)
qed

end
