(* ===== verification/C_Order.thy ===== *)
theory C_Order
  imports Prelude "HOL-Library.Multiset"
begin

text \<open>
  The contract of the comparison functions that the C code passes to \<open>qsort\<close> and
  \<open>bsearch\<close>, and what the callers rely on: \<open>qsort\<close> gives a sorted permutation, and
  the binary search of a sorted array finds an element that compares as equal.
\<close>

section \<open>The C library's sort\<close>

lemma qsort_simps [simp]:
  "qsort cmp [] = []"
  "qsort cmp (x # xs) = insert_by cmp x (qsort cmp xs)"
  by (simp_all add: qsort_def)

lemma mset_insert_by [simp]: "mset (insert_by cmp x ys) = add_mset x (mset ys)"
  by (induction ys) auto

lemma mset_qsort [simp]: "mset (qsort cmp xs) = mset xs"
  by (induction xs) auto

lemma set_qsort [simp]: "set (qsort cmp xs) = set xs"
  by (metis mset_qsort set_mset_mset)

lemma length_qsort [simp]: "length (qsort cmp xs) = length xs"
  by (metis mset_qsort size_mset)

section \<open>The contract of a comparison function\<close>

text \<open>Elements that satisfy \<open>ok\<close> are those the function is called on.\<close>

locale comparator =
  fixes cmp :: "'a \<Rightarrow> 'a \<Rightarrow> int" and ok :: "'a \<Rightarrow> bool"
  assumes cmp_swap: "ok x \<Longrightarrow> ok y \<Longrightarrow> cmp x y \<le> 0 \<longleftrightarrow> cmp y x \<ge> 0"
    and cmp_trans: "ok x \<Longrightarrow> ok y \<Longrightarrow> ok z \<Longrightarrow> cmp x y \<le> 0 \<Longrightarrow> cmp y z \<le> 0 \<Longrightarrow> cmp x z \<le> 0"
begin

lemma cmp_less_swap: "ok x \<Longrightarrow> ok y \<Longrightarrow> cmp x y < 0 \<longleftrightarrow> cmp y x > 0"
  using cmp_swap [of y x] by auto

lemma cmp_total: "ok x \<Longrightarrow> ok y \<Longrightarrow> cmp x y \<le> 0 \<or> cmp y x \<le> 0"
  using cmp_swap [of x y] by auto

abbreviation le_sorted :: "'a list \<Rightarrow> bool" where
  "le_sorted \<equiv> sorted_wrt (\<lambda>x y. cmp x y \<le> 0)"

lemma set_insert_by: "set (insert_by cmp x ys) = insert x (set ys)"
  by (metis mset_insert_by set_mset_add_mset_insert set_mset_mset)

lemma sorted_insert_by:
  assumes "ok x" "\<forall>y \<in> set ys. ok y" "le_sorted ys"
  shows "le_sorted (insert_by cmp x ys)"
  using assms(2,3)
proof (induction ys)
  case (Cons y ys)
  show ?case
  proof (cases "cmp x y \<le> 0")
    case True
    with Cons.prems assms(1) show ?thesis by (auto intro: cmp_trans)
  next
    case False
    with Cons assms(1) cmp_total [of x y] show ?thesis by (auto simp: set_insert_by)
  qed
qed simp

lemma sorted_qsort: "\<forall>x \<in> set xs. ok x \<Longrightarrow> le_sorted (qsort cmp xs)"
  by (induction xs) (auto intro: sorted_insert_by)

lemma cmp_less_le_trans:
  assumes "ok x" "ok y" "ok z" "cmp x y < 0" "cmp y z \<le> 0"
  shows "cmp x z < 0"
proof (rule ccontr)
  assume "\<not> cmp x z < 0"
  with assms have "cmp z x \<le> 0" using cmp_swap [of z x] by simp
  with assms have "cmp y x \<le> 0" by (auto intro: cmp_trans [of y z x])
  with assms show False using cmp_swap [of y x] by simp
qed

lemma cmp_le_less_trans:
  assumes "ok x" "ok y" "ok z" "cmp x y \<le> 0" "cmp y z < 0"
  shows "cmp x z < 0"
proof (rule ccontr)
  assume "\<not> cmp x z < 0"
  with assms have "cmp z x \<le> 0" using cmp_swap [of z x] by simp
  with assms have "cmp z y \<le> 0" by (auto intro: cmp_trans [of z x y])
  with assms show False using cmp_swap [of z y] by simp
qed

text \<open>The search narrows the range of the elements that can compare as equal.\<close>

lemma bsearch_loop_correct:
  assumes "ok k" "\<forall>x \<in> set xs. ok x" "le_sorted xs" "u \<le> length xs"
    and "\<forall>i < l. cmp k (xs ! i) > 0" "\<forall>i < length xs. u \<le> i \<longrightarrow> cmp k (xs ! i) < 0"
  shows "case bsearch_loop (cmp k) xs l u of
      None \<Rightarrow> \<forall>i < length xs. cmp k (xs ! i) \<noteq> 0
    | Some i \<Rightarrow> i < length xs \<and> cmp k (xs ! i) = 0"
  using assms
proof (induction "cmp k" xs l u rule: bsearch_loop.induct)
  case (1 xs l u)
  let ?i = "(l + u) div 2" and ?x = "xs ! ((l + u) div 2)"
  show ?case
  proof (cases "l < u")
    case True
    then have i: "l \<le> ?i" "?i < u" "?i < length xs" using "1.prems"(4) by auto
    have ok: "ok (xs ! j)" if "j < length xs" for j using that "1.prems"(2) by simp
    have below: "cmp (xs ! j) ?x \<le> 0" if "j < ?i" for j
      using sorted_wrt_nth_less [OF "1.prems"(3) that i(3)] .
    have above: "cmp ?x (xs ! j) \<le> 0" if "?i < j" "j < length xs" for j
      using sorted_wrt_nth_less [OF "1.prems"(3) that] .
    consider "cmp k ?x < 0" | "cmp k ?x > 0" | "cmp k ?x = 0" by linarith
    then show ?thesis
    proof cases
      case less: 1
      have "\<forall>j < length xs. ?i \<le> j \<longrightarrow> cmp k (xs ! j) < 0"
      proof (intro allI impI)
        fix j assume j: "j < length xs" "?i \<le> j"
        show "cmp k (xs ! j) < 0"
        proof (cases "j = ?i")
          case False
          with j show ?thesis
            using cmp_less_le_trans [OF "1.prems"(1) ok [OF i(3)] ok [OF j(1)] less] above by simp
        qed (use less in simp)
      qed
      with 1(1) [OF True refl refl less] "1.prems" i
      have "case bsearch_loop (cmp k) xs l ?i of None \<Rightarrow> \<forall>i < length xs. cmp k (xs ! i) \<noteq> 0
          | Some i \<Rightarrow> i < length xs \<and> cmp k (xs ! i) = 0" by simp
      with True less show ?thesis by (simp add: bsearch_loop.simps [of _ _ l u] Let_def)
    next
      case greater: 2
      have xk: "cmp ?x k < 0" using greater cmp_less_swap [OF ok [OF i(3)] "1.prems"(1)] by simp
      have "\<forall>j < ?i + 1. cmp k (xs ! j) > 0"
      proof (intro allI impI)
        fix j assume j: "j < ?i + 1"
        then have jl: "j < length xs" using i by simp
        show "cmp k (xs ! j) > 0"
        proof (cases "j = ?i")
          case False
          with j have "cmp (xs ! j) ?x \<le> 0" by (intro below) simp
          from cmp_le_less_trans [OF ok [OF jl] ok [OF i(3)] "1.prems"(1) this xk]
          show ?thesis using cmp_less_swap [OF ok [OF jl] "1.prems"(1)] by simp
        qed (use greater in simp)
      qed
      with 1(2) [OF True refl refl _ greater] "1.prems" i greater
      have "case bsearch_loop (cmp k) xs (?i + 1) u of None \<Rightarrow> \<forall>i < length xs. cmp k (xs ! i) \<noteq> 0
          | Some i \<Rightarrow> i < length xs \<and> cmp k (xs ! i) = 0" by simp
      with True greater show ?thesis by (simp add: bsearch_loop.simps [of _ _ l u] Let_def)
    next
      case equal: 3
      with True i show ?thesis by (simp add: bsearch_loop.simps [of _ _ l u] Let_def)
    qed
  next
    case False
    have "cmp k (xs ! i) \<noteq> 0" if "i < length xs" for i
      using False that "1.prems"(5,6) by (cases "i < l") force+
    with False show ?thesis by (simp add: bsearch_loop.simps [of _ _ l u])
  qed
qed

lemma bsearch_correct:
  assumes "ok k" "\<forall>x \<in> set xs. ok x" "le_sorted xs"
  shows "case bsearch (cmp k) xs of
      None \<Rightarrow> \<forall>i < length xs. cmp k (xs ! i) \<noteq> 0
    | Some i \<Rightarrow> i < length xs \<and> cmp k (xs ! i) = 0"
  unfolding bsearch_def using assms by (intro bsearch_loop_correct) auto

text \<open>In a sorted list all elements before the first match are smaller.\<close>

lemma before_first_match:
  assumes "ok k" "\<forall>x \<in> set xs. ok x" "le_sorted xs" "i < length xs" "cmp k (xs ! i) = 0"
    and "i = 0 \<or> cmp k (xs ! (i - 1)) \<noteq> 0" "j < i"
  shows "cmp k (xs ! j) > 0"
proof -
  let ?p = "xs ! (i - 1)"
  have ok: "ok (xs ! j)" "ok ?p" "ok (xs ! i)" using assms by simp_all
  have "cmp ?p (xs ! i) \<le> 0" using sorted_wrt_nth_less [OF assms(3), of "i - 1" i] assms by simp
  moreover have "cmp (xs ! i) k \<le> 0" using assms(5) cmp_swap [OF ok(3) assms(1)] by simp
  ultimately have "cmp ?p k \<le> 0" by (rule cmp_trans [OF ok(2,3) assms(1)])
  then have "cmp k ?p \<ge> 0" using cmp_swap [OF ok(2) assms(1)] by simp
  with assms have "cmp k ?p > 0" by simp
  then have pk: "cmp ?p k < 0" using cmp_less_swap [OF ok(2) assms(1)] by simp
  have "cmp (xs ! j) k < 0"
  proof (cases "j = i - 1")
    case False
    with assms have "cmp (xs ! j) ?p \<le> 0"
      using sorted_wrt_nth_less [OF assms(3), of j "i - 1"] by simp
    from cmp_le_less_trans [OF ok(1,2) assms(1) this pk] show ?thesis .
  qed (use pk in simp)
  then show ?thesis using cmp_less_swap [OF ok(1) assms(1)] by simp
qed

lemma sorted_snoc: "le_sorted (xs @ [x]) \<longleftrightarrow> le_sorted xs \<and> (\<forall>y \<in> set xs. cmp y x \<le> 0)"
  by (auto simp: sorted_wrt_append)

end

text \<open>When only an element itself compares as equal, the sorted order is unique.\<close>

locale linear_comparator = comparator +
  assumes cmp_zero: "ok x \<Longrightarrow> ok y \<Longrightarrow> cmp x y = 0 \<Longrightarrow> x = y"
begin

lemma cmp_antisym: "ok x \<Longrightarrow> ok y \<Longrightarrow> cmp x y \<le> 0 \<Longrightarrow> cmp y x \<le> 0 \<Longrightarrow> x = y"
  using cmp_swap [of x y] cmp_swap [of y x] cmp_zero [of x y] by auto

lemma sorted_unique:
  assumes "mset xs = mset ys" "\<forall>x \<in> set xs. ok x" "le_sorted xs" "le_sorted ys"
  shows "xs = ys"
  using assms
proof (induction xs arbitrary: ys)
  case (Cons x xs)
  then obtain y ys' where ys: "ys = y # ys'" by (cases ys) auto
  have eqs: "set (x # xs) = set ys" using Cons.prems(1) by (metis set_mset_mset)
  have "x = y"
  proof (rule ccontr)
    assume "x \<noteq> y"
    with eqs ys have "y \<in> set xs" "x \<in> set ys'" by auto
    with Cons.prems ys have "cmp x y \<le> 0" "cmp y x \<le> 0" "ok x" "ok y" by auto
    with cmp_antisym \<open>x \<noteq> y\<close> show False by blast
  qed
  with Cons ys show ?case by auto
qed simp

lemma qsort_canonical:
  assumes "mset xs = mset ys" "\<forall>x \<in> set xs. ok x"
  shows "qsort cmp xs = qsort cmp ys"
proof (rule sorted_unique)
  have "set xs = set ys" using assms(1) by (metis set_mset_mset)
  with assms show "le_sorted (qsort cmp xs)" "le_sorted (qsort cmp ys)" by (auto intro: sorted_qsort)
qed (use assms in auto)

end

end
