(* ===== verification/Cbb_Inv.thy ===== *)
theory Cbb_Inv
  imports Cbb C_Order
begin

text \<open>
  The invariant of a builder: the valid bytes fit into the capacity, and the pending
  length prefixes of the open children lie inside the valid bytes, one after the other.
  Every operation keeps it, whether it succeeds or fails, so no sequence of calls
  writes outside the buffer.
\<close>

section \<open>The invariant\<close>

fun chain_ok :: "nat \<Rightarrow> cbb_child list \<Rightarrow> nat \<Rightarrow> bool" where
  "chain_ok lo [] len \<longleftrightarrow> lo \<le> len"
| "chain_ok lo (ch # chain) len \<longleftrightarrow>
     lo \<le> offset ch \<and> 0 < pending_len_len ch \<and> (pending_is_asn1 ch \<longrightarrow> pending_len_len ch = 1) \<and>
     chain_ok (offset ch + pending_len_len ch) chain len"

definition buffer_ok :: "cbb_buffer \<Rightarrow> bool" where
  "buffer_ok b \<longleftrightarrow> length (buf b) \<le> cap b \<and> cap b < 2 ^ 64"

definition cbb_inv :: "CBB \<Rightarrow> bool" where
  "cbb_inv cbb \<longleftrightarrow>
     (case cbb_base cbb of
        None \<Rightarrow> True
      | Some b \<Rightarrow> buffer_ok b \<and> chain_ok 0 (cbb_chain cbb) (length (buf b)))"

text \<open>From one buffer to another: it stays in bounds and its bytes only grow in number.\<close>

definition grows :: "cbb_buffer \<Rightarrow> cbb_buffer \<Rightarrow> bool" where
  "grows b b' \<longleftrightarrow> (buffer_ok b \<longrightarrow> buffer_ok b' \<and> length (buf b) \<le> length (buf b'))"

lemma grows_refl [intro, simp]: "grows b b"
  by (simp add: grows_def)

lemma grows_trans: "grows a b \<Longrightarrow> grows b c \<Longrightarrow> grows a c"
  by (auto simp: grows_def)

lemma grows_error [simp]: "grows b (b'\<lparr>cbb_error := e\<rparr>) \<longleftrightarrow> grows b b'"
  by (simp add: grows_def buffer_ok_def)

lemma chain_ok_lo: "chain_ok lo chain len \<Longrightarrow> lo \<le> len"
proof (induction chain arbitrary: lo)
  case (Cons ch chain)
  then have "offset ch + pending_len_len ch \<le> len" by simp
  with Cons.prems show ?case by simp
qed simp

lemma chain_ok_mono: "chain_ok lo chain len \<Longrightarrow> len \<le> len' \<Longrightarrow> chain_ok lo chain len'"
  by (induction chain arbitrary: lo) auto

lemma chain_ok_append:
  "chain_ok lo (xs @ ys) len \<Longrightarrow> chain_ok lo xs len"
  by (induction xs arbitrary: lo) (auto dest: chain_ok_lo)

lemma chain_ok_take: "chain_ok lo chain len \<Longrightarrow> chain_ok lo (take d chain) len"
  using chain_ok_append [of lo "take d chain" "drop d chain" len] by simp

lemma chain_ok_nth_offset:
  "chain_ok lo chain len \<Longrightarrow> d < length chain \<Longrightarrow> chain_ok lo (take d chain) (offset (chain ! d))"
proof (induction chain arbitrary: lo d)
  case (Cons ch chain)
  then show ?case by (cases d) (auto dest: chain_ok_lo)
qed simp

lemma chain_ok_nth_start:
  "chain_ok lo chain len \<Longrightarrow> d < length chain \<Longrightarrow>
     offset (chain ! d) + pending_len_len (chain ! d) \<le> len"
proof (induction chain arbitrary: lo d)
  case (Cons ch chain)
  then show ?case by (cases d) (auto dest: chain_ok_lo)
qed simp

lemma chain_ok_take_start:
  "chain_ok lo chain len \<Longrightarrow> Suc d \<le> length chain \<Longrightarrow>
     chain_ok lo (take (Suc d) chain) (offset (chain ! d) + pending_len_len (chain ! d))"
proof (induction chain arbitrary: lo d)
  case (Cons ch chain)
  then show ?case by (cases d) auto
qed simp

lemma chain_ok_snoc:
  "chain_ok lo chain len \<Longrightarrow> (pending_is_asn1 ch \<Longrightarrow> pending_len_len ch = 1) \<Longrightarrow>
     0 < pending_len_len ch \<Longrightarrow> len \<le> offset ch \<Longrightarrow> offset ch + pending_len_len ch \<le> len' \<Longrightarrow>
     chain_ok lo (chain @ [ch]) len'"
  by (induction chain arbitrary: lo) auto

section \<open>The buffer\<close>

lemma size_wrap_less: "size_wrap n < 2 ^ 64"
  by (simp add: size_wrap_def)

lemma size_wrap_no_overflow:
  assumes "len < 2 ^ 64" "n < 2 ^ 64" "\<not> size_wrap (len + n) < len"
  shows "size_wrap (len + n) = len + n"
proof (cases "len + n < 2 ^ 64")
  case False
  then have "(len + n) mod 2 ^ 64 = len + n - 2 ^ 64"
    using assms(1,2) by (simp add: le_mod_geq)
  with assms False show ?thesis by (simp add: size_wrap_def)
qed (simp add: size_wrap_def)

lemma cbb_buffer_reserve_cases:
  assumes "n < 2 ^ 64" "buffer_ok b" "cbb_buffer_reserve n b = (r, b')"
  shows "(r = None \<and> b' = b\<lparr>cbb_error := True\<rparr>) \<or>
    (r = Some () \<and> (\<exists>c. b' = b\<lparr>cap := c\<rparr> \<and> cap b \<le> c \<and> c < 2 ^ 64 \<and> length (buf b) + n \<le> c))"
proof -
  let ?new = "size_wrap (length (buf b) + n)"
  have l: "length (buf b) < 2 ^ 64" using assms(2) by (auto simp: buffer_ok_def)
  show ?thesis
  proof (cases "?new < length (buf b)")
    case True
    with assms(3) show ?thesis by (auto simp: cbb_buffer_reserve_def Let_def)
  next
    case False
    note new = size_wrap_no_overflow [OF l assms(1) False]
    have c64: "size_wrap (cap b * 2) < 2 ^ 64" "?new < 2 ^ 64" by (rule size_wrap_less)+
    let ?c0 = "size_wrap (cap b * 2)"
    let ?c = "if ?c0 < cap b \<or> ?c0 < length (buf b) + n then length (buf b) + n else ?c0"
    have run: "(r, b') = (if length (buf b) + n > cap b
        then if \<not> can_resize b \<or> \<not> realloc_ok b ?c then (None, b\<lparr>cbb_error := True\<rparr>)
             else (Some (), b\<lparr>cap := ?c\<rparr>)
        else (Some (), b))"
      using assms(3) False new by (auto simp: cbb_buffer_reserve_def Let_def split: if_splits)
    have c: "length (buf b) + n > cap b \<Longrightarrow> cap b \<le> ?c" "?c < 2 ^ 64" "length (buf b) + n \<le> ?c"
      using c64 new by simp_all
    show ?thesis
    proof (cases "length (buf b) + n > cap b")
      case True
      with run c show ?thesis by (cases "\<not> can_resize b \<or> \<not> realloc_ok b ?c") (simp_all only: if_True if_False, blast+)
    next
      case False
      moreover have "b = b\<lparr>cap := cap b\<rparr>" by simp
      ultimately show ?thesis using run assms(2)
        by (intro disjI2 conjI exI [of _ "cap b"]) (simp_all add: buffer_ok_def)
    qed
  qed
qed

lemma grows_reserve:
  assumes "n < 2 ^ 64" "cbb_buffer_reserve n b = (r, b')"
  shows "grows b b'"
  using cbb_buffer_reserve_cases [OF assms(1) _ assms(2)] by (auto simp: grows_def buffer_ok_def)

lemma grows_add:
  assumes "length bs < 2 ^ 64" "cbb_buffer_add bs b = (r, b')"
  shows "grows b b'"
proof (cases "buffer_ok b")
  case True
  obtain r1 b1 where r1: "cbb_buffer_reserve (length bs) b = (r1, b1)" by (cases "cbb_buffer_reserve (length bs) b")
  from cbb_buffer_reserve_cases [OF assms(1) True r1] assms(2) r1 True show ?thesis
    by (auto simp: cbb_buffer_add_def bindC_def grows_def buffer_ok_def)
qed (simp add: grows_def)

lemma grows_add_u:
  assumes "n \<le> 8" "cbb_buffer_add_u v n b = (r, b')"
  shows "grows b b'"
proof (cases "n = 0")
  case False
  obtain r1 b1 where r1: "cbb_buffer_add (be_bytes n v) b = (r1, b1)" by (cases "cbb_buffer_add (be_bytes n v) b")
  with assms(1) have "grows b b1" by (intro grows_add [OF _ r1]) simp
  with assms(2) r1 False show ?thesis
    by (auto simp: cbb_buffer_add_u_def bindC_def split: option.splits if_splits)
qed (use assms in \<open>simp add: cbb_buffer_add_u_def retC_def\<close>)

section \<open>Flushing\<close>

lemma der_prefix_extra: "der_prefix len = Some (init, extra) \<Longrightarrow> extra \<le> 4"
  by (auto simp: der_prefix_def split: if_splits)

lemma grows_flush_child:
  assumes ok: "offset ch + pending_len_len ch \<le> length (buf b)"
    and asn1: "pending_is_asn1 ch \<Longrightarrow> pending_len_len ch = 1"
    and run: "flush_child ch b = (r, b')"
  shows "grows b b'"
proof (cases "buffer_ok b")
  case True
  have small: "offset ch + pending_len_len ch < 2 ^ 64" using ok True by (auto simp: buffer_ok_def)
  then have start: "size_wrap (offset ch + pending_len_len ch) = offset ch + pending_len_len ch"
    by (simp add: size_wrap_def)
  let ?len = "length (buf b) - (offset ch + pending_len_len ch)"
  show ?thesis
  proof (cases "pending_is_asn1 ch")
    case False
    then show ?thesis using run True ok
      by (auto simp: flush_child_def Let_def start grows_def buffer_ok_def split: if_splits)
  next
    case asn1': True
    show ?thesis
    proof (cases "der_prefix ?len")
      case None
      with run asn1' ok show ?thesis by (auto simp: flush_child_def Let_def start split: if_splits)
    next
      case (Some p)
      obtain init extra where p: "p = (init, extra)" by (cases p)
      have e: "extra < 2 ^ 64" using der_prefix_extra [OF Some [unfolded p]] by simp
      obtain r1 b1 where r1: "(if extra = 0 then (Some (), b) else cbb_buffer_reserve extra b) = (r1, b1)"
        by (cases "if extra = 0 then (Some (), b) else cbb_buffer_reserve extra b")
      have c: "(r1 = None \<and> b1 = b\<lparr>cbb_error := True\<rparr>) \<or>
          (r1 = Some () \<and> (\<exists>c. b1 = b\<lparr>cap := c\<rparr> \<and> c < 2 ^ 64 \<and> length (buf b) + extra \<le> c))"
      proof (cases "extra = 0")
        case z: True
        have "b = b\<lparr>cap := cap b\<rparr>" by simp
        with z r1 True show ?thesis
          by (intro disjI2 conjI exI [of _ "cap b"]) (simp_all add: buffer_ok_def)
      next
        case False
        with r1 have "cbb_buffer_reserve extra b = (r1, b1)" by simp
        from cbb_buffer_reserve_cases [OF e True this] show ?thesis by blast
      qed
      have in_range: "(offset ch + pending_len_len ch < offset ch \<or>
          length (buf b) < offset ch + pending_len_len ch) = False" using ok by simp
      have run': "(r, b') = (case r1 of
           None \<Rightarrow> (None, b1\<lparr>cbb_error := True\<rparr>)
         | Some _ \<Rightarrow> (Some (), b1\<lparr>buf := take (offset ch) (buf b) @ [init] @
             be_bytes extra (of_nat ?len :: size_t) @ drop (offset ch + pending_len_len ch) (buf b)\<rparr>))"
        using run [unfolded flush_child_def Let_def start Some p prod.case option.case r1 in_range if_False]
          asn1' by (simp only: if_True)
      show ?thesis
      proof (cases r1)
        case None
        with run' c True show ?thesis by (auto simp: grows_def buffer_ok_def)
      next
        case (Some u)
        with c obtain k where k: "b1 = b\<lparr>cap := k\<rparr>" "k < 2 ^ 64" "length (buf b) + extra \<le> k" by auto
        have "b' = b\<lparr>cap := k, buf := take (offset ch) (buf b) @ [init] @
             be_bytes extra (of_nat ?len :: size_t) @ drop (offset ch + pending_len_len ch) (buf b)\<rparr>"
          using run' Some k(1) by simp
        then show ?thesis using k(2,3) ok asn1 [OF asn1'] by (auto simp: grows_def buffer_ok_def)
      qed
    qed
  qed
qed (simp add: grows_def)

text \<open>Flushing keeps the invariant of the whole chain: only the deepest prefixes change.\<close>

lemma grows_flush_chain:
  assumes "chain_ok lo chain (length (buf b))" "flush_chain chain b = (ok, rest, b')"
  shows "grows b b'"
  using assms
proof (induction chain arbitrary: lo b ok rest b')
  case Nil
  then show ?case by auto
next
  case (Cons ch chain)
  show ?case
  proof (cases "cbb_error b \<or> pending_len_len ch = 0")
    case True
    with Cons.prems show ?thesis by (auto split: if_splits)
  next
    case False
    obtain ok1 rest1 b1 where r1: "flush_chain chain b = (ok1, rest1, b1)" by (metis prod_cases3)
    have g1: "grows b b1" using Cons.IH [of "offset ch + pending_len_len ch", OF _ r1] Cons.prems(1) by simp
    show ?thesis
    proof (cases ok1)
      case ok: False
      with Cons.prems(2) False r1 g1 show ?thesis by auto
    next
      case ok: True
      show ?thesis
      proof (cases "buffer_ok b")
        case True
        with g1 have len: "length (buf b) \<le> length (buf b1)" by (simp add: grows_def)
        obtain r2 b2 where r2: "flush_child ch b1 = (r2, b2)" by (cases "flush_child ch b1")
        have "offset ch + pending_len_len ch \<le> length (buf b1)"
          using chain_ok_lo [of "offset ch + pending_len_len ch" chain "length (buf b)"] Cons.prems(1) len by simp
        then have "grows b1 b2" using Cons.prems(1) by (intro grows_flush_child [OF _ _ r2]) simp_all
        then have "grows b b2" by (rule grows_trans [OF g1])
        with Cons.prems(2) False r1 ok r2 show ?thesis by (auto split: option.splits)
      qed (simp add: grows_def)
    qed
  qed
qed

text \<open>What stays attached is a prefix of the chain, nothing after a success.\<close>

lemma flush_chain_take:
  "flush_chain chain b = (ok, rest, b') \<Longrightarrow> \<exists>k. rest = take k chain"
proof (induction chain arbitrary: b ok rest b')
  case (Cons ch chain)
  obtain ok1 rest1 b1 where r1: "flush_chain chain b = (ok1, rest1, b1)" by (metis prod_cases3)
  from Cons.IH [OF r1] obtain k where k: "rest1 = take k chain" by blast
  have "rest = [] \<or> rest = ch # chain \<or> rest = ch # rest1"
    using Cons.prems r1 by (auto split: if_splits option.splits prod.splits bool.splits)
  then show ?case
  proof (elim disjE)
    assume "rest = []"
    then show ?case by (intro exI [of _ 0]) simp
  next
    assume "rest = ch # chain"
    then show ?case by (intro exI [of _ "length (ch # chain)"]) simp
  next
    assume "rest = ch # rest1"
    then show ?case using k by (intro exI [of _ "Suc k"]) simp
  qed
qed simp

lemma flush_chain_rest:
  "flush_chain chain b = (True, rest, b') \<Longrightarrow> chain_ok lo chain len \<Longrightarrow> rest = []"
  by (cases chain) (auto split: if_splits option.splits prod.splits bool.splits)

section \<open>Operations\<close>

text \<open>An operation keeps the invariant, and the number of valid bytes does not go down.\<close>

definition keeps :: "'a cbb_fun \<Rightarrow> bool" where
  "keeps f \<longleftrightarrow> (\<forall>cbb. cbb_inv cbb \<longrightarrow> cbb_inv (snd (f cbb)) \<and> base_len cbb \<le> base_len (snd (f cbb)))"

lemma base_len_chain [simp]: "base_len (cbb\<lparr>cbb_chain := chain\<rparr>) = base_len cbb"
  by (simp add: base_len_def)

lemma keepsD:
  "keeps f \<Longrightarrow> cbb_inv cbb \<Longrightarrow> f cbb = (r, cbb') \<Longrightarrow> cbb_inv cbb' \<and> base_len cbb \<le> base_len cbb'"
  by (force simp: keeps_def)

lemma keeps_inv: "f cbb = (r, cbb') \<Longrightarrow> keeps f \<Longrightarrow> cbb_inv cbb \<Longrightarrow> cbb_inv cbb'"
  by (auto dest: keepsD)

lemma keepsI:
  assumes "\<And>cbb r cbb'. cbb_inv cbb \<Longrightarrow> f cbb = (r, cbb') \<Longrightarrow> cbb_inv cbb' \<and> base_len cbb \<le> base_len cbb'"
  shows "keeps f"
proof -
  have "cbb_inv (snd (f cbb)) \<and> base_len cbb \<le> base_len (snd (f cbb))" if "cbb_inv cbb" for cbb
    using assms [OF that, of "fst (f cbb)" "snd (f cbb)"] by simp
  then show ?thesis by (simp add: keeps_def)
qed

lemma keeps_bind [intro]:
  assumes f: "keeps f" and g: "\<And>x. keeps (g x)"
  shows "keeps (bindC f g)"
proof (rule keepsI)
  fix cbb r cbb' assume inv: "cbb_inv cbb" and run: "bindC f g cbb = (r, cbb')"
  obtain r1 cbb1 where r1: "f cbb = (r1, cbb1)" by (cases "f cbb")
  note i1 = keepsD [OF f inv r1]
  show "cbb_inv cbb' \<and> base_len cbb \<le> base_len cbb'"
  proof (cases r1)
    case None
    with run r1 i1 show ?thesis by simp
  next
    case (Some x)
    with run r1 have "g x cbb1 = (r, cbb')" by simp
    from keepsD [OF g _ this] i1 show ?thesis by auto
  qed
qed

lemma keeps_ret [simp, intro]: "keeps (retC x)" "keeps failC" "keeps (\<lambda>cbb. (None, cbb))" "keeps (\<lambda>cbb. (Some y, cbb))"
  by (simp_all add: keeps_def retC_def failC_def)

lemma cbb_inv_base:
  assumes "cbb_inv cbb" "cbb_base cbb = Some b" "grows b b'"
  shows "cbb_inv (cbb\<lparr>cbb_base := Some b'\<rparr>) \<and> length (buf b) \<le> length (buf b')"
  using assms by (auto simp: cbb_inv_def grows_def elim: chain_ok_mono)

lemma keeps_on_base [intro]:
  assumes "\<And>b r b'. f b = (r, b') \<Longrightarrow> grows b b'"
  shows "keeps (on_base f)"
proof (rule keepsI)
  fix cbb r cbb' assume inv: "cbb_inv cbb" and run: "on_base f cbb = (r, cbb')"
  show "cbb_inv cbb' \<and> base_len cbb \<le> base_len cbb'"
  proof (cases "cbb_base cbb")
    case None
    with inv run show ?thesis by (auto simp: on_base_def)
  next
    case (Some b)
    obtain r1 b1 where r1: "f b = (r1, b1)" by (cases "f b")
    from cbb_inv_base [OF inv Some assms [OF r1]] run Some r1 show ?thesis
      by (auto simp: on_base_def base_len_def)
  qed
qed

lemma chain_ok_drop:
  "chain_ok lo chain len \<Longrightarrow> \<exists>lo'. chain_ok lo' (drop d chain) len"
proof (induction chain arbitrary: lo d)
  case (Cons ch chain)
  then show ?case by (cases d) auto
qed auto

lemma cbb_inv_take: "cbb_inv cbb \<Longrightarrow> cbb_inv (cbb\<lparr>cbb_chain := take d (cbb_chain cbb)\<rparr>)"
  by (auto simp: cbb_inv_def chain_ok_take split: option.splits)

lemma CBB_flush_run:
  assumes inv: "cbb_inv cbb" and run: "CBB_flush d cbb = (r, cbb')"
  shows "cbb_inv cbb' \<and> base_len cbb \<le> base_len cbb'"
    and "r = Some () \<Longrightarrow> cbb_chain cbb' = take d (cbb_chain cbb) \<and> d \<le> length (cbb_chain cbb) \<and> cbb_base cbb' \<noteq> None"
proof -
  show "cbb_inv cbb' \<and> base_len cbb \<le> base_len cbb'"
    and "r = Some () \<Longrightarrow> cbb_chain cbb' = take d (cbb_chain cbb) \<and> d \<le> length (cbb_chain cbb) \<and> cbb_base cbb' \<noteq> None"
  proof (atomize(full), cases "length (cbb_chain cbb) < d \<or> cbb_base cbb = None")
    case True
    with inv run show "(cbb_inv cbb' \<and> base_len cbb \<le> base_len cbb') \<and> (r = Some () \<longrightarrow>
        cbb_chain cbb' = take d (cbb_chain cbb) \<and> d \<le> length (cbb_chain cbb) \<and> cbb_base cbb' \<noteq> None)"
      by (auto simp: CBB_flush_def on_base_def split: if_splits)
  next
    case False
    then obtain b where b: "cbb_base cbb = Some b" by auto
    have ok: "chain_ok 0 (cbb_chain cbb) (length (buf b))" using inv b by (simp add: cbb_inv_def)
    obtain ok1 rest b1 where r1: "flush_chain (drop d (cbb_chain cbb)) b = (ok1, rest, b1)" by (metis prod_cases3)
    obtain lo where lo: "chain_ok lo (drop d (cbb_chain cbb)) (length (buf b))"
      using chain_ok_drop [OF ok] by blast
    then have g: "grows b b1" using r1 by (rule grows_flush_chain)
    note i1 = cbb_inv_base [OF inv b g]
    have e: "r = (if ok1 then Some () else None)"
        "cbb' = cbb\<lparr>cbb_base := Some b1, cbb_chain := take d (cbb_chain cbb) @ rest\<rparr>"
      using run False b r1 by (auto simp: CBB_flush_def)
    obtain k where "rest = take k (drop d (cbb_chain cbb))" using flush_chain_take [OF r1] by blast
    then have "take d (cbb_chain cbb) @ rest = take (d + k) (cbb_chain cbb)" by (simp add: take_add)
    then have "cbb_inv cbb'" using cbb_inv_take [OF conjunct1 [OF i1], of "d + k"] e(2) by simp
    moreover have "rest = []" if "r = Some ()"
      using that e(1) flush_chain_rest [OF _ lo] r1 by (auto split: if_splits)
    ultimately show "(cbb_inv cbb' \<and> base_len cbb \<le> base_len cbb') \<and> (r = Some () \<longrightarrow>
        cbb_chain cbb' = take d (cbb_chain cbb) \<and> d \<le> length (cbb_chain cbb) \<and> cbb_base cbb' \<noteq> None)"
      using False i1 b e by (simp add: base_len_def)
  qed
qed

lemma keeps_flush [simp, intro]: "keeps (CBB_flush d)"
  using CBB_flush_run(1) by (intro keepsI)

lemma keeps_add_u [intro]: "n \<le> 8 \<Longrightarrow> keeps (cbb_add_u d v n)"
  unfolding cbb_add_u_def by (intro keeps_bind keeps_flush keeps_on_base) (rule grows_add_u)

lemma keeps_add_ints [simp, intro]:
  "keeps (CBB_add_u8 d v1)" "keeps (CBB_add_u16 d v2)" "keeps (CBB_add_u24 d v3)" "keeps (CBB_add_u32 d v4)"
  by (auto simp: CBB_add_u8_def CBB_add_u16_def CBB_add_u24_def CBB_add_u32_def)

lemma keeps_add_bytes [intro]:
  "length data < 2 ^ 64 \<Longrightarrow> keeps (CBB_add_bytes d data)"
  "length data < 2 ^ 64 \<Longrightarrow> keeps (CBB_add_space d data)"
  "n < 2 ^ 64 \<Longrightarrow> keeps (CBB_reserve d n)"
  unfolding CBB_add_bytes_def CBB_add_space_def CBB_reserve_def
  by (intro keeps_bind keeps_flush keeps_on_base; rule grows_add grows_reserve; simp)+

lemma keeps_did_write [intro]:
  assumes "length data < 2 ^ 64"
  shows "keeps (CBB_did_write d data)"
proof (rule keepsI)
  fix cbb r cbb' assume inv: "cbb_inv cbb" and run: "CBB_did_write d data cbb = (r, cbb')"
  let ?f = "\<lambda>base. let len = length (buf base); newlen = size_wrap (len + length data) in
       if d < length (cbb_chain cbb) \<or> newlen < len \<or> newlen > cap base then (None, base)
       else (Some (), base\<lparr>buf := buf base @ data\<rparr>)"
  have "grows b b'" if "?f b = (r', b')" for b r' b'
    using that assms size_wrap_no_overflow [of "length (buf b)" "length data"]
    by (auto simp: grows_def buffer_ok_def Let_def split: if_splits)
  then have k: "keeps (on_base ?f)" by (rule keeps_on_base)
  have "(r, cbb') = (None, cbb) \<or> on_base ?f cbb = (r, cbb')"
    using run by (simp add: CBB_did_write_def split: if_splits)
  then show "cbb_inv cbb' \<and> base_len cbb \<le> base_len cbb'" using inv keepsD [OF k inv] by auto
qed

lemma on_base_add_len:
  assumes "on_base (cbb_buffer_add bs) cbb = (Some u, cbb')"
  shows "base_len cbb' = base_len cbb + length bs \<and> cbb_chain cbb' = cbb_chain cbb"
proof -
  obtain b where b: "cbb_base cbb = Some b" using assms by (auto simp: on_base_def split: option.splits)
  obtain r1 b1 where r1: "cbb_buffer_reserve (length bs) b = (r1, b1)"
    by (cases "cbb_buffer_reserve (length bs) b")
  then have "buf b1 = buf b" by (auto simp: cbb_buffer_reserve_def Let_def split: if_splits)
  with assms b r1 show ?thesis
    by (auto simp: on_base_def cbb_buffer_add_def bindC_def base_len_def split: option.splits)
qed

text \<open>Opening a child whose prefix has just been added behind \<open>off\<close>.\<close>

lemma cbb_inv_add_child:
  assumes "cbb_inv cbb" "length (cbb_chain cbb) = d" "base_len cbb \<le> off"
    and "cbb_inv cbb'" "cbb_chain cbb' = cbb_chain cbb" "off + n \<le> base_len cbb'"
    and "0 < n" "asn1 \<Longrightarrow> n = 1" "cbb_base cbb \<noteq> None"
  shows "cbb_inv (snd (add_child d \<lparr>offset = off, pending_len_len = n, pending_is_asn1 = asn1\<rparr> cbb'))"
proof (cases "cbb_base cbb'")
  case None
  then show ?thesis by (simp add: add_child_def cbb_inv_def)
next
  case (Some b')
  obtain b where b: "cbb_base cbb = Some b" using assms(9) by auto
  have "chain_ok 0 (cbb_chain cbb @ [\<lparr>offset = off, pending_len_len = n, pending_is_asn1 = asn1\<rparr>]) (length (buf b'))"
    using assms b Some by (intro chain_ok_snoc [of _ _ "length (buf b)"]) (auto simp: cbb_inv_def base_len_def)
  with assms(2,4,5) Some show ?thesis by (simp add: add_child_def cbb_inv_def)
qed

lemma keeps_length_prefixed [intro]:
  assumes "0 < n" "n < 2 ^ 64"
  shows "keeps (cbb_add_length_prefixed d n)"
proof (rule keepsI)
  fix cbb r cbb' assume inv: "cbb_inv cbb" and run: "cbb_add_length_prefixed d n cbb = (r, cbb')"
  obtain r1 cbb1 where r1: "CBB_flush d cbb = (r1, cbb1)" by (cases "CBB_flush d cbb")
  note i1 = CBB_flush_run [OF inv r1]
  show "cbb_inv cbb' \<and> base_len cbb \<le> base_len cbb'"
  proof (cases r1)
    case None
    with run r1 i1(1) show ?thesis by (simp add: cbb_add_length_prefixed_def)
  next
    case (Some u)
    obtain r2 cbb2 where r2: "on_base (cbb_buffer_add (replicate n 0)) cbb1 = (r2, cbb2)"
      by (cases "on_base (cbb_buffer_add (replicate n 0)) cbb1")
    have k: "keeps (on_base (cbb_buffer_add (replicate n 0)))"
      using assms by (intro keeps_on_base) (rule grows_add, simp_all)
    note i2 = keepsD [OF k conjunct1 [OF i1(1)] r2]
    show ?thesis
    proof (cases r2)
      case None
      with run r1 Some r2 i1(1) i2 show ?thesis by (simp add: cbb_add_length_prefixed_def)
    next
      case (Some v)
      note len = on_base_add_len [OF r2 [unfolded Some]]
      have ch: "cbb_chain cbb1 = take d (cbb_chain cbb)" "d \<le> length (cbb_chain cbb)" "cbb_base cbb1 \<noteq> None"
        using i1(2) \<open>r1 = Some u\<close> by auto
      have "cbb_inv (snd (add_child d \<lparr>offset = base_len cbb1, pending_len_len = n, pending_is_asn1 = False\<rparr> cbb2))"
        using i1(1) i2 len ch assms by (intro cbb_inv_add_child [where cbb = cbb1]) auto
      with run r1 \<open>r1 = Some u\<close> r2 Some i1(1) i2 show ?thesis
        by (auto simp: cbb_add_length_prefixed_def add_child_def)
    qed
  qed
qed

lemma keeps_base128_loop [simp, intro]: "keeps (add_base128_loop d n v)"
  by (induction n) (auto simp: Let_def)

lemma keeps_add_base128 [simp, intro]: "keeps (add_base128_integer d v)"
  by (simp add: add_base128_integer_def Let_def)

text \<open>Adding one octet leaves the chain flushed to depth \<open>d\<close> and one more byte.\<close>

lemma CBB_add_u8_run:
  assumes inv: "cbb_inv cbb" and run: "CBB_add_u8 d v cbb = (Some u, cbb')"
  shows "cbb_inv cbb' \<and> base_len cbb + 1 \<le> base_len cbb' \<and> cbb_chain cbb' = take d (cbb_chain cbb) \<and>
    d \<le> length (cbb_chain cbb) \<and> cbb_base cbb' \<noteq> None"
proof -
  from run obtain x cbb1 where f: "CBB_flush d cbb = (Some x, cbb1)"
    and a: "on_base (cbb_buffer_add_u (ucast v) 1) cbb1 = (Some u, cbb')"
    unfolding CBB_add_u8_def cbb_add_u_def by (rule bindC_SomeE)
  note i1 = CBB_flush_run [OF inv f]
  obtain b b' where b: "cbb_base cbb1 = Some b" "cbb_buffer_add_u (ucast v) 1 b = (Some u, b')"
    "cbb' = cbb1\<lparr>cbb_base := Some b'\<rparr>"
    using a by (auto simp: on_base_def split: option.splits prod.splits)
  obtain w b1 where b1: "cbb_buffer_add (be_bytes 1 (ucast v :: u32)) b = (Some w, b1)" "b' = b1"
    using b(2) unfolding cbb_buffer_add_u_def
    by (auto elim!: bindC_SomeE split: if_splits)
  have "on_base (cbb_buffer_add (be_bytes 1 (ucast v :: u32))) cbb1 = (Some w, cbb')"
    using b b1 by (simp add: on_base_def)
  from on_base_add_len [OF this] i1 b keepsD [OF keeps_add_ints(1) inv run] show ?thesis by auto
qed

lemma keeps_add_asn1 [simp, intro]: "keeps (CBB_add_asn1 d tag)"
proof (rule keepsI)
  fix cbb r cbb' assume inv: "cbb_inv cbb" and run: "CBB_add_asn1 d tag cbb = (r, cbb')"
  define tag_op where "tag_op = (let tag_bits = ucast (drop_bit CBS_ASN1_TAG_SHIFT tag) AND 0xE0 :: byte;
       tag_number = tag AND CBS_ASN1_TAG_NUMBER_MASK in
       if tag_number \<ge> 0x1F
       then bindC (CBB_add_u8 d (tag_bits OR 0x1F)) (\<lambda>_. add_base128_integer d (ucast tag_number))
       else CBB_add_u8 d (tag_bits OR ucast tag_number))"
  define tail where "tail = (\<lambda>cbb. let off = base_len cbb in
          bindC (CBB_add_u8 d 0)
            (\<lambda>_. add_child d \<lparr>offset = off, pending_len_len = 1, pending_is_asn1 = True\<rparr>) cbb)"
  have eq: "CBB_add_asn1 d tag = bindC (bindC (CBB_flush d) (\<lambda>_. tag_op)) (\<lambda>_. tail)"
    unfolding CBB_add_asn1_def tag_op_def tail_def by (rule ext) (auto simp: bindC_def Let_def split: prod.splits option.splits)
  have k1: "keeps (bindC (CBB_flush d) (\<lambda>_. tag_op))"
    by (auto simp: tag_op_def Let_def)
  have k2: "keeps tail"
  proof (rule keepsI)
    fix c q c' assume ic: "cbb_inv c" and rc: "tail c = (q, c')"
    obtain q1 c1 where q1: "CBB_add_u8 d 0 c = (q1, c1)" by (cases "CBB_add_u8 d 0 c")
    note i1 = keepsD [OF keeps_add_ints(1) ic q1]
    show "cbb_inv c' \<and> base_len c \<le> base_len c'"
    proof (cases q1)
      case None
      with rc q1 i1 show ?thesis by (simp add: tail_def Let_def)
    next
      case (Some u)
      note u = CBB_add_u8_run [OF ic q1 [unfolded Some]]
      then obtain b b1 where b: "cbb_base c1 = Some b1" by auto
      have "cbb_base c \<noteq> None"
      proof
        assume "cbb_base c = None"
        then show False using q1 Some by (auto simp: CBB_add_u8_def cbb_add_u_def CBB_flush_def on_base_def bindC_def split: if_splits)
      qed
      then obtain b0 where b0: "cbb_base c = Some b0" by auto
      have "chain_ok 0 (take d (cbb_chain c) @ [\<lparr>offset = base_len c, pending_len_len = 1, pending_is_asn1 = True\<rparr>]) (base_len c1)"
        using ic u b0 by (intro chain_ok_snoc [of _ _ "base_len c"] chain_ok_take) (auto simp: cbb_inv_def base_len_def)
      with rc q1 Some u b show ?thesis
        by (auto simp: tail_def add_child_def cbb_inv_def base_len_def)
    qed
  qed
  from keeps_bind [OF k1 k2] have "keeps (CBB_add_asn1 d tag)" by (simp add: eq)
  from keepsD [OF this inv run] show "cbb_inv cbb' \<and> base_len cbb \<le> base_len cbb'" .
qed

lemma keeps_uint64_loop [simp, intro]: "keeps (add_uint64_loop d started bs)"
  by (induction bs arbitrary: started) auto

lemma keeps_if: "keeps f \<Longrightarrow> keeps g \<Longrightarrow> keeps (if b then f else g)"
  by simp

lemma keeps_asn1_values [intro]:
  "keeps (CBB_add_asn1_uint64 d v)" "keeps (CBB_add_asn1_bool d i)"
  "length data < 2 ^ 64 \<Longrightarrow> keeps (CBB_add_asn1_octet_string d data)"
  unfolding CBB_add_asn1_uint64_def CBB_add_asn1_bool_def CBB_add_asn1_octet_string_def
  by (intro keeps_bind keeps_if keeps_add_asn1 keeps_uint64_loop keeps_add_ints keeps_ret keeps_flush
      keeps_add_bytes; assumption?)+

lemma cbb_inv_discard: "cbb_inv cbb \<Longrightarrow> cbb_inv (CBB_discard_child d cbb)"
proof (cases "length (cbb_chain cbb) \<le> d")
  case False
  assume inv: "cbb_inv cbb"
  show ?thesis
  proof (cases "cbb_base cbb")
    case None
    with False show ?thesis by (simp add: CBB_discard_child_def cbb_inv_def)
  next
    case (Some b)
    with inv have ok: "chain_ok 0 (cbb_chain cbb) (length (buf b))" "buffer_ok b" by (auto simp: cbb_inv_def)
    have "offset (cbb_chain cbb ! d) \<le> length (buf b)"
      using chain_ok_nth_start [OF ok(1), of d] False by simp
    with False Some ok chain_ok_nth_offset [OF ok(1), of d] show ?thesis
      by (simp add: CBB_discard_child_def cbb_inv_def buffer_ok_def min_def)
  qed
qed (simp add: CBB_discard_child_def)

lemma keeps_fail [simp, intro]: "keeps (\<lambda>cbb. (None, cbb))"
  by (rule keepsI) simp

lemma keeps_oid_components [simp, intro]: "keeps (add_oid_components k d cbs)"
proof (induction k arbitrary: cbs)
  case 0
  show ?case by (rule keepsI) simp
next
  case (Suc k)
  then show ?case by (auto split: prod.splits option.splits)
qed

lemma keeps_oid [intro]: "keeps (CBB_add_asn1_oid_from_text d text)"
  unfolding CBB_add_asn1_oid_from_text_def by (auto split: prod.splits option.splits)

text \<open>Sorting a SET OF takes the bytes back and adds them again.\<close>

lemma keeps_all_bytes: "\<forall>x \<in> set xs. length x < 2 ^ 64 \<Longrightarrow> keeps (add_all_bytes d xs)"
  by (induction xs) (simp, use keeps_add_bytes(1) in auto)

lemma element_length:
  assumes "CBS_get_any_asn1_element cbs = (Some (out, tag, hl), rest)"
  shows "length out \<le> length cbs \<and> length rest \<le> length cbs"
proof -
  from assms obtain n where "CBS_get_bytes n cbs = (Some out, rest)"
    unfolding CBS_get_any_asn1_element_def cbs_get_any_asn1_element_def
    by (auto simp: Let_def retC_def bindC_def split: prod.splits option.splits if_splits)
  then show ?thesis
    by (auto simp: CBS_get_bytes_def bindC_def retC_def cbs_get_def split: if_splits prod.splits option.splits)
qed

lemma set_of_children_length:
  "set_of_children k cbs = Some es \<Longrightarrow> x \<in> set es \<Longrightarrow> length x \<le> length cbs"
proof (induction k arbitrary: cbs es)
  case (Suc k)
  from Suc.prems obtain out tag hl rest es' where
    r: "CBS_get_any_asn1_element cbs = (Some (out, tag, hl), rest)"
    and es: "set_of_children k rest = Some es'" "es = out # es'"
    by (auto split: if_splits prod.splits option.splits)
  have "length out \<le> length cbs \<and> length rest \<le> length cbs"
    using r by (rule element_length)
  with Suc.IH [OF es(1)] Suc.prems(2) es(2) show ?case by auto
qed (auto split: if_splits)

lemma cbb_inv_set_of:
  assumes inv: "cbb_inv cbb" and run: "CBB_flush_asn1_set_of alloc d cbb = (r, cbb')"
  shows "cbb_inv cbb'"
proof -
  obtain r1 cbb1 where r1: "CBB_flush d cbb = (r1, cbb1)" by (cases "CBB_flush d cbb")
  note i1 = CBB_flush_run [OF inv r1]
  show ?thesis
  proof (cases "r1 = None \<or> cbb' = cbb1")
    case True
    with run r1 i1(1) show ?thesis by (auto simp: CBB_flush_asn1_set_of_def)
  next
    case False
    let ?data = "CBB_data cbb1 d"
    from False run r1 obtain es where es: "set_of_children (length ?data) ?data = Some es"
      and add: "add_all_bytes d (qsort compare_set_of_element es) (cbb1\<lparr>cbb_base :=
        map_option (\<lambda>base. base\<lparr>buf := take (cbb_start cbb1 d) (buf base)\<rparr>) (cbb_base cbb1)\<rparr>) = (r, cbb')"
      by (auto simp: CBB_flush_asn1_set_of_def Let_def split: option.splits if_splits)
    from False i1 obtain b where b: "cbb_base cbb1 = Some b" and ch: "cbb_chain cbb1 = take d (cbb_chain cbb)"
      "d \<le> length (cbb_chain cbb)" by (cases r1) auto
    have ok: "buffer_ok b" "chain_ok 0 (cbb_chain cbb1) (length (buf b))" using i1(1) b by (simp_all add: cbb_inv_def)
    have len: "length (cbb_chain cbb1) = d" using ch by simp
    have start: "chain_ok 0 (cbb_chain cbb1) (cbb_start cbb1 d) \<and> cbb_start cbb1 d \<le> length (buf b)"
    proof (cases d)
      case (Suc k)
      with len chain_ok_take_start [OF ok(2), of k] chain_ok_nth_start [OF ok(2), of k] show ?thesis
        by (simp add: cbb_start_def Let_def)
    qed (use len in \<open>simp add: cbb_start_def\<close>)
    then have "cbb_inv (cbb1\<lparr>cbb_base := Some (b\<lparr>buf := take (cbb_start cbb1 d) (buf b)\<rparr>)\<rparr>)"
      using ok(1) by (simp add: cbb_inv_def buffer_ok_def min_absorb2)
    moreover have "keeps (add_all_bytes d (qsort compare_set_of_element es))"
    proof (rule keeps_all_bytes, rule ballI)
      fix x assume "x \<in> set (qsort compare_set_of_element es)"
      then have "length x \<le> length ?data" using set_of_children_length [OF es] by simp
      moreover have "length ?data \<le> length (buf b)" using b by (simp add: CBB_data_def)
      ultimately show "length x < 2 ^ 64" using ok(1) by (simp add: buffer_ok_def)
    qed
    ultimately show ?thesis using add b keepsD by fastforce
  qed
qed

section \<open>Reachable states\<close>

text \<open>
  One call of the client on a builder; data arguments are arrays of at most
  \<open>SIZE_MAX\<close> bytes.
\<close>

inductive cbb_step :: "CBB \<Rightarrow> CBB \<Rightarrow> bool" where
  step_flush: "CBB_flush d c = (r, c') \<Longrightarrow> cbb_step c c'"
| step_u8: "CBB_add_u8 d v8 c = (r, c') \<Longrightarrow> cbb_step c c'"
| step_u16: "CBB_add_u16 d v16 c = (r, c') \<Longrightarrow> cbb_step c c'"
| step_u24: "CBB_add_u24 d v c = (r, c') \<Longrightarrow> cbb_step c c'"
| step_u32: "CBB_add_u32 d v c = (r, c') \<Longrightarrow> cbb_step c c'"
| step_bytes: "CBB_add_bytes d data c = (r, c') \<Longrightarrow> length data < 2 ^ 64 \<Longrightarrow> cbb_step c c'"
| step_space: "CBB_add_space d data c = (r, c') \<Longrightarrow> length data < 2 ^ 64 \<Longrightarrow> cbb_step c c'"
| step_reserve: "CBB_reserve d n c = (r, c') \<Longrightarrow> n < 2 ^ 64 \<Longrightarrow> cbb_step c c'"
| step_did_write: "CBB_did_write d data c = (r, c') \<Longrightarrow> length data < 2 ^ 64 \<Longrightarrow> cbb_step c c'"
| step_u8_prefixed: "CBB_add_u8_length_prefixed d c = (r, c') \<Longrightarrow> cbb_step c c'"
| step_u16_prefixed: "CBB_add_u16_length_prefixed d c = (r, c') \<Longrightarrow> cbb_step c c'"
| step_u24_prefixed: "CBB_add_u24_length_prefixed d c = (r, c') \<Longrightarrow> cbb_step c c'"
| step_asn1: "CBB_add_asn1 d tag c = (r, c') \<Longrightarrow> cbb_step c c'"
| step_uint64: "CBB_add_asn1_uint64 d v64 c = (r, c') \<Longrightarrow> cbb_step c c'"
| step_octets: "CBB_add_asn1_octet_string d data c = (r, c') \<Longrightarrow> length data < 2 ^ 64 \<Longrightarrow> cbb_step c c'"
| step_bool: "CBB_add_asn1_bool d i c = (r, c') \<Longrightarrow> cbb_step c c'"
| step_oid: "CBB_add_asn1_oid_from_text d text c = (r, c') \<Longrightarrow> cbb_step c c'"
| step_set_of: "CBB_flush_asn1_set_of alloc d c = (r, c') \<Longrightarrow> cbb_step c c'"
| step_discard: "cbb_step c (CBB_discard_child d c)"
| step_finish: "CBB_finish d want c = (out, c') \<Longrightarrow> cbb_step c c'"

lemma CBB_finish_inv: "cbb_inv c \<Longrightarrow> CBB_finish d want c = (out, c') \<Longrightarrow> cbb_inv c'"
  using CBB_flush_run(1) [of c 0]
  by (auto simp: CBB_finish_def bindC_def CBB_cleanup_def cbb_inv_def split: if_splits prod.splits option.splits)

lemma keeps_prefixed_ints:
  "keeps (CBB_add_u8_length_prefixed d)" "keeps (CBB_add_u16_length_prefixed d)"
  "keeps (CBB_add_u24_length_prefixed d)"
  by (simp_all add: CBB_add_u8_length_prefixed_def CBB_add_u16_length_prefixed_def
      CBB_add_u24_length_prefixed_def keeps_length_prefixed)

lemmas keeps_ops = keeps_flush keeps_add_ints keeps_add_bytes keeps_did_write keeps_prefixed_ints
  keeps_add_asn1 keeps_asn1_values keeps_oid

lemma cbb_step_inv:
  assumes "cbb_step c c'" "cbb_inv c"
  shows "cbb_inv c'"
  using assms
proof (cases rule: cbb_step.cases)
  case (step_discard d)
  with assms(2) show ?thesis by (simp add: cbb_inv_discard)
next
  case (step_finish d want out)
  with assms(2) show ?thesis by (blast intro: CBB_finish_inv)
next
  case (step_set_of alloc d r)
  with assms(2) show ?thesis by (blast intro: cbb_inv_set_of)
qed (erule keeps_inv [OF _ _ assms(2)], intro keeps_ops, assumption?)+

lemma cbb_init_inv:
  "CBB_init alloc n = Some c \<Longrightarrow> n < 2 ^ 64 \<Longrightarrow> cbb_inv c"
  "CBB_init_fixed alloc n = Some c \<Longrightarrow> n < 2 ^ 64 \<Longrightarrow> cbb_inv c"
  by (auto simp: CBB_init_def CBB_init_fixed_def cbb_init_def cbb_inv_def buffer_ok_def split: if_splits)



end
