(* ===== verification/Cbb_Der.thy ===== *)
theory Cbb_Der
  imports Cbb_Inv Der
begin

text \<open>
  What the builder writes is what the reader reads: every writing function of
  \<open>cbb.c\<close> appends the bytes of a format that the reading function of \<open>cbs.c\<close> accepts.
\<close>

section \<open>Writing on a builder with memory to spare\<close>

text \<open>
  The state in which writing cannot run out of memory: a growable buffer whose
  allocator always succeeds, and a builder at depth \<open>d\<close> without an open child.
\<close>

definition writable :: "nat \<Rightarrow> CBB \<Rightarrow> cbb_buffer \<Rightarrow> bool" where
  "writable d cbb b \<longleftrightarrow> cbb_base cbb = Some b \<and> length (cbb_chain cbb) = d \<and>
     \<not> cbb_error b \<and> can_resize b \<and> (\<forall>n. realloc_ok b n)"

definition grown :: "byte list \<Rightarrow> nat \<Rightarrow> cbb_buffer \<Rightarrow> cbb_buffer" where
  "grown bs c b = b\<lparr>buf := buf b @ bs, cap := c\<rparr>"

text \<open>\<open>writes d f bs\<close>: the function appends \<open>bs\<close> and does nothing else but grow the buffer.\<close>

definition writes :: "nat \<Rightarrow> unit cbb_fun \<Rightarrow> byte list \<Rightarrow> bool" where
  "writes d f bs \<longleftrightarrow> (\<forall>cbb b. writable d cbb b \<longrightarrow> length (buf b) + length bs < 2 ^ 64 \<longrightarrow>
     (\<exists>c. f cbb = (Some (), cbb\<lparr>cbb_base := Some (grown bs c b)\<rparr>)))"

lemma writesD:
  assumes "writes d f bs" "writable d cbb b" "length (buf b) + length bs < 2 ^ 64"
  obtains c where "f cbb = (Some (), cbb\<lparr>cbb_base := Some (grown bs c b)\<rparr>)"
  using assms by (auto simp: writes_def)

lemma grown_fields [simp]:
  "buf (grown bs c b) = buf b @ bs" "cap (grown bs c b) = c"
  "cbb_error (grown bs c b) = cbb_error b" "can_resize (grown bs c b) = can_resize b"
  "realloc_ok (grown bs c b) = realloc_ok b"
  by (simp_all add: grown_def)

lemma grown_grown [simp]: "grown ys c' (grown xs c b) = grown (xs @ ys) c' b"
  by (simp add: grown_def)

lemma grown_Nil [simp]: "grown [] (cap b) b = b"
  by (simp add: grown_def)

lemma writable_grown [simp]:
  "writable d (cbb\<lparr>cbb_base := Some (grown bs c b)\<rparr>) (grown bs c b) \<longleftrightarrow> writable d (cbb\<lparr>cbb_base := Some b\<rparr>) b"
  by (simp add: writable_def)

lemma writable_base: "writable d cbb b \<Longrightarrow> cbb\<lparr>cbb_base := Some b\<rparr> = cbb"
  by (simp add: writable_def)

lemma writes_ret [intro]: "writes d (retC ()) []"
  unfolding writes_def
proof (intro allI impI)
  fix cbb b assume w: "writable d cbb b"
  then have "retC () cbb = (Some (), cbb\<lparr>cbb_base := Some (grown [] (cap b) b)\<rparr>)"
    by (simp add: retC_def writable_def)
  then show "\<exists>c. retC () cbb = (Some (), cbb\<lparr>cbb_base := Some (grown [] c b)\<rparr>)" by blast
qed

lemma writes_bind [intro]:
  assumes f: "writes d f xs" and g: "writes d g ys"
  shows "writes d (bindC f (\<lambda>_. g)) (xs @ ys)"
  unfolding writes_def
proof (intro allI impI)
  fix cbb b assume w: "writable d cbb b" and l: "length (buf b) + length (xs @ ys) < 2 ^ 64"
  from l have "length (buf b) + length xs < 2 ^ 64" by simp
  from writesD [OF f w this] obtain c where
    c: "f cbb = (Some (), cbb\<lparr>cbb_base := Some (grown xs c b)\<rparr>)" .
  have "writable d (cbb\<lparr>cbb_base := Some (grown xs c b)\<rparr>) (grown xs c b)"
    using w by (simp add: writable_base)
  from writesD [OF g this] l obtain c' where
    "g (cbb\<lparr>cbb_base := Some (grown xs c b)\<rparr>) =
      (Some (), cbb\<lparr>cbb_base := Some (grown (xs @ ys) c' b)\<rparr>)"
    by auto
  with c show "\<exists>c. bindC f (\<lambda>_. g) cbb = (Some (), cbb\<lparr>cbb_base := Some (grown (xs @ ys) c b)\<rparr>)"
    by auto
qed

lemma flush_writable [simp]: "writable d cbb b \<Longrightarrow> CBB_flush d cbb = (Some (), cbb)"
  by (auto simp: writable_def CBB_flush_def on_base_def)

lemma writes_flush_bind: "writes d f bs \<Longrightarrow> writes d (bindC (CBB_flush d) (\<lambda>_. f)) bs"
  by (simp add: writes_def)

lemma reserve_writable:
  assumes "writable d cbb b" "length (buf b) + n < 2 ^ 64"
  obtains c where "cbb_buffer_reserve n b = (Some (), b\<lparr>cap := c\<rparr>)"
proof -
  have wrap: "size_wrap (length (buf b) + n) = length (buf b) + n"
    using assms(2) by (simp add: size_wrap_def)
  show thesis
  proof (cases "length (buf b) + n > cap b")
    case True
    with assms(1) that show thesis
      by (auto simp: writable_def cbb_buffer_reserve_def wrap Let_def)
  next
    case False
    with assms(1) have "cbb_buffer_reserve n b = (Some (), b\<lparr>cap := cap b\<rparr>)"
      by (simp add: writable_def cbb_buffer_reserve_def wrap Let_def)
    then show thesis by (rule that)
  qed
qed

lemma writes_buffer_add [intro]: "writes d (on_base (cbb_buffer_add bs)) bs"
  unfolding writes_def
proof (intro allI impI)
  fix cbb b assume w: "writable d cbb b" and l: "length (buf b) + length bs < 2 ^ 64"
  from reserve_writable [OF w l] obtain c where "cbb_buffer_reserve (length bs) b = (Some (), b\<lparr>cap := c\<rparr>)" .
  then have "on_base (cbb_buffer_add bs) cbb = (Some (), cbb\<lparr>cbb_base := Some (grown bs c b)\<rparr>)"
    using w by (simp add: on_base_def writable_def cbb_buffer_add_def grown_def)
  then show "\<exists>c. on_base (cbb_buffer_add bs) cbb = (Some (), cbb\<lparr>cbb_base := Some (grown bs c b)\<rparr>)" by blast
qed

lemma writes_add_bytes [intro]: "writes d (CBB_add_bytes d bs) bs"
  unfolding CBB_add_bytes_def by (intro writes_flush_bind writes_buffer_add)

lemma writes_add_u:
  assumes "drop_bit (8 * n) v = 0"
  shows "writes d (cbb_add_u d v n) (be_bytes n v)"
proof (cases "n = 0")
  case True
  have "writes d (on_base (retC ())) []"
    unfolding writes_def
  proof (intro allI impI)
    fix cbb b assume "writable d cbb b"
    then have "on_base (retC ()) cbb = (Some (), cbb\<lparr>cbb_base := Some (grown [] (cap b) b)\<rparr>)"
      by (simp add: on_base_def retC_def writable_def)
    then show "\<exists>c. on_base (retC ()) cbb = (Some (), cbb\<lparr>cbb_base := Some (grown [] c b)\<rparr>)" by blast
  qed
  with True show ?thesis unfolding cbb_add_u_def cbb_buffer_add_u_def
    by (intro writes_flush_bind) (simp add: be_bytes_def)
next
  case False
  have "on_base (cbb_buffer_add_u v n) = on_base (cbb_buffer_add (be_bytes n v))"
    using assms False by (auto simp: on_base_def cbb_buffer_add_u_def bindC_def fun_eq_iff split: option.splits prod.splits)
  then show ?thesis unfolding cbb_add_u_def by (auto intro: writes_flush_bind)
qed

lemma writes_ints [intro]:
  "writes d (CBB_add_u8 d v8) [v8]"
  "writes d (CBB_add_u16 d v16) (be_bytes 2 v16)"
  "take_bit 24 v = v \<Longrightarrow> writes d (CBB_add_u24 d v) (be_bytes 3 v)"
  "writes d (CBB_add_u32 d v) (be_bytes 4 v)"
proof -
  have "drop_bit 8 (ucast v8 :: u32) = 0" by (rule bit_word_eqI) (auto simp: bit_simps dest: bit_imp_le_length)
  moreover have "be_bytes 1 (ucast v8 :: u32) = [v8]"
    by (simp add: be_bytes_def le_bytes_Suc) (rule bit_word_eqI, auto simp: bit_simps)
  ultimately show "writes d (CBB_add_u8 d v8) [v8]"
    using writes_add_u [of 1 "ucast v8" d] by (simp add: CBB_add_u8_def)
  have "drop_bit 16 (ucast v16 :: u32) = 0" by (rule bit_word_eqI) (auto simp: bit_simps dest: bit_imp_le_length)
  then show "writes d (CBB_add_u16 d v16) (be_bytes 2 v16)"
    using writes_add_u [of 2 "ucast v16" d] by (simp add: CBB_add_u16_def be_bytes_ucast16)
  show "writes d (CBB_add_u24 d v) (be_bytes 3 v)" if "take_bit 24 v = v"
  proof -
    have "drop_bit 24 v = drop_bit 24 (take_bit 24 v)" using that by simp
    also have "\<dots> = 0" by (rule bit_word_eqI) (auto simp: bit_simps)
    finally show ?thesis using writes_add_u [of 3 v d] by (simp add: CBB_add_u24_def)
  qed
  have "drop_bit 32 v = 0" by (rule bit_word_eqI) (auto simp: bit_simps dest: bit_imp_le_length)
  then show "writes d (CBB_add_u32 d v) (be_bytes 4 v)"
    using writes_add_u [of 4 v d] by (simp add: CBB_add_u32_def)
qed

section \<open>Base-128 integers\<close>

primrec base128_octet_list :: "nat \<Rightarrow> u64 \<Rightarrow> byte list" where
  "base128_octet_list 0 v = []"
| "base128_octet_list (Suc i) v =
     (let byte = ucast (drop_bit (7 * i) v AND 0x7F) :: byte
      in (if i \<noteq> 0 then byte OR 0x80 else byte) # base128_octet_list i v)"

lemma writes_base128_loop: "writes d (add_base128_loop d n v) (base128_octet_list n v)"
proof (induction n)
  case (Suc i)
  let ?b = "(if i \<noteq> 0 then (ucast (drop_bit (7 * i) v AND 0x7F) :: byte) OR 0x80
    else ucast (drop_bit (7 * i) v AND 0x7F))"
  have "writes d (bindC (CBB_add_u8 d ?b) (\<lambda>_. add_base128_loop d i v)) ([?b] @ base128_octet_list i v)"
    by (rule writes_bind [OF writes_ints(1) Suc.IH])
  then show ?case by (simp add: Let_def)
qed auto

lemma base128_octet_list_drop:
  "base128_octet_list (Suc (Suc n)) v =
     (butlast (base128_octet_list (Suc n) (drop_bit 7 v)) @
      [ucast (drop_bit 7 v AND 0x7F) OR 0x80]) @ [ucast (v AND 0x7F)]"
proof (induction n)
  case 0
  then show ?case by (simp add: Let_def)
next
  case (Suc n)
  have "base128_octet_list (Suc (Suc (Suc n))) v =
      (ucast (drop_bit (7 * Suc (Suc n)) v AND 0x7F) OR 0x80) # base128_octet_list (Suc (Suc n)) v"
    by (simp only: base128_octet_list.simps Let_def) simp
  also note Suc.IH
  also have "(ucast (drop_bit (7 * Suc (Suc n)) v AND 0x7F) OR 0x80) #
      (butlast (base128_octet_list (Suc n) (drop_bit 7 v)) @ [ucast (drop_bit 7 v AND 0x7F) OR 0x80]) @ [ucast (v AND 0x7F)] =
      (butlast (base128_octet_list (Suc (Suc n)) (drop_bit 7 v)) @
      [ucast (drop_bit 7 v AND 0x7F) OR 0x80]) @ [ucast (v AND 0x7F)]"
    by (simp add: Let_def ac_simps)
  finally show ?case .
qed

lemma base128_octets_rec: "v \<noteq> 0 \<Longrightarrow> base128_octets v = Suc (base128_octets (drop_bit 7 v))"
  by (subst base128_octets.simps) (simp add: word_neq_0_conv)

lemma base128_octets_0 [simp]: "base128_octets 0 = 0"
  by (simp add: base128_octets.simps)

lemma base128_octets_cont:
  assumes "w \<noteq> 0"
  shows "butlast (base128_octet_list (base128_octets w) w) @ [ucast (w AND 0x7F) OR 0x80] = base128_cont w"
  using assms
proof (induction w rule: base128_cont.induct)
  case (1 w)
  let ?u = "drop_bit 7 w"
  show ?case
  proof (cases "?u = 0")
    case True
    with "1.prems" show ?thesis
      by (simp add: base128_octets_rec base128_cont.simps [of w] Let_def)
  next
    case False
    have n: "base128_octets w = Suc (Suc (base128_octets (drop_bit 7 ?u)))"
      using base128_octets_rec [OF "1.prems"] base128_octets_rec [OF False] by simp
    have u: "base128_octets ?u = Suc (base128_octets (drop_bit 7 ?u))"
      by (rule base128_octets_rec [OF False])
    have "butlast (base128_octet_list (base128_octets w) w) = base128_cont ?u"
      unfolding n base128_octet_list_drop butlast_snoc using "1.IH" [OF "1.prems" False] u by simp
    with "1.prems" show ?thesis by (simp add: base128_cont.simps [of w])
  qed
qed

lemma base128_octet_list_bytes:
  "base128_octet_list (if base128_octets v = 0 then 1 else base128_octets v) v = base128_bytes v"
proof (cases "drop_bit 7 v = 0")
  case True
  have "base128_octets v \<le> 1"
    using True by (cases "v = 0") (simp_all add: base128_octets_rec)
  then have "(if base128_octets v = 0 then 1 else base128_octets v) = Suc 0" by auto
  then show ?thesis using True by (simp add: base128_bytes_def Let_def)
next
  case False
  then have v: "v \<noteq> 0" by auto
  have n: "base128_octets v = Suc (Suc (base128_octets (drop_bit 7 (drop_bit 7 v))))"
    using base128_octets_rec [OF v] base128_octets_rec [OF False] by simp
  have u: "base128_octets (drop_bit 7 v) = Suc (base128_octets (drop_bit 7 (drop_bit 7 v)))"
    by (rule base128_octets_rec [OF False])
  have "base128_octet_list (base128_octets v) v = base128_cont (drop_bit 7 v) @ [ucast (v AND 0x7F)]"
    unfolding n base128_octet_list_drop using base128_octets_cont [OF False] u by simp
  with n show ?thesis by (simp add: base128_bytes_def)
qed

lemma writes_base128 [intro]: "writes d (add_base128_integer d v) (base128_bytes v)"
  unfolding add_base128_integer_def Let_def
  using writes_base128_loop [of d "if base128_octets v = 0 then 1 else base128_octets v" v]
  by (simp only: base128_octet_list_bytes)

section \<open>Elements and length prefixes\<close>

text \<open>A child that is opened, filled and flushed.\<close>

definition in_child :: "nat \<Rightarrow> unit cbb_fun \<Rightarrow> unit cbb_fun \<Rightarrow> unit cbb_fun" where
  "in_child d start fill = bindC start (\<lambda>_. bindC fill (\<lambda>_. CBB_flush d))"

text \<open>\<open>start\<close> writes \<open>pre\<close> and \<open>n\<close> zeros, and opens a child whose prefix these zeros are.\<close>

definition opens :: "nat \<Rightarrow> unit cbb_fun \<Rightarrow> byte list \<Rightarrow> nat \<Rightarrow> bool \<Rightarrow> bool" where
  "opens d start pre n asn1 \<longleftrightarrow> (\<forall>cbb b. writable d cbb b \<longrightarrow> length (buf b) + length pre + n < 2 ^ 64 \<longrightarrow>
     (\<exists>c. start cbb = (Some (), cbb\<lparr>cbb_base := Some (grown (pre @ replicate n 0) c b),
        cbb_chain := cbb_chain cbb @
          [\<lparr>offset = length (buf b) + length pre, pending_len_len = n, pending_is_asn1 = asn1\<rparr>]\<rparr>)))"

lemma writable_base_len: "writable d cbb b \<Longrightarrow> base_len cbb = length (buf b)"
  by (simp add: writable_def base_len_def)

lemma opens_length_prefixed: "opens d (cbb_add_length_prefixed d n) [] n False"
  unfolding opens_def
proof (intro allI impI)
  fix cbb b assume w: "writable d cbb b" and l: "length (buf b) + length ([] :: byte list) + n < 2 ^ 64"
  obtain c where c: "on_base (cbb_buffer_add (replicate n 0)) cbb =
      (Some (), cbb\<lparr>cbb_base := Some (grown (replicate n 0) c b)\<rparr>)"
    using l by (auto intro: writesD [OF writes_buffer_add w, of "replicate n 0"])
  have "length (cbb_chain cbb) = d" using w by (simp add: writable_def)
  then show "\<exists>c. cbb_add_length_prefixed d n cbb = (Some (), cbb\<lparr>cbb_base := Some (grown ([] @ replicate n 0) c b),
        cbb_chain := cbb_chain cbb @
          [\<lparr>offset = length (buf b) + length ([] :: byte list), pending_len_len = n, pending_is_asn1 = False\<rparr>]\<rparr>)"
    using c w by (simp add: cbb_add_length_prefixed_def add_child_def writable_base_len exI [of _ c])
qed

lemma opens_asn1: "opens d (CBB_add_asn1 d tag) (der_tag_bytes tag) 1 True"
proof -
  let ?tag_op = "if tag_num tag \<ge> 0x1F
       then bindC (CBB_add_u8 d (tag_class tag OR 0x1F)) (\<lambda>_. add_base128_integer d (ucast (tag_num tag)))
       else CBB_add_u8 d (tag_class tag OR ucast (tag_num tag))"
  have tag_op: "writes d ?tag_op (der_tag_bytes tag)"
  proof (cases "tag_num tag \<ge> 0x1F")
    case True
    with writes_bind [OF writes_ints(1) writes_base128, of d "tag_class tag OR 0x1F" "ucast (tag_num tag)"]
    show ?thesis by (simp add: der_tag_bytes_def)
  next
    case False
    with writes_ints(1) show ?thesis by (simp add: der_tag_bytes_def)
  qed
  show ?thesis
    unfolding opens_def
  proof (intro allI impI)
    fix cbb b assume w: "writable d cbb b" and l: "length (buf b) + length (der_tag_bytes tag) + 1 < 2 ^ 64"
    from l have "length (buf b) + length (der_tag_bytes tag) < 2 ^ 64" by simp
    from writesD [OF tag_op w this] obtain c where
      c: "?tag_op cbb = (Some (), cbb\<lparr>cbb_base := Some (grown (der_tag_bytes tag) c b)\<rparr>)" .
    let ?cbb = "cbb\<lparr>cbb_base := Some (grown (der_tag_bytes tag) c b)\<rparr>"
    have w1: "writable d ?cbb (grown (der_tag_bytes tag) c b)" using w by (simp add: writable_base)
    from l have "length (buf (grown (der_tag_bytes tag) c b)) + length [0 :: byte] < 2 ^ 64" by simp
    from writesD [OF writes_ints(1) w1 this] obtain c' where
      c': "CBB_add_u8 d 0 ?cbb = (Some (), cbb\<lparr>cbb_base := Some (grown (der_tag_bytes tag @ [0]) c' b)\<rparr>)"
      by auto
    have "length (cbb_chain cbb) = d" using w by (simp add: writable_def)
    then show "\<exists>c. CBB_add_asn1 d tag cbb = (Some (), cbb\<lparr>cbb_base := Some (grown (der_tag_bytes tag @ replicate 1 0) c b),
        cbb_chain := cbb_chain cbb @
          [\<lparr>offset = length (buf b) + length (der_tag_bytes tag), pending_len_len = 1, pending_is_asn1 = True\<rparr>]\<rparr>)"
      using w c c' writable_base_len [OF w1]
      by (simp add: CBB_add_asn1_def add_child_def Let_def tag_class_def [symmetric] tag_num_def [symmetric] exI [of _ c'])
  qed
qed

lemma CBB_flush_one:
  assumes "writable (Suc d) cbb b" "cbb_chain cbb = chain @ [ch]" "pending_len_len ch \<noteq> 0"
    "flush_child ch b = (Some (), b')"
  shows "CBB_flush d cbb = (Some (), cbb\<lparr>cbb_base := Some b', cbb_chain := chain\<rparr>)"
  using assms by (auto simp: writable_def CBB_flush_def on_base_def)

text \<open>Filling a child and flushing it, when the flush of the filled child does \<open>head\<close>.\<close>

lemma writes_in_child:
  assumes start: "opens d start pre n asn1" and n: "0 < n" and fill: "writes (Suc d) fill body"
    and flush: "\<And>b off. off + n + length body < 2 ^ 64 \<Longrightarrow> length (buf b) = off + n + length body \<Longrightarrow>
      drop (off + n) (buf b) = body \<Longrightarrow> off + length head + length body < 2 ^ 64 \<Longrightarrow>
      \<not> cbb_error b \<Longrightarrow> can_resize b \<Longrightarrow> (\<forall>n. realloc_ok b n) \<Longrightarrow>
      \<exists>c. flush_child \<lparr>offset = off, pending_len_len = n, pending_is_asn1 = asn1\<rparr> b =
        (Some (), b\<lparr>buf := take off (buf b) @ head @ body, cap := c\<rparr>)"
    and longer: "n \<le> length head"
  shows "writes d (in_child d start fill) (pre @ head @ body)"
  unfolding writes_def
proof (intro allI impI)
  fix cbb b assume w: "writable d cbb b" and l: "length (buf b) + length (pre @ head @ body) < 2 ^ 64"
  let ?off = "length (buf b) + length pre"
  let ?ch = "\<lparr>offset = ?off, pending_len_len = n, pending_is_asn1 = asn1\<rparr>"
  have "?off + n < 2 ^ 64" using l longer by simp
  then obtain c1 where c1: "start cbb = (Some (), cbb\<lparr>cbb_base := Some (grown (pre @ replicate n 0) c1 b),
        cbb_chain := cbb_chain cbb @ [?ch]\<rparr>)"
    using start w by (auto simp: opens_def)
  let ?cbb1 = "cbb\<lparr>cbb_base := Some (grown (pre @ replicate n 0) c1 b), cbb_chain := cbb_chain cbb @ [?ch]\<rparr>"
  have w1: "writable (Suc d) ?cbb1 (grown (pre @ replicate n 0) c1 b)"
    using w by (simp add: writable_def)
  have "length (buf (grown (pre @ replicate n 0) c1 b)) + length body < 2 ^ 64" using l longer by simp
  from writesD [OF fill w1 this] obtain c2 where
    c2: "fill ?cbb1 = (Some (), ?cbb1\<lparr>cbb_base := Some (grown (pre @ replicate n 0 @ body) c2 b)\<rparr>)"
    by auto
  let ?b2 = "grown (pre @ replicate n 0 @ body) c2 b"
  let ?cbb2 = "?cbb1\<lparr>cbb_base := Some ?b2\<rparr>"
  have w2: "writable (Suc d) ?cbb2 ?b2" using w by (simp add: writable_def)
  obtain c3 where "flush_child ?ch ?b2 = (Some (), ?b2\<lparr>buf := take ?off (buf ?b2) @ head @ body, cap := c3\<rparr>)"
    using flush [of ?off ?b2] l longer w by (auto simp: writable_def)
  then have "flush_child ?ch ?b2 = (Some (), grown (pre @ head @ body) c3 b)"
    by (simp add: grown_def)
  from CBB_flush_one [OF w2 _ _ this, of "cbb_chain cbb"] n
  have "CBB_flush d ?cbb2 = (Some (), cbb\<lparr>cbb_base := Some (grown (pre @ head @ body) c3 b)\<rparr>)"
    by simp
  with c1 c2 show "\<exists>c. in_child d start fill cbb =
      (Some (), cbb\<lparr>cbb_base := Some (grown (pre @ head @ body) c b)\<rparr>)"
    by (auto simp: in_child_def)
qed

lemma be_bytes_of_nat:
  assumes "n \<le> 4"
  shows "be_bytes n (of_nat k :: u64) = be_bytes n (of_nat k :: u32)"
proof -
  have "le_bytes n (of_nat k :: u64) = le_bytes n (of_nat k :: u32)"
  proof (rule nth_equalityI)
    fix i assume "i < length (le_bytes n (of_nat k :: u64))"
    then show "le_bytes n (of_nat k :: u64) ! i = le_bytes n (of_nat k :: u32) ! i"
      using assms by (intro bit_word_eqI) (simp add: bit_nth_le_bytes bit_of_nat_iff possible_bit_word)
  qed simp
  then show ?thesis by (simp add: be_bytes_def)
qed

lemma der_prefix_length:
  assumes "len \<le> 0xFFFFFFFE"
  obtains init extra where "der_prefix len = Some (init, extra)" "extra \<le> 4"
    "init # be_bytes extra (of_nat len :: u64) = der_length_bytes len"
    "length (der_length_bytes len) = 1 + extra"
proof (cases "len < 128")
  case True
  then have "der_prefix len = Some (of_nat len, 0)" by (simp add: der_prefix_def)
  with True that [of "of_nat len" 0] show thesis by (simp add: der_length_bytes_def be_bytes_def)
next
  case False
  have d: "der_prefix len = Some (0x80 OR of_nat (len_octets len), len_octets len)"
    using assms False by (simp add: der_prefix_def len_octets_def)
  have "len_octets len \<le> 4" by (simp add: len_octets_def)
  with d False that [OF d] show thesis by (simp add: der_length_bytes_def be_bytes_of_nat)
qed

lemma reserve_free:
  assumes "\<not> cbb_error b" "can_resize b" "\<forall>n. realloc_ok b n" "length (buf b) + n < 2 ^ 64"
  obtains c where "cbb_buffer_reserve n b = (Some (), b\<lparr>cap := c\<rparr>)"
  by (rule reserve_writable [of 0 "\<lparr>cbb_base = Some b, cbb_chain = []\<rparr>" b n]) (use assms in \<open>auto simp: writable_def\<close>)

lemma flush_child_asn1:
  assumes "off + 1 + length body < 2 ^ 64" "length (buf b) = off + 1 + length body"
    "drop (off + 1) (buf b) = body" "length body \<le> 0xFFFFFFFE"
    "off + length (der_length_bytes (length body)) + length body < 2 ^ 64"
    "\<not> cbb_error b" "can_resize b" "\<forall>n. realloc_ok b n"
  shows "\<exists>c. flush_child \<lparr>offset = off, pending_len_len = 1, pending_is_asn1 = True\<rparr> b =
    (Some (), b\<lparr>buf := take off (buf b) @ der_length_bytes (length body) @ body, cap := c\<rparr>)"
proof -
  obtain init extra where p: "der_prefix (length body) = Some (init, extra)" "extra \<le> 4"
    "init # be_bytes extra (of_nat (length body) :: u64) = der_length_bytes (length body)"
    "length (der_length_bytes (length body)) = 1 + extra"
    by (rule der_prefix_length [OF assms(4)])
  have start: "size_wrap (Suc off) = Suc off" using assms(1) by (simp add: size_wrap_def)
  have len: "length (buf b) - Suc off = length body" using assms(2) by simp
  have body: "drop (Suc off) (buf b) = body" using assms(3) by simp
  obtain c where c: "(if extra = 0 then (Some (), b) else cbb_buffer_reserve extra b) = (Some (), b\<lparr>cap := c\<rparr>)"
  proof (cases "extra = 0")
    case True
    then have "(if extra = 0 then (Some (), b) else cbb_buffer_reserve extra b) = (Some (), b\<lparr>cap := cap b\<rparr>)" by simp
    then show thesis by (rule that)
  next
    case False
    have "length (buf b) + extra < 2 ^ 64" using assms(2,5) p(4) by simp
    from reserve_free [OF assms(6-8) this] obtain c where "cbb_buffer_reserve extra b = (Some (), b\<lparr>cap := c\<rparr>)" .
    with False have "(if extra = 0 then (Some (), b) else cbb_buffer_reserve extra b) = (Some (), b\<lparr>cap := c\<rparr>)" by simp
    then show thesis by (rule that)
  qed
  have "[init] @ be_bytes extra (of_nat (length body) :: u64) @ body = der_length_bytes (length body) @ body"
    using p(3) by (metis append_Cons append_Nil append_assoc)
  then have "flush_child \<lparr>offset = off, pending_len_len = 1, pending_is_asn1 = True\<rparr> b =
    (Some (), b\<lparr>buf := take off (buf b) @ der_length_bytes (length body) @ body, cap := c\<rparr>)"
    using assms(2) c p(1)
    by (simp add: flush_child_def Let_def start len [simplified assms(2), simplified] body)
  then show ?thesis by blast
qed

lemma flush_child_prefix:
  assumes "0 < n" "n \<le> 4" "off + n + length body < 2 ^ 64" "length (buf b) = off + n + length body"
    "drop (off + n) (buf b) = body" "length body < 2 ^ (8 * n)"
  shows "\<exists>c. flush_child \<lparr>offset = off, pending_len_len = n, pending_is_asn1 = False\<rparr> b =
    (Some (), b\<lparr>buf := take off (buf b) @ be_bytes n (of_nat (length body) :: u64) @ body, cap := c\<rparr>)"
proof -
  have start: "size_wrap (off + n) = off + n" using assms(3) by (simp add: size_wrap_def)
  have len: "length (buf b) - (off + n) = length body" using assms(4) by simp
  have "unat (of_nat (length body) :: u64) = length body" using assms(3) by (simp add: unat_of_nat_size)
  then have "drop_bit (8 * n) (of_nat (length body) :: u64) = 0" using assms(6) by (simp add: drop_bit_zero_iff)
  then have "flush_child \<lparr>offset = off, pending_len_len = n, pending_is_asn1 = False\<rparr> b =
      (Some (), b\<lparr>buf := take off (buf b) @ be_bytes n (of_nat (length body) :: u64) @ body\<rparr>)"
    using assms(4) by (simp add: flush_child_def Let_def start len assms(5))
  moreover have "b\<lparr>buf := take off (buf b) @ be_bytes n (of_nat (length body) :: u64) @ body\<rparr> =
      b\<lparr>buf := take off (buf b) @ be_bytes n (of_nat (length body) :: u64) @ body, cap := cap b\<rparr>" by simp
  ultimately show ?thesis by metis
qed

lemma writes_asn1:
  assumes fill: "writes (Suc d) fill body" and len: "length body \<le> 0xFFFFFFFE"
  shows "writes d (in_child d (CBB_add_asn1 d tag) fill) (der_element tag body)"
proof -
  have "writes d (in_child d (CBB_add_asn1 d tag) fill)
      (der_tag_bytes tag @ der_length_bytes (length body) @ body)"
  proof (rule writes_in_child [OF opens_asn1 _ fill])
    show "(1 :: nat) \<le> length (der_length_bytes (length body))"
      using der_length_bytes_nonempty [of "length body"] by (simp add: Suc_le_eq)
  qed (assumption | rule zero_less_one flush_child_asn1 [OF _ _ _ len])+
  then show ?thesis by (simp add: der_element_def der_header_def)
qed

lemma writes_length_prefixed:
  assumes fill: "writes (Suc d) fill body" and n: "0 < n" "n \<le> 4" and len: "length body < 2 ^ (8 * n)"
  shows "writes d (in_child d (cbb_add_length_prefixed d n) fill)
    (be_bytes n (of_nat (length body) :: u64) @ body)"
proof -
  have "writes d (in_child d (cbb_add_length_prefixed d n) fill)
      ([] @ be_bytes n (of_nat (length body) :: u64) @ body)"
    by (rule writes_in_child [OF opens_length_prefixed n(1) fill])
      (use flush_child_prefix [OF n _ _ _ len] in auto)
  then show ?thesis by simp
qed

lemma writes_octet_string:
  assumes "length data \<le> 0xFFFFFFFE"
  shows "writes d (CBB_add_asn1_octet_string d data) (der_element CBS_ASN1_OCTETSTRING data)"
  using writes_asn1 [OF writes_add_bytes assms] by (simp add: CBB_add_asn1_octet_string_def in_child_def)

end
