(* ===== verification/Cbb_Codec.thy ===== *)
theory Cbb_Codec
  imports Cbb_Der
begin

text \<open>
  Pairs of a writing function of \<open>cbb.c\<close> and a reading function of \<open>cbs.c\<close> as one
  interface, interpreted for every pair: what a builder finishes with is what the reader
  accepts, byte for byte.
\<close>

section \<open>The interface of a pair\<close>

text \<open>A builder from \<open>CBB_init\<close> to \<open>CBB_finish\<close>, with the function that fills it.\<close>

definition cbb_build :: "(nat \<Rightarrow> bool) \<Rightarrow> nat \<Rightarrow> (nat \<Rightarrow> unit cbb_fun) \<Rightarrow> byte list option" where
  "cbb_build alloc n fill =
     (case CBB_init alloc n of
        None \<Rightarrow> None
      | Some cbb \<Rightarrow> fst (bindC (fill 0) (\<lambda>_. CBB_finish 0 True) cbb))"

lemma cbb_build_writes:
  assumes "writes 0 (fill 0) bs" "length bs < 2 ^ 64"
  shows "cbb_build (\<lambda>_. True) n fill = Some bs"
proof -
  let ?b = "cbb_init n True (\<lambda>_. True)"
  let ?cbb = "\<lparr>cbb_base = Some ?b, cbb_chain = []\<rparr>"
  have w: "writable 0 ?cbb ?b" by (simp add: writable_def cbb_init_def)
  have "length (buf ?b) + length bs < 2 ^ 64" using assms(2) by (simp add: cbb_init_def)
  from writesD [OF assms(1) w this] obtain c where
    c: "fill 0 ?cbb = (Some (), ?cbb\<lparr>cbb_base := Some (grown bs c ?b)\<rparr>)" .
  have "writable 0 (?cbb\<lparr>cbb_base := Some (grown bs c ?b)\<rparr>) (grown bs c ?b)"
    using w by (simp add: writable_def)
  from flush_writable [OF this] c show ?thesis
    by (simp add: cbb_build_def CBB_init_def CBB_finish_def) (simp add: cbb_init_def)
qed

locale cbb_codec = byte_format parse bytes valid
  for parse :: "(CBS, 'v) cfun" and bytes :: "'v \<Rightarrow> byte list" and valid :: "'v \<Rightarrow> bool" +
  fixes add :: "nat \<Rightarrow> 'v \<Rightarrow> unit cbb_fun"
  assumes add_writes: "valid v \<Longrightarrow> writes d (add d v) (bytes v)"
    and short: "valid v \<Longrightarrow> length (bytes v) < 2 ^ 64"
begin

lemma build_bytes: "valid v \<Longrightarrow> cbb_build (\<lambda>_. True) n (\<lambda>d. add d v) = Some (bytes v)"
  using cbb_build_writes [of "\<lambda>d. add d v"] add_writes [of v 0] short [of v] by blast

lemma roundtrip:
  assumes "valid v"
  shows "\<exists>der. cbb_build (\<lambda>_. True) n (\<lambda>d. add d v) = Some der \<and> parse (der @ rest) = (Some v, rest)"
  using build_bytes [OF assms] parse_bytes [OF assms] by blast

text \<open>The reader accepts what the builder writes and nothing else.\<close>

lemma reads_iff_written:
  "parse cbs = (Some v, rest) \<longleftrightarrow>
    valid v \<and> (\<exists>der. cbb_build (\<lambda>_. True) n (\<lambda>d. add d v) = Some der \<and> cbs = der @ rest)"
  by (auto simp: parse_iff build_bytes)

end

section \<open>Integers of fixed width\<close>

interpretation u8c: cbb_codec CBS_get_u8 "\<lambda>b. [b]" "\<lambda>_. True" CBB_add_u8
  by unfold_locales auto

interpretation u16c: cbb_codec CBS_get_u16 "be_bytes 2" "\<lambda>_. True" CBB_add_u16
  by unfold_locales auto

interpretation u24c: cbb_codec CBS_get_u24 "be_bytes 3" "\<lambda>w. take_bit 24 w = w" CBB_add_u24
  by unfold_locales auto

interpretation u32c: cbb_codec CBS_get_u32 "be_bytes 4" "\<lambda>_. True" CBB_add_u32
  by unfold_locales auto

interpretation base128c: cbb_codec parse_base128_integer base128_bytes "\<lambda>_. True" add_base128_integer
  by unfold_locales (auto intro: le_less_trans [OF length_base128_bytes])

section \<open>Length-prefixed strings\<close>

definition prefixed_bytes :: "nat \<Rightarrow> byte list \<Rightarrow> byte list" where
  "prefixed_bytes n body = be_bytes n (of_nat (length body) :: u32) @ body"

lemma length_unat_u32:
  assumes "n \<le> 4" "length body < 2 ^ (8 * n)"
  shows "unat (of_nat (length body) :: u32) = length body"
proof -
  have "(2 :: nat) ^ (8 * n) \<le> 2 ^ 32" using assms(1) by (intro power_increasing) auto
  with assms(2) have "length body < 2 ^ 32" by linarith
  then show ?thesis by (simp add: unat_of_nat take_bit_nat_eq_self flip: take_bit_eq_mod)
qed

lemma byte_format_prefixed:
  assumes "n \<le> 4"
  shows "byte_format (cbs_get_length_prefixed n) (prefixed_bytes n) (\<lambda>body. length body < 2 ^ (8 * n))"
proof unfold_locales
  fix body rest assume l: "length (body :: byte list) < 2 ^ (8 * n)"
  have u: "unat (of_nat (length body) :: u32) = length body" by (rule length_unat_u32 [OF assms l])
  have "take_bit (8 * n) (length body) = length body" using l by (simp add: take_bit_nat_eq_self)
  then have "take_bit (8 * n) (of_nat (length body) :: u32) = of_nat (length body)"
    by (metis take_bit_of_nat)
  with cbs_get_u_be [OF assms, of "of_nat (length body)" "body @ rest"]
  have "cbs_get_u n (be_bytes n (of_nat (length body) :: u32) @ body @ rest) = (Some (of_nat (length body)), body @ rest)"
    by simp
  then show "cbs_get_length_prefixed n (prefixed_bytes n body @ rest) = (Some body, rest)"
    by (simp add: cbs_get_length_prefixed_def prefixed_bytes_def CBS_get_bytes_append u)
next
  fix cbs body rest assume "cbs_get_length_prefixed n cbs = (Some body, rest)"
  then obtain w r where w: "cbs_get_u n cbs = (Some w, r)" and b: "CBS_get_bytes (unat w) r = (Some body, rest)"
    unfolding cbs_get_length_prefixed_def by (rule bindC_SomeE)
  from cbs_get_u_SomeD [OF w assms] CBS_get_bytes_SomeD [OF b]
  have cbs: "cbs = be_bytes n w @ body @ rest" "take_bit (8 * n) w = w" "length body = unat w" by simp_all
  then have "(of_nat (length body) :: u32) = w" by simp
  moreover have "unat w < 2 ^ (8 * n)"
    using cbs(2) by (metis take_bit_nat_less_exp unsigned_take_bit_eq)
  ultimately show "length body < 2 ^ (8 * n) \<and> cbs = prefixed_bytes n body @ rest"
    using cbs by (simp add: prefixed_bytes_def)
qed

definition add_prefixed :: "nat \<Rightarrow> nat \<Rightarrow> byte list \<Rightarrow> unit cbb_fun" where
  "add_prefixed n d body = in_child d (cbb_add_length_prefixed d n) (CBB_add_bytes (Suc d) body)"

lemma cbb_codec_prefixed:
  assumes "0 < n" "n \<le> 4"
  shows "cbb_codec (cbs_get_length_prefixed n) (prefixed_bytes n) (\<lambda>body. length body < 2 ^ (8 * n)) (add_prefixed n)"
proof (intro cbb_codec.intro cbb_codec_axioms.intro byte_format_prefixed [OF assms(2)])
  fix body :: "byte list" and d assume l: "length body < 2 ^ (8 * n)"
  have "be_bytes n (of_nat (length body) :: u64) = be_bytes n (of_nat (length body) :: u32)"
    by (rule be_bytes_of_nat [OF assms(2)])
  with writes_length_prefixed [OF writes_add_bytes assms l]
  show "writes d (add_prefixed n d body) (prefixed_bytes n body)"
    by (simp add: add_prefixed_def prefixed_bytes_def)
next
  fix body :: "byte list" assume l: "length body < 2 ^ (8 * n)"
  have "(2 :: nat) ^ (8 * n) \<le> 2 ^ 32" using assms(2) by (intro power_increasing) auto
  with l assms(2) show "length (prefixed_bytes n body) < 2 ^ 64" by (simp add: prefixed_bytes_def)
qed

interpretation u8_prefixed: cbb_codec CBS_get_u8_length_prefixed "prefixed_bytes 1"
  "\<lambda>body. length body < 2 ^ 8" "add_prefixed 1"
  using cbb_codec_prefixed [of 1] by (simp add: CBS_get_u8_length_prefixed_def)

interpretation u16_prefixed: cbb_codec CBS_get_u16_length_prefixed "prefixed_bytes 2"
  "\<lambda>body. length body < 2 ^ 16" "add_prefixed 2"
  using cbb_codec_prefixed [of 2] by (simp add: CBS_get_u16_length_prefixed_def)

interpretation u24_prefixed: cbb_codec CBS_get_u24_length_prefixed "prefixed_bytes 3"
  "\<lambda>body. length body < 2 ^ 24" "add_prefixed 3"
  using cbb_codec_prefixed [of 3] by (simp add: CBS_get_u24_length_prefixed_def)

section \<open>OCTET STRING and BOOLEAN\<close>

text \<open>The writer refuses a body of \<open>2 ^ 32 - 1\<close> bytes that the reader would accept.\<close>

lemma length_der_element: "length (der_element tag body) \<le> length body + 16"
  using length_der_header [of tag "length body"] by (simp add: der_element_def)

lemma octet_string_codec:
  assumes "length data \<le> 0xFFFFFFFE"
  shows "cbb_build (\<lambda>_. True) n (\<lambda>d. CBB_add_asn1_octet_string d data) = Some (der_element CBS_ASN1_OCTETSTRING data)"
proof (rule cbb_build_writes)
  show "writes 0 (CBB_add_asn1_octet_string 0 data) (der_element CBS_ASN1_OCTETSTRING data)"
    by (rule writes_octet_string [OF assms])
  show "length (der_element CBS_ASN1_OCTETSTRING data) < 2 ^ 64"
    using length_der_element [of CBS_ASN1_OCTETSTRING data] assms by simp
qed

definition bool_body :: "bool \<Rightarrow> byte list" where
  "bool_body v = [if v then 0xFF else 0]"

interpretation bool_codec: cbb_codec CBS_get_asn1_bool "\<lambda>v. der_element CBS_ASN1_BOOLEAN (bool_body v)"
  "\<lambda>_. True" "\<lambda>d v. CBB_add_asn1_bool d (if v then 1 else 0)"
proof unfold_locales
  show "CBS_get_asn1_bool (der_element CBS_ASN1_BOOLEAN (bool_body v) @ rest) = (Some v, rest)" for v rest
    by (simp add: CBS_get_asn1_bool_def asn1.bind_bytes bool_body_def retC_def)
next
  fix cbs v rest assume "CBS_get_asn1_bool cbs = (Some v, rest)"
  then obtain data r where d: "length data < 2 ^ 32" "cbs = der_element CBS_ASN1_BOOLEAN data @ r"
    "(if length data \<noteq> 1 then failC else if hd data \<noteq> 0 \<and> hd data \<noteq> 0xFF then failC
      else retC (hd data \<noteq> 0)) r = (Some v, rest)"
    unfolding CBS_get_asn1_bool_def by (rule asn1.bind_SomeE)
  then have "length data = 1" "hd data = 0 \<or> hd data = 0xFF" "v = (hd data \<noteq> 0)" "r = rest"
    by (auto simp: failC_def retC_def split: if_splits)
  with d show "True \<and> cbs = der_element CBS_ASN1_BOOLEAN (bool_body v) @ rest"
    by (cases data) (auto simp: bool_body_def)
next
  show "writes d (CBB_add_asn1_bool d (if v then 1 else 0)) (der_element CBS_ASN1_BOOLEAN (bool_body v))" for v d
    using writes_asn1 [OF writes_ints(1), of "if v then 0xFF else 0" d CBS_ASN1_BOOLEAN]
    by (cases v) (simp_all add: CBB_add_asn1_bool_def in_child_def bool_body_def)
next
  show "length (der_element CBS_ASN1_BOOLEAN (bool_body v)) < 2 ^ 64" for v
    using length_der_element [of CBS_ASN1_BOOLEAN "bool_body v"] by (simp add: bool_body_def)
qed

section \<open>INTEGER\<close>

text \<open>The octets of an INTEGER: no leading zeros, but one before a set top bit.\<close>

definition strip :: "byte list \<Rightarrow> byte list" where
  "strip = dropWhile (\<lambda>b. b = 0)"

lemma strip_simps [simp]:
  "strip [] = []"
  "strip (b # bs) = (if b = 0 then strip bs else b # bs)"
  "strip (strip bs) = strip bs"
  by (simp_all add: strip_def dropWhile_idem)

definition uint64_body :: "u64 \<Rightarrow> byte list" where
  "uint64_body v =
     (let d = strip (be_bytes 8 v)
      in if d = [] then [0] else if hd d AND 0x80 \<noteq> 0 then 0 # d else d)"

lemma le_word_zeros: "le_word (bs @ replicate n 0) = (le_word bs :: 'a::len word)"
proof -
  have "le_word (replicate n 0) = (0 :: 'a word)" by (induction n) auto
  then show ?thesis by (induction bs) auto
qed

lemma be_bytes_8_le_word:
  assumes "length d \<le> 8"
  shows "be_bytes 8 (le_word (rev d) :: u64) = replicate (8 - length d) 0 @ d"
proof -
  have "le_bytes (length (rev d @ replicate (8 - length d) 0)) (le_word (rev d @ replicate (8 - length d) 0) :: u64) =
      rev d @ replicate (8 - length d) 0"
    by (rule le_bytes_le_word) (use assms in simp)
  then show ?thesis using assms by (simp add: be_bytes_def le_word_zeros)
qed

lemma strip_zeros [simp]: "strip (replicate n 0 @ d) = strip d"
  by (induction n) auto

lemma strip_Nil: "strip d = [] \<longleftrightarrow> le_word (rev d) = (0 :: u64)" if "length d \<le> 8"
proof
  assume "strip d = []"
  then have "d = replicate (length d) 0" by (simp add: strip_def replicate_length_same)
  then show "le_word (rev d) = (0 :: u64)" by (metis append_Nil le_word.simps(1) le_word_zeros rev_replicate)
next
  assume "le_word (rev d) = (0 :: u64)"
  with be_bytes_8_le_word [OF that] have "replicate (8 - length d) 0 @ d = be_bytes 8 (0 :: u64)" by simp
  also have "\<dots> = replicate 8 0" by (simp add: be_bytes_def le_bytes_def numeral_eq_Suc)
  finally have "\<forall>b \<in> set d. b = 0" by (metis Un_iff in_set_replicate set_append)
  then show "strip d = []" by (simp add: strip_def)
qed

lemma top_byte:
  assumes "hd d \<noteq> 0" "d \<noteq> []" "length d \<le> 8"
  shows "drop_bit 56 (le_word (rev d) :: u64) = 0 \<longleftrightarrow> length d < 8"
proof
  assume l: "length d < 8"
  show "drop_bit 56 (le_word (rev d) :: u64) = 0"
    by (rule bit_word_eqI) (use l in \<open>auto simp: bit_drop_bit_eq bit_le_word\<close>)
next
  assume z: "drop_bit 56 (le_word (rev d) :: u64) = 0"
  show "length d < 8"
  proof (rule ccontr)
    assume "\<not> length d < 8"
    with assms have l: "length d = 8" by simp
    with assms have h: "rev d ! 7 = hd d" by (simp add: rev_nth hd_conv_nth)
    have "bit (hd d) j = bit 0 j" if "j < 8" for j
    proof -
      have "(56 + j) div 8 = 7" "(56 + j) mod 8 = j" using that by presburger+
      then have "bit (drop_bit 56 (le_word (rev d) :: u64)) j = bit (hd d) j"
        using that l h by (simp add: bit_drop_bit_eq bit_le_word)
      with z show ?thesis by simp
    qed
    then have "hd d = 0" by (intro bit_word_eqI) simp
    with assms show False by simp
  qed
qed

lemma uint64_loop_started:
  assumes "hd acc \<noteq> 0" "acc \<noteq> []" "length acc \<le> 8"
  shows "uint64_loop (le_word (rev acc)) bs =
    (if length acc + length bs \<le> 8 then Some (le_word (rev (acc @ bs))) else None)"
  using assms
proof (induction bs arbitrary: acc)
  case (Cons b bs)
  show ?case
  proof (cases "length acc < 8")
    case True
    have "uint64_loop (le_word (rev acc)) (b # bs) = uint64_loop (le_word (rev (acc @ [b]))) bs"
      using top_byte [OF Cons.prems] True by (simp add: or.commute)
    also have "\<dots> = (if length (acc @ [b]) + length bs \<le> 8 then Some (le_word (rev ((acc @ [b]) @ bs))) else None)"
      using Cons.prems True by (intro Cons.IH) auto
    finally show ?thesis by simp
  next
    case False
    with top_byte [OF Cons.prems] Cons.prems show ?thesis by simp
  qed
qed simp

lemma uint64_loop_strip:
  "uint64_loop 0 bs = (if length (strip bs) \<le> 8 then Some (le_word (rev (strip bs))) else None)"
proof (induction bs)
  case (Cons b bs)
  show ?case
  proof (cases "b = 0")
    case False
    then show ?thesis using uint64_loop_started [of "[b]" bs] by (simp add: or.commute)
  qed (use Cons in simp)
qed simp

lemma le_word_strip: "le_word (rev (strip bs)) = (le_word (rev bs) :: 'a::len word)"
proof (induction bs)
  case (Cons b bs)
  then show ?case using le_word_zeros [of "rev bs" 1, where 'a = 'a] by simp
qed simp

lemma hd_strip: "strip bs \<noteq> [] \<Longrightarrow> hd (strip bs) \<noteq> 0"
  using hd_dropWhile [of "\<lambda>b. b = 0" bs] by (simp add: strip_def)

lemma length_strip: "length (strip (be_bytes 8 v)) \<le> 8"
  using length_dropWhile_le [of "\<lambda>b. b = 0" "be_bytes 8 v"] by (simp add: strip_def)

lemma le_word_strip_be: "le_word (rev (strip (be_bytes 8 v))) = (v :: u64)"
  by (simp add: le_word_strip be_bytes_def le_word_le_bytes_full)

text \<open>The conditions that \<open>CBS_get_asn1_uint64\<close> checks.\<close>

definition uint64_ok :: "byte list \<Rightarrow> bool" where
  "uint64_ok data \<longleftrightarrow> data \<noteq> [] \<and> data ! 0 AND 0x80 = 0 \<and>
     \<not> (data ! 0 = 0 \<and> length data > 1 \<and> data ! 1 AND 0x80 = 0)"

lemma CBS_get_asn1_uint64_cond:
  "CBS_get_asn1_uint64 =
     bindC (CBS_get_asn1 CBS_ASN1_INTEGER) (\<lambda>data.
       if uint64_ok data then (case uint64_loop 0 data of None \<Rightarrow> failC | Some out \<Rightarrow> retC out) else failC)"
  unfolding CBS_get_asn1_uint64_def
  by (rule arg_cong [of _ _ "bindC (CBS_get_asn1 CBS_ASN1_INTEGER)"]) (auto simp: uint64_ok_def fun_eq_iff)

lemma uint64_body_read: "uint64_ok (uint64_body v) \<and> uint64_loop 0 (uint64_body v) = Some v"
proof -
  let ?d = "strip (be_bytes 8 v)"
  have "uint64_ok (uint64_body v)"
    using hd_strip [of "be_bytes 8 v"] by (auto simp: uint64_body_def uint64_ok_def Let_def hd_conv_nth)
  moreover have "strip (uint64_body v) = ?d"
    by (simp add: uint64_body_def Let_def)
  ultimately show ?thesis using length_strip le_word_strip_be by (simp add: uint64_loop_strip)
qed

lemma uint64_body_sound:
  assumes ok: "uint64_ok data" and v: "uint64_loop 0 data = Some v"
  shows "data = uint64_body v"
proof -
  let ?d = "strip data"
  from v have l: "length ?d \<le> 8" and v: "v = le_word (rev ?d)"
    by (simp_all add: uint64_loop_strip split: if_splits)
  have d: "strip (be_bytes 8 v) = ?d"
    unfolding v be_bytes_8_le_word [OF l] strip_zeros by simp
  from ok obtain b bs where data: "data = b # bs" by (cases data) (auto simp: uint64_ok_def)
  show ?thesis
  proof (cases "b = 0")
    case True
    show ?thesis
    proof (cases bs)
      case Nil
      with True data d show ?thesis by (simp add: uint64_body_def Let_def)
    next
      case (Cons c cs)
      with ok True data have "c AND 0x80 \<noteq> 0" by (simp add: uint64_ok_def)
      moreover from this have "c \<noteq> 0" by auto
      ultimately show ?thesis using True data d Cons by (simp add: uint64_body_def Let_def)
    qed
  next
    case False
    with ok data d show ?thesis by (simp add: uint64_body_def Let_def uint64_ok_def)
  qed
qed

lemma bindC_assoc: "bindC (bindC m f) g = bindC m (\<lambda>x. bindC (f x) g)"
  by (rule ext) (auto simp: bindC_def split: prod.splits option.splits)

lemma writes_uint64_loop:
  assumes "\<And>s. writes d (k s) (ks s)"
  shows "writes d (bindC (add_uint64_loop d started bs) k)
    (if started then bs @ ks True
     else if strip bs = [] then ks False
     else (if hd (strip bs) AND 0x80 \<noteq> 0 then [0] else []) @ strip bs @ ks True)"
proof (induction bs arbitrary: started)
  case Nil
  then show ?case using assms by auto
next
  case (Cons b bs)
  show ?case
  proof (cases "\<not> started \<and> b = 0")
    case True
    with Cons.IH [of False] show ?thesis by (simp split: if_splits)
  next
    case False
    have rest: "writes d (bindC (add_uint64_loop d True bs) k) (bs @ ks True)"
      using Cons.IH [of True] by simp
    have zero: "writes d (if \<not> started \<and> b AND 0x80 \<noteq> 0 then CBB_add_u8 d 0 else retC ())
        (if \<not> started \<and> b AND 0x80 \<noteq> 0 then [0] else [])"
      by (simp add: writes_ints writes_ret)
    from writes_bind [OF zero writes_bind [OF writes_ints(1) [of d b] rest]] False
    show ?thesis by (auto simp: bindC_assoc)
  qed
qed

lemma writes_uint64: "writes d (CBB_add_asn1_uint64 d v) (der_element CBS_ASN1_INTEGER (uint64_body v))"
proof -
  let ?k = "\<lambda>started. if \<not> started then CBB_add_u8 (Suc d) 0 else retC ()"
  have k: "writes (Suc d) (?k s) (if s then [] else [0])" for s by (simp add: writes_ints writes_ret)
  have "(if False then be_bytes 8 v @ [] else if strip (be_bytes 8 v) = [] then [0]
      else (if hd (strip (be_bytes 8 v)) AND 0x80 \<noteq> 0 then [0] else []) @ strip (be_bytes 8 v) @ []) = uint64_body v"
    by (simp add: uint64_body_def Let_def)
  with writes_uint64_loop [where k = ?k and ks = "\<lambda>s. if s then [] else [0]" and started = False and bs = "be_bytes 8 v", OF k]
  have "writes (Suc d) (bindC (add_uint64_loop (Suc d) False (be_bytes 8 v)) ?k) (uint64_body v)"
    by (simp only: if_True if_False)
  moreover have "length (uint64_body v) \<le> 9"
    using length_strip [of v] by (simp add: uint64_body_def Let_def)
  then have "length (uint64_body v) \<le> 0xFFFFFFFE" by simp
  ultimately have "writes d (in_child d (CBB_add_asn1 d CBS_ASN1_INTEGER)
      (bindC (add_uint64_loop (Suc d) False (be_bytes 8 v)) ?k)) (der_element CBS_ASN1_INTEGER (uint64_body v))"
    by (rule writes_asn1)
  then show ?thesis by (simp only: CBB_add_asn1_uint64_def in_child_def bindC_assoc)
qed

interpretation uint64_codec: cbb_codec CBS_get_asn1_uint64 "\<lambda>v. der_element CBS_ASN1_INTEGER (uint64_body v)"
  "\<lambda>_. True" CBB_add_asn1_uint64
proof unfold_locales
  have short: "length (uint64_body v) \<le> 9" for v
    using length_strip [of v] by (simp add: uint64_body_def Let_def)
  then have "length (uint64_body v) < 2 ^ 32" for v by (rule le_less_trans) simp
  then show "CBS_get_asn1_uint64 (der_element CBS_ASN1_INTEGER (uint64_body v) @ rest) = (Some v, rest)" for v rest
    using uint64_body_read [of v] by (simp add: CBS_get_asn1_uint64_cond asn1.bind_bytes retC_def)
  show "length (der_element CBS_ASN1_INTEGER (uint64_body v)) < 2 ^ 64" for v
    using length_der_element [of CBS_ASN1_INTEGER "uint64_body v"] short [of v] by simp
next
  fix cbs v rest assume "CBS_get_asn1_uint64 cbs = (Some v, rest)"
  then obtain data r where d: "cbs = der_element CBS_ASN1_INTEGER data @ r"
    "(if uint64_ok data then (case uint64_loop 0 data of None \<Rightarrow> failC | Some out \<Rightarrow> retC out) else failC) r =
      (Some v, rest)"
    unfolding CBS_get_asn1_uint64_cond by (rule asn1.bind_SomeE)
  then have "uint64_ok data" "uint64_loop 0 data = Some v" "r = rest"
    by (auto simp: failC_def retC_def split: if_splits option.splits)
  with uint64_body_sound d(1) show "True \<and> cbs = der_element CBS_ASN1_INTEGER (uint64_body v) @ rest" by simp
qed (rule writes_uint64)

section \<open>Properties\<close>

text \<open>C11: \<open>CBS_get_asn1_uint64\<close> accepts exactly what \<open>CBB_add_asn1_uint64\<close> writes: it
  returns \<open>v\<close> and leaves \<open>rest\<close> if and only if the input is the DER INTEGER that a builder
  makes of \<open>v\<close>, followed by \<open>rest\<close>.  So every 64-bit value is read back and no second
  encoding of a value is accepted.\<close>

theorem uint64_reads_iff_written:
  "CBS_get_asn1_uint64 cbs = (Some v, rest) \<longleftrightarrow>
    (\<exists>der. cbb_build (\<lambda>_. True) n (\<lambda>d. CBB_add_asn1_uint64 d v) = Some der \<and> cbs = der @ rest)"
  using uint64_codec.reads_iff_written [of cbs v rest n] by simp

text \<open>C15: \<open>parse_base128_integer\<close> accepts exactly what \<open>add_base128_integer\<close> writes; in
  particular overlong forms that start with 0x80 are refused.\<close>

theorem base128_reads_iff_written:
  "parse_base128_integer cbs = (Some v, rest) \<longleftrightarrow>
    (\<exists>der. cbb_build (\<lambda>_. True) n (\<lambda>d. add_base128_integer d v) = Some der \<and> cbs = der @ rest)"
  using base128c.reads_iff_written [of cbs v rest n] by simp

text \<open>A body that does not fit its length prefix makes the flush of the child fail.\<close>

lemma flush_child_too_long:
  assumes "off + n + length body < 2 ^ 64" "length (buf b) = off + n + length body"
    "2 ^ (8 * n) \<le> length body"
  shows "fst (flush_child \<lparr>offset = off, pending_len_len = n, pending_is_asn1 = False\<rparr> b) = None"
proof -
  have start: "size_wrap (off + n) = off + n" using assms(1) by (simp add: size_wrap_def)
  have "unat (of_nat (length body) :: u64) = length body" using assms(1) by (simp add: unat_of_nat_size)
  then have "drop_bit (8 * n) (of_nat (length body) :: u64) \<noteq> 0" using assms(3) by (simp add: drop_bit_zero_iff)
  then show ?thesis using assms(2) by (simp add: flush_child_def Let_def start)
qed

lemma build_prefixed_too_long:
  assumes "0 < n" "2 ^ (8 * n) \<le> length body" "n + length body < 2 ^ 64"
  shows "cbb_build (\<lambda>_. True) k (\<lambda>d. add_prefixed n d body) = None"
proof -
  let ?b = "cbb_init k True (\<lambda>_. True)" and ?ch = "\<lparr>offset = 0, pending_len_len = n, pending_is_asn1 = False\<rparr>"
  let ?cbb = "\<lparr>cbb_base = Some ?b, cbb_chain = []\<rparr>"
  have "writable 0 ?cbb ?b" by (simp add: writable_def cbb_init_def)
  moreover have "length (buf ?b) = 0" by (simp add: cbb_init_def)
  ultimately obtain c1 where c1: "cbb_add_length_prefixed 0 n ?cbb =
      (Some (), \<lparr>cbb_base = Some (grown (replicate n 0) c1 ?b), cbb_chain = [?ch]\<rparr>)"
    using opens_length_prefixed [of 0 n] assms(3) by (fastforce simp: opens_def)
  let ?cbb1 = "\<lparr>cbb_base = Some (grown (replicate n 0) c1 ?b), cbb_chain = [?ch]\<rparr>"
  have w1: "writable (Suc 0) ?cbb1 (grown (replicate n 0) c1 ?b)" by (simp add: writable_def cbb_init_def)
  have "length (buf (grown (replicate n 0) c1 ?b)) + length body < 2 ^ 64"
    using assms(3) by (simp add: cbb_init_def)
  from writesD [OF writes_add_bytes w1 this] obtain c2 where
    c2: "CBB_add_bytes (Suc 0) body ?cbb1 =
      (Some (), \<lparr>cbb_base = Some (grown (replicate n 0 @ body) c2 ?b), cbb_chain = [?ch]\<rparr>)" by auto
  have "fst (flush_child ?ch (grown (replicate n 0 @ body) c2 ?b)) = None"
    using flush_child_too_long [of 0 n body "grown (replicate n 0 @ body) c2 ?b"] assms by (simp add: cbb_init_def)
  then obtain b' where b': "flush_child ?ch (grown (replicate n 0 @ body) c2 ?b) = (None, b')"
    by (cases "flush_child ?ch (grown (replicate n 0 @ body) c2 ?b)") simp
  have "\<not> cbb_error (grown (replicate n 0 @ body) c2 ?b)" by (simp add: cbb_init_def)
  with b' assms(1) have "fst (CBB_flush 0 \<lparr>cbb_base = Some (grown (replicate n 0 @ body) c2 ?b), cbb_chain = [?ch]\<rparr>) = None"
    by (simp add: CBB_flush_def on_base_def)
  with c1 c2 show ?thesis
    by (auto simp: cbb_build_def CBB_init_def add_prefixed_def in_child_def bindC_def split: prod.splits option.splits)
qed

text \<open>C14: \<open>CBS_get_u16_length_prefixed\<close> returns \<open>body\<close> if and only if the input starts with
  what \<open>CBB_add_u16_length_prefixed\<close>, \<open>CBB_add_bytes\<close> of the child and \<open>CBB_flush\<close> make of it;
  in particular \<open>CBB_flush\<close> refuses a body of \<open>2 ^ 16\<close> bytes or more instead of writing a cut-off
  length.\<close>

theorem u16_prefixed_reads_iff_written:
  assumes "length body < 2 ^ 63"
  shows "CBS_get_u16_length_prefixed cbs = (Some body, rest) \<longleftrightarrow>
    (\<exists>out. cbb_build (\<lambda>_. True) n (\<lambda>d. bindC (CBB_add_u16_length_prefixed d) (\<lambda>_.
        bindC (CBB_add_bytes (Suc d) body) (\<lambda>_. CBB_flush d))) = Some out \<and> cbs = out @ rest)"
proof -
  have "cbb_build (\<lambda>_. True) n (\<lambda>d. add_prefixed 2 d body) = None" if "\<not> length body < 2 ^ 16"
    using build_prefixed_too_long [of 2 body n] that assms by simp
  with u16_prefixed.reads_iff_written [of cbs body rest n] show ?thesis
    by (auto simp: add_prefixed_def in_child_def CBB_add_u16_length_prefixed_def)
qed

theorem u16_prefixed_reads_iff_written_witness:
  "\<exists>out. cbb_build (\<lambda>_. True) 1 (\<lambda>d. bindC (CBB_add_u16_length_prefixed d) (\<lambda>_.
        bindC (CBB_add_bytes (Suc d) [7, 8]) (\<lambda>_. CBB_flush d))) = Some out \<and> [0, 2, 7, 8, 9] = out @ [9]"
proof -
  have "CBS_get_u16_length_prefixed [0, 2, 7, 8, 9] = (Some [7, 8], [9])" by code_simp
  with u16_prefixed_reads_iff_written [of "[7, 8]" "[0, 2, 7, 8, 9]" "[9]" 1] show ?thesis by simp
qed

text \<open>C13: An octet string that \<open>CBB_add_asn1_octet_string\<close> adds to a builder is read back by
  \<open>CBS_get_asn1\<close>, whatever follows it, for every length up to the limit of four
  length octets that \<open>CBB_flush\<close> writes.\<close>

theorem octet_string_roundtrip:
  assumes "length data \<le> 0xFFFFFFFE"
  shows "\<exists>der. cbb_build (\<lambda>_. True) n (\<lambda>d. CBB_add_asn1_octet_string d data) = Some der \<and>
    CBS_get_asn1 CBS_ASN1_OCTETSTRING (der @ rest) = (Some data, rest)"
proof -
  have "length data < 2 ^ 32" using assms by simp
  with octet_string_codec [OF assms] show ?thesis by (auto simp: asn1.parse_bytes)
qed

theorem octet_string_roundtrip_witness:
  "\<exists>der. cbb_build (\<lambda>_. True) 0 (\<lambda>d. CBB_add_asn1_octet_string d [1, 2, 3]) = Some der \<and>
    CBS_get_asn1 CBS_ASN1_OCTETSTRING (der @ [9]) = (Some [1, 2, 3], [9])"
  by (rule octet_string_roundtrip) simp

end
