(* ===== verification/Cbb_Error.thy ===== *)
theory Cbb_Error
  imports Cbb_Inv
begin

text \<open>
  The error flag of a builder: the operations that write bytes or open a child set it when they
  fail on an attached builder, no operation clears it, and \<open>CBB_finish\<close> refuses a builder that
  has it.  So a caller may ignore the results of these calls and look at the last one only.
  \<open>CBB_did_write\<close>, \<open>CBB_add_asn1_oid_from_text\<close> on a malformed text and
  \<open>CBB_flush_asn1_set_of\<close> without memory for the sort fail without the flag.
\<close>

section \<open>Failures set the flag\<close>

definition poisoned :: "CBB \<Rightarrow> bool" where
  "poisoned cbb \<longleftrightarrow> (case cbb_base cbb of None \<Rightarrow> False | Some b \<Rightarrow> cbb_error b)"

definition attached :: "nat \<Rightarrow> CBB \<Rightarrow> bool" where
  "attached d cbb \<longleftrightarrow> cbb_base cbb \<noteq> None \<and> d \<le> length (cbb_chain cbb)"

text \<open>
  Called on a builder at depth \<open>d\<close>, the operation sets the flag when it fails, and
  leaves a builder at depth \<open>d'\<close> when it succeeds.
\<close>

definition reports :: "nat \<Rightarrow> 'a cbb_fun \<Rightarrow> nat \<Rightarrow> bool" where
  "reports d f d' \<longleftrightarrow> (\<forall>cbb r cbb'. attached d cbb \<longrightarrow> f cbb = (r, cbb') \<longrightarrow>
     (if r = None then poisoned cbb' else attached d' cbb'))"

lemma reportsD:
  assumes "reports d f d'" "attached d cbb" "f cbb = (r, cbb')"
  shows "r = None \<Longrightarrow> poisoned cbb'" "r \<noteq> None \<Longrightarrow> attached d' cbb'"
  using assms by (auto simp: reports_def split: if_splits)

lemma reports_bind [intro]:
  assumes f: "reports d f d'" and g: "\<And>x. reports d' (g x) d''"
  shows "reports d (bindC f g) d''"
  unfolding reports_def
proof (intro allI impI)
  fix cbb r cbb' assume a: "attached d cbb" and run: "bindC f g cbb = (r, cbb')"
  obtain r1 cbb1 where r1: "f cbb = (r1, cbb1)" by (cases "f cbb")
  show "if r = None then poisoned cbb' else attached d'' cbb'"
  proof (cases r1)
    case None
    with run r1 reportsD(1) [OF f a r1] show ?thesis by simp
  next
    case (Some x)
    with run r1 have "g x cbb1 = (r, cbb')" by simp
    with reportsD(2) [OF f a r1] Some reportsD [OF g _ this] show ?thesis by auto
  qed
qed

lemma reports_ret [intro, simp]: "reports d (retC x) d"
  by (simp add: reports_def retC_def)

lemma reports_down: "reports d f d' \<Longrightarrow> d \<le> e \<Longrightarrow> reports e f d'"
  by (auto simp: reports_def attached_def)

lemma reports_state: "(\<And>c. reports d (f c) d') \<Longrightarrow> reports d (\<lambda>cbb. f (base_len cbb) cbb) d'"
  by (auto simp: reports_def)

lemma reports_on_base [intro]:
  assumes "\<And>b b'. f b = (None, b') \<Longrightarrow> cbb_error b'"
  shows "reports d (on_base f) d"
  using assms by (auto simp: reports_def on_base_def attached_def poisoned_def split: option.splits prod.splits)

lemma flush_child_error: "flush_child ch b = (None, b') \<Longrightarrow> cbb_error b'"
  by (auto simp: flush_child_def Let_def split: if_splits option.splits prod.splits)

lemma flush_chain_error: "flush_chain chain b = (False, rest, b') \<Longrightarrow> cbb_error b'"
  by (cases chain) (auto split: if_splits option.splits prod.splits bool.splits dest: flush_child_error)

lemma reports_flush [intro, simp]: "reports d (CBB_flush d) d"
  by (auto simp: reports_def CBB_flush_def attached_def poisoned_def
      split: if_splits option.splits prod.splits dest: flush_chain_error)

lemma reserve_error: "cbb_buffer_reserve n b = (None, b') \<Longrightarrow> cbb_error b'"
  by (auto simp: cbb_buffer_reserve_def Let_def split: if_splits)

lemma add_error: "cbb_buffer_add bs b = (None, b') \<Longrightarrow> cbb_error b'"
  by (auto simp: cbb_buffer_add_def bindC_def split: option.splits prod.splits dest: reserve_error)

lemma add_u_error: "cbb_buffer_add_u v n b = (None, b') \<Longrightarrow> cbb_error b'"
  by (auto simp: cbb_buffer_add_u_def bindC_def retC_def split: option.splits prod.splits if_splits dest: add_error)

lemma reports_add_u [intro, simp]: "reports d (cbb_add_u d v n) d"
  unfolding cbb_add_u_def using add_u_error by blast

lemma reports_add_ints [intro, simp]:
  "reports d (CBB_add_u8 d v8) d" "reports d (CBB_add_u16 d v16) d"
  "reports d (CBB_add_u24 d v) d" "reports d (CBB_add_u32 d v) d"
  by (simp_all add: CBB_add_u8_def CBB_add_u16_def CBB_add_u24_def CBB_add_u32_def)

lemma reports_add_bytes [intro, simp]:
  "reports d (CBB_add_bytes d data) d" "reports d (CBB_add_space d data) d" "reports d (CBB_reserve d n) d"
  unfolding CBB_add_bytes_def CBB_add_space_def CBB_reserve_def using add_error reserve_error by blast+

lemma reports_add_child [intro, simp]: "reports d (add_child d ch) (Suc d)"
  by (auto simp: reports_def add_child_def attached_def)

text \<open>Opening a child at the current end of the buffer.\<close>

lemma reports_open:
  assumes "reports d f d"
  shows "reports d (\<lambda>cbb. let off = base_len cbb in bindC f
    (\<lambda>_. add_child d \<lparr>offset = off, pending_len_len = n, pending_is_asn1 = asn1\<rparr>) cbb) (Suc d)"
  unfolding Let_def
  by (rule reports_state [where f = "\<lambda>off. bindC f
        (\<lambda>_. add_child d \<lparr>offset = off, pending_len_len = n, pending_is_asn1 = asn1\<rparr>)"])
    (rule reports_bind [OF assms reports_add_child])

lemma reports_length_prefixed [intro, simp]: "reports d (cbb_add_length_prefixed d n) (Suc d)"
  unfolding cbb_add_length_prefixed_def
  by (rule reports_bind [OF reports_flush], rule reports_open, rule reports_on_base, erule add_error)

lemma reports_prefixed_ints [intro, simp]:
  "reports d (CBB_add_u8_length_prefixed d) (Suc d)" "reports d (CBB_add_u16_length_prefixed d) (Suc d)"
  "reports d (CBB_add_u24_length_prefixed d) (Suc d)"
  by (simp_all add: CBB_add_u8_length_prefixed_def CBB_add_u16_length_prefixed_def CBB_add_u24_length_prefixed_def)

lemma reports_base128 [intro, simp]: "reports d (add_base128_integer d v) d"
proof -
  have "reports d (add_base128_loop d n v) d" for n
    by (induction n) (auto simp: Let_def intro: reports_bind [where d' = d])
  then show ?thesis by (simp add: add_base128_integer_def Let_def)
qed

lemma reports_add_asn1 [intro, simp]: "reports d (CBB_add_asn1 d tag) (Suc d)"
  unfolding CBB_add_asn1_def Let_def [of "ucast _ AND _"] Let_def [of "tag AND _"]
  by (rule reports_bind [OF reports_flush], rule reports_bind [where d' = d, OF _ reports_open])
    (auto intro: reports_bind [where d' = d])

lemma reports_uint64_loop [intro, simp]: "reports d (add_uint64_loop d started bs) d"
  by (induction bs arbitrary: started) (auto intro!: reports_bind [where d' = d])

lemma reports_flush_down [intro, simp]: "reports (Suc d) (CBB_flush d) d"
  by (rule reports_down [OF reports_flush]) simp

lemma reports_asn1_values [intro, simp]:
  "reports d (CBB_add_asn1_uint64 d v) d" "reports d (CBB_add_asn1_octet_string d data) d"
  "reports d (CBB_add_asn1_bool d i) d"
  unfolding CBB_add_asn1_uint64_def CBB_add_asn1_octet_string_def CBB_add_asn1_bool_def
  by (auto intro!: reports_bind [where d' = "Suc d"])

section \<open>The flag stays\<close>

definition refuses :: "'a cbb_fun \<Rightarrow> bool" where
  "refuses f \<longleftrightarrow> (\<forall>cbb. poisoned cbb \<longrightarrow> f cbb = (None, cbb))"

lemma refusesD: "refuses f \<Longrightarrow> poisoned cbb \<Longrightarrow> f cbb = (None, cbb)"
  by (simp add: refuses_def)

lemma refuses_bind [intro]: "refuses f \<Longrightarrow> refuses (bindC f g)"
  by (simp add: refuses_def)

lemma refuses_flush [intro, simp]: "refuses (CBB_flush d)"
proof -
  have "flush_chain chain b = (False, chain, b)" if "cbb_error b" for chain b
    using that by (cases chain) auto
  moreover have "cbb\<lparr>cbb_base := Some b, cbb_chain := cbb_chain cbb\<rparr> = cbb" if "cbb_base cbb = Some b" for cbb b
    using that by simp
  ultimately show ?thesis
    by (auto simp: refuses_def poisoned_def CBB_flush_def split: option.splits)
qed

lemma refuses_ops:
  "refuses (CBB_add_u8 d v8)" "refuses (CBB_add_u16 d v16)" "refuses (CBB_add_u24 d v)" "refuses (CBB_add_u32 d v)"
  "refuses (CBB_add_bytes d data)" "refuses (CBB_add_space d data)" "refuses (CBB_reserve d n)"
  "refuses (CBB_add_u8_length_prefixed d)" "refuses (CBB_add_u16_length_prefixed d)"
  "refuses (CBB_add_u24_length_prefixed d)" "refuses (CBB_add_asn1 d tag)" "refuses (CBB_add_asn1_uint64 d v64)"
  "refuses (CBB_add_asn1_octet_string d data)" "refuses (CBB_add_asn1_bool d i)"
  "refuses (CBB_add_asn1_oid_from_text d text)" "refuses (CBB_flush_asn1_set_of alloc d)"
  unfolding CBB_add_u8_def CBB_add_u16_def CBB_add_u24_def CBB_add_u32_def cbb_add_u_def CBB_add_bytes_def
    CBB_add_space_def CBB_reserve_def CBB_add_u8_length_prefixed_def CBB_add_u16_length_prefixed_def
    CBB_add_u24_length_prefixed_def cbb_add_length_prefixed_def CBB_add_asn1_def CBB_add_asn1_uint64_def
    CBB_add_asn1_octet_string_def CBB_add_asn1_bool_def CBB_add_asn1_oid_from_text_def CBB_flush_asn1_set_of_def
  by (intro refuses_bind refuses_flush)+

lemma refuses_finish: "refuses (CBB_finish d want)"
  by (cases "d = 0") (auto simp: CBB_finish_def refuses_def refusesD [OF refuses_flush])

lemma refuses_poisoned: "f cbb = (r, cbb') \<Longrightarrow> refuses f \<Longrightarrow> poisoned cbb \<Longrightarrow> poisoned cbb'"
  by (simp add: refuses_def)

text \<open>No call clears the flag, not even those that do not look at it.\<close>

lemma step_poisoned:
  assumes "cbb_step c c'" "poisoned c"
  shows "poisoned c'"
  using assms(1)
proof (cases rule: cbb_step.cases)
  case (step_did_write d data r)
  with assms(2) show ?thesis
    by (auto simp: poisoned_def CBB_did_write_def on_base_def Let_def split: option.splits if_splits)
next
  case (step_discard d)
  with assms(2) show ?thesis by (auto simp: poisoned_def CBB_discard_child_def split: option.splits)
qed (erule refuses_poisoned [OF _ _ assms(2)], intro refuses_ops refuses_finish refuses_flush)+

text \<open>C8: When one of the calls that report through the error flag fails on an attached builder
  (\<open>CBB_flush\<close>, \<open>CBB_add_u8\<close> to \<open>CBB_add_u32\<close>, \<open>CBB_add_bytes\<close>, \<open>CBB_add_space\<close>, \<open>CBB_reserve\<close>,
  \<open>CBB_add_asn1_uint64\<close>, \<open>CBB_add_asn1_octet_string\<close>, \<open>CBB_add_asn1_bool\<close>, and the additions of
  length-prefixed and ASN.1 children), then after any
  further sequence of calls \<open>CBB_finish\<close> still fails: the output is never used although a part of
  it is missing.  \<open>CBB_did_write\<close>, \<open>CBB_add_asn1_oid_from_text\<close> and \<open>CBB_flush_asn1_set_of\<close> are not
  among them, they may fail by their result alone; they may be among the further calls.\<close>

theorem failure_is_final:
  assumes "op \<in> {CBB_flush d, CBB_add_u8 d v8, CBB_add_u16 d v16, CBB_add_u24 d v, CBB_add_u32 d v, CBB_add_bytes d data,
      CBB_add_space d data, CBB_reserve d n, CBB_add_asn1_uint64 d v64, CBB_add_asn1_octet_string d data,
      CBB_add_asn1_bool d i, CBB_add_u8_length_prefixed d, CBB_add_u16_length_prefixed d,
      CBB_add_u24_length_prefixed d, CBB_add_asn1 d tag}"
    and "cbb_base cbb \<noteq> None" "d \<le> length (cbb_chain cbb)" "op cbb = (None, cbb1)" "cbb_step\<^sup>*\<^sup>* cbb1 cbb2"
  shows "CBB_finish 0 want cbb2 = (None, cbb2)"
proof -
  have "reports d op d \<or> reports d op (Suc d)" using assms(1) by auto
  moreover have "attached d cbb" using assms(2,3) by (simp add: attached_def)
  ultimately have "poisoned cbb1" using reportsD(1) assms(4) by blast
  with assms(5) have "poisoned cbb2" by (induction rule: rtranclp_induct) (auto intro: step_poisoned)
  then show ?thesis by (rule refusesD [OF refuses_finish])
qed

text \<open>A fixed buffer of one byte is full; a later call that writes nothing does not help.\<close>

theorem failure_is_final_witness:
  "\<exists>cbb cbb1. CBB_init_fixed (\<lambda>_. True) 1 = Some cbb \<and> CBB_add_bytes 0 [1, 2] cbb = (None, cbb1) \<and>
    CBB_finish 0 True (snd (CBB_add_bytes 0 [] cbb1)) = (None, snd (CBB_add_bytes 0 [] cbb1))"
proof -
  define cbb where "cbb = \<lparr>cbb_base = Some (cbb_init 1 False (\<lambda>_. True)), cbb_chain = []\<rparr>"
  define cbb1 where "cbb1 = snd (CBB_add_bytes 0 [1, 2] cbb)"
  have fail: "CBB_add_bytes 0 [1, 2] cbb = (None, cbb1)"
    by (simp add: cbb1_def cbb_def CBB_add_bytes_def CBB_flush_def on_base_def cbb_init_def cbb_buffer_add_def
        cbb_buffer_reserve_def size_wrap_def bindC_def Let_def)
  have step: "cbb_step\<^sup>*\<^sup>* cbb1 (snd (CBB_add_bytes 0 [] cbb1))"
    by (rule r_into_rtranclp, rule step_bytes [of 0 "[]" cbb1 "fst (CBB_add_bytes 0 [] cbb1)"]) simp_all
  have "CBB_finish 0 True (snd (CBB_add_bytes 0 [] cbb1)) = (None, snd (CBB_add_bytes 0 [] cbb1))"
    by (rule failure_is_final [where op = "CBB_add_bytes 0 [1, 2]" and d = 0 and data = "[1, 2]" and cbb = cbb and ?cbb1.0 = cbb1])
      (use fail step in \<open>auto simp: cbb_def\<close>)
  moreover have "CBB_init_fixed (\<lambda>_. True) 1 = Some cbb" by (simp add: CBB_init_fixed_def cbb_def)
  ultimately show ?thesis using fail by blast
qed

end
