(* ===== verification/Set_Of.thy ===== *)
theory Set_Of
  imports Cbb_Der C_Order "HOL-Library.List_Lexorder"
begin

text \<open>
  \<open>CBB_flush_asn1_set_of\<close> of \<open>cbb.c\<close>: the comparison it hands to \<open>qsort\<close> is a linear
  order, the lexicographic order of byte strings in which the library of lists is ordered (unsigned
  bytes, a prefix before its extensions), so the DER encoding of a \<open>SET OF\<close> does not depend on
  the order in which the caller added the elements.
\<close>

section \<open>The comparison of elements\<close>

lemma compare_set_of_element_simps [simp]:
  "compare_set_of_element [] [] = 0"
  "compare_set_of_element [] (b # bs) = - 1"
  "compare_set_of_element (a # as) [] = 1"
  "compare_set_of_element (a # as) (b # bs) =
     (if a = b then compare_set_of_element as bs else uint a - uint b)"
  by (auto simp: compare_set_of_element_def Let_def word_uint_eq_iff)

lemma compare_set_of_element_swap: "compare_set_of_element a b = - compare_set_of_element b a"
  by (induction a b rule: list_induct2') auto

lemma compare_set_of_element_zero: "compare_set_of_element a b = 0 \<longleftrightarrow> a = b"
  by (induction a b rule: list_induct2') (auto simp: word_uint_eq_iff)

lemma compare_set_of_element_trans:
  "compare_set_of_element a b \<le> 0 \<Longrightarrow> compare_set_of_element b c \<le> 0 \<Longrightarrow> compare_set_of_element a c \<le> 0"
proof (induction a b arbitrary: c rule: list_induct2')
  case 1
  then show ?case by simp
next
  case (2 x xs)
  then show ?case by simp
next
  case (3 y ys)
  then show ?case by (cases c) auto
next
  case (4 x xs y ys)
  then obtain z zs where c: "c = z # zs" by (cases c) auto
  have "x = z" if "x = y \<or> uint x \<le> uint y" "y = z \<or> uint y \<le> uint z" "uint z \<le> uint x"
    using that by (auto simp: word_uint_eq_iff)
  with 4 c show ?case by (auto split: if_splits simp: word_uint_eq_iff)
qed

interpretation set_of: linear_comparator compare_set_of_element "\<lambda>_. True"
proof unfold_locales
  show "(compare_set_of_element x y \<le> 0) = (0 \<le> compare_set_of_element y x)" for x y
    using compare_set_of_element_swap [of x y] by auto
qed (auto simp: compare_set_of_element_zero intro: compare_set_of_element_trans)

text \<open>It is the order that DER asks for.\<close>

lemma compare_set_of_element_le: "compare_set_of_element x y \<le> 0 \<longleftrightarrow> x \<le> y"
  by (induction x y rule: list_induct2') (auto simp: word_less_def word_uint_eq_iff)

lemma qsort_set_of: "qsort compare_set_of_element es = sort es"
proof (rule properties_for_sort [symmetric])
  show "sorted (qsort compare_set_of_element es)"
    using set_of.sorted_qsort [of es] by (simp add: compare_set_of_element_le)
qed simp

section \<open>The elements in the buffer\<close>

text \<open>The complete elements of a byte string.\<close>

definition is_element :: "byte list \<Rightarrow> bool" where
  "is_element e \<longleftrightarrow> (case CBS_get_any_asn1_element e of (Some (out, _, _), rest) \<Rightarrow> out = e \<and> rest = [] | _ \<Rightarrow> False)"

lemma is_element_iff: "is_element e \<longleftrightarrow> (\<exists>tag body. length body < 2 ^ 32 \<and> e = der_element tag body)"
proof
  assume "is_element e"
  then obtain out tag hl where "CBS_get_any_asn1_element e = (Some (out, tag, hl), [])" "out = e"
    by (auto simp: is_element_def split: prod.splits option.splits)
  from CBS_get_any_asn1_element_sound [OF this(1)] this(2)
  show "\<exists>tag body. length body < 2 ^ 32 \<and> e = der_element tag body" by auto
next
  assume "\<exists>tag body. length body < 2 ^ 32 \<and> e = der_element tag body"
  then obtain tag body where "length body < 2 ^ 32" "e = der_element tag body" by blast
  with cbs_get_any_asn1_element_der [of body False tag "[]"] show "is_element e"
    by (simp add: is_element_def CBS_get_any_asn1_element_def)
qed

lemma is_element_read:
  assumes "is_element e"
  obtains tag hl where "CBS_get_any_asn1_element (e @ rest) = (Some (e, tag, hl), rest)"
proof -
  from assms obtain tag body where "length body < 2 ^ 32" "e = der_element tag body"
    by (auto simp: is_element_iff)
  with cbs_get_any_asn1_element_der [of body False tag rest] that show thesis
    by (simp add: CBS_get_any_asn1_element_def)
qed

lemma is_element_nonempty: "is_element e \<Longrightarrow> e \<noteq> []"
  by (auto simp: is_element_iff der_element_def der_header_def der_tag_bytes_nonempty)

lemma set_of_children_concat:
  assumes "\<forall>e \<in> set es. is_element e" "length (concat es) \<le> k"
  shows "set_of_children k (concat es) = Some es"
  using assms
proof (induction k arbitrary: es)
  case 0
  then show ?case using is_element_nonempty by (cases es) auto
next
  case (Suc k)
  show ?case
  proof (cases es)
    case (Cons e es')
    with Suc.prems have e: "is_element e" by simp
    obtain tag hl where "CBS_get_any_asn1_element (e @ concat es') = (Some (e, tag, hl), concat es')"
      by (rule is_element_read [OF e])
    moreover have "length (concat es') \<le> k" "e \<noteq> []"
      using Suc.prems(2) Cons is_element_nonempty [OF e] by (cases e; simp)+
    ultimately show ?thesis using Suc Cons by simp
  qed simp
qed

lemma set_of_children_sound:
  assumes "set_of_children k cbs = Some es"
  shows "concat es = cbs \<and> (\<forall>e \<in> set es. is_element e)"
  using assms
proof (induction k arbitrary: cbs es)
  case 0
  then show ?case by (simp split: if_splits)
next
  case (Suc k)
  show ?case
  proof (cases "cbs = []")
    case False
    with Suc.prems obtain out tag hl rest es' where r: "CBS_get_any_asn1_element cbs = (Some (out, tag, hl), rest)"
      and es: "set_of_children k rest = Some es'" "es = out # es'"
      by (auto split: prod.splits option.splits)
    from CBS_get_any_asn1_element_sound [OF r] have "is_element out" "cbs = out @ rest"
      by (auto simp: is_element_iff)
    with Suc.IH [OF es(1)] es(2) show ?thesis by simp
  qed (use Suc.prems in simp)
qed

section \<open>Sorting the buffer\<close>

lemma writes_all_bytes: "writes d (add_all_bytes d xs) (concat xs)"
  by (induction xs) auto

lemma length_concat_elements:
  "\<forall>e \<in> set es. is_element e \<Longrightarrow> length es \<le> length (concat es)"
proof (induction es)
  case (Cons e es)
  then obtain x xs where "e = x # xs" by (metis is_element_nonempty list.set_intros(1) neq_Nil_conv)
  with Cons show ?case by simp
qed simp

lemma length_concat_mset: "mset xs = mset ys \<Longrightarrow> length (concat xs) = length (concat ys)"
  by (simp add: length_concat flip: sum_mset_sum_list)

lemma cbb_start_base [simp]: "cbb_start (cbb\<lparr>cbb_base := x\<rparr>) d = cbb_start cbb d"
  by (simp add: cbb_start_def)

lemma flush_set_of_elements:
  assumes w: "writable d cbb b" and len: "length (buf b) < 2 ^ 60"
    and data: "CBB_data cbb d = concat es" and es: "\<forall>e \<in> set es. is_element e"
  shows "\<exists>c. CBB_flush_asn1_set_of (\<lambda>_. True) d cbb = (Some (), cbb\<lparr>cbb_base := Some (b\<lparr>
    buf := take (cbb_start cbb d) (buf b) @ concat (sort es), cap := c\<rparr>)\<rparr>)"
proof -
  let ?start = "cbb_start cbb d" and ?sorted = "sort es"
  from data w have buf: "buf b = take ?start (buf b) @ concat es"
    by (metis CBB_data_def append_take_drop_id option.case(2) writable_def)
  have total: "length (take ?start (buf b)) + length (concat es) = length (buf b)"
    using arg_cong [OF buf, of length] by (simp only: length_append)
  have n: "length es < 2 ^ 60"
    using length_concat_elements [OF es] len total by linarith
  have children: "set_of_children (length (concat es)) (concat es) = Some es"
    by (rule set_of_children_concat [OF es]) simp
  show ?thesis
  proof (cases "length es < 2")
    case True
    then have "?sorted = es" by (cases es) (auto simp: Suc_le_eq less_Suc_eq_0_disj)
    with buf have "b\<lparr>buf := take ?start (buf b) @ concat ?sorted, cap := cap b\<rparr> = b" by simp
    with True w children data have "CBB_flush_asn1_set_of (\<lambda>_. True) d cbb = (Some (), cbb\<lparr>cbb_base := Some (b\<lparr>
      buf := take ?start (buf b) @ concat ?sorted, cap := cap b\<rparr>)\<rparr>)"
      by (simp add: CBB_flush_asn1_set_of_def Let_def) (simp add: writable_def)
    then show ?thesis by blast
  next
    case False
    let ?b1 = "b\<lparr>buf := take ?start (buf b)\<rparr>" and ?cbb1 = "cbb\<lparr>cbb_base := Some (b\<lparr>buf := take ?start (buf b)\<rparr>)\<rparr>"
    have w1: "writable d ?cbb1 ?b1" using w by (simp add: writable_def)
    have "length (concat ?sorted) = length (concat es)" by (rule length_concat_mset) simp
    with total len have "length (buf ?b1) + length (concat ?sorted) < 2 ^ 64" by simp
    from writesD [OF writes_all_bytes w1 this] obtain c where
      "add_all_bytes d ?sorted ?cbb1 = (Some (), ?cbb1\<lparr>cbb_base := Some (grown (concat ?sorted) c ?b1)\<rparr>)" .
    moreover have "cbb_base cbb = Some b" using w by (simp add: writable_def)
    ultimately have "CBB_flush_asn1_set_of (\<lambda>_. True) d cbb =
        (Some (), ?cbb1\<lparr>cbb_base := Some (grown (concat ?sorted) c ?b1)\<rparr>)"
      using False n w children data by (simp add: CBB_flush_asn1_set_of_def Let_def qsort_set_of)
    then show ?thesis by (auto simp: grown_def)
  qed
qed

text \<open>Whatever the allocator: a call that succeeds leaves the sorted elements.\<close>

lemma add_all_bytes_buf:
  assumes "add_all_bytes d xs cbb = (Some u, cbb')" "cbb_base cbb = Some b" "length (cbb_chain cbb) = d"
  shows "\<exists>b'. cbb_base cbb' = Some b' \<and> buf b' = buf b @ concat xs \<and> cbb_chain cbb' = cbb_chain cbb"
  using assms
proof (induction xs arbitrary: cbb b)
  case Nil
  then show ?case by (auto simp: retC_def)
next
  case (Cons x xs)
  from Cons.prems(1) obtain v cbb1 where add: "CBB_add_bytes d x cbb = (Some v, cbb1)"
    and rest: "add_all_bytes d xs cbb1 = (Some u, cbb')"
    by (auto simp: bindC_def split: prod.splits option.splits)
  have "\<exists>b1. cbb_base cbb1 = Some b1 \<and> buf b1 = buf b @ x \<and> cbb_chain cbb1 = cbb_chain cbb"
    using add Cons.prems(2,3)
    by (auto simp: CBB_add_bytes_def CBB_flush_def on_base_def cbb_buffer_add_def cbb_buffer_reserve_def
        bindC_def Let_def split: if_splits option.splits prod.splits)
  then obtain b1 where "cbb_base cbb1 = Some b1" "buf b1 = buf b @ x" "cbb_chain cbb1 = cbb_chain cbb" by blast
  with Cons.IH [OF rest] Cons.prems(3) show ?case by auto
qed

lemma flush_set_of_success:
  assumes run: "CBB_flush_asn1_set_of alloc d cbb = (Some u, cbb')" and d: "length (cbb_chain cbb) = d"
    and data: "CBB_data cbb d = concat es" and es: "\<forall>e \<in> set es. is_element e"
  shows "CBB_data cbb' d = concat (sort es)"
proof -
  from run obtain v cbb1 where fl: "CBB_flush d cbb = (Some v, cbb1)"
    by (auto simp: CBB_flush_asn1_set_of_def bindC_def split: prod.splits option.splits)
  then obtain b where b: "cbb_base cbb = Some b" and same: "cbb1 = cbb"
    using d by (auto simp: CBB_flush_def split: option.splits if_splits)
  have children: "set_of_children (length (concat es)) (concat es) = Some es"
    by (rule set_of_children_concat [OF es]) simp
  show ?thesis
  proof (cases "length es < 2")
    case True
    then have "sort es = es" by (cases es) (auto simp: Suc_le_eq less_Suc_eq_0_disj)
    with True run fl same children data show ?thesis by (simp add: CBB_flush_asn1_set_of_def Let_def)
  next
    case False
    let ?start = "cbb_start cbb d" and ?b1 = "b\<lparr>buf := take (cbb_start cbb d) (buf b)\<rparr>"
    have add: "add_all_bytes d (sort es) (cbb\<lparr>cbb_base := Some ?b1\<rparr>) = (Some u, cbb')"
      using run fl same children data False b
      by (simp add: CBB_flush_asn1_set_of_def Let_def qsort_set_of split: if_splits)
    obtain b' where b': "cbb_base cbb' = Some b'" "buf b' = take ?start (buf b) @ concat (sort es)"
      "cbb_chain cbb' = cbb_chain cbb" using add_all_bytes_buf [OF add] d by auto
    have "?start \<le> length (buf b)"
    proof (rule ccontr)
      assume "\<not> ?start \<le> length (buf b)"
      then have "concat es = []" using data b by (simp add: CBB_data_def)
      then have "es = []" using es is_element_nonempty by (cases es) auto
      with False show False by simp
    qed
    moreover have "cbb_start cbb' d = ?start" using b'(3) by (simp add: cbb_start_def)
    ultimately show ?thesis using b' by (simp add: CBB_data_def)
  qed
qed

text \<open>C17: \<open>CBB_flush_asn1_set_of\<close>, on an open child without children of its own that holds complete
  DER elements, in a growable buffer of fewer than \<open>2 ^ 60\<close> bytes and with memory available, succeeds and
  leaves in the child the elements in the order of DER, the lexicographic order of their bytes (unsigned, a
  prefix before its extensions), which \<open>sort\<close> of the library of lists stands for; nothing before
  the child changes.\<close>

theorem set_of_sorted:
  assumes "writable d cbb b" "length (buf b) < 2 ^ 60"
    and "CBB_data cbb d = concat es" "\<forall>e \<in> set es. is_element e"
  shows "\<exists>cbb' b'. CBB_flush_asn1_set_of (\<lambda>_. True) d cbb = (Some (), cbb') \<and> writable d cbb' b' \<and>
    buf b' = take (cbb_start cbb d) (buf b) @ concat (sort es)"
proof -
  obtain c where "CBB_flush_asn1_set_of (\<lambda>_. True) d cbb = (Some (), cbb\<lparr>cbb_base := Some (b\<lparr>
    buf := take (cbb_start cbb d) (buf b) @ concat (sort es), cap := c\<rparr>)\<rparr>)"
    using flush_set_of_elements [OF assms] by blast
  moreover have "writable d (cbb\<lparr>cbb_base := Some (b\<lparr>buf := bs, cap := c\<rparr>)\<rparr>) (b\<lparr>buf := bs, cap := c\<rparr>)" for bs
    using assms(1) by (simp add: writable_def)
  moreover have "buf (b\<lparr>buf := bs, cap := c\<rparr>) = bs" for bs by simp
  ultimately show ?thesis by blast
qed

text \<open>A SET with the INTEGERs 5 and 3 in its open child.\<close>

definition sample_set :: "byte list list \<Rightarrow> cbb_buffer" where
  "sample_set es = \<lparr>buf = [0x31, 0] @ concat es, cap = 8, can_resize = True, cbb_error = False, realloc_ok = \<lambda>_. True\<rparr>"

definition sample_set_cbb :: "byte list list \<Rightarrow> CBB" where
  "sample_set_cbb es = \<lparr>cbb_base = Some (sample_set es),
     cbb_chain = [\<lparr>offset = 1, pending_len_len = 1, pending_is_asn1 = True\<rparr>]\<rparr>"

lemma sample_set_facts:
  "writable 1 (sample_set_cbb es) (sample_set es)"
  "CBB_data (sample_set_cbb es) 1 = concat es"
  "cbb_start (sample_set_cbb es) 1 = 2"
  "length (buf (sample_set [[2, 1, 5], [2, 1, 3]])) < 2 ^ 60"
  "length (buf (sample_set [[2, 1, 3], [2, 1, 5]])) < 2 ^ 60"
  by (simp_all add: sample_set_def sample_set_cbb_def writable_def CBB_data_def cbb_start_def)

lemma sample_integers: "is_element [2, 1, x]"
proof -
  have "der_element 2 [x] = [2, 1, x]"
    by (simp add: der_element_def der_header_def der_tag_bytes_def der_length_bytes_def tag_class_def
        tag_num_def cbs_asn1_defs)
  then show ?thesis by (auto simp: is_element_iff intro!: exI [of _ 2] exI [of _ "[x]"])
qed

theorem set_of_sorted_witness:
  "\<exists>cbb' b'. CBB_flush_asn1_set_of (\<lambda>_. True) 1 (sample_set_cbb [[2, 1, 5], [2, 1, 3]]) = (Some (), cbb') \<and>
    writable 1 cbb' b' \<and> buf b' = [0x31, 0, 2, 1, 3, 2, 1, 5]"
  using set_of_sorted [OF sample_set_facts(1,4,2)] sample_set_facts(3) sample_integers
  by (simp add: sample_set_def)

text \<open>C18: The encoding of a SET OF is canonical: when two builders, whose open children have no children
  of their own, hold the same DER elements in any order and \<open>CBB_flush_asn1_set_of\<close> succeeds on both, the
  children hold the same bytes afterwards, whatever the allocators and the buffers.\<close>

theorem set_of_canonical:
  assumes "length (cbb_chain cbb1) = d1" "CBB_data cbb1 d1 = concat es1"
      "CBB_flush_asn1_set_of alloc1 d1 cbb1 = (Some (), cbb1')"
    and "length (cbb_chain cbb2) = d2" "CBB_data cbb2 d2 = concat es2"
      "CBB_flush_asn1_set_of alloc2 d2 cbb2 = (Some (), cbb2')"
    and "\<forall>e \<in> set es1. is_element e" "mset es1 = mset es2"
  shows "CBB_data cbb1' d1 = CBB_data cbb2' d2"
proof -
  have "set es1 = set es2" using assms(8) by (metis set_mset_mset)
  with assms(7) have "\<forall>e \<in> set es2. is_element e" by simp
  moreover have "sort es1 = sort es2" by (rule properties_for_sort) (simp_all add: assms(8))
  ultimately show ?thesis
    using flush_set_of_success [OF assms(3,1,2,7)] flush_set_of_success [OF assms(6,4,5)] by simp
qed

theorem set_of_canonical_witness:
  "\<exists>cbb1 cbb2. CBB_flush_asn1_set_of (\<lambda>_. True) 1 (sample_set_cbb [[2, 1, 5], [2, 1, 3]]) = (Some (), cbb1) \<and>
   CBB_flush_asn1_set_of (\<lambda>_. True) 1 (sample_set_cbb [[2, 1, 3], [2, 1, 5]]) = (Some (), cbb2) \<and>
   CBB_data cbb1 1 = CBB_data cbb2 1"
proof -
  have es: "\<forall>e \<in> set [[2, 1, 5], [2, 1, 3]]. is_element e" "\<forall>e \<in> set [[2, 1, 3], [2, 1, 5]]. is_element e"
    by (simp_all add: sample_integers)
  obtain cbb1 where r1: "CBB_flush_asn1_set_of (\<lambda>_. True) 1 (sample_set_cbb [[2, 1, 5], [2, 1, 3]]) = (Some (), cbb1)"
    using flush_set_of_elements [OF sample_set_facts(1,4,2) es(1)] by blast
  obtain cbb2 where r2: "CBB_flush_asn1_set_of (\<lambda>_. True) 1 (sample_set_cbb [[2, 1, 3], [2, 1, 5]]) = (Some (), cbb2)"
    using flush_set_of_elements [OF sample_set_facts(1,5,2) es(2)] by blast
  have "length (cbb_chain (sample_set_cbb es)) = 1" for es by (simp add: sample_set_cbb_def)
  from set_of_canonical [OF this sample_set_facts(2) r1 this sample_set_facts(2) r2 es(1)] r1 r2
  show ?thesis by auto
qed

end
