(* ===== verification/Stack.thy ===== *)
theory Stack
  imports C_Order
begin

text \<open>
  The array of pointers of \<open>BoringSSL-GRPC/crypto/stack/stack.c\<close>.  A stack that may be
  \<open>NULL\<close> is an \<open>option\<close>; pointers are addresses, 0 is \<open>NULL\<close>.  The array is modelled with its
  allocated slots, so that growing and moving stay inside it; a block that \<open>realloc\<close>
  lengthens holds \<open>junk\<close> in its new slots.  \<open>alloc n\<close> says that the C library gives a block
  of \<open>n\<close> bytes.
\<close>

section \<open>The stack\<close>

text \<open>\<open>'c\<close> are the comparison functions, called by \<open>call\<close> on two elements.\<close>

record 'c stack =
  stack_num :: nat
  stack_data :: "ptr list"
  stack_sorted :: bool
  stack_num_alloc :: nat
  stack_comp :: "'c option"

definition kMinSize :: nat where "kMinSize = 4"

definition elems :: "'c stack \<Rightarrow> ptr list" where
  "elems sk = take (stack_num sk) (stack_data sk)"

text \<open>\<open>sizeof(_STACK)\<close> is 40.\<close>

definition sk_new :: "(nat \<Rightarrow> bool) \<Rightarrow> 'c option \<Rightarrow> 'c stack option" where
  "sk_new alloc cmp =
     (if \<not> alloc 40 then None
      else if \<not> alloc (8 * kMinSize) then None
      else Some \<lparr>stack_num = 0, stack_data = replicate kMinSize 0, stack_sorted = False,
                 stack_num_alloc = kMinSize, stack_comp = cmp\<rparr>)"

definition sk_new_null :: "(nat \<Rightarrow> bool) \<Rightarrow> 'c stack option" where
  "sk_new_null alloc = sk_new alloc None"

fun sk_num :: "'c stack option \<Rightarrow> nat" where
  "sk_num None = 0"
| "sk_num (Some sk) = stack_num sk"

fun sk_zero :: "'c stack option \<Rightarrow> 'c stack option" where
  "sk_zero None = None"
| "sk_zero (Some sk) =
     (if stack_num sk = 0 then Some sk
      else Some (sk\<lparr>stack_data := replicate (stack_num sk) 0 @ drop (stack_num sk) (stack_data sk),
                    stack_num := 0, stack_sorted := False\<rparr>))"

fun sk_value :: "'c stack option \<Rightarrow> nat \<Rightarrow> ptr" where
  "sk_value None i = 0"
| "sk_value (Some sk) i = (if i \<ge> stack_num sk then 0 else stack_data sk ! i)"

fun sk_set :: "'c stack option \<Rightarrow> nat \<Rightarrow> ptr \<Rightarrow> ptr \<times> 'c stack option" where
  "sk_set None i v = (0, None)"
| "sk_set (Some sk) i v =
     (if i \<ge> stack_num sk then (0, Some sk)
      else (v, Some (sk\<lparr>stack_data := (stack_data sk)[i := v]\<rparr>)))"

text \<open>\<open>sk_free\<close> leaves nothing; \<open>sk_pop_free\<close> gives the pointers it calls \<open>func\<close> on, in order.\<close>

fun sk_pop_free :: "'c stack option \<Rightarrow> ptr list" where
  "sk_pop_free None = []"
| "sk_pop_free (Some sk) = filter (\<lambda>p. p \<noteq> 0) (elems sk)"

text \<open>\<open>memmove\<close> of \<open>n\<close> slots inside one array.\<close>

definition memmove :: "nat \<Rightarrow> nat \<Rightarrow> nat \<Rightarrow> 'a list \<Rightarrow> 'a list" where
  "memmove dst src n xs = take dst xs @ take n (drop src xs) @ drop (dst + n) xs"

text \<open>
  Making room for one more pointer: twice the slots, or one more when the size of that does
  not fit into \<open>size_t\<close>, which has 64 bits.
\<close>

definition alloc_overflow :: "nat \<Rightarrow> nat \<Rightarrow> bool" where
  "alloc_overflow num_alloc new_alloc \<longleftrightarrow>
     new_alloc < num_alloc \<or> (new_alloc * 8 mod 2 ^ 64) div 8 \<noteq> new_alloc"

definition sk_new_alloc :: "nat \<Rightarrow> nat option" where
  "sk_new_alloc num_alloc =
     (let doubled = num_alloc * 2 mod 2 ^ 64;
          new_alloc = (if alloc_overflow num_alloc doubled then (num_alloc + 1) mod 2 ^ 64 else doubled)
      in if alloc_overflow num_alloc new_alloc then None else Some new_alloc)"

definition sk_grow :: "(nat \<Rightarrow> bool) \<Rightarrow> (nat \<Rightarrow> ptr list) \<Rightarrow> 'c stack \<Rightarrow> 'c stack option" where
  "sk_grow alloc junk sk =
     (if stack_num_alloc sk \<le> stack_num sk + 1
      then
        (case sk_new_alloc (stack_num_alloc sk) of
           None \<Rightarrow> None
         | Some new_alloc \<Rightarrow>
             if \<not> alloc (new_alloc * 8) then None
             else Some (sk\<lparr>stack_data := stack_data sk @ junk (new_alloc - stack_num_alloc sk),
                           stack_num_alloc := new_alloc\<rparr>))
      else Some sk)"

definition sk_insert ::
  "(nat \<Rightarrow> bool) \<Rightarrow> (nat \<Rightarrow> ptr list) \<Rightarrow> 'c stack option \<Rightarrow> ptr \<Rightarrow> nat \<Rightarrow> nat \<times> 'c stack option" where
  "sk_insert alloc junk s p pos =
     (case s of
        None \<Rightarrow> (0, None)
      | Some sk \<Rightarrow>
          (case sk_grow alloc junk sk of
             None \<Rightarrow> (0, Some sk)
           | Some sk1 \<Rightarrow>
               let num = stack_num sk1;
                   data = (if pos \<ge> num then (stack_data sk1)[num := p]
                           else (memmove (pos + 1) pos (num - pos) (stack_data sk1))[pos := p])
               in (num + 1, Some (sk1\<lparr>stack_data := data, stack_num := num + 1, stack_sorted := False\<rparr>))))"

fun sk_delete :: "'c stack option \<Rightarrow> nat \<Rightarrow> ptr \<times> 'c stack option" where
  "sk_delete None pos = (0, None)"
| "sk_delete (Some sk) pos =
     (if pos \<ge> stack_num sk then (0, Some sk)
      else
        let num = stack_num sk;
            data = (if pos \<noteq> num - 1 then memmove pos (pos + 1) (num - pos - 1) (stack_data sk)
                    else stack_data sk)
        in (stack_data sk ! pos, Some (sk\<lparr>stack_data := data, stack_num := num - 1\<rparr>)))"

text \<open>The index of the first element from \<open>i\<close> on that is the pointer \<open>p\<close>.\<close>

fun index_from :: "ptr list \<Rightarrow> ptr \<Rightarrow> nat \<Rightarrow> nat option" where
  "index_from [] p i = None"
| "index_from (x # xs) p i = (if x = p then Some i else index_from xs p (i + 1))"

fun sk_delete_ptr :: "'c stack option \<Rightarrow> ptr \<Rightarrow> ptr \<times> 'c stack option" where
  "sk_delete_ptr None p = (0, None)"
| "sk_delete_ptr (Some sk) p =
     (case index_from (elems sk) p 0 of None \<Rightarrow> (0, Some sk) | Some i \<Rightarrow> sk_delete (Some sk) i)"

definition sk_sort :: "('c \<Rightarrow> ptr \<Rightarrow> ptr \<Rightarrow> int) \<Rightarrow> 'c stack \<Rightarrow> 'c stack" where
  "sk_sort call sk =
     (case stack_comp sk of
        None \<Rightarrow> sk
      | Some c \<Rightarrow>
          if stack_sorted sk then sk
          else sk\<lparr>stack_data := qsort (call c) (elems sk) @ drop (stack_num sk) (stack_data sk),
                  stack_sorted := True\<rparr>)"

text \<open>The loop that goes back to the first match.\<close>

primrec first_match :: "(ptr \<Rightarrow> int) \<Rightarrow> ptr list \<Rightarrow> nat \<Rightarrow> nat" where
  "first_match against xs 0 = 0"
| "first_match against xs (Suc i) = (if against (xs ! i) = 0 then first_match against xs i else Suc i)"

text \<open>The result is \<open>*out_index\<close>.\<close>

definition sk_find ::
  "('c \<Rightarrow> ptr \<Rightarrow> ptr \<Rightarrow> int) \<Rightarrow> 'c stack option \<Rightarrow> ptr \<Rightarrow> nat option \<times> 'c stack option" where
  "sk_find call s p =
     (case s of
        None \<Rightarrow> (None, None)
      | Some sk \<Rightarrow>
          (case stack_comp sk of
             None \<Rightarrow> (index_from (elems sk) p 0, Some sk)
           | Some c \<Rightarrow>
               if p = 0 then (None, Some sk)
               else
                 let sk1 = sk_sort call sk
                 in (map_option (first_match (call c p) (elems sk1)) (bsearch (call c p) (elems sk1)), Some sk1)))"

definition sk_shift :: "'c stack option \<Rightarrow> ptr \<times> 'c stack option" where
  "sk_shift s =
     (case s of
        None \<Rightarrow> (0, None)
      | Some sk \<Rightarrow> if stack_num sk = 0 then (0, s) else sk_delete s 0)"

text \<open>In C \<open>sk_push\<close> reads \<open>sk->num\<close> of a stack that is not \<open>NULL\<close>.\<close>

definition sk_push ::
  "(nat \<Rightarrow> bool) \<Rightarrow> (nat \<Rightarrow> ptr list) \<Rightarrow> 'c stack \<Rightarrow> ptr \<Rightarrow> nat \<times> 'c stack option" where
  "sk_push alloc junk sk p = sk_insert alloc junk (Some sk) p (stack_num sk)"

definition sk_pop :: "'c stack option \<Rightarrow> ptr \<times> 'c stack option" where
  "sk_pop s =
     (case s of
        None \<Rightarrow> (0, None)
      | Some sk \<Rightarrow> if stack_num sk = 0 then (0, s) else sk_delete s (stack_num sk - 1))"

definition sk_dup :: "(nat \<Rightarrow> bool) \<Rightarrow> (nat \<Rightarrow> ptr list) \<Rightarrow> 'c stack option \<Rightarrow> 'c stack option" where
  "sk_dup alloc junk s =
     (case s of
        None \<Rightarrow> None
      | Some sk \<Rightarrow>
          (case sk_new alloc (stack_comp sk) of
             None \<Rightarrow> None
           | Some ret \<Rightarrow>
               if \<not> alloc (8 * stack_num_alloc sk) then None
               else
                 let block = take (stack_num_alloc sk)
                       (stack_data ret @ junk (stack_num_alloc sk - stack_num_alloc ret))
                 in Some (ret\<lparr>stack_num := stack_num sk,
                      stack_data := elems sk @ drop (stack_num sk) block,
                      stack_sorted := stack_sorted sk, stack_num_alloc := stack_num_alloc sk,
                      stack_comp := stack_comp sk\<rparr>)))"

fun sk_is_sorted :: "'c stack option \<Rightarrow> bool" where
  "sk_is_sorted None = True"
| "sk_is_sorted (Some sk) = stack_sorted sk"

definition sk_set_cmp_func :: "'c stack \<Rightarrow> 'c option \<Rightarrow> 'c option \<times> 'c stack" where
  "sk_set_cmp_func sk cmp =
     (stack_comp sk,
      sk\<lparr>stack_sorted := (if stack_comp sk \<noteq> cmp then False else stack_sorted sk), stack_comp := cmp\<rparr>)"

text \<open>
  The loop of \<open>sk_deep_copy\<close> over the copied stack.  \<open>copy\<close> is \<open>copy_func\<close> with the state it
  works on.  On a failure the result are the pointers that \<open>free_func\<close> is called on.
\<close>

function deep_copy_loop ::
  "('s \<Rightarrow> ptr \<Rightarrow> ptr \<times> 's) \<Rightarrow> nat \<Rightarrow> 's \<Rightarrow> nat \<Rightarrow> ptr list \<Rightarrow> (ptr list + ptr list) \<times> 's" where
  "deep_copy_loop copy num st i data =
     (if i < num
      then
        if data ! i = 0 then deep_copy_loop copy num st (i + 1) data
        else
          (case copy st (data ! i) of (p, st') \<Rightarrow>
             if p = 0 then (Inl (filter (\<lambda>q. q \<noteq> 0) (take i data)), st')
             else deep_copy_loop copy num st' (i + 1) (data[i := p]))
      else (Inr data, st))"
  by pat_completeness auto
termination deep_copy_loop
  by (relation "measure (\<lambda>(_, num, _, i, _). num - i)") auto

declare deep_copy_loop.simps [simp del]

definition sk_deep_copy ::
  "(nat \<Rightarrow> bool) \<Rightarrow> (nat \<Rightarrow> ptr list) \<Rightarrow> ('s \<Rightarrow> ptr \<Rightarrow> ptr \<times> 's) \<Rightarrow> 'c stack option \<Rightarrow> 's \<Rightarrow>
     (ptr list + 'c stack) \<times> 's" where
  "sk_deep_copy alloc junk copy s st =
     (case sk_dup alloc junk s of
        None \<Rightarrow> (Inl [], st)
      | Some ret \<Rightarrow>
          (case deep_copy_loop copy (stack_num ret) st 0 (stack_data ret) of
             (Inl freed, st') \<Rightarrow> (Inl freed, st')
           | (Inr data, st') \<Rightarrow> (Inr (ret\<lparr>stack_data := data\<rparr>), st')))"

end
