(* ===== verification/Stack_Spec.thy ===== *)
theory Stack_Spec
  imports Stack
begin

text \<open>
  The stack refines a list: every operation acts on the elements as the list operation of
  its documentation, stays inside the allocated slots, and keeps the sorted flag true to the order.
\<close>

section \<open>The invariant of the array\<close>

definition stack_ok :: "'c stack \<Rightarrow> bool" where
  "stack_ok sk \<longleftrightarrow> stack_num sk < stack_num_alloc sk \<and> kMinSize \<le> stack_num_alloc sk \<and>
     length (stack_data sk) = stack_num_alloc sk \<and> stack_num_alloc sk * 8 < 2 ^ 64"

lemma length_elems [simp]: "stack_ok sk \<Longrightarrow> length (elems sk) = stack_num sk"
  by (simp add: elems_def stack_ok_def)

lemma elems_fields [simp]:
  "elems (sk\<lparr>stack_sorted := b\<rparr>) = elems sk" "elems (sk\<lparr>stack_comp := c\<rparr>) = elems sk"
  by (simp_all add: elems_def)

lemma sk_new_ok:
  "sk_new alloc c = Some sk \<Longrightarrow> stack_ok sk \<and> elems sk = [] \<and> stack_comp sk = c \<and> \<not> stack_sorted sk"
  by (auto simp: sk_new_def stack_ok_def elems_def kMinSize_def split: if_splits)

lemma sk_zero_ok:
  assumes "stack_ok sk" "sk_zero (Some sk) = Some sk'"
  shows "stack_ok sk' \<and> elems sk' = [] \<and> stack_comp sk' = stack_comp sk"
  using assms by (auto simp: stack_ok_def elems_def split: if_splits)

lemma alloc_overflow_bound: "\<not> alloc_overflow n m \<Longrightarrow> m * 8 < 2 ^ 64"
proof -
  assume "\<not> alloc_overflow n m"
  then have "m = (m * 8 mod 2 ^ 64) div 8" by (simp add: alloc_overflow_def)
  also have "\<dots> < 2 ^ 61"
    using mod_less_divisor [of "2 ^ 64" "m * 8"] by (intro less_mult_imp_div_less) simp
  finally show ?thesis by simp
qed

lemma sk_new_alloc_Some:
  assumes "sk_new_alloc n = Some m" "n * 8 < 2 ^ 64" "kMinSize \<le> n"
  shows "m * 8 < 2 ^ 64 \<and> n < m"
proof -
  have wraps: "n * 2 mod 2 ^ 64 = n * 2" "(n + 1) mod 2 ^ 64 = n + 1" using assms(2) by simp_all
  from assms(1) have ov: "\<not> alloc_overflow n m" and m: "m = n * 2 \<or> m = n + 1"
    unfolding sk_new_alloc_def Let_def wraps by (simp_all split: if_splits)
  from m assms(3) have "n < m" by (auto simp: kMinSize_def)
  with alloc_overflow_bound [OF ov] show ?thesis by simp
qed

text \<open>The slots a successful growth leaves: one more than the new element needs.\<close>

lemma sk_grow_ok:
  assumes ok: "stack_ok sk" and junk: "\<And>n. length (junk n) = n" and grow: "sk_grow alloc junk sk = Some sk1"
  shows "stack_ok sk1 \<and> stack_num sk1 + 1 < stack_num_alloc sk1 \<and> stack_num sk1 = stack_num sk \<and>
    elems sk1 = elems sk \<and> stack_comp sk1 = stack_comp sk"
proof (cases "stack_num_alloc sk \<le> stack_num sk + 1")
  case True
  let ?n = "stack_num_alloc sk"
  have n: "?n * 8 < 2 ^ 64" "stack_num sk < ?n" "kMinSize \<le> ?n" "length (stack_data sk) = ?n"
    using ok by (simp_all add: stack_ok_def)
  obtain m where m: "sk_new_alloc ?n = Some m" "sk1 = sk\<lparr>stack_data := stack_data sk @ junk (m - ?n), stack_num_alloc := m\<rparr>"
    using grow True by (auto simp: sk_grow_def split: option.splits if_splits)
  from sk_new_alloc_Some [OF m(1) n(1,3)] n m(2) junk True show ?thesis
    by (auto simp: stack_ok_def elems_def)
next
  case False
  with grow ok show ?thesis by (auto simp: sk_grow_def)
qed

section \<open>Inserting\<close>

definition list_insert :: "nat \<Rightarrow> 'a \<Rightarrow> 'a list \<Rightarrow> 'a list" where
  "list_insert i x xs = take i xs @ [x] @ drop i xs"

lemma memmove_up:
  assumes "i \<le> n" "n < length xs"
  shows "take (Suc n) ((memmove (Suc i) i (n - i) xs)[i := x]) = list_insert i x (take n xs)"
proof (rule nth_equalityI)
  fix k assume "k < length (take (Suc n) ((memmove (Suc i) i (n - i) xs)[i := x]))"
  then have k: "k < Suc n" by simp
  show "take (Suc n) ((memmove (Suc i) i (n - i) xs)[i := x]) ! k = list_insert i x (take n xs) ! k"
    using assms k by (auto simp: memmove_def list_insert_def nth_append nth_list_update min_def nth_Cons')
qed (use assms in \<open>auto simp: memmove_def list_insert_def\<close>)

lemma sk_insert_ok:
  assumes ok: "stack_ok sk" and junk: "\<And>n. length (junk n) = n"
    and ins: "sk_insert alloc junk (Some sk) p i = (r, s)"
  shows "r = 0 \<and> s = Some sk \<or>
    (\<exists>sk'. r = stack_num sk + 1 \<and> s = Some sk' \<and> stack_ok sk' \<and> elems sk' = list_insert i p (elems sk) \<and>
      \<not> stack_sorted sk' \<and> stack_comp sk' = stack_comp sk)"
proof (cases "sk_grow alloc junk sk")
  case None
  with ins show ?thesis by (simp add: sk_insert_def)
next
  case (Some sk1)
  note g = sk_grow_ok [OF ok junk Some]
  let ?n = "stack_num sk"
  let ?data = "if i \<ge> ?n then (stack_data sk1)[?n := p]
    else (memmove (i + 1) i (?n - i) (stack_data sk1))[i := p]"
  have s: "s = Some (sk1\<lparr>stack_data := ?data, stack_num := ?n + 1, stack_sorted := False\<rparr>)" "r = ?n + 1"
    using ins Some g by (auto simp: sk_insert_def Let_def)
  have len: "?n < length (stack_data sk1)" "length (stack_data sk1) = stack_num_alloc sk1"
    using g by (auto simp: stack_ok_def)
  have ld: "length ?data = length (stack_data sk1)" using len by (auto simp: memmove_def)
  have el: "take ?n (stack_data sk1) = elems sk" using g by (metis elems_def)
  have "take (?n + 1) ?data = list_insert i p (elems sk)"
  proof (cases "i \<ge> ?n")
    case True
    have "take (?n + 1) ((stack_data sk1)[?n := p]) = take ?n (stack_data sk1) @ [p]"
      using len by (simp add: upd_conv_take_nth_drop)
    with True el ok show ?thesis by (simp add: list_insert_def)
  next
    case False
    then show ?thesis using memmove_up [of i ?n "stack_data sk1" p] len el by simp
  qed
  with s g ld len show ?thesis by (auto simp: stack_ok_def elems_def)
qed

section \<open>Deleting\<close>

definition list_delete :: "nat \<Rightarrow> 'a list \<Rightarrow> 'a list" where
  "list_delete i xs = take i xs @ drop (Suc i) xs"

lemma memmove_down:
  assumes "i < n" "n \<le> length xs"
  shows "take (n - 1) (memmove i (Suc i) (n - i - 1) xs) = list_delete i (take n xs)"
proof (rule nth_equalityI)
  fix k assume "k < length (take (n - 1) (memmove i (Suc i) (n - i - 1) xs))"
  then have k: "k < n - 1" by simp
  show "take (n - 1) (memmove i (Suc i) (n - i - 1) xs) ! k = list_delete i (take n xs) ! k"
    using assms k by (auto simp: memmove_def list_delete_def nth_append min_def)
qed (use assms in \<open>auto simp: memmove_def list_delete_def\<close>)

lemma sk_delete_ok:
  assumes ok: "stack_ok sk" and i: "i < stack_num sk" and del: "sk_delete (Some sk) i = (r, s)"
  shows "\<exists>sk'. r = elems sk ! i \<and> s = Some sk' \<and> stack_ok sk' \<and> elems sk' = list_delete i (elems sk) \<and>
    stack_sorted sk' = stack_sorted sk \<and> stack_comp sk' = stack_comp sk"
proof -
  let ?n = "stack_num sk"
  let ?data = "if i \<noteq> ?n - 1 then memmove i (i + 1) (?n - i - 1) (stack_data sk) else stack_data sk"
  have s: "r = stack_data sk ! i" "s = Some (sk\<lparr>stack_data := ?data, stack_num := ?n - 1\<rparr>)"
    using del i by (auto simp: Let_def)
  have len: "?n < length (stack_data sk)" using ok by (simp add: stack_ok_def)
  have ld: "length ?data = length (stack_data sk)" using len i by (auto simp: memmove_def)
  have "take (?n - 1) ?data = list_delete i (elems sk)"
  proof (cases "i = ?n - 1")
    case True
    with i len show ?thesis by (simp add: elems_def list_delete_def min_def)
  next
    case False
    with memmove_down [of i ?n "stack_data sk"] i len show ?thesis by (simp add: elems_def)
  qed
  with s i ld ok show ?thesis by (auto simp: stack_ok_def elems_def)
qed

lemma index_from_Some:
  "index_from xs p k = Some i \<Longrightarrow> k \<le> i \<and> i - k < length xs \<and> xs ! (i - k) = p \<and> p \<notin> set (take (i - k) xs)"
proof (induction xs p k rule: index_from.induct)
  case (2 x xs p k)
  show ?case
  proof (cases "x = p")
    case False
    with 2 have "k + 1 \<le> i \<and> i - (k + 1) < length xs \<and> xs ! (i - (k + 1)) = p \<and> p \<notin> set (take (i - (k + 1)) xs)"
      by simp
    moreover from this have "i - k = Suc (i - (k + 1))" by arith
    ultimately show ?thesis using False by simp
  qed (use 2 in simp)
qed simp

lemma index_from_None: "index_from xs p k = None \<longleftrightarrow> p \<notin> set xs"
  by (induction xs p k rule: index_from.induct) auto

lemma list_delete_remove1: "i < length xs \<Longrightarrow> xs ! i = p \<Longrightarrow> p \<notin> set (take i xs) \<Longrightarrow> list_delete i xs = remove1 p xs"
proof (induction xs arbitrary: i)
  case (Cons x xs)
  then show ?case by (cases i) (auto simp: list_delete_def)
qed simp

section \<open>Sorting and searching\<close>

text \<open>The comparison functions keep the contract of \<open>comparator\<close> on the pointers that satisfy \<open>ok\<close>.\<close>

definition sorted_ok :: "('c \<Rightarrow> ptr \<Rightarrow> ptr \<Rightarrow> int) \<Rightarrow> 'c stack \<Rightarrow> bool" where
  "sorted_ok call sk \<longleftrightarrow>
     (stack_sorted sk \<longrightarrow> (case stack_comp sk of None \<Rightarrow> True
        | Some c \<Rightarrow> sorted_wrt (\<lambda>x y. call c x y \<le> 0) (elems sk)))"

lemma sk_sort_ok:
  assumes ok: "stack_ok sk" and cmp: "\<And>c. comparator (call c) valid" and v: "\<forall>x \<in> set (elems sk). valid x"
    and sorted: "sorted_ok call sk"
  shows "stack_ok (sk_sort call sk) \<and> mset (elems (sk_sort call sk)) = mset (elems sk) \<and>
    stack_comp (sk_sort call sk) = stack_comp sk \<and> sorted_ok call (sk_sort call sk) \<and>
    (stack_comp sk \<noteq> None \<longrightarrow> stack_sorted (sk_sort call sk))"
proof (cases "stack_comp sk = None \<or> stack_sorted sk")
  case True
  with ok sorted show ?thesis by (auto simp: sk_sort_def split: option.splits)
next
  case False
  then obtain c where c: "stack_comp sk = Some c" by auto
  have el: "elems (sk_sort call sk) = qsort (call c) (elems sk)"
    using False c ok by (simp add: sk_sort_def elems_def stack_ok_def)
  have "sorted_wrt (\<lambda>x y. call c x y \<le> 0) (qsort (call c) (elems sk))"
    by (rule comparator.sorted_qsort [OF cmp v])
  with el c False ok show ?thesis
    by (auto simp: sorted_ok_def sk_sort_def stack_ok_def elems_def)
qed

lemma first_match_spec:
  "first_match against xs i \<le> i \<and>
   (against (xs ! i) = 0 \<longrightarrow> against (xs ! first_match against xs i) = 0) \<and>
   (\<forall>j. first_match against xs i \<le> j \<and> j \<le> i \<longrightarrow> against (xs ! i) = 0 \<longrightarrow> against (xs ! j) = 0) \<and>
   (first_match against xs i = 0 \<or> against (xs ! (first_match against xs i - 1)) \<noteq> 0)"
proof (induction i)
  case (Suc i)
  show ?case
  proof (cases "against (xs ! i) = 0")
    case True
    with Suc show ?thesis by (auto simp: le_Suc_eq)
  next
    case False
    then show ?thesis by (auto simp: le_antisym)
  qed
qed auto

lemma sk_find_ok:
  assumes ok: "stack_ok sk" and cmp: "\<And>c. comparator (call c) valid" and v: "\<forall>x \<in> set (elems sk). valid x"
    and sorted: "sorted_ok call sk" and c: "stack_comp sk = Some c" and p: "p \<noteq> 0" "valid p"
  shows "\<exists>r sk'. sk_find call (Some sk) p = (r, Some sk') \<and> stack_ok sk' \<and> sorted_ok call sk' \<and>
    mset (elems sk') = mset (elems sk) \<and> stack_comp sk' = stack_comp sk \<and> stack_sorted sk' \<and>
    (case r of None \<Rightarrow> \<forall>x \<in> set (elems sk). call c p x \<noteq> 0
     | Some i \<Rightarrow> i < length (elems sk') \<and> call c p (elems sk' ! i) = 0 \<and>
         (\<forall>j < i. call c p (elems sk' ! j) \<noteq> 0))"
proof -
  let ?sk = "sk_sort call sk"
  have s: "stack_ok ?sk" "mset (elems ?sk) = mset (elems sk)" "stack_comp ?sk = stack_comp sk"
    "sorted_ok call ?sk" "stack_sorted ?sk"
    using sk_sort_ok [OF ok cmp v sorted] c by simp_all
  have sets: "set (elems ?sk) = set (elems sk)" using s(2) by (metis set_mset_mset)
  have le: "sorted_wrt (\<lambda>x y. call c x y \<le> 0) (elems ?sk)" using s(3-5) c by (simp add: sorted_ok_def)
  have vs: "\<forall>x \<in> set (elems ?sk). valid x" using v sets by simp
  note b = comparator.bsearch_correct [OF cmp [of c] p(2) vs le]
  have find: "sk_find call (Some sk) p =
      (map_option (first_match (call c p) (elems ?sk)) (bsearch (call c p) (elems ?sk)), Some ?sk)"
    using c p by (simp add: sk_find_def Let_def)
  show ?thesis
  proof (cases "bsearch (call c p) (elems ?sk)")
    case None
    with b have "\<forall>i < length (elems ?sk). call c p (elems ?sk ! i) \<noteq> 0" by simp
    then have "\<forall>x \<in> set (elems ?sk). call c p x \<noteq> 0" by (auto simp: in_set_conv_nth)
    then show ?thesis unfolding find None sets by (simp add: s)
  next
    case (Some i)
    let ?f = "first_match (call c p) (elems ?sk) i"
    from b Some have i: "i < length (elems ?sk)" "call c p (elems ?sk ! i) = 0" by simp_all
    have f: "?f < length (elems ?sk)" "call c p (elems ?sk ! ?f) = 0"
      "?f = 0 \<or> call c p (elems ?sk ! (?f - 1)) \<noteq> 0"
      using first_match_spec [of "call c p" "elems ?sk" i] i by (auto intro: le_less_trans)
    have "\<forall>j < ?f. call c p (elems ?sk ! j) > 0"
      using comparator.before_first_match [OF cmp [of c] p(2) vs le f] by blast
    then have "\<forall>j < ?f. call c p (elems ?sk ! j) \<noteq> 0" by fastforce
    with f(1,2) show ?thesis unfolding find Some by (simp add: s)
  qed
qed

section \<open>Copying\<close>

lemma sk_dup_ok:
  assumes ok: "stack_ok sk" and junk: "\<And>n. length (junk n) = n" and dup: "sk_dup alloc junk (Some sk) = Some ret"
  shows "stack_ok ret \<and> elems ret = elems sk \<and> stack_sorted ret = stack_sorted sk \<and> stack_comp ret = stack_comp sk"
  using assms
  by (auto simp: sk_dup_def sk_new_def stack_ok_def elems_def Let_def split: if_splits option.splits)

text \<open>Copying a list of pointers, from left to right; \<open>Inl\<close> are the copies made before a failure.\<close>

fun copy_all :: "('s \<Rightarrow> ptr \<Rightarrow> ptr \<times> 's) \<Rightarrow> 's \<Rightarrow> ptr list \<Rightarrow> (ptr list + ptr list) \<times> 's" where
  "copy_all copy st [] = (Inr [], st)"
| "copy_all copy st (x # xs) =
     (if x = 0
      then (case copy_all copy st xs of (Inl fs, st') \<Rightarrow> (Inl fs, st') | (Inr ys, st') \<Rightarrow> (Inr (0 # ys), st'))
      else
        (case copy st x of (p, st') \<Rightarrow>
           if p = 0 then (Inl [], st')
           else (case copy_all copy st' xs of
                   (Inl fs, st'') \<Rightarrow> (Inl (p # fs), st'') | (Inr ys, st'') \<Rightarrow> (Inr (p # ys), st''))))"

lemma copy_all_length: "copy_all copy st xs = (Inr ys, st') \<Longrightarrow> length ys = length xs"
proof (induction xs arbitrary: st st' ys)
  case (Cons x xs)
  then show ?case by (fastforce split: if_splits prod.splits sum.splits)
qed simp

lemma take_update_nonzero:
  "i < length data \<Longrightarrow> p \<noteq> 0 \<Longrightarrow>
    filter (\<lambda>q. q \<noteq> 0) (take (Suc i) (data[i := p])) = filter (\<lambda>q. q \<noteq> 0) (take i data) @ [p :: ptr]"
  by (simp add: take_Suc_conv_app_nth)

lemma deep_copy_loop_eq:
  assumes "i \<le> num" "num \<le> length data"
  shows "deep_copy_loop copy num st i data =
    (case copy_all copy st (drop i (take num data)) of
       (Inl fs, st') \<Rightarrow> (Inl (filter (\<lambda>q. q \<noteq> 0) (take i data) @ fs), st')
     | (Inr ys, st') \<Rightarrow> (Inr (take i data @ ys @ drop num data), st'))"
  using assms
proof (induction copy num st i data rule: deep_copy_loop.induct)
  case (1 copy num st i data)
  show ?case
  proof (cases "i < num")
    case True
    then have d: "drop i (take num data) = data ! i # drop (Suc i) (take num data)"
      using "1.prems" by (simp add: Cons_nth_drop_Suc [symmetric])
    have rest: "drop (Suc i) (take num (data[i := p])) = drop (Suc i) (take num data)" for p
      by (simp add: drop_take)
    show ?thesis
    proof (cases "data ! i = 0")
      case z: True
      with 1(1) [OF True z] True "1.prems" show ?thesis
        by (simp add: deep_copy_loop.simps [of copy num st i data] d take_Suc_conv_app_nth split: prod.splits sum.splits)
    next
      case False
      obtain p st' where p: "copy st (data ! i) = (p, st')" by (cases "copy st (data ! i)")
      show ?thesis
      proof (cases "p = 0")
        case z: True
        with True False p show ?thesis by (simp add: deep_copy_loop.simps [of copy num st i data] d)
      next
        case nz: False
        have "take (Suc i) (data[i := p]) = take i data @ [p]" using True "1.prems" by (simp add: take_Suc_conv_app_nth)
        with 1(2) [OF True False p [symmetric] nz] True False p nz "1.prems" show ?thesis
          by (simp add: deep_copy_loop.simps [of copy num st i data] d rest split: prod.splits sum.splits)
      qed
    qed
  next
    case False
    with "1.prems" show ?thesis by (subst deep_copy_loop.simps) simp
  qed
qed

section \<open>Sequences of operations\<close>

text \<open>All operations but \<open>sk_set\<close>, which may break the order that the flag promises.\<close>

inductive stack_step ::
  "('c \<Rightarrow> ptr \<Rightarrow> ptr \<Rightarrow> int) \<Rightarrow> (nat \<Rightarrow> bool) \<Rightarrow> (nat \<Rightarrow> ptr list) \<Rightarrow> 'c stack \<Rightarrow> 'c stack \<Rightarrow> bool"
  for call alloc junk where
  step_insert: "sk_insert alloc junk (Some sk) p i = (r, Some sk') \<Longrightarrow> stack_step call alloc junk sk sk'"
| step_push: "sk_push alloc junk sk p = (r, Some sk') \<Longrightarrow> stack_step call alloc junk sk sk'"
| step_delete: "sk_delete (Some sk) i = (q, Some sk') \<Longrightarrow> stack_step call alloc junk sk sk'"
| step_delete_ptr: "sk_delete_ptr (Some sk) p = (q, Some sk') \<Longrightarrow> stack_step call alloc junk sk sk'"
| step_pop: "sk_pop (Some sk) = (q, Some sk') \<Longrightarrow> stack_step call alloc junk sk sk'"
| step_shift: "sk_shift (Some sk) = (q, Some sk') \<Longrightarrow> stack_step call alloc junk sk sk'"
| step_zero: "sk_zero (Some sk) = Some sk' \<Longrightarrow> stack_step call alloc junk sk sk'"
| step_sort: "stack_step call alloc junk sk (sk_sort call sk)"
| step_find: "sk_find call (Some sk) p = (f, Some sk') \<Longrightarrow> stack_step call alloc junk sk sk'"
| step_set_cmp: "sk_set_cmp_func sk c = (old, sk') \<Longrightarrow> stack_step call alloc junk sk sk'"
| step_dup: "sk_dup alloc junk (Some sk) = Some sk' \<Longrightarrow> stack_step call alloc junk sk sk'"

lemma sorted_list_delete: "sorted_wrt P xs \<Longrightarrow> sorted_wrt P (list_delete i xs)"
proof -
  assume "sorted_wrt P xs"
  then have "sorted_wrt P (take i xs @ drop i xs)" by simp
  then show ?thesis
    by (cases "drop i xs") (auto simp: list_delete_def drop_Suc drop_tl sorted_wrt_append simp del: append_take_drop_id)
qed

definition stack_inv :: "('c \<Rightarrow> ptr \<Rightarrow> ptr \<Rightarrow> int) \<Rightarrow> 'c stack \<Rightarrow> bool" where
  "stack_inv call sk \<longleftrightarrow> stack_ok sk \<and> sorted_ok call sk"

lemma stack_inv_delete:
  assumes "stack_inv call sk" "sk_delete (Some sk) i = (q, Some sk')"
  shows "stack_inv call sk'"
proof (cases "i < stack_num sk")
  case True
  with assms sk_delete_ok [of sk i q "Some sk'"] have "stack_ok sk'" "elems sk' = list_delete i (elems sk)"
    "stack_sorted sk' = stack_sorted sk" "stack_comp sk' = stack_comp sk"
    by (auto simp: stack_inv_def)
  with assms(1) show ?thesis
    by (auto simp: stack_inv_def sorted_ok_def intro: sorted_list_delete split: option.splits)
qed (use assms in auto)

lemma stack_inv_insert:
  assumes "stack_inv call sk" "\<And>n. length (junk n) = n" "sk_insert alloc junk (Some sk) p i = (r, Some sk')"
  shows "stack_inv call sk'"
  using sk_insert_ok [OF _ assms(2,3)] assms(1) by (auto simp: stack_inv_def sorted_ok_def)

lemma stack_inv_sort:
  assumes "stack_inv call sk" "\<And>c. comparator (call c) (\<lambda>_. True)"
  shows "stack_inv call (sk_sort call sk)"
  using sk_sort_ok [where call = call and valid = "\<lambda>_. True" and sk = sk] assms by (simp add: stack_inv_def)

lemma sk_find_state: "sk_find call (Some sk) p = (f, Some sk') \<Longrightarrow> sk' = sk \<or> sk' = sk_sort call sk"
  by (auto simp: sk_find_def Let_def split: option.splits if_splits)

lemma stack_step_inv:
  assumes "stack_step call alloc junk sk sk'" "stack_inv call sk"
    and "\<And>c. comparator (call c) (\<lambda>_. True)" "\<And>n. length (junk n) = n"
  shows "stack_inv call sk'"
  using assms(1)
proof (cases rule: stack_step.cases)
  case (step_insert p i r)
  with assms(2,4) show ?thesis by (blast intro: stack_inv_insert)
next
  case (step_push p r)
  with assms(2,4) show ?thesis unfolding sk_push_def by (blast intro: stack_inv_insert)
next
  case (step_delete i q)
  with assms(2) show ?thesis by (rule stack_inv_delete)
next
  case (step_delete_ptr p q)
  with assms(2) show ?thesis by (auto intro: stack_inv_delete simp del: sk_delete.simps split: option.splits)
next
  case (step_pop q)
  with assms(2) show ?thesis
    by (auto simp: sk_pop_def intro: stack_inv_delete simp del: sk_delete.simps split: if_splits)
next
  case (step_shift q)
  with assms(2) show ?thesis
    by (auto simp: sk_shift_def intro: stack_inv_delete simp del: sk_delete.simps split: if_splits)
next
  case step_zero
  with assms(2) sk_zero_ok [of sk sk'] show ?thesis
    by (auto simp: stack_inv_def sorted_ok_def split: option.splits if_splits)
next
  case step_sort
  with assms(2,3) show ?thesis by (simp add: stack_inv_sort)
next
  case (step_find p f)
  with sk_find_state [OF this] assms(2,3) show ?thesis by (auto simp: stack_inv_sort)
next
  case (step_set_cmp c old)
  with assms(2) show ?thesis
    by (auto simp: sk_set_cmp_func_def stack_inv_def stack_ok_def sorted_ok_def split: if_splits option.splits)
next
  case step_dup
  with assms(2) sk_dup_ok [OF _ assms(4) step_dup] show ?thesis
    by (auto simp: stack_inv_def sorted_ok_def split: option.splits)
qed

section \<open>Properties\<close>

text \<open>C30: From \<open>sk_new\<close> on, after any sequence of \<open>sk_insert\<close>, \<open>sk_push\<close>, \<open>sk_delete\<close>,
  \<open>sk_delete_ptr\<close>, \<open>sk_pop\<close>, \<open>sk_shift\<close>, \<open>sk_zero\<close>, \<open>sk_sort\<close>, \<open>sk_find\<close>, \<open>sk_set_cmp_func\<close> and \<open>sk_dup\<close>, the
  elements and one slot more fit into the allocated array, whose size in bytes does not overflow
  \<open>size_t\<close>, and when the sorted flag is set the elements are in the order of the comparison function.
  The comparison functions are to order all pointers, NULL included (a total preorder).  The operations
  that put foreign pointers under a flag that stays, \<open>sk_set\<close> and \<open>sk_deep_copy\<close>, are not in the sequence.\<close>

theorem stack_reachable:
  assumes "sk_new alloc c = Some sk" "(stack_step call alloc junk)\<^sup>*\<^sup>* sk sk'"
    and "\<And>c. comparator (call c) (\<lambda>_. True)" "\<And>n. length (junk n) = n"
  shows "stack_num sk' < stack_num_alloc sk' \<and> length (stack_data sk') = stack_num_alloc sk' \<and>
    stack_num_alloc sk' * 8 < 2 ^ 64 \<and>
    (stack_sorted sk' \<and> stack_comp sk' = Some d \<longrightarrow> sorted_wrt (\<lambda>x y. call d x y \<le> 0) (elems sk'))"
proof -
  from assms(2) have "stack_inv call sk'"
  proof (induction rule: rtranclp_induct)
    case base
    with sk_new_ok [OF assms(1)] show ?case by (simp add: stack_inv_def sorted_ok_def)
  next
    case (step y z)
    from stack_step_inv [OF step(2,3) assms(3,4)] show ?case .
  qed
  then show ?thesis by (auto simp: stack_inv_def stack_ok_def sorted_ok_def)
qed

text \<open>Addresses compared as numbers.\<close>

definition address_cmp :: "unit \<Rightarrow> ptr \<Rightarrow> ptr \<Rightarrow> int" where
  "address_cmp _ x y = uint x - uint y"

interpretation address: linear_comparator "address_cmp ()" "\<lambda>_. True"
  by unfold_locales (auto simp: address_cmp_def word_uint_eq_iff)

definition sample_stack :: "unit stack" where
  "sample_stack = \<lparr>stack_num = 3, stack_data = [5, 1, 3, 0], stack_sorted = False, stack_num_alloc = 4,
     stack_comp = Some ()\<rparr>"

theorem stack_reachable_witness:
  "\<exists>sk sk1. sk_new (\<lambda>_. True) (Some ()) = Some sk \<and> snd (sk_push (\<lambda>_. True) (\<lambda>n. replicate n 9) sk 7) = Some sk1 \<and>
    stack_num sk1 = 1 \<and> stack_num sk1 < stack_num_alloc sk1"
proof -
  obtain sk :: "unit stack" where sk: "sk_new (\<lambda>_. True) (Some ()) = Some sk" by (simp add: sk_new_def)
  obtain sk1 where sk1: "sk_push (\<lambda>_. True) (\<lambda>n. replicate n 9) sk 7 = (1, Some sk1)" "stack_num sk1 = 1"
    using sk by (auto simp: sk_new_def sk_push_def sk_insert_def sk_grow_def kMinSize_def Let_def)
  have steps: "(stack_step address_cmp (\<lambda>_. True) (\<lambda>n. replicate n 9))\<^sup>*\<^sup>* sk sk1"
    by (rule r_into_rtranclp) (rule step_push [OF sk1(1)])
  have "comparator (address_cmp c) (\<lambda>_. True)" for c
    using address.comparator_axioms by (cases c) simp
  from stack_reachable [OF sk steps this, of "()"] sk sk1 show ?thesis by auto
qed

text \<open>C31: \<open>sk_insert\<close> either fails without a change or puts the pointer at the
  index (at the end when the index is too large), moves the later elements up by one, and
  clears the sorted flag.\<close>

theorem insert_refines_list:
  assumes "stack_ok sk" "\<And>n. length (junk n) = n" "sk_insert alloc junk (Some sk) p i = (r, s)"
  shows "r = 0 \<and> s = Some sk \<or>
    (\<exists>sk'. r = stack_num sk + 1 \<and> s = Some sk' \<and> stack_ok sk' \<and> \<not> stack_sorted sk' \<and>
      elems sk' = take i (elems sk) @ [p] @ drop i (elems sk))"
  using sk_insert_ok [OF assms] by (auto simp: list_insert_def)

theorem insert_refines_list_witness:
  "\<exists>sk'. snd (sk_insert (\<lambda>_. True) (\<lambda>n. replicate n 9) (Some sample_stack) 8 1) = Some sk' \<and>
     elems sk' = [5, 8, 1, 3]"
proof -
  have ok: "stack_ok sample_stack" by (simp add: sample_stack_def stack_ok_def kMinSize_def)
  obtain r s where rs: "sk_insert (\<lambda>_. True) (\<lambda>n. replicate n 9) (Some sample_stack) 8 1 = (r, s)"
    by (cases "sk_insert (\<lambda>_. True) (\<lambda>n. replicate n 9) (Some sample_stack) 8 1")
  have "r \<noteq> 0" using rs by (auto simp: sk_insert_def sk_grow_def sk_new_alloc_def alloc_overflow_def sample_stack_def Let_def)
  with insert_refines_list [OF ok _ rs] rs show ?thesis
    by (auto simp: elems_def sample_stack_def)
qed

text \<open>C32: \<open>sk_find\<close> of a pointer other than NULL, on a stack with a comparison function that
  orders the elements and the pointer, and whose sorted flag, if set, is true to the elements: it
  leaves the elements sorted and the flag set, without losing or adding one, and returns the index
  of the first element that compares as equal to the pointer, or nothing when there is none.\<close>

theorem find_first_equal:
  assumes "stack_ok sk" "\<And>c. comparator (call c) valid" "\<forall>x \<in> set (elems sk). valid x"
    and "stack_sorted sk \<Longrightarrow> sorted_wrt (\<lambda>x y. call c x y \<le> 0) (elems sk)"
    and "stack_comp sk = Some c" "p \<noteq> 0" "valid p"
  shows "\<exists>r sk'. sk_find call (Some sk) p = (r, Some sk') \<and> mset (elems sk') = mset (elems sk) \<and>
    stack_sorted sk' \<and> sorted_wrt (\<lambda>x y. call c x y \<le> 0) (elems sk') \<and>
    (case r of None \<Rightarrow> \<forall>x \<in> set (elems sk). call c p x \<noteq> 0
     | Some i \<Rightarrow> i < length (elems sk') \<and> call c p (elems sk' ! i) = 0 \<and>
         (\<forall>j < i. call c p (elems sk' ! j) \<noteq> 0))"
proof -
  have "sorted_ok call sk" using assms(4,5) by (simp add: sorted_ok_def)
  from sk_find_ok [OF assms(1-3) this assms(5-7)] obtain r sk' where f:
    "sk_find call (Some sk) p = (r, Some sk')" "sorted_ok call sk'" "stack_comp sk' = stack_comp sk" "stack_sorted sk'"
    "mset (elems sk') = mset (elems sk)"
    "case r of None \<Rightarrow> \<forall>x \<in> set (elems sk). call c p x \<noteq> 0
     | Some i \<Rightarrow> i < length (elems sk') \<and> call c p (elems sk' ! i) = 0 \<and>
         (\<forall>j < i. call c p (elems sk' ! j) \<noteq> 0)" by blast
  have "sorted_wrt (\<lambda>x y. call c x y \<le> 0) (elems sk')"
    using f(2-4) assms(5) by (simp add: sorted_ok_def)
  with f show ?thesis by blast
qed

theorem find_first_equal_witness:
  "\<exists>r sk'. sk_find address_cmp (Some sample_stack) 4 = (r, Some sk') \<and> mset (elems sk') = {#5, 1, 3#} \<and>
    (case r of None \<Rightarrow> True
     | Some i \<Rightarrow> i < length (elems sk') \<and> address_cmp () 4 (elems sk' ! i) = 0)"
proof -
  have cmp: "comparator (address_cmp c) (\<lambda>_. True)" for c
    using address.comparator_axioms by (cases c) simp
  have "mset (elems sample_stack) = {#5, 1, 3#}" by (simp add: elems_def sample_stack_def)
  moreover have "stack_ok sample_stack" "\<not> stack_sorted sample_stack" "stack_comp sample_stack = Some ()"
    by (simp_all add: sample_stack_def stack_ok_def kMinSize_def)
  ultimately obtain r sk' where f: "sk_find address_cmp (Some sample_stack) 4 = (r, Some sk')"
    "mset (elems sk') = {#5, 1, 3#}"
    "case r of None \<Rightarrow> \<forall>x \<in> set (elems sample_stack). address_cmp () 4 x \<noteq> 0
     | Some i \<Rightarrow> i < length (elems sk') \<and> address_cmp () 4 (elems sk' ! i) = 0 \<and>
         (\<forall>j < i. address_cmp () 4 (elems sk' ! j) \<noteq> 0)"
    using find_first_equal [of sample_stack address_cmp "\<lambda>_. True" "()" 4, OF _ cmp] by auto
  then show ?thesis by (intro exI [of _ r] exI [of _ sk']) (simp split: option.splits)
qed

text \<open>C33: \<open>sk_delete_ptr\<close> removes exactly one occurrence of the pointer, the first, and keeps
  the order of the others; without an occurrence it changes nothing and returns
  \<open>NULL\<close>.\<close>

theorem delete_ptr_removes_first:
  assumes "stack_ok sk"
  shows "if p \<in> set (elems sk)
    then \<exists>sk'. sk_delete_ptr (Some sk) p = (p, Some sk') \<and> stack_ok sk' \<and> elems sk' = remove1 p (elems sk)
    else sk_delete_ptr (Some sk) p = (0, Some sk)"
proof (cases "index_from (elems sk) p 0")
  case None
  then have "p \<notin> set (elems sk)" by (simp add: index_from_None)
  with None show ?thesis by simp
next
  case (Some i)
  from index_from_Some [OF Some] have i: "i < length (elems sk)" "elems sk ! i = p" "p \<notin> set (take i (elems sk))"
    by simp_all
  with assms have "i < stack_num sk" by simp
  from sk_delete_ok [OF assms this, of "fst (sk_delete (Some sk) i)" "snd (sk_delete (Some sk) i)"]
  obtain sk' where "sk_delete (Some sk) i = (p, Some sk')" "stack_ok sk'" "elems sk' = list_delete i (elems sk)"
    using i(2) by (auto simp del: sk_delete.simps simp: prod_eq_iff)
  with Some i list_delete_remove1 [OF i] show ?thesis
    by (auto simp del: sk_delete.simps dest: nth_mem)
qed

theorem delete_ptr_removes_first_witness:
  "\<exists>sk'. sk_delete_ptr (Some sample_stack) 1 = (1, Some sk') \<and> elems sk' = [5, 3]"
  using delete_ptr_removes_first [of sample_stack 1]
  by (auto simp: sample_stack_def stack_ok_def kMinSize_def elems_def)

text \<open>C34: \<open>sk_deep_copy\<close> is the copy of the list of elements from left to right: when there
  is no memory for the duplicate of the array it fails without a copy; otherwise it succeeds with
  the copies in place of the elements that are not \<open>NULL\<close>, or, when a copy fails, frees exactly
  the copies it has made, each once.\<close>

theorem deep_copy_refines_list:
  assumes "stack_ok sk" "\<And>n. length (junk n) = n"
  shows "if sk_dup alloc junk (Some sk) = None then sk_deep_copy alloc junk copy (Some sk) st = (Inl [], st)
    else case copy_all copy st (elems sk) of
      (Inl copies, st') \<Rightarrow> sk_deep_copy alloc junk copy (Some sk) st = (Inl copies, st')
    | (Inr ys, st') \<Rightarrow> \<exists>sk'. sk_deep_copy alloc junk copy (Some sk) st = (Inr sk', st') \<and>
        stack_num sk' = stack_num sk \<and> elems sk' = ys"
proof (cases "sk_dup alloc junk (Some sk)")
  case None
  then show ?thesis by (simp add: sk_deep_copy_def)
next
  case (Some ret)
  note d = sk_dup_ok [OF assms Some]
  then have "stack_num ret = stack_num sk" using length_elems [OF assms(1)] length_elems [of ret] by simp
  moreover have "stack_num ret \<le> length (stack_data ret)" using d by (simp add: stack_ok_def)
  moreover have "length ys = stack_num sk" if "copy_all copy st (elems sk) = (Inr ys, st')" for ys st'
    using copy_all_length [OF that] assms(1) by simp
  moreover have "take (stack_num ret) (stack_data ret) = elems sk" using d by (simp add: elems_def)
  ultimately show ?thesis
    using deep_copy_loop_eq [of 0 "stack_num ret" "stack_data ret" copy st] Some
    by (auto simp: sk_deep_copy_def elems_def [of "_\<lparr>stack_data := _\<rparr>"] split: prod.splits sum.splits)
qed

text \<open>A copy function that runs out of memory at the second element.\<close>

theorem deep_copy_refines_list_witness:
  "\<exists>ret. sk_dup (\<lambda>_. True) (\<lambda>n. replicate n 9) (Some sample_stack) = Some ret \<and>
    sk_deep_copy (\<lambda>_. True) (\<lambda>n. replicate n 9) (\<lambda>n p. (if n = 0 then 0 else p + 100, n - 1)) (Some sample_stack) (1 :: nat) =
      (Inl [105], 0)"
proof -
  obtain ret where ret: "sk_dup (\<lambda>_. True) (\<lambda>n. replicate n 9) (Some sample_stack) = Some ret"
    by (simp add: sk_dup_def sk_new_def Let_def)
  have "elems sample_stack = [5, 1, 3]" by (simp add: elems_def sample_stack_def)
  then have "copy_all (\<lambda>n p. (if n = 0 then 0 else p + 100, n - 1)) (1 :: nat) (elems sample_stack) = (Inl [105], 0)"
    by simp
  moreover have "stack_ok sample_stack" by (simp add: sample_stack_def stack_ok_def kMinSize_def)
  ultimately show ?thesis
    using deep_copy_refines_list [of sample_stack "\<lambda>n. replicate n 9" "\<lambda>_. True"
        "\<lambda>n p. (if n = 0 then 0 else p + 100, n - 1)" "1 :: nat"] ret
    by simp
qed

text \<open>C39: \<open>sk_set\<close> does not clear the sorted flag: a pointer that belongs behind a later element
  of a sorted stack leaves the elements out of order and the flag set, so neither \<open>sk_sort\<close> nor \<open>sk_find\<close> of
  any pointer sorts the stack again, and \<open>sk_find\<close> searches an array that \<open>bsearch\<close> is not defined
  on.\<close>

theorem set_keeps_flag:
  assumes "stack_ok sk" "stack_sorted sk" "stack_comp sk = Some c"
    and "i < j" "j < stack_num sk" "call c p (elems sk ! j) > 0"
  shows "\<exists>sk'. sk_set (Some sk) i p = (p, Some sk') \<and> elems sk' = (elems sk)[i := p] \<and>
    sk_is_sorted (Some sk') \<and> \<not> sorted_wrt (\<lambda>x y. call c x y \<le> 0) (elems sk') \<and>
    sk_sort call sk' = sk' \<and> (\<forall>q. snd (sk_find call (Some sk') q) = Some sk')"
proof -
  let ?sk = "sk\<lparr>stack_data := (stack_data sk)[i := p]\<rparr>"
  have el: "elems ?sk = (elems sk)[i := p]" using assms(4,5) by (simp add: elems_def take_update_swap)
  have "\<not> sorted_wrt (\<lambda>x y. call c x y \<le> 0) (elems ?sk)"
  proof
    assume "sorted_wrt (\<lambda>x y. call c x y \<le> 0) (elems ?sk)"
    then have "call c (elems ?sk ! i) (elems ?sk ! j) \<le> 0"
      by (rule sorted_wrt_nth_less) (use assms(1,4,5) el in simp_all)
    then show False using assms(1,4-6) el by simp
  qed
  moreover have sort: "sk_sort call ?sk = ?sk" using assms(2) by (simp add: sk_sort_def split: option.splits)
  moreover have "snd (sk_find call (Some ?sk) q) = Some ?sk" for q
    using sort assms(3) by (simp add: sk_find_def Let_def)
  ultimately show ?thesis using assms(2,4,5) el by auto
qed

theorem set_keeps_flag_witness:
  "\<exists>sk1 sk2. sk_find address_cmp (Some sample_stack) 1 = (Some 0, Some sk1) \<and> elems sk1 = [1, 3, 5] \<and>
    sk_set (Some sk1) 0 9 = (9, Some sk2) \<and> elems sk2 = [9, 3, 5] \<and> sk_is_sorted (Some sk2) \<and>
    snd (sk_find address_cmp (Some sk2) 9) = Some sk2"
proof -
  let ?sk = "sample_stack\<lparr>stack_data := [1, 3, 5, 0], stack_sorted := True\<rparr>"
  have "sk_find address_cmp (Some sample_stack) 1 = (Some 0, Some ?sk)"
    by (simp add: sk_find_def sample_stack_def sk_sort_def elems_def address_cmp_def bsearch_def
        bsearch_loop.simps)
  moreover have "elems ?sk = [1, 3, 5]" by (simp add: elems_def sample_stack_def)
  moreover have "stack_ok ?sk" "stack_sorted ?sk" "stack_comp ?sk = Some ()" "stack_num ?sk = 3"
    by (simp_all add: sample_stack_def stack_ok_def kMinSize_def)
  moreover have "address_cmp () 9 5 > 0" by (simp add: address_cmp_def)
  ultimately show ?thesis
    using set_keeps_flag [of ?sk "()" 0 1 address_cmp 9] by (auto simp: address_cmp_def)
qed

end
