(* ===== verification/Lhash.thy ===== *)
theory Lhash
  imports Prelude "HOL-Library.Multiset"
begin

text \<open>
  The hash table of \<open>BoringSSL-GRPC/crypto/lhash/lhash.c\<close>, with the string hash of
  \<open>mem.c\<close>.  A chain is a list of items, the pointer to a pointer that
  \<open>get_next_ptr_and_hash\<close> returns is a bucket and a position in its chain.  \<open>hash\<close> and \<open>cmp\<close>
  are the functions given to \<open>lh_new\<close>, which never change; \<open>alloc n\<close> says that the C library
  gives a block of \<open>n\<close> bytes.
\<close>

section \<open>The table\<close>

record lhash_item =
  item_data :: ptr
  item_hash :: u32

record lhash =
  num_items :: nat
  buckets :: "lhash_item list list" \<comment> \<open>\<open>num_buckets\<close> is its length\<close>
  callback_depth :: nat

definition kMinNumBuckets :: nat where "kMinNumBuckets = 16"
definition kMaxAverageChainLength :: nat where "kMaxAverageChainLength = 2"
definition kMinAverageChainLength :: nat where "kMinAverageChainLength = 1"

abbreviation num_buckets :: "lhash \<Rightarrow> nat" where
  "num_buckets lh \<equiv> length (buckets lh)"

definition empty_buckets :: "nat \<Rightarrow> lhash_item list list" where
  "empty_buckets n = replicate n []"

definition lh_new :: "(nat \<Rightarrow> bool) \<Rightarrow> lhash option" where
  "lh_new alloc =
     (if \<not> alloc 48 then None
      else if \<not> alloc (8 * kMinNumBuckets) then None
      else Some \<lparr>num_items = 0, buckets = empty_buckets kMinNumBuckets, callback_depth = 0\<rparr>)"

definition lh_num_items :: "lhash \<Rightarrow> nat" where
  "lh_num_items lh = num_items lh"

text \<open>The bucket of \<open>data\<close>, the position in its chain (the length when nothing is equal) and the hash.\<close>

fun chain_position :: "(ptr \<Rightarrow> ptr \<Rightarrow> int) \<Rightarrow> ptr \<Rightarrow> lhash_item list \<Rightarrow> nat" where
  "chain_position cmp data [] = 0"
| "chain_position cmp data (cur # chain) =
     (if cmp (item_data cur) data = 0 then 0 else Suc (chain_position cmp data chain))"

definition get_next_ptr_and_hash ::
  "(ptr \<Rightarrow> u32) \<Rightarrow> (ptr \<Rightarrow> ptr \<Rightarrow> int) \<Rightarrow> lhash \<Rightarrow> ptr \<Rightarrow> nat \<times> nat \<times> u32" where
  "get_next_ptr_and_hash hash cmp lh data =
     (let b = unat (hash data) mod num_buckets lh
      in (b, chain_position cmp data (buckets lh ! b), hash data))"

definition lh_retrieve :: "(ptr \<Rightarrow> u32) \<Rightarrow> (ptr \<Rightarrow> ptr \<Rightarrow> int) \<Rightarrow> lhash \<Rightarrow> ptr \<Rightarrow> ptr" where
  "lh_retrieve hash cmp lh data =
     (case get_next_ptr_and_hash hash cmp lh data of (b, i, _) \<Rightarrow>
        if i \<ge> length (buckets lh ! b) then 0 else item_data (buckets lh ! b ! i))"

text \<open>Moving the items of one chain to the new buckets, each to the front of its new chain.\<close>

fun rebucket_chain :: "lhash_item list \<Rightarrow> lhash_item list list \<Rightarrow> lhash_item list list" where
  "rebucket_chain [] new = new"
| "rebucket_chain (cur # chain) new =
     (let b = unat (item_hash cur) mod length new
      in rebucket_chain chain (new[b := cur # new ! b]))"

definition lh_rebucket :: "(nat \<Rightarrow> bool) \<Rightarrow> lhash \<Rightarrow> nat \<Rightarrow> lhash" where
  "lh_rebucket alloc lh new_num_buckets =
     (let alloc_size = 8 * new_num_buckets mod 2 ^ 64
      in if alloc_size div 8 \<noteq> new_num_buckets then lh
         else if \<not> alloc alloc_size then lh
         else lh\<lparr>buckets := fold rebucket_chain (buckets lh) (empty_buckets new_num_buckets)\<rparr>)"

definition lh_maybe_resize :: "(nat \<Rightarrow> bool) \<Rightarrow> lhash \<Rightarrow> lhash" where
  "lh_maybe_resize alloc lh =
     (if callback_depth lh > 0 then lh
      else
        let avg_chain_length = num_items lh div num_buckets lh
        in if avg_chain_length > kMaxAverageChainLength
           then
             let new_num_buckets = num_buckets lh * 2 mod 2 ^ 64
             in if new_num_buckets > num_buckets lh then lh_rebucket alloc lh new_num_buckets else lh
           else if avg_chain_length < kMinAverageChainLength \<and> num_buckets lh > kMinNumBuckets
           then
             let half = num_buckets lh div 2;
                 new_num_buckets = (if half < kMinNumBuckets then kMinNumBuckets else half)
             in lh_rebucket alloc lh new_num_buckets
           else lh)"

text \<open>The result is the returned flag and \<open>*old_data\<close>.\<close>

definition lh_insert ::
  "(nat \<Rightarrow> bool) \<Rightarrow> (ptr \<Rightarrow> u32) \<Rightarrow> (ptr \<Rightarrow> ptr \<Rightarrow> int) \<Rightarrow> lhash \<Rightarrow> ptr \<Rightarrow> (bool \<times> ptr) \<times> lhash" where
  "lh_insert alloc hash cmp lh data =
     (case get_next_ptr_and_hash hash cmp lh data of (b, i, h) \<Rightarrow>
        let chain = buckets lh ! b
        in if i < length chain
           then
             ((True, item_data (chain ! i)),
              lh\<lparr>buckets := (buckets lh)[b := chain[i := (chain ! i)\<lparr>item_data := data\<rparr>]]\<rparr>)
           else if \<not> alloc 24 then ((False, 0), lh)
           else
             ((True, 0),
              lh_maybe_resize alloc
                (lh\<lparr>buckets := (buckets lh)[b := chain @ [\<lparr>item_data = data, item_hash = h\<rparr>]],
                    num_items := num_items lh + 1\<rparr>)))"

definition lh_delete ::
  "(nat \<Rightarrow> bool) \<Rightarrow> (ptr \<Rightarrow> u32) \<Rightarrow> (ptr \<Rightarrow> ptr \<Rightarrow> int) \<Rightarrow> lhash \<Rightarrow> ptr \<Rightarrow> ptr \<times> lhash" where
  "lh_delete alloc hash cmp lh data =
     (case get_next_ptr_and_hash hash cmp lh data of (b, i, _) \<Rightarrow>
        let chain = buckets lh ! b
        in if i \<ge> length chain then (0, lh)
           else
             (item_data (chain ! i),
              lh_maybe_resize alloc
                (lh\<lparr>buckets := (buckets lh)[b := take i chain @ drop (Suc i) chain],
                    num_items := num_items lh - 1\<rparr>)))"

text \<open>
  \<open>lh_doall_internal\<close> with a callback that changes its own state \<open>'s\<close> and leaves the table alone;
  \<open>callback_depth\<close> saturates at \<open>UINT_MAX\<close>, so that it then stays there.
\<close>

definition UINT_MAX :: nat where "UINT_MAX = 2 ^ 32 - 1"

definition lh_doall_internal ::
  "(nat \<Rightarrow> bool) \<Rightarrow> ('s \<Rightarrow> ptr \<Rightarrow> 's) \<Rightarrow> lhash \<Rightarrow> 's \<Rightarrow> 's \<times> lhash" where
  "lh_doall_internal alloc func lh st =
     (let lh1 = (if callback_depth lh < UINT_MAX then lh\<lparr>callback_depth := callback_depth lh + 1\<rparr> else lh);
          st1 = fold (\<lambda>chain s. fold (\<lambda>cur s. func s (item_data cur)) chain s) (buckets lh1) st;
          lh2 = (if callback_depth lh1 < UINT_MAX then lh1\<lparr>callback_depth := callback_depth lh1 - 1\<rparr> else lh1)
      in (st1, lh_maybe_resize alloc lh2))"

definition OPENSSL_hash32 :: "byte list \<Rightarrow> u32" where
  "OPENSSL_hash32 bs = fold (\<lambda>b h. (h XOR ucast b) * 16777619) bs 2166136261"

text \<open>\<open>str\<close> gives the characters before the terminator of the string at a pointer.\<close>

definition lh_strhash :: "(ptr \<Rightarrow> byte list) \<Rightarrow> ptr \<Rightarrow> u32" where
  "lh_strhash str c = (if c = 0 then 0 else OPENSSL_hash32 (str c))"

end
