(* ===== verification/Lhash_Spec.thy ===== *)
theory Lhash_Spec
  imports Lhash
begin

text \<open>
  The hash table refines a finite set of pointers of which no two compare as equal:
  inserting replaces an equal element, deleting removes it, and resizing changes nothing.
\<close>

section \<open>The contract of the two callbacks\<close>

text \<open>
  On the elements that satisfy \<open>ok\<close>, comparing as 0 is an equivalence and equal elements have
  the same hash.
\<close>

locale hash_contract =
  fixes hash :: "ptr \<Rightarrow> u32" and cmp :: "ptr \<Rightarrow> ptr \<Rightarrow> int" and ok :: "ptr \<Rightarrow> bool"
  assumes cmp_refl: "ok x \<Longrightarrow> cmp x x = 0"
    and cmp_sym: "ok x \<Longrightarrow> ok y \<Longrightarrow> cmp x y = 0 \<Longrightarrow> cmp y x = 0"
    and cmp_trans: "ok x \<Longrightarrow> ok y \<Longrightarrow> ok z \<Longrightarrow> cmp x y = 0 \<Longrightarrow> cmp y z = 0 \<Longrightarrow> cmp x z = 0"
    and hash_cong: "ok x \<Longrightarrow> ok y \<Longrightarrow> cmp x y = 0 \<Longrightarrow> hash x = hash y"

section \<open>The invariant\<close>

definition items :: "lhash \<Rightarrow> lhash_item list" where
  "items lh = concat (buckets lh)"

definition placed :: "lhash_item list list \<Rightarrow> bool" where
  "placed bs \<longleftrightarrow> (\<forall>i < length bs. \<forall>it \<in> set (bs ! i). unat (item_hash it) mod length bs = i)"

definition lh_set :: "lhash \<Rightarrow> ptr set" where
  "lh_set lh = item_data ` set (items lh)"

definition lh_ok :: "(ptr \<Rightarrow> u32) \<Rightarrow> (ptr \<Rightarrow> ptr \<Rightarrow> int) \<Rightarrow> lhash \<Rightarrow> bool" where
  "lh_ok hash cmp lh \<longleftrightarrow>
     kMinNumBuckets \<le> num_buckets lh \<and> placed (buckets lh) \<and>
     num_items lh = length (items lh) \<and> distinct (map item_data (items lh)) \<and>
     (\<forall>it \<in> set (items lh). item_hash it = hash (item_data it)) \<and>
     (\<forall>x \<in> lh_set lh. \<forall>y \<in> lh_set lh. cmp x y = 0 \<longrightarrow> x = y)"

lemma lh_ok_card: "lh_ok hash cmp lh \<Longrightarrow> num_items lh = card (lh_set lh)"
  by (metis distinct_card length_map lh_ok_def lh_set_def list.set_map)

lemma lh_new_ok: "lh_new alloc = Some lh \<Longrightarrow> lh_ok hash cmp lh \<and> lh_set lh = {}"
  by (auto simp: lh_new_def lh_ok_def items_def lh_set_def placed_def empty_buckets_def split: if_splits)

section \<open>Chains\<close>

lemma chain_position_le: "chain_position cmp k chain \<le> length chain"
  by (induction chain) auto

lemma chain_position_found:
  "chain_position cmp k chain < length chain \<Longrightarrow> cmp (item_data (chain ! chain_position cmp k chain)) k = 0"
  by (induction chain) auto

lemma chain_position_none:
  "\<not> chain_position cmp k chain < length chain \<Longrightarrow> it \<in> set chain \<Longrightarrow> cmp (item_data it) k \<noteq> 0"
  by (induction chain) (auto split: if_splits)

lemma mset_concat_update:
  "b < length xs \<Longrightarrow> mset (concat (xs[b := ys])) + mset (xs ! b) = mset (concat xs) + mset ys"
proof (induction xs arbitrary: b)
  case (Cons x xs)
  then show ?case by (cases b) (auto simp: ac_simps)
qed simp

section \<open>Resizing\<close>

lemma length_rebucket_chain [simp]: "length (rebucket_chain chain new) = length new"
  by (induction chain new rule: rebucket_chain.induct) (auto simp: Let_def)

lemma mset_rebucket_chain:
  "new \<noteq> [] \<Longrightarrow> mset (concat (rebucket_chain chain new)) = mset chain + mset (concat new)"
proof (induction chain new rule: rebucket_chain.induct)
  case (2 cur chain new)
  let ?b = "unat (item_hash cur) mod length new"
  have b: "?b < length new" using "2.prems" by simp
  have "new[?b := cur # new ! ?b] \<noteq> []" using "2.prems" by (metis length_0_conv length_list_update)
  then have "mset (concat (rebucket_chain (cur # chain) new)) = mset chain + mset (concat (new[?b := cur # new ! ?b]))"
    using "2.IH" [OF refl] by (simp add: Let_def)
  moreover have "mset (concat (new[?b := cur # new ! ?b])) = add_mset cur (mset (concat new))"
    using mset_concat_update [OF b, of "cur # new ! ?b"] by simp
  ultimately show ?case by simp
qed simp

lemma placed_rebucket_chain: "placed new \<Longrightarrow> placed (rebucket_chain chain new)"
proof (induction chain new rule: rebucket_chain.induct)
  case (2 cur chain new)
  let ?b = "unat (item_hash cur) mod length new"
  have "placed (new[?b := cur # new ! ?b])"
  proof (cases "new = []")
    case False
    then have "?b < length new" by simp
    with "2.prems" show ?thesis by (auto simp: placed_def nth_list_update)
  qed (simp add: placed_def)
  with "2.IH" [OF refl] show ?case by (simp add: Let_def)
qed simp

lemma rebucket_all:
  assumes "new \<noteq> []" "placed new"
  shows "length (fold rebucket_chain bs new) = length new \<and> placed (fold rebucket_chain bs new) \<and>
    mset (concat (fold rebucket_chain bs new)) = mset (concat bs) + mset (concat new)"
  using assms
proof (induction bs arbitrary: new)
  case (Cons c bs)
  have "rebucket_chain c new \<noteq> []" using Cons.prems(1) by (metis length_0_conv length_rebucket_chain)
  from Cons.IH [OF this placed_rebucket_chain [OF Cons.prems(2)]] mset_rebucket_chain [OF Cons.prems(1)]
  show ?case by (simp add: ac_simps)
qed simp

lemma lh_rebucket_items:
  assumes "0 < n" "placed (buckets lh)"
  shows "mset (items (lh_rebucket alloc lh n)) = mset (items lh) \<and> placed (buckets (lh_rebucket alloc lh n)) \<and>
    num_items (lh_rebucket alloc lh n) = num_items lh \<and>
    callback_depth (lh_rebucket alloc lh n) = callback_depth lh \<and>
    (num_buckets (lh_rebucket alloc lh n) = n \<or> lh_rebucket alloc lh n = lh)"
proof -
  have "empty_buckets n \<noteq> []" "placed (empty_buckets n)" "mset (concat (empty_buckets n)) = {#}"
    using assms(1) by (auto simp: empty_buckets_def placed_def)
  from rebucket_all [OF this(1,2), of "buckets lh"] this(3) assms(2) show ?thesis
    by (auto simp: lh_rebucket_def items_def empty_buckets_def Let_def)
qed

text \<open>What the abstraction sees does not depend on the order of the items.\<close>

lemma lh_ok_mset:
  assumes "mset (items lh') = mset (items lh)" "placed (buckets lh')" "num_items lh' = num_items lh"
    "kMinNumBuckets \<le> num_buckets lh'" "lh_ok hash cmp lh"
  shows "lh_ok hash cmp lh' \<and> lh_set lh' = lh_set lh"
proof -
  have s: "set (items lh') = set (items lh)" using assms(1) by (metis set_mset_mset)
  have "mset (map item_data (items lh')) = mset (map item_data (items lh))" using assms(1) by simp
  then have "distinct (map item_data (items lh'))"
    using assms(5) mset_eq_imp_distinct_iff by (fastforce simp: lh_ok_def)
  moreover have "length (items lh') = length (items lh)" using assms(1) by (metis size_mset)
  ultimately show ?thesis using assms s by (simp add: lh_ok_def lh_set_def)
qed

lemma lh_maybe_resize_ok:
  assumes "lh_ok hash cmp lh"
  shows "lh_ok hash cmp (lh_maybe_resize alloc lh) \<and> lh_set (lh_maybe_resize alloc lh) = lh_set lh"
proof -
  have keep: "lh_ok hash cmp (lh_rebucket alloc lh n) \<and> lh_set (lh_rebucket alloc lh n) = lh_set lh"
    if "kMinNumBuckets \<le> n" for n
  proof -
    have "0 < n" "placed (buckets lh)" using that assms by (auto simp: kMinNumBuckets_def lh_ok_def)
    note r = lh_rebucket_items [OF this, of alloc]
    then have "kMinNumBuckets \<le> num_buckets (lh_rebucket alloc lh n)"
      using that assms by (auto simp: lh_ok_def)
    with r assms show ?thesis by (intro lh_ok_mset) auto
  qed
  have b: "kMinNumBuckets \<le> num_buckets lh" using assms by (simp add: lh_ok_def)
  show ?thesis
    using assms keep [of "num_buckets lh * 2 mod 2 ^ 64"] keep [of kMinNumBuckets] keep [of "num_buckets lh div 2"] b
    by (auto simp: lh_maybe_resize_def Let_def)
qed

section \<open>Finding an element\<close>

context hash_contract
begin

lemma bucket_ok: "lh_ok hash cmp lh \<Longrightarrow> unat (hash k) mod num_buckets lh < num_buckets lh"
proof -
  assume "lh_ok hash cmp lh"
  then have "0 < num_buckets lh" by (auto simp: lh_ok_def kMinNumBuckets_def)
  then show ?thesis by simp
qed

text \<open>An equal item is in the bucket of the hash.\<close>

lemma equal_in_bucket:
  assumes ok: "lh_ok hash cmp lh" and sub: "\<forall>d \<in> lh_set lh. ok d" "ok k"
    and it: "it \<in> set (items lh)" "cmp (item_data it) k = 0"
  shows "it \<in> set (buckets lh ! (unat (hash k) mod num_buckets lh))"
proof -
  from it(1) obtain chain where c: "chain \<in> set (buckets lh)" "it \<in> set chain"
    by (auto simp: items_def)
  from c(1) obtain b where b: "b < num_buckets lh" "buckets lh ! b = chain" by (auto simp: in_set_conv_nth)
  note b = b(1) c(2) [folded b(2)]
  with ok have "unat (item_hash it) mod num_buckets lh = b" by (simp add: lh_ok_def placed_def)
  moreover have "item_hash it = hash k" using ok it sub hash_cong [OF _ _ it(2)] by (simp add: lh_ok_def lh_set_def)
  ultimately show ?thesis using b by simp
qed

text \<open>The two outcomes of the search.\<close>

lemma search_cases:
  assumes ok: "lh_ok hash cmp lh" and sub: "\<forall>d \<in> lh_set lh. ok d" "ok k" and g: "get_next_ptr_and_hash hash cmp lh k = (b, i, h)"
  obtains
    (found) "b < num_buckets lh" "i < length (buckets lh ! b)" "h = hash k"
      "cmp (item_data (buckets lh ! b ! i)) k = 0" "item_data (buckets lh ! b ! i) \<in> lh_set lh"
      "\<And>d. d \<in> lh_set lh \<Longrightarrow> cmp d k = 0 \<Longrightarrow> d = item_data (buckets lh ! b ! i)"
  | (absent) "b < num_buckets lh" "i = length (buckets lh ! b)" "h = hash k" "b = unat (hash k) mod num_buckets lh"
      "\<And>d. d \<in> lh_set lh \<Longrightarrow> cmp d k \<noteq> 0"
proof (cases "i < length (buckets lh ! b)")
  case True
  have gb: "b = unat (hash k) mod num_buckets lh" "h = hash k" "i = chain_position cmp k (buckets lh ! b)"
    using g by (auto simp: get_next_ptr_and_hash_def Let_def)
  have b: "b < num_buckets lh" using bucket_ok [OF ok] gb by simp
  let ?it = "buckets lh ! b ! i"
  have eq: "cmp (item_data ?it) k = 0" using chain_position_found [of cmp k "buckets lh ! b"] True gb by simp
  have "?it \<in> set (buckets lh ! b)" "buckets lh ! b \<in> set (buckets lh)" using True b by simp_all
  then have "?it \<in> set (items lh)" by (auto simp: items_def)
  then have in_set: "item_data ?it \<in> lh_set lh" by (simp add: lh_set_def)
  have "d = item_data ?it" if "d \<in> lh_set lh" "cmp d k = 0" for d
  proof -
    have oks: "ok d" "ok (item_data ?it)" using sub that(1) in_set by auto
    have "cmp d (item_data ?it) = 0"
      by (rule cmp_trans [OF oks(1) sub(2) oks(2) that(2) cmp_sym [OF oks(2) sub(2) eq]])
    with ok that(1) in_set show ?thesis unfolding lh_ok_def by blast
  qed
  then show thesis by (rule found [OF b True gb(2) eq in_set])
next
  case False
  have gb: "b = unat (hash k) mod num_buckets lh" "h = hash k" "i = chain_position cmp k (buckets lh ! b)"
    using g by (auto simp: get_next_ptr_and_hash_def Let_def)
  have b: "b < num_buckets lh" using bucket_ok [OF ok] gb by simp
  have i: "i = length (buckets lh ! b)"
    using False gb chain_position_le [of cmp k "buckets lh ! b"] by simp
  have "cmp d k \<noteq> 0" if "d \<in> lh_set lh" for d
  proof
    assume z: "cmp d k = 0"
    from that obtain it where it: "it \<in> set (items lh)" "d = item_data it" by (auto simp: lh_set_def)
    then have "it \<in> set (buckets lh ! b)" using equal_in_bucket [OF ok sub it(1)] z gb by simp
    with chain_position_none [of cmp k "buckets lh ! b" it] False gb it(2) z show False by simp
  qed
  then show thesis by (rule absent [OF b i gb(2,1)])
qed

lemma retrieve_spec:
  assumes ok: "lh_ok hash cmp lh" and sub: "\<forall>d \<in> lh_set lh. ok d" "ok k"
  shows "if \<exists>d \<in> lh_set lh. cmp d k = 0
    then lh_retrieve hash cmp lh k \<in> lh_set lh \<and> cmp (lh_retrieve hash cmp lh k) k = 0
    else lh_retrieve hash cmp lh k = 0"
proof -
  obtain b i h where g: "get_next_ptr_and_hash hash cmp lh k = (b, i, h)"
    by (cases "get_next_ptr_and_hash hash cmp lh k")
  show ?thesis
  proof (cases rule: search_cases [OF ok sub g])
    case 1
    have "lh_retrieve hash cmp lh k = item_data (buckets lh ! b ! i)"
      using g 1(2) by (simp add: lh_retrieve_def)
    with 1(4,5) show ?thesis by auto
  next
    case 2
    have "lh_retrieve hash cmp lh k = 0" using g 2(2) by (simp add: lh_retrieve_def)
    with 2(5) show ?thesis by auto
  qed
qed

section \<open>Inserting and deleting\<close>

text \<open>The items around a place in a chain.\<close>

definition before :: "lhash_item list list \<Rightarrow> nat \<Rightarrow> nat \<Rightarrow> lhash_item list" where
  "before bs b i = concat (take b bs) @ take i (bs ! b)"

definition behind :: "lhash_item list list \<Rightarrow> nat \<Rightarrow> nat \<Rightarrow> lhash_item list" where
  "behind bs b i = drop i (bs ! b) @ concat (drop (Suc b) bs)"

lemma concat_place:
  assumes "b < length bs"
  shows "concat bs = before bs b i @ behind bs b i"
    and "concat (bs[b := take i (bs ! b) @ c @ drop j (bs ! b)]) = before bs b i @ c @ behind bs b j"
proof -
  have "concat bs = concat (take b bs @ bs ! b # drop (Suc b) bs)" using id_take_nth_drop [OF assms] by simp
  then have "concat bs = concat (take b bs) @ bs ! b @ concat (drop (Suc b) bs)" by simp
  then show "concat bs = before bs b i @ behind bs b i"
    by (simp add: before_def behind_def)
  show "concat (bs[b := take i (bs ! b) @ c @ drop j (bs ! b)]) = before bs b i @ c @ behind bs b j"
    using assms by (simp add: upd_conv_take_nth_drop before_def behind_def)
qed

lemma behind_Suc: "i < length (bs ! b) \<Longrightarrow> behind bs b i = bs ! b ! i # behind bs b (Suc i)"
  by (simp add: behind_def Cons_nth_drop_Suc [symmetric])

lemma placed_update:
  "placed bs \<Longrightarrow> \<forall>it \<in> set chain. unat (item_hash it) mod length bs = b \<Longrightarrow> placed (bs[b := chain])"
  by (cases "b < length bs") (auto simp: placed_def nth_list_update)

text \<open>The items of a table around one of them, and what is equal to it.\<close>

lemma lh_ok_around:
  assumes ok: "lh_ok hash cmp lh" and sub: "\<forall>d \<in> lh_set lh. ok d" "ok k"
    and it: "items lh = P @ it # Q" and eq: "cmp (item_data it) k = 0"
  shows "\<forall>d \<in> item_data ` set (P @ Q). cmp d k \<noteq> 0 \<and> d \<noteq> k"
proof
  fix d assume d: "d \<in> item_data ` set (P @ Q)"
  have u: "cmp x y \<noteq> 0 \<or> x = y" if "x \<in> lh_set lh" "y \<in> lh_set lh" for x y
    using ok that by (auto simp: lh_ok_def)
  have in_set: "d \<in> lh_set lh" "item_data it \<in> lh_set lh" using d it by (auto simp: lh_set_def)
  have "distinct (map item_data (P @ it # Q))" using ok it by (simp add: lh_ok_def)
  then have "item_data it \<notin> item_data ` set (P @ Q)" by auto
  with d have "d \<noteq> item_data it" by blast
  moreover have "cmp d (item_data it) = 0" if "cmp d k = 0"
    using sub in_set by (intro cmp_trans [OF _ _ _ that cmp_sym [OF _ _ eq]]) auto
  ultimately have "cmp d k \<noteq> 0" using u [OF in_set] by blast
  then show "cmp d k \<noteq> 0 \<and> d \<noteq> k" using cmp_refl [OF sub(2)] by auto
qed

lemma lh_ok_others:
  assumes "lh_ok hash cmp lh" "items lh = P @ xs @ Q"
  shows "distinct (map item_data (P @ Q)) \<and> (\<forall>it \<in> set (P @ Q). item_hash it = hash (item_data it)) \<and>
    (\<forall>x \<in> item_data ` set (P @ Q). \<forall>y \<in> item_data ` set (P @ Q). cmp x y = 0 \<longrightarrow> x = y)"
  using assms by (auto simp: lh_ok_def lh_set_def)

lemma lh_ok_intro:
  assumes old: "lh_ok hash cmp lh" "items lh = P @ xs @ Q"
    and new: "items lh' = P @ [it'] @ Q" "kMinNumBuckets \<le> num_buckets lh'" "placed (buckets lh')"
      "num_items lh' = length (items lh')" "item_hash it' = hash (item_data it')"
    and other: "\<forall>d \<in> item_data ` set (P @ Q). cmp d (item_data it') \<noteq> 0 \<and> d \<noteq> item_data it'"
    and sub: "\<forall>d \<in> lh_set lh. ok d" "ok (item_data it')"
  shows "lh_ok hash cmp lh'"
proof -
  note o = lh_ok_others [OF old]
  have sym: "cmp (item_data it') d \<noteq> 0" if "d \<in> item_data ` set (P @ Q)" for d
    using other that cmp_sym [of "item_data it'" d] sub old(2) by (auto simp: lh_set_def)
  have "distinct (map item_data (items lh'))" using o other new(1) by auto
  moreover have "\<forall>x \<in> lh_set lh'. \<forall>y \<in> lh_set lh'. cmp x y = 0 \<longrightarrow> x = y"
  proof (intro ballI impI)
    fix x y assume "x \<in> lh_set lh'" "y \<in> lh_set lh'" and z: "cmp x y = 0"
    then consider "x \<in> item_data ` set (P @ Q)" "y \<in> item_data ` set (P @ Q)"
      | "x = item_data it'" "y = item_data it'"
      | "x = item_data it'" "y \<in> item_data ` set (P @ Q)"
      | "y = item_data it'" "x \<in> item_data ` set (P @ Q)"
      using new(1) by (auto simp: lh_set_def)
    then show "x = y" by cases (use o sym other z in blast)+
  qed
  moreover have "\<forall>it \<in> set (items lh'). item_hash it = hash (item_data it)" using o new(1,5) by auto
  ultimately show ?thesis using new(2-4) by (simp add: lh_ok_def)
qed

lemma insert_ok:
  assumes ok: "lh_ok hash cmp lh" and sub: "\<forall>d \<in> lh_set lh. ok d" "ok data" and ins: "lh_insert alloc hash cmp lh data = ((done, old), lh')"
  shows "lh_ok hash cmp lh' \<and>
    (if \<not> done then lh' = lh \<and> old = 0 \<and> (\<forall>d \<in> lh_set lh. cmp d data \<noteq> 0)
     else lh_set lh' = {d \<in> lh_set lh. cmp d data \<noteq> 0} \<union> {data} \<and>
       (if \<exists>d \<in> lh_set lh. cmp d data = 0 then old \<in> lh_set lh \<and> cmp old data = 0 else old = 0))"
proof -
  obtain b i h where g: "get_next_ptr_and_hash hash cmp lh data = (b, i, h)"
    by (cases "get_next_ptr_and_hash hash cmp lh data")
  let ?bs = "buckets lh" and ?chain = "buckets lh ! b"
  show ?thesis
  proof (cases rule: search_cases [OF ok sub g])
    case 1
    let ?it = "?chain ! i" and ?it' = "(?chain ! i)\<lparr>item_data := data\<rparr>"
    let ?new = "lh\<lparr>buckets := ?bs[b := take i ?chain @ [?it'] @ drop (Suc i) ?chain]\<rparr>"
    have lh': "lh' = ?new" "done" "old = item_data ?it"
      using ins g 1(2) by (auto simp: lh_insert_def Let_def upd_conv_take_nth_drop)
    have it: "items lh = before ?bs b i @ ?it # behind ?bs b (Suc i)"
      using concat_place(1) [OF 1(1), of i] behind_Suc [of i ?bs b] 1(2) by (simp add: items_def)
    have it': "items ?new = before ?bs b i @ [?it'] @ behind ?bs b (Suc i)"
      using concat_place(2) [OF 1(1), of i "[?it']" "Suc i"] by (simp add: items_def)
    note other = lh_ok_around [OF ok sub it 1(4)]
    have "item_hash ?it = hash (item_data ?it)" using ok it by (simp add: lh_ok_def)
    then have hash: "item_hash ?it' = hash data" using hash_cong [OF _ sub(2) 1(4)] sub(1) 1(5) by simp
    have p: "placed ?bs" using ok by (simp add: lh_ok_def)
    then have in_b: "\<forall>it \<in> set ?chain. unat (item_hash it) mod num_buckets lh = b" using 1(1) by (simp add: placed_def)
    have "\<forall>it \<in> set (take i ?chain @ [?it'] @ drop (Suc i) ?chain). unat (item_hash it) mod num_buckets lh = b"
      using in_b nth_mem [OF 1(2)] by (auto dest: in_set_takeD in_set_dropD)
    from placed_update [OF p this] have "placed (buckets ?new)" by simp
    then have "lh_ok hash cmp ?new"
      using ok it it' other hash sub
      by (intro lh_ok_intro [OF ok _ it', of "[?it]"]) (auto simp: lh_ok_def)
    moreover have "lh_set ?new = {d \<in> lh_set lh. cmp d data \<noteq> 0} \<union> {data}"
      using it it' other 1(4) by (auto simp: lh_set_def)
    ultimately show ?thesis using lh' 1(4,5) by auto
  next
    case 2
    show ?thesis
    proof (cases "alloc 24")
      case False
      with ins g 2 ok show ?thesis by (auto simp: lh_insert_def Let_def)
    next
      case True
      let ?it' = "\<lparr>item_data = data, item_hash = h\<rparr>"
      let ?new = "lh\<lparr>buckets := ?bs[b := ?chain @ [?it']], num_items := num_items lh + 1\<rparr>"
      have lh': "lh' = lh_maybe_resize alloc ?new" "done" "old = 0"
        using ins g 2(2) True by (auto simp: lh_insert_def Let_def)
      have it: "items lh = before ?bs b i @ [] @ behind ?bs b i"
        using concat_place(1) [OF 2(1), of i] by (simp add: items_def)
      have it': "items ?new = before ?bs b i @ [?it'] @ behind ?bs b i"
        using concat_place(2) [OF 2(1), of i "[?it']" i] 2(2) by (simp add: items_def)
      have other: "\<forall>d \<in> item_data ` set (before ?bs b i @ behind ?bs b i). cmp d data \<noteq> 0 \<and> d \<noteq> data"
      proof
        fix d assume "d \<in> item_data ` set (before ?bs b i @ behind ?bs b i)"
        then have "d \<in> lh_set lh" using it by (simp add: lh_set_def)
        with 2(5) have "cmp d data \<noteq> 0" by blast
        then show "cmp d data \<noteq> 0 \<and> d \<noteq> data" using cmp_refl [OF sub(2)] by auto
      qed
      have "placed ?bs" using ok by (simp add: lh_ok_def)
      then have "placed (buckets ?new)"
        using 2(1,3,4) by (auto simp: placed_def nth_list_update)
      then have "lh_ok hash cmp ?new"
        using ok it it' other 2(3) sub
        by (intro lh_ok_intro [OF ok it it']) (auto simp: lh_ok_def)
      note r = lh_maybe_resize_ok [OF this, of alloc]
      have "lh_set ?new = {d \<in> lh_set lh. cmp d data \<noteq> 0} \<union> {data}"
        using it it' other by (auto simp: lh_set_def)
      with r lh' 2(5) show ?thesis by auto
    qed
  qed
qed

lemma delete_ok:
  assumes ok: "lh_ok hash cmp lh" and sub: "\<forall>d \<in> lh_set lh. ok d" "ok data" and del: "lh_delete alloc hash cmp lh data = (old, lh')"
  shows "lh_ok hash cmp lh' \<and> lh_set lh' = {d \<in> lh_set lh. cmp d data \<noteq> 0} \<and>
    (if \<exists>d \<in> lh_set lh. cmp d data = 0 then old \<in> lh_set lh \<and> cmp old data = 0 else old = 0)"
proof -
  obtain b i h where g: "get_next_ptr_and_hash hash cmp lh data = (b, i, h)"
    by (cases "get_next_ptr_and_hash hash cmp lh data")
  let ?bs = "buckets lh" and ?chain = "buckets lh ! b"
  show ?thesis
  proof (cases rule: search_cases [OF ok sub g])
    case 1
    let ?it = "?chain ! i"
    let ?new = "lh\<lparr>buckets := ?bs[b := take i ?chain @ drop (Suc i) ?chain], num_items := num_items lh - 1\<rparr>"
    have lh': "lh' = lh_maybe_resize alloc ?new" "old = item_data ?it"
      using del g 1(2) by (auto simp: lh_delete_def Let_def)
    have it: "items lh = before ?bs b i @ ?it # behind ?bs b (Suc i)"
      using concat_place(1) [OF 1(1), of i] behind_Suc [of i ?bs b] 1(2) by (simp add: items_def)
    have it': "items ?new = before ?bs b i @ behind ?bs b (Suc i)"
      using concat_place(2) [OF 1(1), of i "[]" "Suc i"] by (simp add: items_def)
    note other = lh_ok_around [OF ok sub it 1(4)]
    have o: "distinct (map item_data (items ?new)) \<and> (\<forall>it \<in> set (items ?new). item_hash it = hash (item_data it)) \<and>
        (\<forall>x \<in> lh_set ?new. \<forall>y \<in> lh_set ?new. cmp x y = 0 \<longrightarrow> x = y)"
      using lh_ok_others [of lh "before ?bs b i" "[?it]" "behind ?bs b (Suc i)"] ok it it' by (simp add: lh_set_def)
    have p: "placed ?bs" using ok by (simp add: lh_ok_def)
    then have in_b: "\<forall>it \<in> set ?chain. unat (item_hash it) mod num_buckets lh = b" using 1(1) by (simp add: placed_def)
    have "\<forall>it \<in> set (take i ?chain @ drop (Suc i) ?chain). unat (item_hash it) mod num_buckets lh = b"
      using in_b by (auto dest: in_set_takeD in_set_dropD)
    from placed_update [OF p this] have "placed (buckets ?new)" by simp
    then have "lh_ok hash cmp ?new"
      using ok it it' o by (simp add: lh_ok_def)
    note r = lh_maybe_resize_ok [OF this, of alloc]
    have "lh_set ?new = {d \<in> lh_set lh. cmp d data \<noteq> 0}"
      using it it' other 1(4) by (auto simp: lh_set_def)
    with r lh' 1(4,5) show ?thesis by auto
  next
    case 2
    with del g ok show ?thesis by (auto simp: lh_delete_def Let_def)
  qed
qed

end

section \<open>Sequences of operations\<close>

datatype lh_op = Insert ptr | Delete ptr | Doall

fun lh_apply :: "(nat \<Rightarrow> bool) \<Rightarrow> (ptr \<Rightarrow> u32) \<Rightarrow> (ptr \<Rightarrow> ptr \<Rightarrow> int) \<Rightarrow> lh_op \<Rightarrow> lhash \<Rightarrow> lhash" where
  "lh_apply alloc hash cmp (Insert d) lh = snd (lh_insert alloc hash cmp lh d)"
| "lh_apply alloc hash cmp (Delete d) lh = snd (lh_delete alloc hash cmp lh d)"
| "lh_apply alloc hash cmp Doall lh = snd (lh_doall_internal alloc (\<lambda>s _. s) lh ())"

text \<open>The same on a set of elements.\<close>

fun set_apply :: "(ptr \<Rightarrow> ptr \<Rightarrow> int) \<Rightarrow> lh_op \<Rightarrow> ptr set \<Rightarrow> ptr set" where
  "set_apply cmp (Insert d) S = {x \<in> S. cmp x d \<noteq> 0} \<union> {d}"
| "set_apply cmp (Delete d) S = {x \<in> S. cmp x d \<noteq> 0}"
| "set_apply cmp Doall S = S"

fun op_ok :: "(ptr \<Rightarrow> bool) \<Rightarrow> lh_op \<Rightarrow> bool" where
  "op_ok valid (Insert d) \<longleftrightarrow> valid d"
| "op_ok valid (Delete d) \<longleftrightarrow> valid d"
| "op_ok valid Doall \<longleftrightarrow> True"

lemma lh_ok_depth [simp]: "lh_ok hash cmp (lh\<lparr>callback_depth := n\<rparr>) \<longleftrightarrow> lh_ok hash cmp lh"
  by (simp add: lh_ok_def lh_set_def items_def)

lemma lh_set_depth [simp]: "lh_set (lh\<lparr>callback_depth := n\<rparr>) = lh_set lh"
  by (simp add: lh_set_def items_def)

lemma doall_ok:
  "lh_ok hash cmp lh \<Longrightarrow> lh_ok hash cmp (snd (lh_doall_internal alloc func lh st)) \<and>
    lh_set (snd (lh_doall_internal alloc func lh st)) = lh_set lh"
  by (simp add: lh_doall_internal_def Let_def lh_maybe_resize_ok)

context hash_contract
begin

lemma apply_ok:
  assumes lh: "lh_ok hash cmp lh" "\<forall>d \<in> lh_set lh. ok d" and op: "op_ok ok op" and alloc: "alloc 24"
  shows "lh_ok hash cmp (lh_apply alloc hash cmp op lh) \<and>
    lh_set (lh_apply alloc hash cmp op lh) = set_apply cmp op (lh_set lh)"
proof (cases op)
  case (Insert d)
  obtain r old lh' where i: "lh_insert alloc hash cmp lh d = ((r, old), lh')"
    by (metis prod.exhaust)
  have "r" using i alloc by (auto simp: lh_insert_def Let_def split: prod.splits if_splits)
  with insert_ok [OF lh _ i] op Insert i show ?thesis by simp
next
  case (Delete d)
  obtain old lh' where i: "lh_delete alloc hash cmp lh d = (old, lh')" by (metis prod.exhaust)
  from delete_ok [OF lh _ i] op Delete i show ?thesis by simp
next
  case Doall
  with doall_ok [OF lh(1)] show ?thesis by simp
qed

lemma set_apply_ok: "op_ok ok op \<Longrightarrow> \<forall>d \<in> S. ok d \<Longrightarrow> \<forall>d \<in> set_apply cmp op S. ok d"
  by (cases op) auto

lemma run_ok:
  assumes "lh_ok hash cmp lh" "\<forall>d \<in> lh_set lh. ok d" "\<forall>op \<in> set ops. op_ok ok op" "alloc 24"
  shows "lh_ok hash cmp (fold (lh_apply alloc hash cmp) ops lh) \<and>
    lh_set (fold (lh_apply alloc hash cmp) ops lh) = fold (set_apply cmp) ops (lh_set lh) \<and>
    (\<forall>d \<in> fold (set_apply cmp) ops (lh_set lh). ok d)"
  using assms(1-3)
proof (induction ops arbitrary: lh)
  case (Cons op ops)
  have "op_ok ok op" using Cons.prems(3) by simp
  note a = apply_ok [of lh op alloc, OF Cons.prems(1,2) this assms(4)] set_apply_ok [OF this Cons.prems(2)]
  with Cons.IH [of "lh_apply alloc hash cmp op lh"] Cons.prems(3) show ?case by simp
qed simp

end

section \<open>The load factor\<close>

text \<open>
  With memory available, a table that is not being iterated keeps less than three items per
  bucket, and more buckets than the minimum only when there is an item per bucket.
\<close>

definition load_ok :: "lhash \<Rightarrow> bool" where
  "load_ok lh \<longleftrightarrow> callback_depth lh = 0 \<and> (\<exists>k. num_buckets lh = 16 * 2 ^ k) \<and>
     num_items lh < 3 * num_buckets lh \<and> (num_buckets lh = 16 \<or> num_buckets lh \<le> num_items lh)"

lemma load_okD:
  "load_ok lh \<Longrightarrow> callback_depth lh = 0 \<and> num_items lh < 3 * num_buckets lh \<and>
     (num_buckets lh = 16 \<or> num_buckets lh \<le> num_items lh)"
  by (simp add: load_ok_def)

lemma resize_items: "num_items (lh_maybe_resize alloc lh) = num_items lh"
proof -
  have r: "num_items (lh_rebucket alloc lh n) = num_items lh" for n
    by (simp add: lh_rebucket_def Let_def)
  show ?thesis unfolding lh_maybe_resize_def Let_def by (simp only: r split: if_split) simp
qed

lemma pred_bound: "b = 16 \<or> b \<le> (n :: nat) \<Longrightarrow> b = 16 \<or> b \<le> n - 1 + 1"
  by (cases n) auto

lemma rebucket_size:
  assumes "0 < n" "8 * n < 2 ^ 64" "placed (buckets lh)"
  shows "num_buckets (lh_rebucket (\<lambda>_. True) lh n) = n"
proof -
  have "empty_buckets n \<noteq> []" "placed (empty_buckets n)" using assms(1) by (auto simp: empty_buckets_def placed_def)
  from rebucket_all [OF this, of "buckets lh"] assms(2) show ?thesis
    by (simp add: lh_rebucket_def Let_def empty_buckets_def)
qed

lemma resize_load:
  assumes "placed (buckets lh)" "callback_depth lh = 0" "num_buckets lh = 16 * 2 ^ k"
    and "num_items lh \<le> 3 * num_buckets lh" "num_buckets lh = 16 \<or> num_buckets lh \<le> num_items lh + 1"
    and "num_items lh < 2 ^ 59"
  shows "load_ok (lh_maybe_resize (\<lambda>_. True) lh)"
proof -
  let ?n = "num_buckets lh"
  have pos: "0 < ?n" using assms(3) by simp
  have bound: "?n \<le> 2 ^ 59" using assms(5,6) by auto
  have min: "?n = 16 \<or> 16 < ?n" proof -
    have "(1 :: nat) \<le> 2 ^ k" by simp
    then have "16 \<le> ?n" unfolding assms(3) by simp
    then show ?thesis by auto
  qed
  consider "num_items lh = 3 * ?n" | "num_items lh < ?n" "16 < ?n" | "num_items lh < 3 * ?n" "num_items lh \<ge> ?n \<or> ?n = 16"
    using assms(4) min by (metis nat_less_le not_le)
  then show ?thesis
  proof cases
    case 1
    have m: "?n * 2 mod 2 ^ 64 = ?n * 2" using bound by simp
    have "num_items lh div ?n = 3" using 1 pos by simp
    then have eq: "lh_maybe_resize (\<lambda>_. True) lh = lh_rebucket (\<lambda>_. True) lh (?n * 2)"
      using assms(2) pos by (simp add: lh_maybe_resize_def Let_def kMaxAverageChainLength_def m [simplified])
    have "num_buckets (lh_rebucket (\<lambda>_. True) lh (?n * 2)) = 16 * 2 ^ Suc k"
      using rebucket_size [of "?n * 2" lh] pos bound assms(1,3) by simp
    moreover have "num_items (lh_rebucket (\<lambda>_. True) lh (?n * 2)) = num_items lh"
      "callback_depth (lh_rebucket (\<lambda>_. True) lh (?n * 2)) = 0"
      using lh_rebucket_items [of "?n * 2" lh "\<lambda>_. True"] pos assms(1,2) by simp_all
    ultimately show ?thesis
      unfolding load_ok_def eq using 1 assms(3) by (intro conjI exI [of _ "Suc k"]) auto
  next
    case 2
    then obtain j where j: "k = Suc j" using assms(3) by (cases k) auto
    have half: "?n div 2 = 16 * 2 ^ j" "\<not> ?n div 2 < 16" using assms(3) j by simp_all
    have "num_items lh div ?n = 0" using 2 by simp
    then have eq: "lh_maybe_resize (\<lambda>_. True) lh = lh_rebucket (\<lambda>_. True) lh (?n div 2)"
      using assms(2) 2 half(2)
      by (simp add: lh_maybe_resize_def Let_def kMaxAverageChainLength_def kMinAverageChainLength_def kMinNumBuckets_def)
    have "num_buckets (lh_rebucket (\<lambda>_. True) lh (?n div 2)) = 16 * 2 ^ j"
      using rebucket_size [of "?n div 2" lh] half bound assms(1) by simp
    moreover have "num_items (lh_rebucket (\<lambda>_. True) lh (?n div 2)) = num_items lh"
      "callback_depth (lh_rebucket (\<lambda>_. True) lh (?n div 2)) = 0"
      using lh_rebucket_items [of "?n div 2" lh "\<lambda>_. True"] half assms(1,2) by simp_all
    ultimately show ?thesis
      unfolding load_ok_def eq using 2 assms(3,5) j by (intro conjI exI [of _ j]) auto
  next
    case 3
    have "lh_maybe_resize (\<lambda>_. True) lh = lh"
    proof -
      have "num_items lh div ?n \<le> 2" using 3(1) pos by (simp add: less_mult_imp_div_less Suc_le_eq less_Suc_eq_le [symmetric])
      moreover have "num_items lh div ?n \<ge> 1 \<or> ?n = 16" using 3(2) pos by (auto simp: Suc_le_eq div_greater_zero_iff)
      ultimately show ?thesis
        by (auto simp: lh_maybe_resize_def Let_def kMaxAverageChainLength_def kMinAverageChainLength_def kMinNumBuckets_def)
    qed
    then show ?thesis using 3 assms by (auto simp: load_ok_def)
  qed
qed

lemma insert_load:
  assumes "load_ok lh" "lh_ok hash cmp lh" "num_items lh < 2 ^ 58"
  shows "load_ok (snd (lh_insert (\<lambda>_. True) hash cmp lh d)) \<and>
    num_items (snd (lh_insert (\<lambda>_. True) hash cmp lh d)) \<le> num_items lh + 1"
proof -
  obtain b i h where g: "get_next_ptr_and_hash hash cmp lh d = (b, i, h)"
    by (cases "get_next_ptr_and_hash hash cmp lh d")
  obtain k where k: "num_buckets lh = 16 * 2 ^ k" using assms(1) by (auto simp: load_ok_def)
  show ?thesis
  proof (cases "i < length (buckets lh ! b)")
    case True
    with g assms(1) show ?thesis by (simp add: lh_insert_def Let_def load_ok_def)
  next
    case False
    let ?new = "lh\<lparr>buckets := (buckets lh)[b := buckets lh ! b @ [\<lparr>item_data = d, item_hash = h\<rparr>]],
      num_items := num_items lh + 1\<rparr>"
    have eq: "snd (lh_insert (\<lambda>_. True) hash cmp lh d) = lh_maybe_resize (\<lambda>_. True) ?new"
      using g False by (simp add: lh_insert_def Let_def)
    have gb: "b = unat (hash d) mod num_buckets lh" "h = hash d"
      using g by (auto simp: get_next_ptr_and_hash_def Let_def)
    have "b < num_buckets lh" using gb(1) k by simp
    then have "placed (buckets ?new)"
      using assms(2) gb by (auto simp: lh_ok_def placed_def nth_list_update)
    then have "load_ok (lh_maybe_resize (\<lambda>_. True) ?new)"
    proof (rule resize_load [where k = k])
      show "num_buckets ?new = 16 * 2 ^ k" using k by simp
      show "callback_depth ?new = 0" "num_items ?new \<le> 3 * num_buckets ?new" "num_items ?new < 2 ^ 59"
        "num_buckets ?new = 16 \<or> num_buckets ?new \<le> num_items ?new + 1"
        using load_okD [OF assms(1)] assms(3) by auto
    qed
    moreover have "num_items (lh_maybe_resize (\<lambda>_. True) ?new) = num_items ?new"
      by (rule resize_items)
    ultimately show ?thesis unfolding eq by simp
  qed
qed

lemma delete_load:
  assumes "load_ok lh" "lh_ok hash cmp lh" "num_items lh < 2 ^ 58"
  shows "load_ok (snd (lh_delete (\<lambda>_. True) hash cmp lh d)) \<and>
    num_items (snd (lh_delete (\<lambda>_. True) hash cmp lh d)) \<le> num_items lh"
proof -
  obtain b i h where g: "get_next_ptr_and_hash hash cmp lh d = (b, i, h)"
    by (cases "get_next_ptr_and_hash hash cmp lh d")
  obtain k where k: "num_buckets lh = 16 * 2 ^ k" using assms(1) by (auto simp: load_ok_def)
  show ?thesis
  proof (cases "i < length (buckets lh ! b)")
    case False
    with g assms(1) show ?thesis by (simp add: lh_delete_def Let_def)
  next
    case True
    let ?new = "lh\<lparr>buckets := (buckets lh)[b := take i (buckets lh ! b) @ drop (Suc i) (buckets lh ! b)],
      num_items := num_items lh - 1\<rparr>"
    have eq: "snd (lh_delete (\<lambda>_. True) hash cmp lh d) = lh_maybe_resize (\<lambda>_. True) ?new"
      using g True by (simp add: lh_delete_def Let_def)
    have "b < num_buckets lh" using g k by (auto simp: get_next_ptr_and_hash_def Let_def)
    then have "placed (buckets ?new)"
      using assms(2) by (auto simp: lh_ok_def placed_def nth_list_update dest: in_set_takeD in_set_dropD)
    note l = load_okD [OF assms(1)]
    have r: "callback_depth lh = 0" "num_items lh - 1 \<le> 3 * num_buckets lh" "num_items lh - 1 < 2 ^ 59"
      "num_buckets lh = 16 \<or> num_buckets lh \<le> num_items lh - 1 + 1"
      using l less_imp_diff_less [OF conjunct1 [OF conjunct2 [OF l]], of 1] less_imp_diff_less [OF assms(3), of 1]
        pred_bound [OF conjunct2 [OF conjunct2 [OF l]]] by simp_all
    from \<open>placed (buckets ?new)\<close> have "load_ok (lh_maybe_resize (\<lambda>_. True) ?new)"
    proof (rule resize_load [where k = k])
      show "num_buckets ?new = 16 * 2 ^ k" using k by simp
      show "callback_depth ?new = 0" "num_items ?new \<le> 3 * num_buckets ?new" "num_items ?new < 2 ^ 59"
        "num_buckets ?new = 16 \<or> num_buckets ?new \<le> num_items ?new + 1"
        using r by simp_all
    qed
    moreover have "num_items (lh_maybe_resize (\<lambda>_. True) ?new) = num_items ?new"
      by (rule resize_items)
    ultimately show ?thesis unfolding eq by simp
  qed
qed

lemma doall_load:
  assumes "load_ok lh" "lh_ok hash cmp lh" "num_items lh < 2 ^ 58"
  shows "load_ok (snd (lh_doall_internal (\<lambda>_. True) func lh st)) \<and>
    num_items (snd (lh_doall_internal (\<lambda>_. True) func lh st)) = num_items lh"
proof -
  obtain k where k: "num_buckets lh = 16 * 2 ^ k" using assms(1) by (auto simp: load_ok_def)
  have "snd (lh_doall_internal (\<lambda>_. True) func lh st) = lh_maybe_resize (\<lambda>_. True) lh"
  proof -
    have "snd (lh_doall_internal (\<lambda>_. True) func lh st) = lh_maybe_resize (\<lambda>_. True) (lh\<lparr>callback_depth := 0\<rparr>)"
      using assms(1) by (simp add: lh_doall_internal_def Let_def load_ok_def UINT_MAX_def)
    also have "lh\<lparr>callback_depth := 0\<rparr> = lh" using assms(1) by (cases lh) (simp add: load_ok_def)
    finally show ?thesis .
  qed
  moreover have "load_ok (lh_maybe_resize (\<lambda>_. True) lh)"
  proof (rule resize_load [where k = k])
    show "placed (buckets lh)" using assms(2) by (simp add: lh_ok_def)
    show "num_buckets lh = 16 * 2 ^ k" by (rule k)
    show "callback_depth lh = 0" "num_items lh \<le> 3 * num_buckets lh" "num_items lh < 2 ^ 59"
      "num_buckets lh = 16 \<or> num_buckets lh \<le> num_items lh + 1"
      using load_okD [OF assms(1)] assms(3) by auto
  qed
  moreover have "num_items (lh_maybe_resize (\<lambda>_. True) lh) = num_items lh"
    by (rule resize_items)
  ultimately show ?thesis by simp
qed

section \<open>Properties\<close>

text \<open>C35: The hash table implements a set of elements up to the comparison: after any sequence of
  inserts, deletes and iterations on a new table, whichever resizing allocations fail,
  its elements are those of the set, counted by \<open>lh_num_items\<close>, and \<open>lh_retrieve\<close> returns the element that is
  equal to the key, or \<open>NULL\<close> when there is none.\<close>

theorem lhash_implements_set:
  assumes "hash_contract hash cmp ok" "lh_new alloc = Some lh0" "alloc 24"
    and "\<forall>op \<in> set ops. op_ok ok op" "ok k"
    and "lh = fold (lh_apply alloc hash cmp) ops lh0" "S = fold (set_apply cmp) ops {}"
  shows "lh_set lh = S \<and> lh_num_items lh = card S \<and>
    (if \<exists>d \<in> S. cmp d k = 0
     then lh_retrieve hash cmp lh k \<in> S \<and> cmp (lh_retrieve hash cmp lh k) k = 0
     else lh_retrieve hash cmp lh k = 0)"
proof -
  note new = lh_new_ok [OF assms(2), of hash cmp]
  have sub: "\<forall>d \<in> lh_set lh0. ok d" using new by simp
  note run = hash_contract.run_ok [of hash cmp ok lh0 ops alloc, OF assms(1) conjunct1 [OF new] sub assms(4,3)]
  then have lh: "lh_ok hash cmp lh" "lh_set lh = S" "\<forall>d \<in> lh_set lh. ok d"
    using new assms(6,7) by simp_all
  from hash_contract.retrieve_spec [OF assms(1) lh(1,3) assms(5)] lh_ok_card [OF lh(1)]
  show ?thesis unfolding lh(2) by (simp add: lh_num_items_def lh(2))
qed

text \<open>Strings as elements, without the null pointer, hashed by \<open>lh_strhash\<close> and compared as \<open>strcmp\<close> does.\<close>

interpretation strings: hash_contract "lh_strhash str" "\<lambda>x y. strcmp (str x) (str y)" "\<lambda>p. p \<noteq> 0"
  for str
  by unfold_locales (auto simp: lh_strhash_def strcmp_zero)

lemmas strhash_contract = strings.hash_contract_axioms

text \<open>C36: With memory available, a new table keeps an average chain length below three after any
  sequence of inserts, deletes and iterations, and has more than 16 buckets only when it has an item for each.\<close>

theorem lhash_load_bounds:
  assumes "hash_contract hash cmp ok" "lh_new (\<lambda>_. True) = Some lh0"
    and "\<forall>op \<in> set ops. op_ok ok op" "length ops < 2 ^ 58"
    and "lh = fold (lh_apply (\<lambda>_. True) hash cmp) ops lh0"
  shows "num_items lh < 3 * num_buckets lh \<and> (num_buckets lh = 16 \<or> num_buckets lh \<le> num_items lh)"
proof -
  note new = lh_new_ok [OF assms(2), of hash cmp]
  have load: "load_ok lh0"
    using assms(2) by (auto simp: lh_new_def load_ok_def empty_buckets_def kMinNumBuckets_def intro: exI [of _ 0])
  have "load_ok (fold (lh_apply (\<lambda>_. True) hash cmp) ops lh1)"
    if "lh_ok hash cmp lh1" "\<forall>d \<in> lh_set lh1. ok d" "load_ok lh1" "num_items lh1 + length ops < 2 ^ 58"
      "\<forall>op \<in> set ops. op_ok ok op" for lh1
    using that
  proof (induction ops arbitrary: lh1)
    case (Cons op ops)
    have "op_ok ok op" using Cons.prems(5) by simp
    note a = hash_contract.apply_ok [of hash cmp ok lh1 op "\<lambda>_. True", OF assms(1) Cons.prems(1,2) this TrueI]
      hash_contract.set_apply_ok [OF assms(1) this Cons.prems(2)]
    have small: "num_items lh1 < 2 ^ 58" using Cons.prems(4) by simp
    have "load_ok (lh_apply (\<lambda>_. True) hash cmp op lh1) \<and>
        num_items (lh_apply (\<lambda>_. True) hash cmp op lh1) \<le> num_items lh1 + 1"
      using insert_load [OF Cons.prems(3,1) small] delete_load [OF Cons.prems(3,1) small]
        doall_load [OF Cons.prems(3,1) small, where func = "\<lambda>_ _. ()" and st = "()"]
      by (cases op) (auto intro: le_SucI)
    with a Cons.prems(4,5) show ?case by (auto intro!: Cons.IH)
  qed simp
  note this [of lh0]
  moreover have "num_items lh0 = 0" using assms(2) by (auto simp: lh_new_def split: if_splits)
  ultimately have "load_ok lh" using new load assms(3,4) by (simp add: assms(5))
  then show ?thesis by (simp add: load_ok_def)
qed

definition sample_str :: "ptr \<Rightarrow> byte list" where
  "sample_str p = (if p = 8 \<or> p = 16 then [97] else [98])"

theorem lhash_implements_set_witness:
  "\<exists>lh0 lh. lh_new (\<lambda>_. True) = Some lh0 \<and>
    lh = fold (lh_apply (\<lambda>_. True) (lh_strhash sample_str) (\<lambda>x y. strcmp (sample_str x) (sample_str y)))
      [Insert 8, Insert 24, Doall, Insert 16, Delete 24] lh0 \<and>
    lh_set lh = {16} \<and> lh_num_items lh = 1"
proof -
  obtain lh0 where lh0: "lh_new (\<lambda>_. True) = Some lh0" by (simp add: lh_new_def)
  let ?cmp = "\<lambda>x y. strcmp (sample_str x) (sample_str y)"
  have set: "fold (set_apply ?cmp) [Insert 8, Insert 24, Doall, Insert 16, Delete 24] {} = {16}"
    by (auto simp: strcmp_zero sample_str_def)
  from lhash_implements_set [OF strhash_contract lh0 _ _ _ refl refl, of "[Insert 8, Insert 24, Doall, Insert 16, Delete 24]" 8]
  show ?thesis using lh0 set by auto
qed

theorem lhash_load_bounds_witness:
  "\<exists>lh0 lh. lh_new (\<lambda>_. True) = Some lh0 \<and>
    lh = fold (lh_apply (\<lambda>_. True) (lh_strhash sample_str) (\<lambda>x y. strcmp (sample_str x) (sample_str y)))
      [Insert 8, Insert 24] lh0 \<and>
    num_items lh < 3 * num_buckets lh"
proof -
  obtain lh0 where lh0: "lh_new (\<lambda>_. True) = Some lh0" by (simp add: lh_new_def)
  from lhash_load_bounds [OF strhash_contract lh0 _ _ refl, of "[Insert 8, Insert 24]" sample_str]
  show ?thesis using lh0 by auto
qed

end
