(* ===== verification/Bio.thy ===== *)
theory Bio
  imports Prelude
begin

text \<open>
  The generic layer of \<open>BoringSSL-GRPC/crypto/bio/bio.c\<close> for the BIOs of one method table.
  A \<open>BIO\<close> is named by an identifier in a store; \<open>bio->ptr\<close> is the \<open>bio_bio_st\<close> that every
  BIO of a pair owns.  A computation is \<open>None\<close> where the code does
  something undefined or one of its assertions fails.  \<open>malloc\<close> gives no block of \<open>2 ^ 63\<close>
  bytes or more, so sums of two indices into one do not wrap.
\<close>

type_synonym bio_id = nat

section \<open>State\<close>

record bio_bio_st =
  peer :: "bio_id option"
  closed :: bool
  blen :: nat
  boffset :: nat
  bsize :: nat
  bbuf :: "byte list option"
  brequest :: nat

record BIO =
  init :: bool
  shutdown :: "32 word"
  flags :: u32
  retry_reason :: "32 word"
  references :: u32
  bptr :: bio_bio_st
  next_bio :: "bio_id option"
  num_read :: size_t
  num_write :: size_t

type_synonym bios = "bio_id \<rightharpoonup> BIO"

definition BIO_FLAGS_READ :: u32 where "BIO_FLAGS_READ = 1"
definition BIO_FLAGS_WRITE :: u32 where "BIO_FLAGS_WRITE = 2"
definition BIO_FLAGS_IO_SPECIAL :: u32 where "BIO_FLAGS_IO_SPECIAL = 4"
definition BIO_FLAGS_RWS :: u32 where
  "BIO_FLAGS_RWS = (BIO_FLAGS_READ OR BIO_FLAGS_WRITE OR BIO_FLAGS_IO_SPECIAL)"
definition BIO_FLAGS_SHOULD_RETRY :: u32 where "BIO_FLAGS_SHOULD_RETRY = 8"
definition kRetryFlags :: u32 where "kRetryFlags = (BIO_FLAGS_RWS OR BIO_FLAGS_SHOULD_RETRY)"

lemmas bio_flag_defs = BIO_FLAGS_READ_def BIO_FLAGS_WRITE_def BIO_FLAGS_IO_SPECIAL_def BIO_FLAGS_RWS_def
  BIO_FLAGS_SHOULD_RETRY_def kRetryFlags_def

section \<open>Flags\<close>

definition BIO_set_flags :: "u32 \<Rightarrow> BIO \<Rightarrow> BIO" where
  "BIO_set_flags fl b = b\<lparr>flags := flags b OR fl\<rparr>"

definition BIO_test_flags :: "u32 \<Rightarrow> BIO \<Rightarrow> u32" where
  "BIO_test_flags fl b = flags b AND fl"

definition BIO_should_read :: "BIO \<Rightarrow> u32" where "BIO_should_read = BIO_test_flags BIO_FLAGS_READ"
definition BIO_should_write :: "BIO \<Rightarrow> u32" where "BIO_should_write = BIO_test_flags BIO_FLAGS_WRITE"
definition BIO_should_retry :: "BIO \<Rightarrow> u32" where "BIO_should_retry = BIO_test_flags BIO_FLAGS_SHOULD_RETRY"
definition BIO_should_io_special :: "BIO \<Rightarrow> u32" where
  "BIO_should_io_special = BIO_test_flags BIO_FLAGS_IO_SPECIAL"

definition BIO_clear_flags :: "u32 \<Rightarrow> BIO \<Rightarrow> BIO" where
  "BIO_clear_flags fl b = b\<lparr>flags := flags b AND NOT fl\<rparr>"

definition BIO_set_retry_read :: "BIO \<Rightarrow> BIO" where
  "BIO_set_retry_read b = b\<lparr>flags := flags b OR (BIO_FLAGS_READ OR BIO_FLAGS_SHOULD_RETRY)\<rparr>"

definition BIO_set_retry_write :: "BIO \<Rightarrow> BIO" where
  "BIO_set_retry_write b = b\<lparr>flags := flags b OR (BIO_FLAGS_WRITE OR BIO_FLAGS_SHOULD_RETRY)\<rparr>"

definition BIO_get_retry_flags :: "BIO \<Rightarrow> u32" where
  "BIO_get_retry_flags b = flags b AND kRetryFlags"

definition BIO_clear_retry_flags :: "BIO \<Rightarrow> BIO" where
  "BIO_clear_retry_flags b = b\<lparr>flags := flags b AND NOT kRetryFlags, retry_reason := 0\<rparr>"

definition BIO_copy_next_retry :: "BIO \<Rightarrow> BIO \<Rightarrow> BIO" where
  "BIO_copy_next_retry next b =
     (BIO_set_flags (BIO_get_retry_flags next) (BIO_clear_retry_flags b))\<lparr>retry_reason := retry_reason next\<rparr>"

section \<open>Methods\<close>

text \<open>
  The functions of a \<open>BIO_METHOD\<close> that the generic layer calls; \<open>None\<close> is a null pointer.  The
  bytes that \<open>bread\<close> stores are part of its result.
\<close>

datatype ctrl_cmd =
    BIO_C_GET_WRITE_BUF_SIZE | BIO_C_GET_WRITE_GUARANTEE | BIO_C_GET_READ_REQUEST
  | BIO_C_RESET_READ_REQUEST | BIO_C_SHUTDOWN_WR | BIO_CTRL_GET_CLOSE | BIO_CTRL_SET_CLOSE
  | BIO_CTRL_PENDING | BIO_CTRL_WPENDING | BIO_CTRL_FLUSH | BIO_CTRL_EOF | BIO_CTRL_RESET
  | BIO_CTRL_other nat

record bio_method =
  bwrite :: "(bio_id \<Rightarrow> byte list option \<Rightarrow> int \<Rightarrow> bios \<Rightarrow> (int \<times> bios) option) option"
  bread :: "(bio_id \<Rightarrow> bool \<Rightarrow> int \<Rightarrow> bios \<Rightarrow> (int \<times> byte list \<times> bios) option) option"
  bctrl :: "(bio_id \<Rightarrow> ctrl_cmd \<Rightarrow> 64 word \<Rightarrow> bio_id option \<Rightarrow> bios \<Rightarrow> (64 word \<times> bios) option) option"
  bcreate :: "(bio_id \<Rightarrow> bios \<Rightarrow> bool \<times> bios) option"
  bdestroy :: "(bio_id \<Rightarrow> bios \<Rightarrow> bios option) option"

definition empty_bio_bio :: bio_bio_st where
  "empty_bio_bio = \<lparr>peer = None, closed = False, blen = 0, boffset = 0, bsize = 0, bbuf = None, brequest = 0\<rparr>"

text \<open>\<open>new_id\<close> is the address that the allocation gives; 64 is \<open>sizeof(BIO)\<close>.\<close>

definition BIO_new :: "(nat \<Rightarrow> bool) \<Rightarrow> bio_method \<Rightarrow> bio_id \<Rightarrow> bios \<Rightarrow> bio_id option \<times> bios" where
  "BIO_new alloc method new_id st =
     (if \<not> alloc 64 then (None, st)
      else
        let ret = \<lparr>init = False, shutdown = 1, flags = 0, retry_reason = 0, references = 1,
                   bptr = empty_bio_bio, next_bio = None, num_read = 0, num_write = 0\<rparr>;
            st1 = st(new_id \<mapsto> ret)
        in case bcreate method of
             None \<Rightarrow> (Some new_id, st1)
           | Some create \<Rightarrow>
               (case create new_id st1 of
                  (True, st2) \<Rightarrow> (Some new_id, st2)
                | (False, st2) \<Rightarrow> (None, st2(new_id := None))))"

text \<open>
  Reference counts (\<open>crypto/refcount_lock.c\<close>) saturate; \<open>abort\<close> is \<open>None\<close>.
\<close>

definition CRYPTO_REFCOUNT_MAX :: u32 where "CRYPTO_REFCOUNT_MAX = 0xffffffff"

definition CRYPTO_refcount_inc :: "u32 \<Rightarrow> u32" where
  "CRYPTO_refcount_inc count = (if count < CRYPTO_REFCOUNT_MAX then count + 1 else count)"

definition CRYPTO_refcount_dec_and_test_zero :: "u32 \<Rightarrow> (bool \<times> u32) option" where
  "CRYPTO_refcount_dec_and_test_zero count =
     (if count = 0 then None
      else let c = (if count < CRYPTO_REFCOUNT_MAX then count - 1 else count) in Some (c = 0, c))"

definition BIO_up_ref :: "bio_id \<Rightarrow> bios \<Rightarrow> (bool \<times> bios) option" where
  "BIO_up_ref b st =
     map_option (\<lambda>x. (True, st(b \<mapsto> x\<lparr>references := CRYPTO_refcount_inc (references x)\<rparr>))) (st b)"

text \<open>
  \<open>BIO_free\<close> walks the chain of BIOs, which \<open>BIO_pop\<close> takes apart; the number of live BIOs,
  and one more, is fuel enough, since each iteration frees one.
\<close>

primrec BIO_free :: "nat \<Rightarrow> bio_method \<Rightarrow> bio_id option \<Rightarrow> bios \<Rightarrow> (bool \<times> bios) option" where
  "BIO_free 0 method bio st = None"
| "BIO_free (Suc k) method bio st =
     (case bio of
        None \<Rightarrow> Some (True, st)
      | Some i \<Rightarrow>
          (case st i of
             None \<Rightarrow> None
           | Some b \<Rightarrow>
               (case CRYPTO_refcount_dec_and_test_zero (references b) of
                  None \<Rightarrow> None
                | Some (False, c) \<Rightarrow> Some (False, st(i \<mapsto> b\<lparr>references := c\<rparr>))
                | Some (True, c) \<Rightarrow>
                    let st1 = st(i \<mapsto> b\<lparr>references := c, next_bio := None\<rparr>) in
                    (case (case bdestroy method of None \<Rightarrow> Some st1 | Some destroy \<Rightarrow> destroy i st1) of
                       None \<Rightarrow> None
                     | Some st2 \<Rightarrow> BIO_free k method (next_bio b) (st2(i := None))))))"

definition count_read :: "bio_id \<Rightarrow> int \<Rightarrow> bios \<Rightarrow> bios" where
  "count_read b ret st =
     (if ret > 0 then st(b := map_option (\<lambda>x. x\<lparr>num_read := num_read x + of_int ret\<rparr>) (st b)) else st)"

definition count_write :: "bio_id \<Rightarrow> int \<Rightarrow> bios \<Rightarrow> bios" where
  "count_write b ret st =
     (if ret > 0 then st(b := map_option (\<lambda>x. x\<lparr>num_write := num_write x + of_int ret\<rparr>) (st b)) else st)"

definition BIO_read :: "bio_method \<Rightarrow> bio_id option \<Rightarrow> bool \<Rightarrow> int \<Rightarrow> bios \<Rightarrow> (int \<times> byte list \<times> bios) option" where
  "BIO_read method bio has_buf len st =
     (case (bio, bread method) of
        (Some b, Some rd) \<Rightarrow>
          (case st b of
             None \<Rightarrow> None
           | Some x \<Rightarrow>
               if \<not> init x then Some (- 2, [], st)
               else if len \<le> 0 then Some (0, [], st)
               else map_option (\<lambda>(ret, out, st'). (ret, out, count_read b ret st')) (rd b has_buf len st))
      | _ \<Rightarrow> Some (- 2, [], st))"

definition BIO_write :: "bio_method \<Rightarrow> bio_id option \<Rightarrow> byte list option \<Rightarrow> int \<Rightarrow> bios \<Rightarrow> (int \<times> bios) option" where
  "BIO_write method bio data inl st =
     (case (bio, bwrite method) of
        (Some b, Some wr) \<Rightarrow>
          (case st b of
             None \<Rightarrow> None
           | Some x \<Rightarrow>
               if \<not> init x then Some (- 2, st)
               else if inl \<le> 0 then Some (0, st)
               else map_option (\<lambda>(ret, st'). (ret, count_write b ret st')) (wr b data inl st))
      | _ \<Rightarrow> Some (- 2, st))"

definition BIO_puts :: "bio_method \<Rightarrow> bio_id option \<Rightarrow> byte list \<Rightarrow> bios \<Rightarrow> (int \<times> bios) option" where
  "BIO_puts method bio s st = BIO_write method bio (Some s) (sint (of_nat (length s) :: 32 word)) st"

definition BIO_ctrl ::
  "bio_method \<Rightarrow> bio_id option \<Rightarrow> ctrl_cmd \<Rightarrow> 64 word \<Rightarrow> bio_id option \<Rightarrow> bios \<Rightarrow> (64 word \<times> bios) option" where
  "BIO_ctrl method bio cmd larg parg st =
     (case bio of
        None \<Rightarrow> Some (0, st)
      | Some b \<Rightarrow>
          (case bctrl method of
             None \<Rightarrow> Some (- 2, st)
           | Some ctrl \<Rightarrow> ctrl b cmd larg parg st))"

text \<open>Where the \<open>long\<close> that \<open>BIO_ctrl\<close> gives is returned as an \<open>int\<close>.\<close>

definition BIO_ctrl_int ::
  "bio_method \<Rightarrow> bio_id option \<Rightarrow> ctrl_cmd \<Rightarrow> 64 word \<Rightarrow> bios \<Rightarrow> (32 word \<times> bios) option" where
  "BIO_ctrl_int method bio cmd larg st = map_option (apfst ucast) (BIO_ctrl method bio cmd larg None st)"

definition BIO_flush :: "bio_method \<Rightarrow> bio_id option \<Rightarrow> bios \<Rightarrow> (32 word \<times> bios) option" where
  "BIO_flush method bio = BIO_ctrl_int method bio BIO_CTRL_FLUSH 0"

definition BIO_reset :: "bio_method \<Rightarrow> bio_id option \<Rightarrow> bios \<Rightarrow> (32 word \<times> bios) option" where
  "BIO_reset method bio = BIO_ctrl_int method bio BIO_CTRL_RESET 0"

definition BIO_eof :: "bio_method \<Rightarrow> bio_id option \<Rightarrow> bios \<Rightarrow> (32 word \<times> bios) option" where
  "BIO_eof method bio = BIO_ctrl_int method bio BIO_CTRL_EOF 0"

text \<open>The \<open>int\<close> argument is widened to a \<open>long\<close>.\<close>

definition BIO_set_close :: "bio_method \<Rightarrow> bio_id option \<Rightarrow> 32 word \<Rightarrow> bios \<Rightarrow> (32 word \<times> bios) option" where
  "BIO_set_close method bio close_flag = BIO_ctrl_int method bio BIO_CTRL_SET_CLOSE (scast close_flag)"

text \<open>The assertions that the counts are not negative.\<close>

definition BIO_pending :: "bio_method \<Rightarrow> bio_id option \<Rightarrow> bios \<Rightarrow> (nat \<times> bios) option" where
  "BIO_pending method bio st =
     (case BIO_ctrl method bio BIO_CTRL_PENDING 0 None st of
        None \<Rightarrow> None
      | Some (r, st') \<Rightarrow> if 0 \<le> sint r then Some (unat r, st') else None)"

definition BIO_wpending :: "bio_method \<Rightarrow> bio_id option \<Rightarrow> bios \<Rightarrow> (nat \<times> bios) option" where
  "BIO_wpending method bio st =
     (case BIO_ctrl method bio BIO_CTRL_WPENDING 0 None st of
        None \<Rightarrow> None
      | Some (r, st') \<Rightarrow> if 0 \<le> sint r then Some (unat r, st') else None)"

end
