(* ===== verification/Bio_Pair.thy ===== *)
theory Bio_Pair
  imports Bio
begin

text \<open>
  BIO pairs (\<open>crypto/bio/pair.c\<close>): two BIOs, each with a ring buffer for what is written to
  it, which the other one reads.
\<close>

section \<open>Making and destroying a pair\<close>

text \<open>\<open>bio_new\<close>; 56 is \<open>sizeof(struct bio_bio_st)\<close>.\<close>

definition bio_new :: "(nat \<Rightarrow> bool) \<Rightarrow> bio_id \<Rightarrow> bios \<Rightarrow> bool \<times> bios" where
  "bio_new alloc bio st =
     (if \<not> alloc 56 then (False, st)
      else (True, st(bio := map_option (\<lambda>x. x\<lparr>bptr := empty_bio_bio\<lparr>bsize := 17 * 1024\<rparr>\<rparr>) (st bio))))"

text \<open>What destroying does to each of the two, after its assertion.\<close>

definition unpaired :: "BIO \<Rightarrow> BIO" where
  "unpaired b = b\<lparr>bptr := (bptr b)\<lparr>peer := None, blen := 0, boffset := 0\<rparr>, init := False\<rparr>"

definition bio_destroy_pair :: "bio_id \<Rightarrow> bios \<Rightarrow> bios option" where
  "bio_destroy_pair bio st =
     (case st bio of
        None \<Rightarrow> None
      | Some x \<Rightarrow>
          (case peer (bptr x) of
             None \<Rightarrow> Some st
           | Some peer_bio \<Rightarrow>
               (case st peer_bio of
                  None \<Rightarrow> None
                | Some y \<Rightarrow>
                    if peer (bptr y) \<noteq> Some bio \<or> bbuf (bptr y) = None then None
                    else
                      let st1 = st(peer_bio \<mapsto> unpaired y) in
                      (case st1 bio of
                         None \<Rightarrow> None
                       | Some x1 \<Rightarrow>
                           if bbuf (bptr x1) = None then None else Some (st1(bio \<mapsto> unpaired x1))))))"

definition bio_free :: "bio_id \<Rightarrow> bios \<Rightarrow> bios option" where
  "bio_free bio st =
     (case st bio of
        None \<Rightarrow> None
      | Some x \<Rightarrow> if peer (bptr x) \<noteq> None then bio_destroy_pair bio st else Some st)"

text \<open>
  The ring buffer of one side is allocated unless it has one already; \<open>junk\<close> is what is in new
  memory.
\<close>

definition bio_alloc_buf :: "(nat \<Rightarrow> bool) \<Rightarrow> (nat \<Rightarrow> byte list) \<Rightarrow> nat \<Rightarrow> bio_bio_st \<Rightarrow> bool \<times> bio_bio_st" where
  "bio_alloc_buf alloc junk writebuf_len b =
     (if bbuf b \<noteq> None then (True, b)
      else
        let b1 = (if writebuf_len \<noteq> 0 then b\<lparr>bsize := writebuf_len\<rparr> else b)
        in if \<not> alloc (bsize b1) then (False, b1)
           else (True, b1\<lparr>bbuf := Some (junk (bsize b1)), blen := 0, boffset := 0\<rparr>))"

definition bio_make_pair ::
  "(nat \<Rightarrow> bool) \<Rightarrow> (nat \<Rightarrow> byte list) \<Rightarrow> bio_id \<Rightarrow> bio_id \<Rightarrow> nat \<Rightarrow> nat \<Rightarrow> bios \<Rightarrow> (bool \<times> bios) option" where
  "bio_make_pair alloc junk bio1 bio2 writebuf1_len writebuf2_len st =
     (case (st bio1, st bio2) of
        (Some x1, Some x2) \<Rightarrow>
          if peer (bptr x1) \<noteq> None \<or> peer (bptr x2) \<noteq> None then Some (False, st)
          else
            (case bio_alloc_buf alloc junk writebuf1_len (bptr x1) of
               (False, b1) \<Rightarrow> Some (False, st(bio1 \<mapsto> x1\<lparr>bptr := b1\<rparr>))
             | (True, b1) \<Rightarrow>
                 (case bio_alloc_buf alloc junk writebuf2_len (bptr x2) of
                    (False, b2) \<Rightarrow> Some (False, st(bio1 \<mapsto> x1\<lparr>bptr := b1\<rparr>, bio2 \<mapsto> x2\<lparr>bptr := b2\<rparr>))
                  | (True, b2) \<Rightarrow>
                      Some (True,
                        st(bio1 \<mapsto> x1\<lparr>bptr := b1\<lparr>peer := Some bio2, closed := False, brequest := 0\<rparr>, init := True\<rparr>,
                           bio2 \<mapsto> x2\<lparr>bptr := b2\<lparr>peer := Some bio1, closed := False, brequest := 0\<rparr>, init := True\<rparr>))))
      | _ \<Rightarrow> None)"

section \<open>Reading\<close>

text \<open>
  The do-while loop of \<open>bio_read\<close> on the peer's buffer, with the bytes copied so far.  Its
  assertions are the first tests; two iterations are enough.
\<close>

primrec read_loop :: "nat \<Rightarrow> nat \<Rightarrow> byte list \<Rightarrow> bio_bio_st \<Rightarrow> (byte list \<times> bio_bio_st) option" where
  "read_loop 0 rest out b = None"
| "read_loop (Suc k) rest out b =
     (case bbuf b of
        None \<Rightarrow> None
      | Some buf \<Rightarrow>
          if \<not> rest \<le> blen b then None
          else
            let chunk = (if boffset b + rest \<le> bsize b then rest else bsize b - boffset b);
                out' = out @ take chunk (drop (boffset b) buf);
                b1 = b\<lparr>blen := blen b - chunk\<rparr>;
                off = boffset b + chunk
            in if \<not> off \<le> bsize b then None
               else if blen b1 = 0 \<and> chunk \<noteq> rest then None
               else
                 let b2 = b1\<lparr>boffset := (if blen b1 \<noteq> 0 then (if off = bsize b then 0 else off) else 0)\<rparr>
                 in if rest - chunk = 0 then Some (out', b2) else read_loop k (rest - chunk) out' b2)"

text \<open>The conversion of a \<open>size_t\<close> to the \<open>int\<close> that is returned, and of an \<open>int\<close> argument to \<open>size_t\<close>.\<close>

definition int_of_size :: "nat \<Rightarrow> int" where
  "int_of_size n = sint (of_nat n :: 32 word)"

definition size_of_int :: "int \<Rightarrow> nat" where
  "size_of_int i = unat (of_int i :: size_t)"

definition bio_read :: "bio_id \<Rightarrow> bool \<Rightarrow> int \<Rightarrow> bios \<Rightarrow> (int \<times> byte list \<times> bios) option" where
  "bio_read bio has_buf len st =
     (case st bio of
        None \<Rightarrow> None
      | Some x0 \<Rightarrow>
          let x = BIO_clear_retry_flags x0; st0 = st(bio \<mapsto> x); sz = size_of_int len in
          if \<not> init x then Some (0, [], st0)
          else
            (case peer (bptr x) of
               None \<Rightarrow> None
             | Some p \<Rightarrow>
                 (case st0 p of
                    None \<Rightarrow> None
                  | Some y \<Rightarrow>
                      if bbuf (bptr y) = None then None
                      else
                        let b = (bptr y)\<lparr>brequest := 0\<rparr>; st1 = st0(p \<mapsto> y\<lparr>bptr := b\<rparr>) in
                        if \<not> has_buf \<or> sz = 0 then Some (0, [], st1)
                        else if blen b = 0
                        then
                          if closed b then Some (0, [], st1)
                          else
                            let st2 = st1(bio := map_option BIO_set_retry_read (st1 bio));
                                req = (if sz \<le> bsize b then sz else bsize b)
                            in Some (- 1, [], st2(p := map_option (\<lambda>y. y\<lparr>bptr := (bptr y)\<lparr>brequest := req\<rparr>\<rparr>) (st2 p)))
                        else
                          let n = (if blen b < sz then blen b else sz) in
                          (case read_loop 2 n [] b of
                             None \<Rightarrow> None
                           | Some (out, b') \<Rightarrow> Some (int_of_size n, out, st1(p \<mapsto> y\<lparr>bptr := b'\<rparr>))))))"

section \<open>Writing\<close>

text \<open>\<open>memcpy\<close> of a list to an index of a buffer.\<close>

definition overwrite :: "nat \<Rightarrow> 'a list \<Rightarrow> 'a list \<Rightarrow> 'a list" where
  "overwrite i xs buf = take i buf @ xs @ drop (i + length xs) buf"

primrec write_loop :: "nat \<Rightarrow> byte list \<Rightarrow> bio_bio_st \<Rightarrow> bio_bio_st option" where
  "write_loop 0 rest b = None"
| "write_loop (Suc k) rest b =
     (case bbuf b of
        None \<Rightarrow> None
      | Some buf \<Rightarrow>
          if \<not> blen b + length rest \<le> bsize b then None
          else
            let w = boffset b + blen b;
                write_offset = (if w \<ge> bsize b then w - bsize b else w);
                chunk = (if write_offset + length rest \<le> bsize b then length rest else bsize b - write_offset);
                b' = b\<lparr>bbuf := Some (overwrite write_offset (take chunk rest) buf), blen := blen b + chunk\<rparr>
            in if \<not> blen b' \<le> bsize b then None
               else if length rest - chunk = 0 then Some b' else write_loop k (drop chunk rest) b')"

definition bio_write :: "bio_id \<Rightarrow> byte list option \<Rightarrow> int \<Rightarrow> bios \<Rightarrow> (int \<times> bios) option" where
  "bio_write bio data inl st =
     (case st bio of
        None \<Rightarrow> None
      | Some x0 \<Rightarrow>
          let x = BIO_clear_retry_flags x0; st0 = st(bio \<mapsto> x); num = size_of_int inl in
          (case data of
             None \<Rightarrow> Some (0, st0)
           | Some buf \<Rightarrow>
               if \<not> init x \<or> num = 0 then Some (0, st0)
               else if peer (bptr x) = None \<or> bbuf (bptr x) = None then None
               else
                 let b = (bptr x)\<lparr>brequest := 0\<rparr>; st1 = st0(bio \<mapsto> x\<lparr>bptr := b\<rparr>) in
                 if closed b then Some (- 1, st1)
                 else if \<not> blen b \<le> bsize b then None
                 else if blen b = bsize b then Some (- 1, st1(bio \<mapsto> BIO_set_retry_write (x\<lparr>bptr := b\<rparr>)))
                 else
                   let n = (if num > bsize b - blen b then bsize b - blen b else num) in
                   (case write_loop 2 (take n buf) b of
                      None \<Rightarrow> None
                    | Some b' \<Rightarrow> Some (int_of_size n, st1(bio \<mapsto> x\<lparr>bptr := b'\<rparr>)))))"

section \<open>Control\<close>

definition bio_ctrl :: "bio_id \<Rightarrow> ctrl_cmd \<Rightarrow> 64 word \<Rightarrow> bio_id option \<Rightarrow> bios \<Rightarrow> (64 word \<times> bios) option" where
  "bio_ctrl bio cmd num parg st =
     (case st bio of
        None \<Rightarrow> None
      | Some x \<Rightarrow>
          let b = bptr x in
          (case cmd of
             BIO_C_GET_WRITE_BUF_SIZE \<Rightarrow> Some (of_nat (bsize b), st)
           | BIO_C_GET_WRITE_GUARANTEE \<Rightarrow>
               Some (if peer b = None \<or> closed b then 0 else of_nat (bsize b) - of_nat (blen b), st)
           | BIO_C_GET_READ_REQUEST \<Rightarrow> Some (of_nat (brequest b), st)
           | BIO_C_RESET_READ_REQUEST \<Rightarrow> Some (1, st(bio \<mapsto> x\<lparr>bptr := b\<lparr>brequest := 0\<rparr>\<rparr>))
           | BIO_C_SHUTDOWN_WR \<Rightarrow> Some (1, st(bio \<mapsto> x\<lparr>bptr := b\<lparr>closed := True\<rparr>\<rparr>))
           | BIO_CTRL_GET_CLOSE \<Rightarrow> Some (scast (shutdown x), st)
           | BIO_CTRL_SET_CLOSE \<Rightarrow> Some (1, st(bio \<mapsto> x\<lparr>shutdown := ucast num\<rparr>))
           | BIO_CTRL_PENDING \<Rightarrow>
               (case peer b of
                  None \<Rightarrow> Some (0, st)
                | Some p \<Rightarrow> map_option (\<lambda>y. (of_nat (blen (bptr y)), st)) (st p))
           | BIO_CTRL_WPENDING \<Rightarrow> Some (if bbuf b \<noteq> None then of_nat (blen b) else 0, st)
           | BIO_CTRL_FLUSH \<Rightarrow> Some (1, st)
           | BIO_CTRL_EOF \<Rightarrow>
               (case parg of
                  None \<Rightarrow> Some (1, st)
                | Some other \<Rightarrow>
                    map_option (\<lambda>y. (if blen (bptr y) = 0 \<and> closed (bptr y) then 1 else 0, st)) (st other))
           | _ \<Rightarrow> Some (0, st)))"

definition methods_biop :: "(nat \<Rightarrow> bool) \<Rightarrow> bio_method" where
  "methods_biop alloc =
     \<lparr>bwrite = Some bio_write, bread = Some bio_read, bctrl = Some bio_ctrl,
      bcreate = Some (bio_new alloc), bdestroy = Some bio_free\<rparr>"

text \<open>
  \<open>id1\<close> and \<open>id2\<close> are the addresses of the two new BIOs.  Freeing them again takes at most two
  steps each, since neither has a next BIO.
\<close>

definition BIO_new_bio_pair ::
  "(nat \<Rightarrow> bool) \<Rightarrow> (nat \<Rightarrow> byte list) \<Rightarrow> bio_id \<Rightarrow> bio_id \<Rightarrow> nat \<Rightarrow> nat \<Rightarrow> bios \<Rightarrow>
   ((bio_id \<times> bio_id) option \<times> bios) option" where
  "BIO_new_bio_pair alloc junk id1 id2 writebuf1_len writebuf2_len st =
     (let m = methods_biop alloc;
          (bio1, st1) = BIO_new alloc m id1 st;
          (bio2, st2) = BIO_new alloc m id2 st1;
          fail = (\<lambda>st.
            case BIO_free 2 m bio1 st of
              None \<Rightarrow> None
            | Some (_, st') \<Rightarrow>
                (case BIO_free 2 m bio2 st' of None \<Rightarrow> None | Some (_, st'') \<Rightarrow> Some (None, st'')))
      in case (bio1, bio2) of
           (Some b1, Some b2) \<Rightarrow>
             (case bio_make_pair alloc junk b1 b2 writebuf1_len writebuf2_len st2 of
                None \<Rightarrow> None
              | Some (True, st3) \<Rightarrow> Some (Some (b1, b2), st3)
              | Some (False, st3) \<Rightarrow> fail st3)
         | _ \<Rightarrow> fail st2)"

definition BIO_ctrl_get_read_request :: "(nat \<Rightarrow> bool) \<Rightarrow> bio_id \<Rightarrow> bios \<Rightarrow> (64 word \<times> bios) option" where
  "BIO_ctrl_get_read_request alloc bio = BIO_ctrl (methods_biop alloc) (Some bio) BIO_C_GET_READ_REQUEST 0 None"

definition BIO_ctrl_get_write_guarantee :: "(nat \<Rightarrow> bool) \<Rightarrow> bio_id \<Rightarrow> bios \<Rightarrow> (64 word \<times> bios) option" where
  "BIO_ctrl_get_write_guarantee alloc bio = BIO_ctrl (methods_biop alloc) (Some bio) BIO_C_GET_WRITE_GUARANTEE 0 None"

definition BIO_shutdown_wr :: "(nat \<Rightarrow> bool) \<Rightarrow> bio_id \<Rightarrow> bios \<Rightarrow> (32 word \<times> bios) option" where
  "BIO_shutdown_wr alloc bio = BIO_ctrl_int (methods_biop alloc) (Some bio) BIO_C_SHUTDOWN_WR 0"

end
