(* ===== verification/Bio_Pair_Spec.thy ===== *)
theory Bio_Pair_Spec
  imports Bio_Pair
begin

text \<open>
  A BIO pair is two byte queues: the ring buffers implement the interface of a queue, no
  assertion of \<open>pair.c\<close> fails, and what one side reads is what the other one wrote.
\<close>

section \<open>Byte queues\<close>

locale byte_queue =
  fixes ok :: "'q \<Rightarrow> bool" and contents :: "'q \<Rightarrow> byte list" and room :: "'q \<Rightarrow> nat"
    and put :: "byte list \<Rightarrow> 'q \<Rightarrow> 'q option" and get :: "nat \<Rightarrow> 'q \<Rightarrow> (byte list \<times> 'q) option"
  assumes put_ok: "ok q \<Longrightarrow> bs \<noteq> [] \<Longrightarrow> length bs \<le> room q \<Longrightarrow>
      \<exists>q'. put bs q = Some q' \<and> ok q' \<and> contents q' = contents q @ bs \<and> room q' = room q - length bs"
    and get_ok: "ok q \<Longrightarrow> 0 < n \<Longrightarrow> n \<le> length (contents q) \<Longrightarrow>
      \<exists>q'. get n q = Some (take n (contents q), q') \<and> ok q' \<and> contents q' = drop n (contents q) \<and>
        room q' = room q + n"
begin

text \<open>Putting as much as there is room for, and getting as much as there is.\<close>

definition put_some :: "byte list \<Rightarrow> 'q \<Rightarrow> (nat \<times> 'q) option" where
  "put_some bs q = (let n = min (length bs) (room q) in
     if n = 0 then Some (0, q) else map_option (Pair n) (put (take n bs) q))"

definition get_some :: "nat \<Rightarrow> 'q \<Rightarrow> (byte list \<times> 'q) option" where
  "get_some n q = (let m = min n (length (contents q)) in if m = 0 then Some ([], q) else get m q)"

lemma put_some_ok:
  assumes "ok q"
  obtains q' where "put_some bs q = Some (min (length bs) (room q), q')" "ok q'"
    "contents q' = contents q @ take (room q) bs" "room q' = room q - length bs"
proof (cases "min (length bs) (room q) = 0")
  case True
  then have e: "take (room q) bs = []" "room q - length bs = room q" by (auto simp: min_def split: if_splits)
  from True have "put_some bs q = Some (min (length bs) (room q), q)" by (auto simp: put_some_def Let_def)
  then show thesis by (rule that) (use assms e in simp_all)
next
  case False
  let ?bs = "take (min (length bs) (room q)) bs"
  have bs: "?bs = take (room q) bs" by (simp add: min_def)
  have "?bs \<noteq> []" "length ?bs \<le> room q" using False by auto
  from put_ok [OF assms this] obtain q' where q': "put ?bs q = Some q'" "ok q'"
    "contents q' = contents q @ ?bs" "room q' = room q - length ?bs" by blast
  then have "put_some bs q = Some (min (length bs) (room q), q')"
    unfolding put_some_def Let_def if_not_P [OF False] by simp
  then show thesis by (rule that) (use q' bs in auto)
qed

lemma get_some_ok:
  assumes "ok q"
  obtains q' where "get_some n q = Some (take n (contents q), q')" "ok q'"
    "contents q' = drop n (contents q)" "room q' = room q + min n (length (contents q))"
proof (cases "min n (length (contents q)) = 0")
  case True
  then have e: "take n (contents q) = []" "drop n (contents q) = contents q" by (auto simp: min_def split: if_splits)
  from True have "get_some n q = Some (take n (contents q), q)" using e by (simp add: get_some_def)
  then show thesis by (rule that) (use assms e True in simp_all)
next
  case False
  let ?m = "min n (length (contents q))"
  have "0 < ?m" "?m \<le> length (contents q)" using False by auto
  from get_ok [OF assms this] obtain q' where "get ?m q = Some (take ?m (contents q), q')" "ok q'"
    "contents q' = drop ?m (contents q)" "room q' = room q + ?m" by blast
  then have "get_some n q = Some (take n (contents q), q')" "ok q'" "contents q' = drop n (contents q)"
    "room q' = room q + ?m"
    using False by (simp_all add: get_some_def min_def split: if_splits)
  then show thesis by (rule that)
qed

end

section \<open>The ring buffer is one\<close>

definition ring_ok :: "bio_bio_st \<Rightarrow> bool" where
  "ring_ok b \<longleftrightarrow> (\<exists>buf. bbuf b = Some buf \<and> length buf = bsize b) \<and> blen b \<le> bsize b \<and> boffset b < bsize b"

definition ring_contents :: "bio_bio_st \<Rightarrow> byte list" where
  "ring_contents b = map (\<lambda>i. the (bbuf b) ! ((boffset b + i) mod bsize b)) [0..<blen b]"

definition ring_room :: "bio_bio_st \<Rightarrow> nat" where
  "ring_room b = bsize b - blen b"

definition ring_read :: "nat \<Rightarrow> bio_bio_st \<Rightarrow> (byte list \<times> bio_bio_st) option" where
  "ring_read n b = read_loop 2 n [] b"

lemma length_ring_contents [simp]: "length (ring_contents b) = blen b"
  by (simp add: ring_contents_def)

text \<open>One iteration of the reading loop.\<close>

lemma read_chunk:
  assumes "ring_ok b" "bbuf b = Some buf" "chunk \<le> blen b" "boffset b + chunk \<le> bsize b"
    and "b' = b\<lparr>blen := blen b - chunk, boffset := off\<rparr>"
    and "off < bsize b" "blen b \<noteq> chunk \<Longrightarrow> off = (boffset b + chunk) mod bsize b"
  shows "take chunk (drop (boffset b) buf) = take chunk (ring_contents b)"
    and "ring_contents b' = drop chunk (ring_contents b)" and "ring_ok b'"
proof -
  have len: "length buf = bsize b" using assms(1,2) by (auto simp: ring_ok_def)
  show "take chunk (drop (boffset b) buf) = take chunk (ring_contents b)"
    using assms(2-4) len by (intro nth_equalityI) (auto simp: ring_contents_def)
  show "ring_contents b' = drop chunk (ring_contents b)"
  proof (rule nth_equalityI)
    fix i assume "i < length (ring_contents b')"
    then have i: "i < blen b - chunk" by (simp add: assms(5))
    then have "off = (boffset b + chunk) mod bsize b" using assms(7) by auto
    moreover have "chunk + i < blen b" using i by simp
    ultimately show "ring_contents b' ! i = drop chunk (ring_contents b) ! i"
      using i by (simp add: ring_contents_def assms(5) mod_add_left_eq add.assoc)
  qed (simp add: assms(5))
  show "ring_ok b'" using assms(1,3,5,6) by (auto simp: ring_ok_def)
qed

text \<open>The fields that belong to the queue are all that reading and writing change.\<close>

definition same_frame :: "bio_bio_st \<Rightarrow> bio_bio_st \<Rightarrow> bool" where
  "same_frame b b' \<longleftrightarrow> peer b' = peer b \<and> closed b' = closed b \<and> bsize b' = bsize b \<and> brequest b' = brequest b"

lemma same_frame_refl [simp]: "same_frame b b"
  and same_frame_trans: "same_frame a b \<Longrightarrow> same_frame b c \<Longrightarrow> same_frame a c"
  by (simp_all add: same_frame_def)

lemma read_loop_step:
  assumes ok: "ring_ok b" and rest: "0 < rest" "rest \<le> blen b"
  defines "chunk \<equiv> if boffset b + rest \<le> bsize b then rest else bsize b - boffset b"
  obtains b' where "ring_ok b'" "ring_contents b' = drop chunk (ring_contents b)" "same_frame b b'"
    "boffset b + rest \<le> bsize b \<or> boffset b' = 0"
    "\<And>k out. read_loop (Suc k) rest out b =
      (if rest - chunk = 0 then Some (out @ take chunk (ring_contents b), b')
       else read_loop k (rest - chunk) (out @ take chunk (ring_contents b)) b')"
proof -
  obtain buf where buf: "bbuf b = Some buf" using ok by (auto simp: ring_ok_def)
  have off: "boffset b < bsize b" "blen b \<le> bsize b" using ok by (auto simp: ring_ok_def)
  have chunk: "chunk \<le> rest" "boffset b + chunk \<le> bsize b" "0 < chunk" using off rest by (auto simp: chunk_def)
  define o' where "o' = (if blen b - chunk \<noteq> 0 then (if boffset b + chunk = bsize b then 0 else boffset b + chunk) else 0)"
  define b' where "b' = b\<lparr>blen := blen b - chunk, boffset := o'\<rparr>"
  have "o' < bsize b" using off chunk by (auto simp: o'_def)
  moreover have "o' = (boffset b + chunk) mod bsize b" if "blen b \<noteq> chunk"
    using that rest chunk by (auto simp: o'_def)
  moreover have "chunk \<le> blen b" using chunk(1) rest(2) by simp
  ultimately have c: "take chunk (drop (boffset b) buf) = take chunk (ring_contents b)"
    "ring_contents b' = drop chunk (ring_contents b)" "ring_ok b'"
    using read_chunk [OF ok buf _ chunk(2) b'_def] by blast+
  have "chunk = rest" if "blen b - chunk = 0" using that chunk(1) rest(2) by simp
  then have "read_loop (Suc k) rest out b =
      (if rest - chunk = 0 then Some (out @ take chunk (ring_contents b), b')
       else read_loop k (rest - chunk) (out @ take chunk (ring_contents b)) b')" for k out
    using rest(2) chunk(2) buf c(1)
    by (auto simp: Let_def chunk_def [symmetric] b'_def o'_def)
  moreover have "same_frame b b'" by (simp add: same_frame_def b'_def)
  moreover have "boffset b + rest \<le> bsize b \<or> boffset b' = 0"
    using off by (auto simp: b'_def o'_def chunk_def)
  ultimately show thesis using c(2,3) that by blast
qed

lemma ring_read_ok:
  assumes ok: "ring_ok b" and n: "0 < n" "n \<le> blen b"
  shows "\<exists>b'. ring_read n b = Some (take n (ring_contents b), b') \<and> ring_ok b' \<and>
    ring_contents b' = drop n (ring_contents b) \<and> same_frame b b'"
proof -
  let ?c = "if boffset b + n \<le> bsize b then n else bsize b - boffset b"
  obtain b1 where 1: "ring_ok b1" "ring_contents b1 = drop ?c (ring_contents b)" "same_frame b b1"
    "boffset b + n \<le> bsize b \<or> boffset b1 = 0"
    "\<And>k out. read_loop (Suc k) n out b =
      (if n - ?c = 0 then Some (out @ take ?c (ring_contents b), b1)
       else read_loop k (n - ?c) (out @ take ?c (ring_contents b)) b1)"
    by (rule read_loop_step [OF ok n]) blast
  show ?thesis
  proof (cases "boffset b + n \<le> bsize b")
    case True
    then have "ring_read n b = Some (take n (ring_contents b), b1)"
      using 1(5) [of 1 "[]"] by (simp add: ring_read_def numeral_2_eq_2)
    with True 1 show ?thesis by simp
  next
    case False
    have off: "boffset b < bsize b" "blen b \<le> bsize b" using ok by (auto simp: ring_ok_def)
    have c: "?c = bsize b - boffset b" "?c < n" "0 < n - ?c" using False off by auto
    have l1: "blen b1 = blen b - ?c" using arg_cong [OF 1(2), of length] by simp
    have le: "n - ?c \<le> blen b1" using n(2) l1 by simp
    have sz: "bsize b1 = bsize b" using 1(3) by (simp add: same_frame_def)
    obtain b2 where 2: "ring_ok b2" "ring_contents b2 = drop (n - ?c) (ring_contents b1)" "same_frame b1 b2"
      "\<And>k out. read_loop (Suc k) (n - ?c) out b1 = Some (out @ take (n - ?c) (ring_contents b1), b2)"
    proof -
      have "boffset b1 + (n - ?c) \<le> bsize b1" using 1(4) False n(2) off sz by simp
      with that show thesis by (rule_tac read_loop_step [OF 1(1) c(3) le]) auto
    qed
    have "ring_read n b = Some (take ?c (ring_contents b) @ take (n - ?c) (ring_contents b1), b2)"
      using 1(5) [of 1 "[]"] 2(4) [of 0 "take ?c (ring_contents b)"] c(3)
      by (simp add: ring_read_def numeral_2_eq_2)
    moreover have "take ?c (ring_contents b) @ take (n - ?c) (ring_contents b1) = take n (ring_contents b)"
      unfolding 1(2) using c(2) by (simp add: take_add [symmetric])
    moreover have "ring_contents b2 = drop n (ring_contents b)"
      unfolding 2(2) 1(2) using c(2) by simp
    ultimately show ?thesis using 2(1,3) 1(3) same_frame_trans by auto
  qed
qed

text \<open>One iteration of the writing loop.\<close>

lemma write_chunk:
  assumes ok: "ring_ok b" and buf: "bbuf b = Some buf" and w: "w = (boffset b + blen b) mod bsize b"
    and fit: "w + length xs \<le> bsize b" "blen b + length xs \<le> bsize b"
    and b': "b' = b\<lparr>bbuf := Some (overwrite w xs buf), blen := blen b + length xs\<rparr>"
  shows "ring_ok b'" "ring_contents b' = ring_contents b @ xs" "same_frame b b'"
proof -
  have len: "length buf = bsize b" and off: "boffset b < bsize b" using ok buf by (auto simp: ring_ok_def)
  have at: "overwrite w xs buf ! j = (if w \<le> j \<and> j < w + length xs then xs ! (j - w) else buf ! j)"
    if "j < bsize b" for j
    using that fit(1) len by (auto simp: overwrite_def nth_append)
  have lo: "length (overwrite w xs buf) = bsize b" using fit(1) len by (simp add: overwrite_def)
  show "ring_ok b'" using fit(2) off lo by (simp add: b' ring_ok_def)
  show "same_frame b b'" by (simp add: b' same_frame_def)
  let ?at = "\<lambda>i. (boffset b + i) mod bsize b"
  have wrap: "?at i = (if boffset b + i < bsize b then boffset b + i else boffset b + i - bsize b)"
    if "i < bsize b" for i
    using that off by (simp add: mod_if)
  have w': "w = (if boffset b + blen b < bsize b then boffset b + blen b else boffset b + blen b - bsize b)"
    using off fit(2) w by (simp add: mod_if)
  show "ring_contents b' = ring_contents b @ xs"
  proof (rule nth_equalityI)
    fix i assume "i < length (ring_contents b')"
    then have i: "i < blen b + length xs" by (simp add: b')
    have lt: "?at i < bsize b" using off by (intro mod_less_divisor) simp
    have "ring_contents b' ! i = overwrite w xs buf ! ?at i" using i by (simp add: b' ring_contents_def)
    also have "\<dots> = (if i < blen b then buf ! ?at i else xs ! (i - blen b))"
      unfolding at [OF lt] using i fit wrap [of i] w' off by (auto split: if_splits)
    also have "\<dots> = (ring_contents b @ xs) ! i" by (simp add: ring_contents_def nth_append buf)
    finally show "ring_contents b' ! i = (ring_contents b @ xs) ! i" .
  qed (simp add: b')
qed

lemma write_loop_step:
  assumes ok: "ring_ok b" and rest: "rest \<noteq> []" "blen b + length rest \<le> bsize b"
  defines "w \<equiv> (boffset b + blen b) mod bsize b"
  defines "chunk \<equiv> if w + length rest \<le> bsize b then length rest else bsize b - w"
  obtains b' where "ring_ok b'" "ring_contents b' = ring_contents b @ take chunk rest" "same_frame b b'"
    "boffset b' = boffset b"
    "\<And>k. write_loop (Suc k) rest b = (if length rest - chunk = 0 then Some b' else write_loop k (drop chunk rest) b')"
proof -
  obtain buf where buf: "bbuf b = Some buf" using ok by (auto simp: ring_ok_def)
  have off: "boffset b < bsize b" using ok by (simp add: ring_ok_def)
  define xs where "xs = take chunk rest"
  define b' where "b' = b\<lparr>bbuf := Some (overwrite w xs buf), blen := blen b + length xs\<rparr>"
  have wlt: "w < bsize b" using off unfolding w_def by (intro mod_less_divisor) simp
  have chunk: "chunk \<le> length rest" using wlt by (auto simp: chunk_def)
  then have lxs: "length xs = chunk" by (simp add: xs_def)
  have w': "(if boffset b + blen b \<ge> bsize b then boffset b + blen b - bsize b else boffset b + blen b) = w"
    using off rest by (auto simp: w_def mod_if)
  have "w + length xs \<le> bsize b" "blen b + length xs \<le> bsize b"
    using wlt rest(2) chunk by (auto simp: lxs chunk_def)
  note c = write_chunk [OF ok buf _ this b'_def, unfolded w_def, OF refl, folded w_def]
  have "write_loop (Suc k) rest b =
      (if length rest - chunk = 0 then Some b' else write_loop k (drop chunk rest) b')" for k
    using rest(2) chunk
    unfolding write_loop.simps buf option.case Let_def w' chunk_def [symmetric] xs_def [symmetric]
    by (simp add: b'_def lxs)
  moreover have "boffset b' = boffset b" by (simp add: b'_def)
  ultimately show thesis using c that by (simp add: xs_def)
qed

lemma ring_write_ok:
  assumes ok: "ring_ok b" and bs: "bs \<noteq> []" "length bs \<le> ring_room b"
  shows "\<exists>b'. write_loop 2 bs b = Some b' \<and> ring_ok b' \<and> ring_contents b' = ring_contents b @ bs \<and> same_frame b b'"
proof -
  have fit: "blen b + length bs \<le> bsize b" using bs ok by (auto simp: ring_room_def ring_ok_def)
  let ?w = "(boffset b + blen b) mod bsize b"
  let ?c = "if ?w + length bs \<le> bsize b then length bs else bsize b - ?w"
  obtain b1 where 1: "ring_ok b1" "ring_contents b1 = ring_contents b @ take ?c bs" "same_frame b b1"
    "boffset b1 = boffset b"
    "\<And>k. write_loop (Suc k) bs b = (if length bs - ?c = 0 then Some b1 else write_loop k (drop ?c bs) b1)"
    by (rule write_loop_step [OF ok bs(1) fit]) blast
  show ?thesis
  proof (cases "?w + length bs \<le> bsize b")
    case True
    then have "write_loop 2 bs b = Some b1" using 1(5) [of 1] by (simp add: numeral_2_eq_2)
    with True 1 show ?thesis by simp
  next
    case False
    have off: "boffset b < bsize b" using ok by (simp add: ring_ok_def)
    then have wlt: "?w < bsize b" by (intro mod_less_divisor) simp
    let ?rest = "drop ?c bs"
    have c: "?c < length bs" "?rest \<noteq> []" using False wlt by auto
    have sz: "bsize b1 = bsize b" using 1(3) by (simp add: same_frame_def)
    have l1: "blen b1 = blen b + ?c" using arg_cong [OF 1(2), of length] c(1) by simp
    have fit1: "blen b1 + length ?rest \<le> bsize b1" using fit l1 sz c(1) by simp
    have "(boffset b1 + blen b1) mod bsize b1 = (?w + ?c) mod bsize b"
      by (simp add: 1(4) l1 sz mod_add_left_eq add.assoc)
    also have "\<dots> = 0" using False wlt by simp
    finally have w1: "(boffset b1 + blen b1) mod bsize b1 = 0" .
    have fit2: "0 + length ?rest \<le> bsize b1" using fit1 by simp
    obtain b2 where 2: "ring_ok b2" "ring_contents b2 = ring_contents b1 @ ?rest" "same_frame b1 b2"
      "\<And>k. write_loop (Suc k) ?rest b1 = Some b2"
      by (rule write_loop_step [OF 1(1) c(2) fit1]) (use w1 fit2 in auto)
    have "write_loop 2 bs b = Some b2" using 1(5) [of 1] 2(4) [of 0] c(1) by (simp add: numeral_2_eq_2)
    then show ?thesis using 1(2,3) 2(1-3) same_frame_trans [of b b1 b2] by simp
  qed
qed

lemma same_frame_room: "same_frame b b' \<Longrightarrow> ring_room b' = bsize b - length (ring_contents b')"
  by (simp add: ring_room_def same_frame_def)

interpretation ring: byte_queue ring_ok ring_contents ring_room "write_loop 2" ring_read
proof unfold_locales
  fix b and bs :: "byte list" assume "ring_ok b" "bs \<noteq> []" "length bs \<le> ring_room b"
  from ring_write_ok [OF this] obtain b' where b': "write_loop 2 bs b = Some b'" "ring_ok b'"
    "ring_contents b' = ring_contents b @ bs" "same_frame b b'" by blast
  moreover from b' have "ring_room b' = ring_room b - length bs"
    using same_frame_room [OF b'(4)] by (simp add: ring_room_def)
  ultimately show "\<exists>b'. write_loop 2 bs b = Some b' \<and> ring_ok b' \<and>
      ring_contents b' = ring_contents b @ bs \<and> ring_room b' = ring_room b - length bs" by blast
next
  fix b n assume n: "0 < n" "n \<le> length (ring_contents b)" and ok: "ring_ok b"
  from ring_read_ok [OF ok n(1)] n(2) obtain b' where b': "ring_read n b = Some (take n (ring_contents b), b')"
    "ring_ok b'" "ring_contents b' = drop n (ring_contents b)" "same_frame b b'" by auto
  moreover from b' ok n have "ring_room b' = ring_room b + n"
    using same_frame_room [OF b'(4)] by (auto simp: ring_room_def ring_ok_def)
  ultimately show "\<exists>b'. ring_read n b = Some (take n (ring_contents b), b') \<and> ring_ok b' \<and>
      ring_contents b' = drop n (ring_contents b) \<and> ring_room b' = ring_room b + n" by blast
qed

section \<open>A pair\<close>

text \<open>Two paired BIOs \<open>x\<close> and \<open>y\<close>; \<open>side A B\<close> is what holds of the side \<open>A\<close> that is paired with \<open>B\<close>.\<close>

definition side :: "bios \<Rightarrow> bio_id \<Rightarrow> bio_id \<Rightarrow> bool" where
  "side st A B \<longleftrightarrow> (\<exists>x. st A = Some x \<and> init x \<and> peer (bptr x) = Some B \<and> ring_ok (bptr x) \<and> bsize (bptr x) < 2 ^ 63)"

definition pair_ok :: "bios \<Rightarrow> bio_id \<Rightarrow> bio_id \<Rightarrow> bool" where
  "pair_ok st A B \<longleftrightarrow> A \<noteq> B \<and> side st A B \<and> side st B A"

text \<open>The bytes on their way from \<open>A\<close>, and whether \<open>A\<close> has been shut down for writing.\<close>

definition in_transit :: "bios \<Rightarrow> bio_id \<Rightarrow> byte list" where
  "in_transit st A = (case st A of None \<Rightarrow> [] | Some x \<Rightarrow> ring_contents (bptr x))"

definition room_of :: "bios \<Rightarrow> bio_id \<Rightarrow> nat" where
  "room_of st A = (case st A of None \<Rightarrow> 0 | Some x \<Rightarrow> ring_room (bptr x))"

definition shut :: "bios \<Rightarrow> bio_id \<Rightarrow> bool" where
  "shut st A = (case st A of None \<Rightarrow> True | Some x \<Rightarrow> closed (bptr x))"

lemma pair_ok_sym: "pair_ok st A B \<Longrightarrow> pair_ok st B A"
  by (auto simp: pair_ok_def)

lemma clear_retry_fields [simp]:
  "init (BIO_clear_retry_flags x) = init x" "bptr (BIO_clear_retry_flags x) = bptr x"
  "init (BIO_set_retry_write x) = init x" "bptr (BIO_set_retry_write x) = bptr x"
  "init (BIO_set_retry_read x) = init x" "bptr (BIO_set_retry_read x) = bptr x"
  by (simp_all add: BIO_clear_retry_flags_def BIO_set_retry_write_def BIO_set_retry_read_def)

lemma ring_contents_request [simp]: "ring_contents (b\<lparr>brequest := r\<rparr>) = ring_contents b"
  "ring_room (b\<lparr>brequest := r\<rparr>) = ring_room b" "ring_ok (b\<lparr>brequest := r\<rparr>) = ring_ok b"
  by (simp_all add: ring_contents_def ring_room_def ring_ok_def)

lemma ring_contents_closed [simp]: "ring_contents (b\<lparr>closed := r\<rparr>) = ring_contents b"
  "ring_room (b\<lparr>closed := r\<rparr>) = ring_room b" "ring_ok (b\<lparr>closed := r\<rparr>) = ring_ok b"
  by (simp_all add: ring_contents_def ring_room_def ring_ok_def)

lemma int_of_size_small: "n < 2 ^ 31 \<Longrightarrow> int_of_size n = int n"
  by (simp add: int_of_size_def signed_of_nat signed_take_bit_int_eq_self)

lemma size_of_int_small: "0 \<le> i \<Longrightarrow> i < 2 ^ 31 \<Longrightarrow> size_of_int i = nat i"
  by (elim nonneg_eq_int) (simp add: size_of_int_def unat_of_nat)

lemma size_of_int_0 [simp]: "size_of_int 0 = 0"
  by (simp add: size_of_int_def)

text \<open>
  Writing.  The result, the state of the writing side after it, and the other side untouched.
\<close>

definition write_result :: "bios \<Rightarrow> bio_id \<Rightarrow> byte list \<Rightarrow> int" where
  "write_result st A data =
     (if data = [] then 0 else if shut st A \<or> room_of st A = 0 then - 1 else int (min (length data) (room_of st A)))"

lemma bio_write_ok:
  assumes A: "side st A B" and len: "length data < 2 ^ 31"
  shows "\<exists>st'. bio_write A (Some data) (int (length data)) st = Some (write_result st A data, st') \<and>
    side st' A B \<and> (\<forall>C. C \<noteq> A \<longrightarrow> st' C = st C) \<and>
    in_transit st' A = in_transit st A @ (if shut st A then [] else take (room_of st A) data) \<and>
    shut st' A = shut st A \<and> room_of st' A = room_of st A - (if shut st A then 0 else length data)"
proof -
  obtain x where x: "st A = Some x" "init x" "peer (bptr x) = Some B" "ring_ok (bptr x)" "bsize (bptr x) < 2 ^ 63"
    using A by (auto simp: side_def)
  let ?b = "(bptr x)\<lparr>brequest := 0\<rparr>"
  obtain buf where buf: "bbuf (bptr x) = Some buf" using x(4) by (auto simp: ring_ok_def)
  have le: "blen (bptr x) \<le> bsize (bptr x)" using x(4) by (simp add: ring_ok_def)
  have sz: "size_of_int (int (length data)) = length data" using size_of_int_small [of "int (length data)"] len by simp
  have room: "room_of st A = bsize (bptr x) - blen (bptr x)" by (simp add: room_of_def x ring_room_def)
  consider (none) "data = []" | (shut) "data \<noteq> []" "shut st A" | (full) "data \<noteq> []" "\<not> shut st A" "room_of st A = 0"
    | (room) "data \<noteq> []" "\<not> shut st A" "0 < room_of st A" by blast
  then show ?thesis
  proof cases
    case none
    then show ?thesis
      using x by (simp add: bio_write_def write_result_def side_def in_transit_def shut_def room_of_def Let_def)
  next
    case shut
    then show ?thesis
      using x buf by (simp add: bio_write_def sz write_result_def side_def in_transit_def shut_def room_of_def Let_def)
  next
    case full
    then have "blen (bptr x) = bsize (bptr x)" using room le by simp
    then show ?thesis
      using x buf full by (simp add: bio_write_def sz write_result_def side_def in_transit_def shut_def room_of_def
          Let_def ring_room_def)
  next
    case room': room
    let ?n = "min (length data) (room_of st A)"
    have n: "?n = (if length data > bsize ?b - blen ?b then bsize ?b - blen ?b else length data)"
      by (simp add: room min_def)
    have bs: "take ?n data \<noteq> []" "length (take ?n data) \<le> ring_room ?b"
      using room' by (auto simp: room ring_room_def)
    have ok: "ring_ok ?b" using x(4) by simp
    from ring_write_ok [OF ok bs] obtain b' where b': "write_loop 2 (take ?n data) ?b = Some b'" "ring_ok b'"
      "ring_contents b' = ring_contents ?b @ take ?n data" "same_frame ?b b'" by blast
    have "\<not> blen (bptr x) = bsize (bptr x)" using room' room by simp
    moreover have "int_of_size ?n = int ?n" by (rule int_of_size_small) (use len in simp)
    moreover have "ring_room b' = ring_room (bptr x) - length data"
      using same_frame_room [OF b'(4)] b'(3) room by (simp add: ring_room_def)
    moreover have "take ?n data = take (room_of st A) data" by (simp add: min_def)
    ultimately show ?thesis
      using x buf le room' b' n [symmetric]
      by (simp add: bio_write_def sz write_result_def side_def in_transit_def shut_def room_of_def same_frame_def Let_def)
  qed
qed

text \<open>Reading: \<open>B\<close> takes from the buffer of \<open>A\<close>.\<close>

definition read_result :: "bios \<Rightarrow> bio_id \<Rightarrow> nat \<Rightarrow> int" where
  "read_result st A n =
     (if n = 0 then 0
      else if in_transit st A = [] then (if shut st A then 0 else - 1)
      else int (min n (length (in_transit st A))))"

lemma bio_read_ok:
  assumes ok: "pair_ok st A B" and n: "n < 2 ^ 31"
  shows "\<exists>st'. bio_read B True (int n) st = Some (read_result st A n, take n (in_transit st A), st') \<and>
    pair_ok st' A B \<and>
    in_transit st' A = drop n (in_transit st A) \<and> in_transit st' B = in_transit st B \<and>
    (\<forall>C \<in> {A, B}. shut st' C = shut st C) \<and>
    room_of st' A = room_of st A + min n (length (in_transit st A)) \<and> room_of st' B = room_of st B"
proof -
  have AB: "A \<noteq> B" "B \<noteq> A" using ok by (auto simp: pair_ok_def)
  obtain x y where x: "st A = Some x" "init x" "peer (bptr x) = Some B" "ring_ok (bptr x)" "bsize (bptr x) < 2 ^ 63"
    and y: "st B = Some y" "init y" "peer (bptr y) = Some A" "ring_ok (bptr y)" "bsize (bptr y) < 2 ^ 63"
    using ok by (auto simp: pair_ok_def side_def)
  let ?b = "(bptr x)\<lparr>brequest := 0\<rparr>"
  obtain buf where buf: "bbuf (bptr x) = Some buf" using x(4) by (auto simp: ring_ok_def)
  have sz: "size_of_int (int n) = n" using size_of_int_small [of "int n"] n by simp
  have transit: "in_transit st A = ring_contents (bptr x)" by (simp add: in_transit_def x)
  have empty: "in_transit st A = [] \<longleftrightarrow> blen (bptr x) = 0" unfolding transit by (metis length_0_conv length_ring_contents)
  note defs = read_result_def pair_ok_def side_def in_transit_def shut_def room_of_def
  consider (none) "n = 0" | (shut) "n \<noteq> 0" "blen (bptr x) = 0" "closed (bptr x)"
    | (empty) "n \<noteq> 0" "blen (bptr x) = 0" "\<not> closed (bptr x)" | (some) "n \<noteq> 0" "blen (bptr x) \<noteq> 0" by blast
  then show ?thesis
  proof cases
    case none
    then show ?thesis using x y AB buf by (simp add: bio_read_def defs Let_def)
  next
    case shut
    then have "ring_contents (bptr x) = []" using empty transit by simp
    then show ?thesis using shut x y AB buf by (simp add: bio_read_def sz defs Let_def)
  next
    case empty': empty
    then have "ring_contents (bptr x) = []" using empty transit by simp
    then show ?thesis using empty' x y AB buf by (simp add: bio_read_def sz defs Let_def)
  next
    case some
    let ?n = "min n (blen (bptr x))"
    have m: "?n = (if blen ?b < n then blen ?b else n)" by (simp add: min_def)
    have ok': "ring_ok ?b" "0 < ?n" "?n \<le> blen ?b" using x(4) some by auto
    from ring_read_ok [OF this] obtain b' where b': "read_loop 2 ?n [] ?b = Some (take ?n (ring_contents ?b), b')"
      "ring_ok b'" "ring_contents b' = drop ?n (ring_contents ?b)" "same_frame ?b b'"
      unfolding ring_read_def by blast
    have take: "take ?n (ring_contents (bptr x)) = take n (ring_contents (bptr x))"
      "drop ?n (ring_contents (bptr x)) = drop n (ring_contents (bptr x))"
      by (simp_all add: min_def)
    have "int_of_size ?n = int ?n" by (rule int_of_size_small) (use n in simp)
    moreover have "ring_room b' = ring_room (bptr x) + ?n"
      using same_frame_room [OF b'(4)] b'(3) ok'(3) x(4) by (auto simp: ring_room_def ring_ok_def)
    moreover have "in_transit st A \<noteq> []" using empty some by simp
    ultimately show ?thesis
      using some x y AB buf b' take transit m [symmetric]
      by (simp add: bio_read_def sz defs same_frame_def Let_def)
  qed
qed

section \<open>Runs\<close>

text \<open>
  What the users of the two ends of a pair do, each with its end, in any order.  A trace keeps,
  for each end, the bytes its writes were told were taken and the bytes its reads returned.
\<close>

datatype pair_op =
    Write bio_id "byte list"
  | Read bio_id nat
  | Shutdown bio_id
  | Reset_request bio_id
  | Pending bio_id

record trace =
  sent :: "bio_id \<Rightarrow> byte list"
  received :: "bio_id \<Rightarrow> byte list"

fun pair_step :: "(nat \<Rightarrow> bool) \<Rightarrow> pair_op \<Rightarrow> bios \<times> trace \<Rightarrow> (bios \<times> trace) option" where
  "pair_step alloc (Write b data) (st, tr) =
     map_option (\<lambda>(ret, st'). (st', tr\<lparr>sent := (sent tr)(b := sent tr b @ take (nat ret) data)\<rparr>))
       (BIO_write (methods_biop alloc) (Some b) (Some data) (int (length data)) st)"
| "pair_step alloc (Read b n) (st, tr) =
     map_option (\<lambda>(ret, out, st'). (st', tr\<lparr>received := (received tr)(b := received tr b @ take (nat ret) out)\<rparr>))
       (BIO_read (methods_biop alloc) (Some b) True (int n) st)"
| "pair_step alloc (Shutdown b) (st, tr) = map_option (\<lambda>(_, st'). (st', tr)) (BIO_shutdown_wr alloc b st)"
| "pair_step alloc (Reset_request b) (st, tr) =
     map_option (\<lambda>(_, st'). (st', tr)) (BIO_ctrl (methods_biop alloc) (Some b) BIO_C_RESET_READ_REQUEST 0 None st)"
| "pair_step alloc (Pending b) (st, tr) =
     map_option (\<lambda>(_, st'). (st', tr)) (BIO_pending (methods_biop alloc) (Some b) st)"

fun pair_run :: "(nat \<Rightarrow> bool) \<Rightarrow> pair_op list \<Rightarrow> bios \<times> trace \<Rightarrow> (bios \<times> trace) option" where
  "pair_run alloc [] s = Some s"
| "pair_run alloc (op # ops) s = (case pair_step alloc op s of None \<Rightarrow> None | Some s' \<Rightarrow> pair_run alloc ops s')"

text \<open>Operations on one of the two ends, with lengths that an \<open>int\<close> holds.\<close>

fun op_on :: "bio_id \<Rightarrow> bio_id \<Rightarrow> pair_op \<Rightarrow> bool" where
  "op_on A B (Write b data) \<longleftrightarrow> b \<in> {A, B} \<and> length data < 2 ^ 31"
| "op_on A B (Read b n) \<longleftrightarrow> b \<in> {A, B} \<and> n < 2 ^ 31"
| "op_on A B (Shutdown b) \<longleftrightarrow> b \<in> {A, B}"
| "op_on A B (Reset_request b) \<longleftrightarrow> b \<in> {A, B}"
| "op_on A B (Pending b) \<longleftrightarrow> b \<in> {A, B}"

text \<open>What one end has received and what is on its way to it is what the other end has sent.\<close>

definition fifo :: "bio_id \<Rightarrow> bio_id \<Rightarrow> bios \<times> trace \<Rightarrow> bool" where
  "fifo A B = (\<lambda>(st, tr). pair_ok st A B \<and>
     sent tr A = received tr B @ in_transit st A \<and> sent tr B = received tr A @ in_transit st B)"

lemma fifo_sym: "fifo A B s \<Longrightarrow> fifo B A s"
  by (auto simp: fifo_def dest: pair_ok_sym)

text \<open>The byte counters of the generic layer do not matter.\<close>

lemma count_fields [simp]:
  "pair_ok (count_read b r st) A B = pair_ok st A B" "pair_ok (count_write b r st) A B = pair_ok st A B"
  "in_transit (count_read b r st) C = in_transit st C" "in_transit (count_write b r st) C = in_transit st C"
  by (cases "st b"; auto simp: count_read_def count_write_def pair_ok_def side_def in_transit_def)+

lemma pair_ok_update:
  assumes "pair_ok st A B" "st A = Some x" "init x' = init x" "peer (bptr x') = peer (bptr x)"
    "ring_ok (bptr x')" "bsize (bptr x') = bsize (bptr x)"
  shows "pair_ok (st(A \<mapsto> x')) A B"
  using assms by (auto simp: pair_ok_def side_def)

lemma fifo_step_at:
  assumes f: "fifo A B (st, tr)"
  shows "length data < 2 ^ 31 \<Longrightarrow> \<exists>s'. pair_step alloc (Write A data) (st, tr) = Some s' \<and> fifo A B s'"
    and "n < 2 ^ 31 \<Longrightarrow> \<exists>s'. pair_step alloc (Read A n) (st, tr) = Some s' \<and> fifo A B s'"
    and "\<exists>s'. pair_step alloc (Shutdown A) (st, tr) = Some s' \<and> fifo A B s'"
    and "\<exists>s'. pair_step alloc (Reset_request A) (st, tr) = Some s' \<and> fifo A B s'"
    and "\<exists>s'. pair_step alloc (Pending A) (st, tr) = Some s' \<and> fifo A B s'"
proof -
  have ok: "pair_ok st A B" and snd: "sent tr A = received tr B @ in_transit st A"
    "sent tr B = received tr A @ in_transit st B" using f by (auto simp: fifo_def)
  have AB: "A \<noteq> B" "B \<noteq> A" and A: "side st A B" using ok by (auto simp: pair_ok_def)
  obtain x where x: "st A = Some x" "init x" "peer (bptr x) = Some B" "ring_ok (bptr x)" using A by (auto simp: side_def)
  obtain y where y: "st B = Some y" "bsize (bptr y) < 2 ^ 63" "blen (bptr y) \<le> bsize (bptr y)"
    using ok by (auto simp: pair_ok_def side_def ring_ok_def)
  show "\<exists>s'. pair_step alloc (Write A data) (st, tr) = Some s' \<and> fifo A B s'" if len: "length data < 2 ^ 31"
  proof (cases "data = []")
    case True
    then show ?thesis using x f by (simp add: BIO_write_def methods_biop_def)
  next
    case False
    from bio_write_ok [OF A len] obtain st' where
      w: "bio_write A (Some data) (int (length data)) st = Some (write_result st A data, st')"
      "side st' A B" "\<forall>C. C \<noteq> A \<longrightarrow> st' C = st C"
      "in_transit st' A = in_transit st A @ (if shut st A then [] else take (room_of st A) data)" by blast
    have "side st' B A" "in_transit st' B = in_transit st B"
      using w(3) AB ok by (auto simp: side_def pair_ok_def in_transit_def)
    moreover have "take (nat (write_result st A data)) data = (if shut st A then [] else take (room_of st A) data)"
      using False by (auto simp: write_result_def min_def)
    ultimately have "fifo A B (count_write A (write_result st A data) st',
        tr\<lparr>sent := (sent tr)(A := sent tr A @ take (nat (write_result st A data)) data)\<rparr>)"
      using w AB snd by (simp add: fifo_def) (simp add: pair_ok_def)
    then show ?thesis using False x w(1) by (simp add: BIO_write_def methods_biop_def)
  qed
  show "\<exists>s'. pair_step alloc (Read A n) (st, tr) = Some s' \<and> fifo A B s'" if n: "n < 2 ^ 31"
  proof (cases "n = 0")
    case True
    then show ?thesis using x f by (simp add: BIO_read_def methods_biop_def)
  next
    case False
    from bio_read_ok [OF pair_ok_sym [OF ok] n] obtain st' where
      r: "bio_read A True (int n) st = Some (read_result st B n, take n (in_transit st B), st')"
      "pair_ok st' B A" "in_transit st' B = drop n (in_transit st B)" "in_transit st' A = in_transit st A" by blast
    have "take (nat (read_result st B n)) (take n (in_transit st B)) = take n (in_transit st B)"
      using False by (auto simp: read_result_def min_def)
    then have "fifo A B (count_read A (read_result st B n) st',
        tr\<lparr>received := (received tr)(A := received tr A @ take (nat (read_result st B n)) (take n (in_transit st B)))\<rparr>)"
      using r AB snd pair_ok_sym [OF r(2)] by (simp add: fifo_def)
    then show ?thesis using False x r(1) by (simp add: BIO_read_def methods_biop_def)
  qed
  show "\<exists>s'. pair_step alloc (Shutdown A) (st, tr) = Some s' \<and> fifo A B s'"
  proof -
    let ?st = "st(A \<mapsto> x\<lparr>bptr := (bptr x)\<lparr>closed := True\<rparr>\<rparr>)"
    have "pair_ok ?st A B" by (rule pair_ok_update [OF ok x(1)]) (use x in simp_all)
    then have "fifo A B (?st, tr)" using snd x AB by (simp add: fifo_def in_transit_def)
    then show ?thesis using x by (simp add: BIO_shutdown_wr_def BIO_ctrl_int_def BIO_ctrl_def methods_biop_def bio_ctrl_def)
  qed
  show "\<exists>s'. pair_step alloc (Reset_request A) (st, tr) = Some s' \<and> fifo A B s'"
  proof -
    let ?st = "st(A \<mapsto> x\<lparr>bptr := (bptr x)\<lparr>brequest := 0\<rparr>\<rparr>)"
    have "pair_ok ?st A B" by (rule pair_ok_update [OF ok x(1)]) (use x in simp_all)
    then have "fifo A B (?st, tr)" using snd x AB by (simp add: fifo_def in_transit_def)
    then show ?thesis using x by (simp add: BIO_ctrl_def methods_biop_def bio_ctrl_def)
  qed
  show "\<exists>s'. pair_step alloc (Pending A) (st, tr) = Some s' \<and> fifo A B s'"
  proof -
    have "blen (bptr y) < 2 ^ 63" using y by simp
    then have "0 \<le> sint (of_nat (blen (bptr y)) :: 64 word)"
      by (simp add: signed_of_nat signed_take_bit_int_eq_self)
    then show ?thesis using x y f by (simp add: BIO_pending_def BIO_ctrl_def methods_biop_def bio_ctrl_def)
  qed
qed

lemma fifo_step:
  assumes "fifo A B s" "op_on A B op"
  shows "\<exists>s'. pair_step alloc op s = Some s' \<and> fifo A B s'"
proof -
  obtain st tr where s: "s = (st, tr)" by (cases s)
  have f: "fifo A B (st, tr)" "fifo B A (st, tr)" using assms(1) fifo_sym s by blast+
  have "\<exists>s'. pair_step alloc op (st, tr) = Some s' \<and> (fifo A B s' \<or> fifo B A s')"
  proof (cases op)
    case (Write b data)
    with assms(2) show ?thesis using fifo_step_at(1) [OF f(1), of data alloc] fifo_step_at(1) [OF f(2), of data alloc]
      by (cases "b = A") auto
  next
    case (Read b n)
    with assms(2) show ?thesis using fifo_step_at(2) [OF f(1), of n alloc] fifo_step_at(2) [OF f(2), of n alloc]
      by (cases "b = A") auto
  next
    case (Shutdown b)
    with assms(2) show ?thesis using fifo_step_at(3) [OF f(1), of alloc] fifo_step_at(3) [OF f(2), of alloc]
      by (cases "b = A") auto
  next
    case (Reset_request b)
    with assms(2) show ?thesis using fifo_step_at(4) [OF f(1), of alloc] fifo_step_at(4) [OF f(2), of alloc]
      by (cases "b = A") auto
  next
    case (Pending b)
    with assms(2) show ?thesis using fifo_step_at(5) [OF f(1), of alloc] fifo_step_at(5) [OF f(2), of alloc]
      by (cases "b = A") auto
  qed
  then show ?thesis using fifo_sym s by blast
qed

lemma fifo_run:
  assumes "fifo A B s" "\<forall>op \<in> set ops. op_on A B op"
  shows "\<exists>s'. pair_run alloc ops s = Some s' \<and> fifo A B s'"
  using assms
proof (induction ops arbitrary: s)
  case (Cons op ops)
  from fifo_step [OF Cons.prems(1), of op alloc] Cons.prems(2) obtain s1 where
    "pair_step alloc op s = Some s1" "fifo A B s1" by auto
  with Cons.IH [of s1] Cons.prems(2) show ?case by simp
qed simp

lemma make_side_ok:
  assumes "bio_alloc_buf alloc junk n (empty_bio_bio\<lparr>bsize := 17 * 1024\<rparr>) = (True, b)"
    "\<forall>n. alloc n \<longrightarrow> n < 2 ^ 63" "\<forall>n. length (junk n) = n"
  shows "ring_ok b" "ring_contents b = []" "bsize b < 2 ^ 63"
  using assms by (auto simp: bio_alloc_buf_def empty_bio_bio_def Let_def ring_ok_def ring_contents_def split: if_splits)

text \<open>A new BIO of a pair.\<close>

definition new_biop :: BIO where
  "new_biop = \<lparr>init = False, shutdown = 1, flags = 0, retry_reason = 0, references = 1,
     bptr = empty_bio_bio\<lparr>bsize := 17 * 1024\<rparr>, next_bio = None, num_read = 0, num_write = 0\<rparr>"

lemma BIO_new_biop:
  "alloc 64 \<Longrightarrow> alloc 56 \<Longrightarrow> BIO_new alloc (methods_biop alloc) i st = (Some i, st(i \<mapsto> new_biop))"
  "\<not> (alloc 64 \<and> alloc 56) \<Longrightarrow> \<exists>st'. BIO_new alloc (methods_biop alloc) i st = (None, st')"
  by (auto simp: BIO_new_def methods_biop_def bio_new_def new_biop_def)

text \<open>What \<open>BIO_new_bio_pair\<close> does when something failed.\<close>

definition free_both :: "(nat \<Rightarrow> bool) \<Rightarrow> bio_id option \<Rightarrow> bio_id option \<Rightarrow> bios \<Rightarrow> ((bio_id \<times> bio_id) option \<times> bios) option" where
  "free_both alloc bio1 bio2 st =
     (case BIO_free 2 (methods_biop alloc) bio1 st of
        None \<Rightarrow> None
      | Some (_, st') \<Rightarrow>
          (case BIO_free 2 (methods_biop alloc) bio2 st' of None \<Rightarrow> None | Some (_, st'') \<Rightarrow> Some (None, st'')))"

lemma free_both_None: "free_both alloc bio1 bio2 st \<noteq> Some (Some p, st')"
  by (auto simp: free_both_def split: option.splits)

lemma BIO_new_bio_pair_cases:
  "alloc 64 \<Longrightarrow> alloc 56 \<Longrightarrow> BIO_new_bio_pair alloc junk A B n m st =
     (case bio_make_pair alloc junk A B n m (st(A \<mapsto> new_biop, B \<mapsto> new_biop)) of
        None \<Rightarrow> None
      | Some (True, st3) \<Rightarrow> Some (Some (A, B), st3)
      | Some (False, st3) \<Rightarrow> free_both alloc (Some A) (Some B) st3)"
  "\<not> (alloc 64 \<and> alloc 56) \<Longrightarrow> \<exists>st'. BIO_new_bio_pair alloc junk A B n m st = free_both alloc None None st'"
proof -
  show "alloc 64 \<Longrightarrow> alloc 56 \<Longrightarrow> BIO_new_bio_pair alloc junk A B n m st =
     (case bio_make_pair alloc junk A B n m (st(A \<mapsto> new_biop, B \<mapsto> new_biop)) of
        None \<Rightarrow> None
      | Some (True, st3) \<Rightarrow> Some (Some (A, B), st3)
      | Some (False, st3) \<Rightarrow> free_both alloc (Some A) (Some B) st3)"
    by (simp add: BIO_new_bio_pair_def BIO_new_biop(1) free_both_def Let_def split: option.splits prod.splits bool.splits)
  show "\<exists>st'. BIO_new_bio_pair alloc junk A B n m st = free_both alloc None None st'" if no: "\<not> (alloc 64 \<and> alloc 56)"
  proof -
    obtain st1 where "BIO_new alloc (methods_biop alloc) A st = (None, st1)" using BIO_new_biop(2) [OF no] by blast
    moreover obtain st2 where "BIO_new alloc (methods_biop alloc) B st1 = (None, st2)"
      using BIO_new_biop(2) [OF no] by blast
    ultimately have both: "BIO_new_bio_pair alloc junk A B n m st = free_both alloc None None st2"
      by (simp add: BIO_new_bio_pair_def free_both_def Let_def)
    show ?thesis by (rule exI) (rule both)
  qed
qed

lemma new_pair_ok:
  assumes new: "BIO_new_bio_pair alloc junk A B n m st = Some (Some (A', B'), st')" and AB: "A \<noteq> B"
    and malloc: "\<forall>n. alloc n \<longrightarrow> n < 2 ^ 63" "\<forall>n. length (junk n) = n"
  shows "A' = A" "B' = B" "pair_ok st' A B" "in_transit st' A = []" "in_transit st' B = []"
proof -
  let ?e = "empty_bio_bio\<lparr>bsize := 17 * 1024\<rparr>" and ?x = new_biop
  have x: "bptr ?x = ?e" by (simp add: new_biop_def)
  have al: "alloc 64" "alloc 56"
    using new BIO_new_bio_pair_cases(2) [of alloc junk A B n m st] free_both_None by metis+
  let ?st2 = "st(A \<mapsto> ?x, B \<mapsto> ?x)"
  note BIO_new_bio_pair_cases(1) [OF al, of junk A B n m st]
  with new have mk: "bio_make_pair alloc junk A B n m ?st2 = Some (True, st')" "A' = A" "B' = B"
    by (auto simp: free_both_None split: option.splits prod.splits bool.splits)
  show "A' = A" "B' = B" by (fact mk)+
  obtain r1 b1 where b1: "bio_alloc_buf alloc junk n ?e = (r1, b1)" by fastforce
  obtain r2 b2 where b2: "bio_alloc_buf alloc junk m ?e = (r2, b2)" by fastforce
  have none: "peer ?e = None" by (simp add: empty_bio_bio_def)
  have r: "r1" "r2"
    using mk(1) b1 b2 AB none by (auto simp: bio_make_pair_def x split: bool.splits)
  note ok = make_side_ok [OF b1 [unfolded eqTrueI [OF r(1)]] malloc] make_side_ok [OF b2 [unfolded eqTrueI [OF r(2)]] malloc]
  have st': "st' = ?st2(A \<mapsto> ?x\<lparr>bptr := b1\<lparr>peer := Some B, closed := False, brequest := 0\<rparr>, init := True\<rparr>,
                   B \<mapsto> ?x\<lparr>bptr := b2\<lparr>peer := Some A, closed := False, brequest := 0\<rparr>, init := True\<rparr>)"
    using mk(1) b1 b2 AB none r by (simp add: bio_make_pair_def x)
  have frame: "ring_ok (b\<lparr>peer := p\<rparr>) = ring_ok b" "ring_contents (b\<lparr>peer := p\<rparr>) = ring_contents b" for b p
    by (simp_all add: ring_ok_def ring_contents_def)
  show "pair_ok st' A B" "in_transit st' A = []" "in_transit st' B = []"
    using AB ok by (simp_all add: st' pair_ok_def side_def in_transit_def frame)
qed

text \<open>C21: A BIO pair is two byte streams.  From a successful \<open>BIO_new_bio_pair\<close> of two BIOs on (no
  allocator gives \<open>2 ^ 63\<close> bytes or more), as long as both ends live,
  whatever sequence of \<open>BIO_write\<close>, \<open>BIO_read\<close>, \<open>BIO_shutdown_wr\<close>, \<open>BIO_pending\<close> and resets of the read
  request the two users call on their ends, in whatever order and with any lengths that an \<open>int\<close> holds,
  every call returns (no assertion fails, two rounds of the copying loops are enough), and the bytes one end
  has received, followed by those in the ring buffer, are exactly the bytes the other end's writes
  accepted: nothing is lost, duplicated or reordered.  (Freeing an end drops what is in the buffers; it is not
  in the sequence.)\<close>

theorem pair_fifo:
  assumes "BIO_new_bio_pair alloc junk A B n m st = Some (Some (A', B'), st1)" "A \<noteq> B"
    and "\<forall>n. alloc n \<longrightarrow> n < 2 ^ 63" "\<forall>n. length (junk n) = n"
    and "\<forall>op \<in> set ops. op_on A' B' op"
  shows "\<exists>st2 tr. pair_run alloc ops (st1, \<lparr>sent = \<lambda>_. [], received = \<lambda>_. []\<rparr>) = Some (st2, tr) \<and>
    sent tr A' = received tr B' @ in_transit st2 A' \<and> sent tr B' = received tr A' @ in_transit st2 B'"
proof -
  note new = new_pair_ok [OF assms(1-4)]
  have "fifo A B (st1, \<lparr>sent = \<lambda>_. [], received = \<lambda>_. []\<rparr>)" using new by (simp add: fifo_def)
  from fifo_run [OF this, of ops alloc] assms(5) new(1,2) show ?thesis
    by (auto simp: fifo_def)
qed

definition sample_alloc :: "nat \<Rightarrow> bool" where
  "sample_alloc n = (n < 2 ^ 63)"

definition sample_ops :: "pair_op list" where
  "sample_ops = [Write 1 [7, 8, 9], Read 2 2, Write 1 [1, 2, 3], Read 2 5, Shutdown 1, Read 2 5]"

definition sample_pair :: bios where
  "sample_pair =
     (case BIO_new_bio_pair sample_alloc (\<lambda>n. replicate n 0) 1 2 4 4 (\<lambda>_. None) of
        Some (Some _, st) \<Rightarrow> st | _ \<Rightarrow> (\<lambda>_. None))"

lemma sample_pair_new:
  "BIO_new_bio_pair sample_alloc (\<lambda>n. replicate n 0) 1 2 4 4 (\<lambda>_. None) = Some (Some (1, 2), sample_pair)"
proof -
  have "\<exists>st. BIO_new_bio_pair sample_alloc (\<lambda>n. replicate n 0) 1 2 4 4 (\<lambda>_. None) = Some (Some (1, 2), st)"
    by (simp add: BIO_new_bio_pair_cases sample_alloc_def bio_make_pair_def bio_alloc_buf_def new_biop_def
        empty_bio_bio_def)
  then show ?thesis by (auto simp: sample_pair_def)
qed

theorem pair_fifo_witness:
  "\<exists>st2 tr. pair_run sample_alloc sample_ops (sample_pair, \<lparr>sent = \<lambda>_. [], received = \<lambda>_. []\<rparr>) = Some (st2, tr) \<and>
    sent tr 1 = received tr 2 @ in_transit st2 1 \<and> sent tr 2 = received tr 1 @ in_transit st2 2"
  by (rule pair_fifo [OF sample_pair_new]) (simp_all add: sample_alloc_def sample_ops_def)

text \<open>C22: A blocked writer is released.  Whatever the state of a pair that is open for writing, after
  the peer's next read of at least a byte, the next write of at least a byte is accepted at least in
  part, and its result says how many bytes were.\<close>

theorem read_releases_writer:
  assumes "pair_ok st A B" "\<not> shut st A" "data \<noteq> []" "length data < 2 ^ 31" "0 < n" "n < 2 ^ 31"
  shows "\<exists>r out st1 k st2. bio_read B True (int n) st = Some (r, out, st1) \<and>
    bio_write A (Some data) (int (length data)) st1 = Some (int k, st2) \<and> 0 < k \<and> k \<le> length data \<and>
    in_transit st2 A = drop n (in_transit st A) @ take k data"
proof -
  from bio_read_ok [OF assms(1,6)] obtain st1 where
    r: "bio_read B True (int n) st = Some (read_result st A n, take n (in_transit st A), st1)"
    "pair_ok st1 A B" "in_transit st1 A = drop n (in_transit st A)" "shut st1 A = shut st A"
    "room_of st1 A = room_of st A + min n (length (in_transit st A))" by blast
  obtain x where x: "st A = Some x" "ring_ok (bptr x)" using assms(1) by (auto simp: pair_ok_def side_def)
  then have "0 < room_of st A + length (in_transit st A)"
    by (auto simp: room_of_def in_transit_def ring_room_def ring_ok_def)
  then have room: "0 < room_of st1 A" using r(5) assms(5) by (auto simp: min_def)
  have "side st1 A B" using r(2) by (simp add: pair_ok_def)
  from bio_write_ok [OF this assms(4)] obtain st2 where
    w: "bio_write A (Some data) (int (length data)) st1 = Some (write_result st1 A data, st2)"
    "in_transit st2 A = in_transit st1 A @ (if shut st1 A then [] else take (room_of st1 A) data)" by blast
  let ?k = "min (length data) (room_of st1 A)"
  have "write_result st1 A data = int ?k" "0 < ?k" "?k \<le> length data"
    using assms(2,3) r(4) room by (auto simp: write_result_def)
  moreover have "in_transit st2 A = drop n (in_transit st A) @ take ?k data"
    using w(2) r(3,4) assms(2) by (simp add: min_def)
  ultimately show ?thesis using r(1) w(1) by metis
qed

theorem read_releases_writer_witness:
  "\<exists>r out st1 k st2. bio_read 2 True (int 3) sample_pair = Some (r, out, st1) \<and>
    bio_write 1 (Some [1, 2, 3]) (int (length [1, 2, 3 :: byte])) st1 = Some (int k, st2) \<and> 0 < k \<and>
    k \<le> length [1, 2, 3 :: byte] \<and> in_transit st2 1 = drop 3 (in_transit sample_pair 1) @ take k [1, 2, 3]"
proof (rule read_releases_writer)
  show "pair_ok sample_pair 1 2"
    by (rule new_pair_ok(3) [OF sample_pair_new]) (simp_all add: sample_alloc_def)
  show "\<not> shut sample_pair 1"
    by (simp add: sample_pair_def shut_def BIO_new_bio_pair_cases sample_alloc_def bio_make_pair_def
        bio_alloc_buf_def new_biop_def empty_bio_bio_def)
qed simp_all

end
