(* ===== verification/Const_Time.thy ===== *)
theory Const_Time
  imports Prelude
begin

text \<open>
  The constant-time helpers of \<open>BoringSSL-GRPC/crypto/internal.h\<close> on a 64-bit target: masks that
  are all ones or zero, computed without branches, and selection by a mask.
\<close>

section \<open>Definitions\<close>

type_synonym crypto_word_t = "64 word"

definition CONSTTIME_TRUE_W :: crypto_word_t where "CONSTTIME_TRUE_W = NOT 0"
definition CONSTTIME_FALSE_W :: crypto_word_t where "CONSTTIME_FALSE_W = 0"
definition CONSTTIME_TRUE_8 :: u8 where "CONSTTIME_TRUE_8 = 0xff"
definition CONSTTIME_FALSE_8 :: u8 where "CONSTTIME_FALSE_8 = 0"

definition constant_time_msb_w :: "crypto_word_t \<Rightarrow> crypto_word_t" where
  "constant_time_msb_w a = 0 - drop_bit (8 * 8 - 1) a"

definition constant_time_lt_w :: "crypto_word_t \<Rightarrow> crypto_word_t \<Rightarrow> crypto_word_t" where
  "constant_time_lt_w a b = constant_time_msb_w (a XOR ((a XOR b) OR ((a - b) XOR a)))"

definition constant_time_lt_8 :: "crypto_word_t \<Rightarrow> crypto_word_t \<Rightarrow> u8" where
  "constant_time_lt_8 a b = ucast (constant_time_lt_w a b)"

definition constant_time_ge_w :: "crypto_word_t \<Rightarrow> crypto_word_t \<Rightarrow> crypto_word_t" where
  "constant_time_ge_w a b = NOT (constant_time_lt_w a b)"

definition constant_time_ge_8 :: "crypto_word_t \<Rightarrow> crypto_word_t \<Rightarrow> u8" where
  "constant_time_ge_8 a b = ucast (constant_time_ge_w a b)"

definition constant_time_is_zero_w :: "crypto_word_t \<Rightarrow> crypto_word_t" where
  "constant_time_is_zero_w a = constant_time_msb_w (NOT a AND (a - 1))"

definition constant_time_is_zero_8 :: "crypto_word_t \<Rightarrow> u8" where
  "constant_time_is_zero_8 a = ucast (constant_time_is_zero_w a)"

definition constant_time_eq_w :: "crypto_word_t \<Rightarrow> crypto_word_t \<Rightarrow> crypto_word_t" where
  "constant_time_eq_w a b = constant_time_is_zero_w (a XOR b)"

definition constant_time_eq_8 :: "crypto_word_t \<Rightarrow> crypto_word_t \<Rightarrow> u8" where
  "constant_time_eq_8 a b = ucast (constant_time_eq_w a b)"

text \<open>An \<open>int\<close> is sign-extended when it becomes a \<open>crypto_word_t\<close>.\<close>

definition constant_time_eq_int :: "32 word \<Rightarrow> 32 word \<Rightarrow> crypto_word_t" where
  "constant_time_eq_int a b = constant_time_eq_w (scast a) (scast b)"

definition constant_time_eq_int_8 :: "32 word \<Rightarrow> 32 word \<Rightarrow> u8" where
  "constant_time_eq_int_8 a b = constant_time_eq_8 (scast a) (scast b)"

definition constant_time_select_w :: "crypto_word_t \<Rightarrow> crypto_word_t \<Rightarrow> crypto_word_t \<Rightarrow> crypto_word_t" where
  "constant_time_select_w msk a b = (msk AND a) OR (NOT msk AND b)"

definition constant_time_select_8 :: "u8 \<Rightarrow> u8 \<Rightarrow> u8 \<Rightarrow> u8" where
  "constant_time_select_8 msk a b = ucast (constant_time_select_w (ucast msk) (ucast a) (ucast b))"

definition constant_time_select_int :: "crypto_word_t \<Rightarrow> 32 word \<Rightarrow> 32 word \<Rightarrow> 32 word" where
  "constant_time_select_int msk a b = ucast (constant_time_select_w msk (scast a) (scast b))"

section \<open>What they compute\<close>

lemma unat64: "unat (w :: 64 word) < 2 ^ 64"
  using unsigned_less [of w, where ?'a = nat] by simp

lemma bit63: "bit (w :: 64 word) 63 \<longleftrightarrow> 2 ^ 63 \<le> unat w"
proof -
  have "bit w 63 \<longleftrightarrow> odd (unat w div 2 ^ 63)"
    using bit_unsigned_iff [where ?'a = nat, of w 63] by (simp add: bit_iff_odd)
  moreover have "unat w div 2 ^ 63 < 2" using unat64 [of w] by (simp add: less_mult_imp_div_less)
  ultimately show ?thesis by (cases "2 ^ 63 \<le> unat w") (auto simp: div_greater_zero_iff less_2_cases_iff)
qed

lemma msb_mask: "constant_time_msb_w a = (if bit a 63 then - 1 else 0)"
proof -
  have "drop_bit 63 a = (if bit a 63 then 1 else 0)"
  proof (rule bit_word_eqI)
    fix n show "bit (drop_bit 63 a) n = bit (if bit a 63 then 1 else 0 :: 64 word) n"
      by (cases n) (auto simp: bit_drop_bit_eq bit_1_iff dest: bit_imp_le_length)
  qed
  then show ?thesis by (simp add: constant_time_msb_w_def)
qed

lemma unat_minus: "unat (a - b :: 64 word) = (if unat b \<le> unat a then unat a - unat b else 2 ^ 64 + unat a - unat b)"
  using unat64 [of b] by (auto simp: unat_sub_if' simp del: unsigned_less)

lemma lt_mask [simp]: "constant_time_lt_w a b = (if a < b then - 1 else 0)"
proof -
  have "bit (a XOR ((a XOR b) OR ((a - b) XOR a))) 63 \<longleftrightarrow>
      bit a 63 \<noteq> (bit a 63 \<noteq> bit b 63 \<or> bit (a - b) 63 \<noteq> bit a 63)"
    by (simp add: bit_simps)
  also have "\<dots> \<longleftrightarrow> a < b"
    using unat64 [of a] unat64 [of b] unfolding bit63 unat_minus word_less_nat_alt
    by (cases "unat a < 2 ^ 63"; cases "unat b < 2 ^ 63") auto
  finally have "bit (a XOR ((a XOR b) OR ((a - b) XOR a))) 63 \<longleftrightarrow> a < b" .
  then show ?thesis by (simp add: constant_time_lt_w_def msb_mask)
qed

lemma is_zero_mask [simp]: "constant_time_is_zero_w a = (if a = 0 then - 1 else 0)"
proof -
  have "bit (NOT a AND (a - 1)) 63 \<longleftrightarrow> \<not> bit a 63 \<and> bit (a - 1) 63"
    by (simp add: bit_simps)
  also have "\<dots> \<longleftrightarrow> a = 0"
    using unat64 [of a] unat_eq_zero [of a] unfolding bit63 unat_minus by auto
  finally have "bit (NOT a AND (a - 1)) 63 \<longleftrightarrow> a = 0" .
  then show ?thesis by (simp add: constant_time_is_zero_w_def msb_mask)
qed

lemma eq_mask [simp]: "constant_time_eq_w a b = (if a = b then - 1 else 0)"
proof -
  have "a XOR b = 0 \<longleftrightarrow> a = b" by (auto simp: bit_eq_iff bit_xor_iff)
  then show ?thesis by (simp add: constant_time_eq_w_def)
qed

lemma ucast_minus_one: "(ucast (- 1 :: 64 word) :: 8 word) = - 1"
  by (rule bit_word_eqI) (simp add: bit_simps)

lemma masks_8 [simp]:
  "constant_time_lt_8 a b = (if a < b then - 1 else 0)"
  "constant_time_ge_8 a b = (if a < b then 0 else - 1)"
  "constant_time_is_zero_8 a = (if a = 0 then - 1 else 0)"
  "constant_time_eq_8 a b = (if a = b then - 1 else 0)"
  by (simp_all add: constant_time_lt_8_def constant_time_ge_8_def constant_time_ge_w_def
      constant_time_is_zero_8_def constant_time_eq_8_def ucast_minus_one)

lemma select_8 [simp]: "constant_time_select_8 (- 1) a b = a" "constant_time_select_8 0 a b = b"
  by (rule bit_word_eqI; simp add: constant_time_select_8_def constant_time_select_w_def bit_simps)+

lemma select_w [simp]: "constant_time_select_w (- 1) a b = a" "constant_time_select_w 0 a b = b"
  by (simp_all add: constant_time_select_w_def)

lemma ucast_scast_64 [simp]: "ucast (scast (a :: 32 word) :: 64 word) = a"
  by (rule bit_word_eqI) (auto simp: bit_simps)

lemma select_int [simp]: "constant_time_select_int (- 1) a b = a" "constant_time_select_int 0 a b = b"
  by (simp_all add: constant_time_select_int_def)

lemma scast_64_eq: "(scast (a :: 32 word) :: 64 word) = scast b \<longleftrightarrow> a = b"
  by (metis ucast_scast_64)

lemma minus_one_8: "(0xff :: 8 word) = - 1"
  by simp

text \<open>C37: The branch-free comparisons and selections of \<open>internal.h\<close> compute what they stand for,
  for all words: the comparisons give the mask of all ones or zero for \<open><\<close>, \<open>\<ge>\<close>, \<open>= 0\<close> and \<open>=\<close>,
  and a selection by such a mask gives the first or the second value.\<close>

theorem constant_time_correct:
  "constant_time_lt_w a b = (if a < b then CONSTTIME_TRUE_W else CONSTTIME_FALSE_W) \<and>
   constant_time_lt_8 a b = (if a < b then CONSTTIME_TRUE_8 else CONSTTIME_FALSE_8) \<and>
   constant_time_ge_w a b = (if a \<ge> b then CONSTTIME_TRUE_W else CONSTTIME_FALSE_W) \<and>
   constant_time_ge_8 a b = (if a \<ge> b then CONSTTIME_TRUE_8 else CONSTTIME_FALSE_8) \<and>
   constant_time_is_zero_w a = (if a = 0 then CONSTTIME_TRUE_W else CONSTTIME_FALSE_W) \<and>
   constant_time_is_zero_8 a = (if a = 0 then CONSTTIME_TRUE_8 else CONSTTIME_FALSE_8) \<and>
   constant_time_eq_w a b = (if a = b then CONSTTIME_TRUE_W else CONSTTIME_FALSE_W) \<and>
   constant_time_eq_8 a b = (if a = b then CONSTTIME_TRUE_8 else CONSTTIME_FALSE_8) \<and>
   constant_time_eq_int i j = (if i = j then CONSTTIME_TRUE_W else CONSTTIME_FALSE_W) \<and>
   constant_time_eq_int_8 i j = (if i = j then CONSTTIME_TRUE_8 else CONSTTIME_FALSE_8) \<and>
   constant_time_select_w (if c then CONSTTIME_TRUE_W else CONSTTIME_FALSE_W) a b = (if c then a else b) \<and>
   constant_time_select_8 (if c then CONSTTIME_TRUE_8 else CONSTTIME_FALSE_8) x y = (if c then x else y) \<and>
   constant_time_select_int (if c then CONSTTIME_TRUE_W else CONSTTIME_FALSE_W) i j = (if c then i else j)"
  by (intro conjI) (simp_all add: CONSTTIME_TRUE_W_def CONSTTIME_FALSE_W_def CONSTTIME_TRUE_8_def CONSTTIME_FALSE_8_def
      constant_time_ge_w_def constant_time_eq_int_def constant_time_eq_int_8_def scast_64_eq minus_one_8 flip: not_less)

end
