(* ===== verification/B64.thy ===== *)
theory B64
  imports Const_Time
begin

text \<open>
  Base64 (\<open>BoringSSL-GRPC/crypto/base64/base64.c\<close>), one shot and streaming.  Characters are
  bytes.  What a function writes at \<open>out\<close> is the list of the bytes there, the closing NUL
  included.  A computation is \<open>None\<close> where an assertion of the code fails.
\<close>

section \<open>Encoding\<close>

definition constant_time_lt_args_8 :: "u8 \<Rightarrow> u8 \<Rightarrow> u8" where
  "constant_time_lt_args_8 a b = ucast (constant_time_msb_w (ucast a - ucast b))"

definition constant_time_in_range_8 :: "u8 \<Rightarrow> u8 \<Rightarrow> u8 \<Rightarrow> u8" where
  "constant_time_in_range_8 a lo hi = constant_time_lt_args_8 (a - lo) (hi - lo + 1)"

text \<open>The characters are \<open>+\<close> 43, \<open>/\<close> 47, \<open>0\<close> 48, \<open>=\<close> 61, \<open>A\<close> 65 and \<open>a\<close> 97.\<close>

definition conv_bin2ascii :: "u8 \<Rightarrow> u8" where
  "conv_bin2ascii a0 =
     (let a = a0 AND 0x3f;
          ret = constant_time_select_8 (constant_time_eq_8 (ucast a) 62) 43 47;
          ret = constant_time_select_8 (constant_time_lt_args_8 a 62) (a - 52 + 48) ret;
          ret = constant_time_select_8 (constant_time_lt_args_8 a 52) (a - 26 + 97) ret
      in constant_time_select_8 (constant_time_lt_args_8 a 26) (a + 65) ret)"

definition EVP_EncodedLength :: "size_t \<Rightarrow> size_t option" where
  "EVP_EncodedLength len =
     (if len + 2 < len then None
      else
        let l = (len + 2) div 3 in
        if drop_bit 2 (push_bit 2 l) \<noteq> l then None
        else if push_bit 2 l + 1 < push_bit 2 l then None
        else Some (push_bit 2 l + 1))"

text \<open>\<open>EVP_EncodeBlock\<close>: the bytes written without the NUL, then the whole function.\<close>

fun encode_block_loop :: "byte list \<Rightarrow> byte list" where
  "encode_block_loop [] = []"
| "encode_block_loop [x] =
     (let l = push_bit 16 (ucast x) :: u32
      in [conv_bin2ascii (ucast (drop_bit 18 l)), conv_bin2ascii (ucast (drop_bit 12 l)), 61, 61])"
| "encode_block_loop [x, y] =
     (let l = push_bit 16 (ucast x) OR push_bit 8 (ucast y) :: u32
      in [conv_bin2ascii (ucast (drop_bit 18 l)), conv_bin2ascii (ucast (drop_bit 12 l)),
          conv_bin2ascii (ucast (drop_bit 6 l)), 61])"
| "encode_block_loop (x # y # z # src) =
     (let l = push_bit 16 (ucast x) OR push_bit 8 (ucast y) OR ucast z :: u32
      in conv_bin2ascii (ucast (drop_bit 18 l)) # conv_bin2ascii (ucast (drop_bit 12 l)) #
         conv_bin2ascii (ucast (drop_bit 6 l)) # conv_bin2ascii (ucast l) # encode_block_loop src)"

definition EVP_EncodeBlock :: "byte list \<Rightarrow> byte list \<times> nat" where
  "EVP_EncodeBlock src = (let out = encode_block_loop src in (out @ [0], length out))"

text \<open>The context; the first \<open>data_used\<close> of the 48 bytes of \<open>data\<close> are valid.\<close>

record EVP_ENCODE_CTX =
  data_used :: nat
  data :: "byte list"
  eof_seen :: bool
  error_encountered :: bool

definition EVP_EncodeInit :: EVP_ENCODE_CTX where
  "EVP_EncodeInit = \<lparr>data_used = 0, data = replicate 48 0, eof_seen = False, error_encountered = False\<rparr>"

text \<open>\<open>memcpy\<close> of a list to an index of an array.\<close>

definition put_at :: "nat \<Rightarrow> 'a list \<Rightarrow> 'a list \<Rightarrow> 'a list" where
  "put_at i xs arr = take i arr @ xs @ drop (i + length xs) arr"

definition INT_MAX :: int where "INT_MAX = 2 ^ 31 - 1"

text \<open>
  A full line at \<open>out\<close>: its text and a newline, with a NUL that the next one overwrites.  The loop
  of \<open>EVP_EncodeUpdate\<close> over full lines gives the text, the rest of the input and the count,
  or nothing when the count overflows.
\<close>

definition encode_line :: "byte list \<Rightarrow> byte list \<Rightarrow> byte list \<times> nat" where
  "encode_line out src =
     (let (txt, encoded) = EVP_EncodeBlock src in (out @ take encoded txt @ [10], encoded))"

function encode_lines :: "byte list \<Rightarrow> byte list \<Rightarrow> size_t \<Rightarrow> byte list \<times> (byte list \<times> size_t) option" where
  "encode_lines out src tot =
     (if 48 \<le> length src
      then
        let (out', encoded) = encode_line out (take 48 src) in
        if tot + of_nat encoded + 1 < tot then (out', None)
        else encode_lines out' (drop 48 src) (tot + of_nat encoded + 1)
      else (out, Some (src, tot)))"
  by pat_completeness auto
termination by (relation "measure (\<lambda>(out, src, tot). length src)") auto

declare encode_lines.simps [simp del]

text \<open>The result is what was written, \<open>*out_len\<close> and the context.\<close>

definition EVP_EncodeUpdate ::
  "byte list \<Rightarrow> EVP_ENCODE_CTX \<Rightarrow> (byte list \<times> int \<times> EVP_ENCODE_CTX) option" where
  "EVP_EncodeUpdate src ctx =
     (if src = [] then Some ([], 0, ctx)
      else if \<not> data_used ctx < 48 then None
      else if 48 - data_used ctx > length src
      then Some ([], 0, ctx\<lparr>data := put_at (data_used ctx) src (data ctx), data_used := data_used ctx + length src\<rparr>)
      else
        let (out1, src1, tot1, ctx1) =
          (if data_used ctx \<noteq> 0
           then
             let todo = 48 - data_used ctx;
                 d = put_at (data_used ctx) (take todo src) (data ctx);
                 (out1, encoded) = encode_line [] d
             in (out1, drop todo src, of_nat encoded + 1, ctx\<lparr>data := d, data_used := 0\<rparr>)
           else ([], src, 0 :: size_t, ctx));
          (out2, r) = encode_lines out1 src1 tot1
        in case r of
             None \<Rightarrow> Some (out2 @ [0], 0, ctx1)
           | Some (src2, tot2) \<Rightarrow>
               let ctx2 = ctx1\<lparr>data := (if src2 \<noteq> [] then put_at 0 src2 (data ctx1) else data ctx1), data_used := length src2\<rparr>
               in Some (out2 @ [0], if INT_MAX < uint tot2 then 0 else uint tot2, ctx2))"

definition EVP_EncodeFinal :: "EVP_ENCODE_CTX \<Rightarrow> (byte list \<times> int \<times> EVP_ENCODE_CTX) option" where
  "EVP_EncodeFinal ctx =
     (if data_used ctx = 0 then Some ([], 0, ctx)
      else
        let (out, encoded) = encode_line [] (take (data_used ctx) (data ctx))
        in if \<not> int (encoded + 1) \<le> INT_MAX then None
           else Some (out @ [0], int (encoded + 1), ctx\<lparr>data_used := 0\<rparr>))"

section \<open>Decoding\<close>

definition EVP_DecodedLength :: "nat \<Rightarrow> nat option" where
  "EVP_DecodedLength len = (if len mod 4 \<noteq> 0 then None else Some (len div 4 * 3))"

definition EVP_DecodeInit :: EVP_ENCODE_CTX where
  "EVP_DecodeInit = \<lparr>data_used = 0, data = replicate 48 0, eof_seen = False, error_encountered = False\<rparr>"

definition base64_ascii_to_bin :: "u8 \<Rightarrow> u8" where
  "base64_ascii_to_bin a =
     (let is_upper = constant_time_in_range_8 a 65 90;
          is_lower = constant_time_in_range_8 a 97 122;
          is_digit = constant_time_in_range_8 a 48 57;
          is_plus = constant_time_eq_8 (ucast a) 43;
          is_slash = constant_time_eq_8 (ucast a) 47;
          is_equals = constant_time_eq_8 (ucast a) 61;
          ret = constant_time_select_8 is_upper (a - 65) 0xff;
          ret = constant_time_select_8 is_lower (a - 97 + 26) ret;
          ret = constant_time_select_8 is_digit (a - 48 + 52) ret;
          ret = constant_time_select_8 is_plus 62 ret;
          ret = constant_time_select_8 is_slash 63 ret
      in constant_time_select_8 is_equals 0 ret)"

text \<open>The bytes that a quad stands for; their number is \<open>*out_num_bytes\<close>.\<close>

definition base64_decode_quad :: "u8 \<Rightarrow> u8 \<Rightarrow> u8 \<Rightarrow> u8 \<Rightarrow> byte list option" where
  "base64_decode_quad i0 i1 i2 i3 =
     (let a = base64_ascii_to_bin i0; b = base64_ascii_to_bin i1;
          c = base64_ascii_to_bin i2; d = base64_ascii_to_bin i3
      in if a = 0xff \<or> b = 0xff \<or> c = 0xff \<or> d = 0xff then None
         else
           let v = push_bit 18 (ucast a) OR push_bit 12 (ucast b) OR push_bit 6 (ucast c) OR ucast d :: u32;
               padding_pattern = push_bit 3 (of_bool (i0 = 61)) OR push_bit 2 (of_bool (i1 = 61)) OR
                 push_bit 1 (of_bool (i2 = 61)) OR of_bool (i3 = 61) :: u32
           in if padding_pattern = 0 then Some [ucast (drop_bit 16 v), ucast (drop_bit 8 v), ucast v]
              else if padding_pattern = 1 then Some [ucast (drop_bit 16 v), ucast (drop_bit 8 v)]
              else if padding_pattern = 3 then Some [ucast (drop_bit 16 v)]
              else None)"

text \<open>The loop of \<open>EVP_DecodeUpdate\<close>: what was written so far and the context; the flag is false when it returned -1.\<close>

definition is_space8 :: "u8 \<Rightarrow> bool" where
  "is_space8 c \<longleftrightarrow> c = 32 \<or> c = 9 \<or> c = 13 \<or> c = 10"

primrec decode_update_loop ::
  "byte list \<Rightarrow> byte list \<Rightarrow> EVP_ENCODE_CTX \<Rightarrow> bool \<times> byte list \<times> EVP_ENCODE_CTX" where
  "decode_update_loop [] out ctx = (True, out, ctx)"
| "decode_update_loop (c # src) out ctx =
     (if is_space8 c then decode_update_loop src out ctx
      else if eof_seen ctx then (False, out, ctx\<lparr>error_encountered := True\<rparr>)
      else
        let d = (data ctx)[data_used ctx := c];
            ctx1 = ctx\<lparr>data := d, data_used := data_used ctx + 1\<rparr>
        in if data_used ctx1 = 4
           then
             (case base64_decode_quad (d ! 0) (d ! 1) (d ! 2) (d ! 3) of
                None \<Rightarrow> (False, out, ctx1\<lparr>error_encountered := True\<rparr>)
              | Some bs \<Rightarrow>
                  let ctx2 = ctx1\<lparr>data_used := 0\<rparr>;
                      ctx3 = (if length bs < 3 then ctx2\<lparr>eof_seen := True\<rparr> else ctx2)
                  in decode_update_loop src (out @ bs) ctx3)
           else decode_update_loop src out ctx1)"

text \<open>The result is the return value, what was written, \<open>*out_len\<close> and the context.\<close>

definition EVP_DecodeUpdate ::
  "byte list \<Rightarrow> EVP_ENCODE_CTX \<Rightarrow> int \<times> byte list \<times> int \<times> EVP_ENCODE_CTX" where
  "EVP_DecodeUpdate src ctx =
     (if error_encountered ctx then (- 1, [], 0, ctx)
      else
        case decode_update_loop src [] ctx of
          (False, out, ctx') \<Rightarrow> (- 1, out, 0, ctx')
        | (True, out, ctx') \<Rightarrow>
            if int (length out) > INT_MAX then (- 1, out, 0, ctx'\<lparr>error_encountered := True\<rparr>)
            else (if eof_seen ctx' then 0 else 1, out, int (length out), ctx'))"

definition EVP_DecodeFinal :: "EVP_ENCODE_CTX \<Rightarrow> int" where
  "EVP_DecodeFinal ctx = (if error_encountered ctx \<or> data_used ctx \<noteq> 0 then - 1 else 1)"

fun decode_quads :: "byte list \<Rightarrow> byte list option" where
  "decode_quads [] = Some []"
| "decode_quads (a # b # c # d # src) =
     (case base64_decode_quad a b c d of
        None \<Rightarrow> None
      | Some bs \<Rightarrow>
          if length bs \<noteq> 3 \<and> src \<noteq> [] then None
          else map_option (\<lambda>out. bs @ out) (decode_quads src))"
| "decode_quads _ = None"

definition EVP_DecodeBase64 :: "nat \<Rightarrow> byte list \<Rightarrow> byte list option" where
  "EVP_DecodeBase64 max_out src =
     (if length src mod 4 \<noteq> 0 then None
      else
        case EVP_DecodedLength (length src) of
          None \<Rightarrow> None
        | Some max_len \<Rightarrow> if max_out < max_len then None else decode_quads src)"

text \<open>
  The two trimming loops, and the padding with NULs that the last loop puts back.
\<close>

definition trim_block :: "byte list \<Rightarrow> byte list" where
  "trim_block src =
     rev (dropWhile is_space8 (rev (dropWhile (\<lambda>c. c = 32 \<or> c = 9) src)))"

function pad_to_3 :: "byte list \<Rightarrow> byte list" where
  "pad_to_3 dst = (if length dst mod 3 \<noteq> 0 then pad_to_3 (dst @ [0]) else dst)"
  by pat_completeness auto
termination by (relation "measure (\<lambda>dst. (3 - length dst mod 3) mod 3)") (auto simp: mod_Suc)

declare pad_to_3.simps [simp del]

text \<open>The bytes at \<open>dst\<close> and the return value; the bytes are only read when it is not -1.\<close>

definition EVP_DecodeBlock :: "byte list \<Rightarrow> byte list \<times> int" where
  "EVP_DecodeBlock src =
     (let src1 = trim_block src in
      case EVP_DecodedLength (length src1) of
        None \<Rightarrow> ([], - 1)
      | Some dst_len \<Rightarrow>
          if int dst_len > INT_MAX then ([], - 1)
          else
            case EVP_DecodeBase64 dst_len src1 of
              None \<Rightarrow> ([], - 1)
            | Some dst \<Rightarrow> let d = pad_to_3 dst in (d, int (length d)))"

end
