(* ===== verification/B64_Spec.thy ===== *)
theory B64_Spec
  imports B64
begin

text \<open>
  Base64: the quads of the decoder invert those of the encoder, the streaming encoder writes the
  same lines however its input is cut, and the streaming decoder accepts what the one-shot
  decoder accepts on the text without white space.
\<close>

section \<open>Characters\<close>

lemma unat_ucast_8_64 [simp]: "unat (ucast (a :: 8 word) :: 64 word) = unat a"
  using unsigned_less [of a, where ?'a = nat] by (simp add: unsigned_ucast_eq take_bit_nat_eq_self)

lemma lt_args_mask [simp]: "constant_time_lt_args_8 a b = (if a < b then - 1 else 0)"
proof -
  have "bit (ucast a - ucast b :: 64 word) 63 \<longleftrightarrow> a < b"
    using unsigned_less [of a, where ?'a = nat] unsigned_less [of b, where ?'a = nat]
    unfolding bit63 unat_minus word_less_nat_alt by auto
  then show ?thesis by (simp add: constant_time_lt_args_8_def msb_mask ucast_minus_one)
qed

lemma conv_if:
  "conv_bin2ascii a0 = (let a = a0 AND 0x3f in
     if a < 26 then a + 65 else if a < 52 then a - 26 + 97 else if a < 62 then a - 52 + 48
     else if (ucast a :: 64 word) = 62 then 43 else 47)"
  by (simp add: conv_bin2ascii_def Let_def)

lemma ascii_if:
  "base64_ascii_to_bin a =
     (if (ucast a :: 64 word) = 61 then 0 else if (ucast a :: 64 word) = 47 then 63
      else if (ucast a :: 64 word) = 43 then 62 else if a - 48 < 10 then a - 48 + 52
      else if a - 97 < 26 then a - 97 + 26 else if a - 65 < 26 then a - 65 else 0xff)"
  by (simp add: base64_ascii_to_bin_def constant_time_in_range_8_def Let_def)

lemma conv_table:
  "\<forall>n \<in> set [0..<64]. base64_ascii_to_bin (conv_bin2ascii (of_nat n)) = of_nat n \<and>
     conv_bin2ascii (of_nat n) \<noteq> 61 \<and> \<not> is_space8 (conv_bin2ascii (of_nat n))"
  unfolding conv_if ascii_if is_space8_def by code_simp

lemma and_63_less: "unat ((a :: 8 word) AND 0x3f) < 64"
proof -
  have "a AND 0x3f \<le> 0x3f" by (rule word_and_le1)
  then show ?thesis by (simp add: word_le_nat_alt)
qed

lemma conv_facts [simp]:
  "base64_ascii_to_bin (conv_bin2ascii a) = a AND 0x3f"
  "conv_bin2ascii a \<noteq> 61"
  "\<not> is_space8 (conv_bin2ascii a)"
proof -
  define n where "n = unat (a AND 0x3f)"
  have a: "of_nat n = a AND 0x3f" by (simp add: n_def)
  have "conv_bin2ascii a = conv_bin2ascii (a AND 0x3f)" by (simp add: conv_bin2ascii_def and.assoc)
  moreover have "n \<in> set [0..<64]" using and_63_less [of a] by (simp add: n_def)
  note conv_table [rule_format, OF this]
  ultimately show "base64_ascii_to_bin (conv_bin2ascii a) = a AND 0x3f"
    "conv_bin2ascii a \<noteq> 61" "\<not> is_space8 (conv_bin2ascii a)"
    unfolding a by simp_all
qed

lemma and_63_valid: "a AND 0x3f \<noteq> (0xff :: 8 word)"
  using and_63_less [of a] by auto

lemma equals_bin: "base64_ascii_to_bin 61 = 0"
  by (simp add: ascii_if)

lemma not_space_equals: "\<not> is_space8 61"
  by (simp add: is_space8_def)

section \<open>Quads\<close>

lemma bit_63_8: "bit (0x3f :: 8 word) n \<longleftrightarrow> n < 6"
proof -
  have "0x3f = (mask 6 :: 8 word)" by (simp add: mask_eq_exp_minus_1)
  show ?thesis unfolding \<open>0x3f = mask 6\<close> bit_mask_iff by auto
qed

lemma bit_8_high [simp]: "8 \<le> n \<Longrightarrow> \<not> bit (y :: 8 word) n"
  using bit_imp_le_length [of y n] by auto

lemma padding_patterns:
  "push_bit 3 (of_bool False) OR push_bit 2 (of_bool False) OR push_bit 1 (of_bool False) OR of_bool False = (0 :: u32)"
  "push_bit 3 (of_bool False) OR push_bit 2 (of_bool False) OR push_bit 1 (of_bool False) OR of_bool True = (1 :: u32)"
  "push_bit 3 (of_bool False) OR push_bit 2 (of_bool False) OR push_bit 1 (of_bool True) OR of_bool True = (3 :: u32)"
  by simp_all

lemma bits8: "(\<And>n. n < 8 \<Longrightarrow> bit (a :: 8 word) n = bit b n) \<Longrightarrow> a = b"
  by (rule bit_word_eqI) simp

lemma less_8_cases: "n < 8 \<Longrightarrow> n = 0 \<or> n = 1 \<or> n = 2 \<or> n = 3 \<or> n = 4 \<or> n = 5 \<or> n = 6 \<or> n = (7 :: nat)"
  by auto

lemma quad_bytes:
  fixes l :: u32 and a b c d :: u8
  assumes "a = ucast (drop_bit 18 l) AND 0x3f" "b = ucast (drop_bit 12 l) AND 0x3f"
    "c = ucast (drop_bit 6 l) AND 0x3f" "d = (ucast l :: u8) AND 0x3f"
  shows "ucast (drop_bit 16 (push_bit 18 (ucast a) OR push_bit 12 (ucast b) OR push_bit 6 (ucast c) OR ucast d :: u32)) = (ucast (drop_bit 16 l) :: u8)"
    and "ucast (drop_bit 8 (push_bit 18 (ucast a) OR push_bit 12 (ucast b) OR push_bit 6 (ucast c) OR ucast d :: u32)) = (ucast (drop_bit 8 l) :: u8)"
    and "ucast (push_bit 18 (ucast a) OR push_bit 12 (ucast b) OR push_bit 6 (ucast c) OR ucast d :: u32) = (ucast l :: u8)"
  unfolding assms
  by (rule bits8; drule less_8_cases; elim disjE; simp add: bit_simps bit_63_8)+

lemma split_bytes:
  "(ucast (drop_bit 16 (push_bit 16 (ucast x) OR push_bit 8 (ucast y) OR ucast z :: u32)) :: u8) = x"
  "(ucast (drop_bit 8 (push_bit 16 (ucast x) OR push_bit 8 (ucast y) OR ucast z :: u32)) :: u8) = y"
  "(ucast (push_bit 16 (ucast x) OR push_bit 8 (ucast y) OR ucast z :: u32) :: u8) = z"
  by (rule bits8; drule less_8_cases; elim disjE; simp add: bit_simps)+

lemma quad_3:
  fixes l :: u32
  shows "base64_decode_quad (conv_bin2ascii (ucast (drop_bit 18 l))) (conv_bin2ascii (ucast (drop_bit 12 l)))
     (conv_bin2ascii (ucast (drop_bit 6 l))) (conv_bin2ascii (ucast l)) =
   Some [ucast (drop_bit 16 l), ucast (drop_bit 8 l), ucast l]"
  unfolding base64_decode_quad_def Let_def conv_facts
  by (simp only: and_63_valid conv_facts simp_thms if_False padding_patterns if_True refl quad_bytes [OF refl refl refl refl])

lemma quad_2:
  fixes l :: u32
  assumes "(ucast l :: u8) AND 0x3f = 0"
  shows "base64_decode_quad (conv_bin2ascii (ucast (drop_bit 18 l))) (conv_bin2ascii (ucast (drop_bit 12 l)))
     (conv_bin2ascii (ucast (drop_bit 6 l))) 61 = Some [ucast (drop_bit 16 l), ucast (drop_bit 8 l)]"
proof -
  note q = quad_bytes [OF refl refl refl assms [symmetric]]
  have n: "(0 :: u8) \<noteq> 0xff" "(1 :: u32) \<noteq> 0" by simp_all
  show ?thesis
    unfolding base64_decode_quad_def Let_def conv_facts equals_bin
    by (simp only: and_63_valid conv_facts n simp_thms if_False padding_patterns if_True refl q)
qed

lemma quad_1:
  fixes l :: u32
  assumes "(ucast l :: u8) AND 0x3f = 0" "(ucast (drop_bit 6 l) :: u8) AND 0x3f = 0"
  shows "base64_decode_quad (conv_bin2ascii (ucast (drop_bit 18 l))) (conv_bin2ascii (ucast (drop_bit 12 l)))
     61 61 = Some [ucast (drop_bit 16 l)]"
proof -
  note q = quad_bytes [OF refl refl assms(2) [symmetric] assms(1) [symmetric]]
  have n: "(0 :: u8) \<noteq> 0xff" "(3 :: u32) \<noteq> 0" "(3 :: u32) \<noteq> 1" by simp_all
  show ?thesis
    unfolding base64_decode_quad_def Let_def conv_facts equals_bin
    by (simp only: and_63_valid conv_facts n simp_thms if_False padding_patterns if_True refl q)
qed

lemma low_zero:
  "(ucast (push_bit 16 (ucast (x :: u8)) OR push_bit 8 (ucast (y :: u8)) :: u32) :: u8) AND 0x3f = 0"
  "(ucast (push_bit 16 (ucast (x :: u8)) :: u32) :: u8) AND 0x3f = 0"
  "(ucast (drop_bit 6 (push_bit 16 (ucast (x :: u8)) :: u32)) :: u8) AND 0x3f = 0"
  by (rule bits8; drule less_8_cases; elim disjE; simp add: bit_simps bit_63_8)+

lemma encode_block_loop_Nil [simp]: "encode_block_loop bs = [] \<longleftrightarrow> bs = []"
  by (cases bs rule: encode_block_loop.cases) (simp_all add: Let_def)

lemma split_bytes_2:
  "(ucast (drop_bit 16 (push_bit 16 (ucast (x :: u8)) OR push_bit 8 (ucast (y :: u8)) :: u32)) :: u8) = x"
  "(ucast (drop_bit 8 (push_bit 16 (ucast x) OR push_bit 8 (ucast y) :: u32)) :: u8) = y"
  "(ucast (drop_bit 16 (push_bit 16 (ucast x) :: u32)) :: u8) = x"
  using split_bytes [of x y 0] split_bytes [of x 0 0] by simp_all

lemma decode_encode_quads: "decode_quads (encode_block_loop bs) = Some bs"
proof (induction bs rule: encode_block_loop.induct)
  case (2 x)
  show ?case
    unfolding encode_block_loop.simps Let_def decode_quads.simps quad_1 [OF low_zero(2,3)] split_bytes_2 by simp
next
  case (3 x y)
  show ?case
    unfolding encode_block_loop.simps Let_def decode_quads.simps quad_2 [OF low_zero(1)] split_bytes_2 by simp
next
  case (4 x y z src)
  then show ?case
    unfolding encode_block_loop.simps Let_def decode_quads.simps quad_3 unfolding split_bytes by simp
qed simp

lemma div_3_Suc: "(Suc (Suc (Suc n)) + 2) div 3 = Suc ((n + 2) div 3)"
  by presburger

lemma length_encode_block_loop: "length (encode_block_loop bs) = 4 * ((length bs + 2) div 3)"
proof (induction bs rule: encode_block_loop.induct)
  case (4 x y z src)
  then show ?case
    unfolding encode_block_loop.simps Let_def list.size(4) add_Suc_right add_0_right add_Suc div_3_Suc [unfolded add_Suc]
    by (simp only: mult_Suc_right)
qed (simp_all add: Let_def)

lemma encode_block_loop_append:
  "3 dvd length a \<Longrightarrow> encode_block_loop (a @ b) = encode_block_loop a @ encode_block_loop b"
proof (induction a rule: encode_block_loop.induct)
  case (4 x y z a)
  from 4(2) have "3 dvd length a" by (simp add: dvd_def) presburger
  with 4 show ?case by (simp add: Let_def)
qed (simp_all add: dvd_def; presburger)+

lemma encode_block_no_space: "c \<in> set (encode_block_loop bs) \<Longrightarrow> \<not> is_space8 c"
  by (induction bs rule: encode_block_loop.induct) (auto simp: Let_def not_space_equals)

section \<open>The streaming encoder\<close>

text \<open>The reference: the text in lines of 48 bytes of input.\<close>

function b64_text :: "byte list \<Rightarrow> byte list" where
  "b64_text bs = (if bs = [] then [] else encode_block_loop (take 48 bs) @ [10] @ b64_text (drop 48 bs))"
  by pat_completeness auto
termination by (relation "measure length") auto

declare b64_text.simps [simp del]

lemma b64_text_Nil [simp]: "b64_text [] = []"
  by (subst b64_text.simps) simp

lemma b64_text_line: "0 < length a \<Longrightarrow> length a = 48 \<or> b = [] \<and> length a \<le> 48 \<Longrightarrow>
    b64_text (a @ b) = encode_block_loop a @ [10] @ b64_text b"
  by (subst b64_text.simps) auto

text \<open>The full lines of an input, and what is left of it.\<close>

definition full :: "byte list \<Rightarrow> byte list" where
  "full p = take (48 * (length p div 48)) p"

definition rest :: "byte list \<Rightarrow> byte list" where
  "rest p = drop (48 * (length p div 48)) p"

lemma full_rest: "full p @ rest p = p"
  by (simp add: full_def rest_def)

lemma rest_less: "length (rest p) < 48"
  by (simp add: rest_def minus_mult_div_eq_mod)

lemma full_rest_short [simp]: "length p < 48 \<Longrightarrow> full p = []" "length p < 48 \<Longrightarrow> rest p = p"
  by (simp_all add: full_def rest_def)

lemma div_48_line: "(48 + n) div 48 = Suc (n div 48)"
  by presburger

lemma full_rest_line:
  assumes "length a = 48"
  shows "full (a @ b) = a @ full b" "rest (a @ b) = rest b"
proof -
  have "48 * (length (a @ b) div 48) = 48 + 48 * (length b div 48)"
    using assms by (simp add: div_48_line)
  then show "full (a @ b) = a @ full b" "rest (a @ b) = rest b"
    using assms by (simp_all add: full_def rest_def)
qed

text \<open>Induction on the lines of a list.\<close>

lemma line_induct [case_names short line]:
  assumes "\<And>p :: byte list. length p < 48 \<Longrightarrow> P p" and "\<And>a p. length a = 48 \<Longrightarrow> P p \<Longrightarrow> P (a @ p)"
  shows "P p"
proof (induction p rule: length_induct)
  case (1 p)
  show ?case
  proof (cases "length p < 48")
    case False
    then have "P (take 48 p @ drop 48 p)" by (intro assms(2)) (use 1 in auto)
    then show ?thesis by simp
  qed (rule assms(1))
qed

lemma text_full: "b64_text (full p @ q) = b64_text (full p) @ b64_text q"
proof (induction p rule: line_induct)
  case (line a p)
  then show ?case by (simp add: full_rest_line b64_text_line)
qed simp

lemma full_append: "full (p @ q) = full p @ full (rest p @ q)" "rest (p @ q) = rest (rest p @ q)"
proof (induction p rule: line_induct)
  case (line a p)
  { case 1 with line show ?case by (simp add: full_rest_line) }
  { case 2 with line show ?case by (simp add: full_rest_line) }
qed simp_all

lemma length_text_full: "length (b64_text (full p)) = 65 * (length p div 48)"
proof (induction p rule: line_induct)
  case (line a p)
  then show ?case by (simp add: full_rest_line b64_text_line length_encode_block_loop div_48_line)
qed simp

lemma encode_line_eq: "encode_line out src = (out @ encode_block_loop src @ [10], length (encode_block_loop src))"
  by (simp add: encode_line_def EVP_EncodeBlock_def Let_def)

lemma encode_lines_eq:
  assumes "unat tot + 65 * (length src div 48) < 2 ^ 64"
  shows "encode_lines out src tot =
    (out @ b64_text (full src), Some (rest src, tot + of_nat (65 * (length src div 48))))"
  using assms
proof (induction src arbitrary: out tot rule: line_induct)
  case (short p)
  then show ?case by (subst encode_lines.simps) simp
next
  case (line a p)
  have d: "length (a @ p) div 48 = Suc (length p div 48)" using line(1) by (simp add: div_48_line)
  have e: "length (encode_block_loop a) = 64" using line(1) by (simp add: length_encode_block_loop)
  have u: "unat (tot + 65) = unat tot + 65" using line(3) unfolding d by (subst unat_add_lem [THEN iffD1]) simp_all
  then have "\<not> tot + 65 < tot" by (simp add: word_less_nat_alt)
  moreover have "encode_lines (out @ encode_block_loop a @ [10]) p (tot + 65) =
      (out @ b64_text (full (a @ p)), Some (rest (a @ p), tot + of_nat (65 * (length (a @ p) div 48))))"
    using line(3) u line(1) unfolding d
    by (subst line(2)) (simp_all add: full_rest_line b64_text_line)
  ultimately show ?case
    using line(1) by (subst encode_lines.simps) (simp add: encode_line_eq e Let_def add.assoc)
qed

text \<open>What the context holds after the input \<open>p\<close>.\<close>

definition holds :: "byte list \<Rightarrow> EVP_ENCODE_CTX \<Rightarrow> bool" where
  "holds p ctx \<longleftrightarrow> length (data ctx) = 48 \<and> data_used ctx = length (rest p) \<and> take (data_used ctx) (data ctx) = rest p"

lemma holds_init: "holds [] EVP_EncodeInit"
  by (simp add: holds_def EVP_EncodeInit_def rest_def)

lemma length_put_at: "i + length xs \<le> length arr \<Longrightarrow> length (put_at i xs arr) = length arr"
  by (simp add: put_at_def)

lemma take_put_at: "i + length xs \<le> length arr \<Longrightarrow> take (i + length xs) (put_at i xs arr) = take i arr @ xs"
  by (simp add: put_at_def)

definition keep_rest :: "byte list \<Rightarrow> byte list \<Rightarrow> EVP_ENCODE_CTX \<Rightarrow> EVP_ENCODE_CTX" where
  "keep_rest r d ctx = ctx\<lparr>data := (if r \<noteq> [] then put_at 0 r d else d), data_used := length r\<rparr>"

lemma holds_keep_rest: "rest p = rest q \<Longrightarrow> length d = 48 \<Longrightarrow> holds p (keep_rest (rest q) d ctx)"
  using rest_less [of q] by (simp add: holds_def keep_rest_def length_put_at) (simp add: put_at_def)

lemma small_count: "n < 2 ^ 31 \<Longrightarrow> uint (of_nat n :: size_t) = int n \<and> \<not> INT_MAX < int n"
  by (simp add: INT_MAX_def uint_nat unat_of_nat)

lemma length_text_full_less: "length p < 2 ^ 30 + 48 \<Longrightarrow> length (b64_text (full p)) < 2 ^ 31"
  unfolding length_text_full by simp

lemma update_at_start:
  assumes "data_used ctx = 0" "48 \<le> length src" "length src < 2 ^ 30"
  shows "EVP_EncodeUpdate src ctx =
    Some (b64_text (full src) @ [0], int (length (b64_text (full src))), keep_rest (rest src) (data ctx) ctx)"
proof -
  have l: "encode_lines [] src 0 = (b64_text (full src), Some (rest src, of_nat (length (b64_text (full src)))))"
    using encode_lines_eq [of 0 src "[]"] assms by (simp add: length_text_full)
  have "src \<noteq> []" "\<not> 48 - data_used ctx > length src" using assms by auto
  then show ?thesis
    using assms(1) small_count [OF length_text_full_less, of src] assms(3)
    unfolding EVP_EncodeUpdate_def by (simp add: l keep_rest_def)
qed

lemma update_at_line:
  assumes u: "data_used ctx \<noteq> 0" "data_used ctx < 48" and d: "length (data ctx) = 48"
    and src: "48 - data_used ctx \<le> length src" "length src < 2 ^ 30"
  defines "line \<equiv> take (data_used ctx) (data ctx) @ take (48 - data_used ctx) src"
    and "src' \<equiv> drop (48 - data_used ctx) src"
  defines "out \<equiv> encode_block_loop line @ [10] @ b64_text (full src')"
  shows "EVP_EncodeUpdate src ctx = Some (out @ [0], int (length out), keep_rest (rest src') line ctx)"
proof -
  have line: "put_at (data_used ctx) (take (48 - data_used ctx) src) (data ctx) = line" "length line = 48"
    using u d src(1) by (simp_all add: put_at_def line_def)
  have e: "length (encode_block_loop line) = 64" using line(2) by (simp add: length_encode_block_loop)
  have len: "length out = 65 + 65 * (length src' div 48)" using e by (simp add: out_def length_text_full)
  have src': "length src' < 2 ^ 30" using src(2) by (simp add: src'_def)
  have l: "encode_lines (encode_block_loop line @ [10]) src' 65 = (out, Some (rest src', of_nat (length out)))"
    using encode_lines_eq [of 65 src' "encode_block_loop line @ [10]"] src' by (simp add: len) (simp add: out_def)
  have "src \<noteq> []" "\<not> 48 - data_used ctx > length src" using u src by auto
  moreover have "length out < 2 ^ 31" using src' unfolding len by simp
  note small_count [OF this]
  moreover have "(of_nat 64 + 1 :: size_t) = 65" by simp
  ultimately show ?thesis
    using u(1) u(2) unfolding EVP_EncodeUpdate_def Let_def line(1) encode_line_eq append_Nil e src'_def [symmetric]
    by (simp only: if_True if_False simp_thms l prod.case option.case keep_rest_def EVP_ENCODE_CTX.simps) simp
qed

lemma update_ok:
  assumes p: "holds p ctx" and len: "length src < 2 ^ 30"
  obtains out n ctx' where "EVP_EncodeUpdate src ctx = Some (out, n, ctx')" "holds (p @ src) ctx'"
    "take (nat n) out = b64_text (full (rest p @ src))"
proof -
  let ?u = "data_used ctx"
  have used: "?u = length (rest p)" and d: "length (data ctx) = 48" "take ?u (data ctx) = rest p"
    using p by (auto simp: holds_def)
  have u: "?u < 48" using used rest_less by simp
  consider (nil) "src = []" | (short) "src \<noteq> []" "48 - ?u > length src"
    | (start) "48 - ?u \<le> length src" "?u = 0" | (line) "48 - ?u \<le> length src" "?u \<noteq> 0"
    by (metis not_le)
  then show thesis
  proof cases
    case nil
    show thesis by (rule that [of "[]" 0 ctx]) (use nil p rest_less [of p] in \<open>simp_all add: EVP_EncodeUpdate_def\<close>)
  next
    case short
    let ?ctx = "ctx\<lparr>data := put_at ?u src (data ctx), data_used := ?u + length src\<rparr>"
    have le: "?u + length src \<le> length (data ctx)" using short(2) d(1) by simp
    have l: "length (rest p @ src) < 48" using short(2) used by simp
    have r: "rest (p @ src) = rest p @ src" "full (rest p @ src) = []"
      unfolding full_append(2) [of p src] by (simp_all only: full_rest_short l)
    have "holds (p @ src) ?ctx"
      unfolding holds_def r using length_put_at [OF le] take_put_at [OF le] d by (simp add: used [symmetric])
    moreover have "EVP_EncodeUpdate src ctx = Some ([], 0, ?ctx)"
      unfolding EVP_EncodeUpdate_def using short u by (simp only: if_True if_False simp_thms)
    ultimately show thesis by (intro that [of "[]" 0 ?ctx]) (simp_all only: r, simp)
  next
    case start
    then have "rest p = []" using used by simp
    then have "holds (p @ src) (keep_rest (rest src) (data ctx) ctx)"
      by (intro holds_keep_rest d(1)) (simp add: full_append(2) [of p])
    then show thesis
      by (rule that [OF update_at_start, rotated 3]) (use start \<open>rest p = []\<close> len in simp_all)
  next
    case line
    let ?line = "take ?u (data ctx) @ take (48 - ?u) src" and ?src = "drop (48 - ?u) src"
    have l: "length ?line = 48" "rest p @ src = ?line @ ?src"
      using line(1) u d used by simp_all
    have "holds (p @ src) (keep_rest (rest ?src) ?line ctx)"
      by (rule holds_keep_rest) (unfold full_append(2) [of p src] l(2), rule full_rest_line(2) [OF l(1)], rule l(1))
    moreover have "b64_text (full (rest p @ src)) = encode_block_loop ?line @ [10] @ b64_text (full ?src)"
      unfolding l(2) full_rest_line(1) [OF l(1)] by (rule b64_text_line) (unfold l(1), simp_all)
    ultimately show thesis
      by (intro that [OF update_at_line [OF line(2) u d(1) line(1) len]]) (simp_all only: nat_int, simp)
  qed
qed

lemma final_ok:
  assumes "holds p ctx"
  obtains out n ctx' where "EVP_EncodeFinal ctx = Some (out, n, ctx')" "take (nat n) out = b64_text (rest p)"
proof -
  have u: "data_used ctx = length (rest p)" "take (data_used ctx) (data ctx) = rest p"
    using assms by (auto simp: holds_def)
  have e: "length (encode_block_loop (rest p)) \<le> 64"
    using rest_less [of p] by (simp add: length_encode_block_loop)
  show thesis
  proof (cases "rest p = []")
    case True
    show thesis by (rule that [of "[]" 0 ctx]) (use u True in \<open>simp_all add: EVP_EncodeFinal_def\<close>)
  next
    case False
    have "b64_text (rest p @ []) = encode_block_loop (rest p) @ [10] @ b64_text []"
      by (rule b64_text_line) (use False rest_less [of p] in simp_all)
    then show thesis
      by (intro that [of "encode_block_loop (rest p) @ [10, 0]" "int (length (encode_block_loop (rest p)) + 1)"
            "ctx\<lparr>data_used := 0\<rparr>"])
        (use u False e in \<open>simp_all add: EVP_EncodeFinal_def encode_line_eq INT_MAX_def nat_add_distrib\<close>)
  qed
qed

text \<open>
  A whole stream: what the caller gets from the updates on the chunks of the input and the final call.
\<close>

primrec encode_updates :: "byte list list \<Rightarrow> EVP_ENCODE_CTX \<Rightarrow> (byte list \<times> EVP_ENCODE_CTX) option" where
  "encode_updates [] ctx = Some ([], ctx)"
| "encode_updates (chunk # chunks) ctx =
     (case EVP_EncodeUpdate chunk ctx of
        None \<Rightarrow> None
      | Some (out, n, ctx1) \<Rightarrow>
          map_option (\<lambda>(out', ctx2). (take (nat n) out @ out', ctx2)) (encode_updates chunks ctx1))"

definition encode_stream :: "byte list list \<Rightarrow> byte list option" where
  "encode_stream chunks =
     (case encode_updates chunks EVP_EncodeInit of
        None \<Rightarrow> None
      | Some (out, ctx) \<Rightarrow> map_option (\<lambda>(out', n, _). out @ take (nat n) out') (EVP_EncodeFinal ctx))"

lemma encode_updates_ok:
  assumes "holds p ctx" "\<forall>c \<in> set chunks. length c < 2 ^ 30"
  obtains ctx' where "encode_updates chunks ctx = Some (b64_text (full (rest p @ concat chunks)), ctx')"
    "holds (p @ concat chunks) ctx'"
  using assms
proof (induction chunks arbitrary: p ctx thesis)
  case Nil
  have "full (rest p) = []" using rest_less by simp
  with Nil show ?case by simp
next
  case (Cons c chunks)
  have c: "length c < 2 ^ 30" and cs: "\<forall>c \<in> set chunks. length c < 2 ^ 30" using Cons.prems(3) by simp_all
  obtain out n ctx1 where u: "EVP_EncodeUpdate c ctx = Some (out, n, ctx1)" "holds (p @ c) ctx1"
    "take (nat n) out = b64_text (full (rest p @ c))" by (rule update_ok [OF Cons.prems(2) c])
  obtain ctx2 where us: "encode_updates chunks ctx1 = Some (b64_text (full (rest (p @ c) @ concat chunks)), ctx2)"
    "holds ((p @ c) @ concat chunks) ctx2" by (rule Cons.IH [OF _ u(2) cs])
  have "full (rest p @ concat (c # chunks)) = full (rest p @ c) @ full (rest (p @ c) @ concat chunks)"
    using full_append(1) [of "rest p @ c" "concat chunks"] full_append(2) [of p c] by simp
  then have "encode_updates (c # chunks) ctx = Some (b64_text (full (rest p @ concat (c # chunks))), ctx2)"
    by (simp add: u(1,3) us(1) text_full)
  then show ?case by (rule Cons.prems(1)) (use us(2) in simp)
qed

lemma encode_stream_eq:
  assumes "\<forall>c \<in> set chunks. length c < 2 ^ 30"
  shows "encode_stream chunks = Some (b64_text (concat chunks))"
proof -
  obtain ctx where us: "encode_updates chunks EVP_EncodeInit = Some (b64_text (full (concat chunks)), ctx)"
    "holds (concat chunks) ctx"
    using encode_updates_ok [OF holds_init assms] by (auto simp: rest_def)
  obtain out n ctx' where f: "EVP_EncodeFinal ctx = Some (out, n, ctx')" "take (nat n) out = b64_text (rest (concat chunks))"
    by (rule final_ok [OF us(2)])
  have "b64_text (full (concat chunks)) @ b64_text (rest (concat chunks)) = b64_text (concat chunks)"
    using text_full [of "concat chunks" "rest (concat chunks)"] by (simp add: full_rest)
  then show ?thesis by (simp add: encode_stream_def us(1) f)
qed

text \<open>The text without white space is the one-shot encoding.\<close>

lemma text_no_space: "filter (\<lambda>c. \<not> is_space8 c) (b64_text bs) = encode_block_loop bs"
proof (induction bs rule: line_induct)
  have nl: "is_space8 10" by (simp add: is_space8_def)
  have keep: "filter (\<lambda>c. \<not> is_space8 c) (encode_block_loop bs) = encode_block_loop bs" for bs
    using encode_block_no_space by (simp add: filter_id_conv)
  { case (short p)
    then show ?case using b64_text_line [of p "[]"] by (cases "p = []") (simp_all add: keep nl) }
  { case (line a p)
    then show ?case by (simp add: b64_text_line keep nl encode_block_loop_append) }
qed

section \<open>The streaming decoder\<close>

text \<open>What the decoder still accepts, from the pending characters and the characters to come.\<close>

definition accepts :: "bool \<Rightarrow> byte list \<Rightarrow> byte list \<Rightarrow> byte list option" where
  "accepts eof pend cs =
     (if eof then (if cs = [] then Some [] else None) else decode_quads (pend @ cs))"

definition dec_ok :: "EVP_ENCODE_CTX \<Rightarrow> bool" where
  "dec_ok ctx \<longleftrightarrow> length (data ctx) = 48 \<and> data_used ctx < 4 \<and> \<not> error_encountered ctx \<and>
     (eof_seen ctx \<longrightarrow> data_used ctx = 0)"

abbreviation remaining :: "EVP_ENCODE_CTX \<Rightarrow> byte list \<Rightarrow> byte list option" where
  "remaining ctx \<equiv> accepts (eof_seen ctx) (take (data_used ctx) (data ctx))"

lemma quad_length: "base64_decode_quad a b c d = Some bs \<Longrightarrow> length bs \<in> {1, 2, 3}"
  by (auto simp: base64_decode_quad_def Let_def split: if_splits)

lemma accepts_quad:
  "accepts False [a, b, c, d] cs =
     (case base64_decode_quad a b c d of
        None \<Rightarrow> None | Some bs \<Rightarrow> map_option (\<lambda>out. bs @ out) (accepts (length bs < 3) [] cs))"
  using quad_length [of a b c d] by (auto simp: accepts_def split: option.splits)

lemma take_4: "4 \<le> length d \<Longrightarrow> take 4 d = [d ! 0, d ! 1, d ! 2, d ! 3]"
  by (rule nth_equalityI) (auto simp: less_Suc_eq numeral_eq_Suc nth_Cons split: nat.splits)

lemma map_append_comp: "map_option ((@) bs) (map_option ((@) cs) x) = map_option ((@) (bs @ cs)) x"
  by (cases x) simp_all

lemma update_loop_ok:
  assumes "dec_ok ctx" "decode_update_loop src out ctx = (ok, out', ctx')"
  shows "(ok \<longrightarrow> dec_ok ctx' \<and> length out' + data_used ctx' \<le> length out + data_used ctx + length src \<and>
       (\<exists>bs. out' = out @ bs \<and> (\<forall>cs. remaining ctx (filter (\<lambda>c. \<not> is_space8 c) src @ cs) =
          map_option (\<lambda>o'. bs @ o') (remaining ctx' cs)))) \<and>
    (\<not> ok \<longrightarrow> error_encountered ctx' \<and> (\<forall>cs. remaining ctx (filter (\<lambda>c. \<not> is_space8 c) src @ cs) = None))"
  using assms
proof (induction src arbitrary: out ctx)
  case Nil
  have "x = map_option ((@) []) x" for x :: "byte list option" by (cases x) simp_all
  with Nil show ?case by auto
next
  case (Cons c src)
  let ?f = "filter (\<lambda>c. \<not> is_space8 c)"
  let ?d = "(data ctx)[data_used ctx := c]"
  let ?ctx1 = "ctx\<lparr>data := ?d, data_used := data_used ctx + 1\<rparr>"
  have ok: "length (data ctx) = 48" "data_used ctx < 4" "\<not> error_encountered ctx"
    "eof_seen ctx \<Longrightarrow> data_used ctx = 0" using Cons.prems(1) by (auto simp: dec_ok_def)
  have t: "take (data_used ctx + 1) ?d = take (data_used ctx) (data ctx) @ [c]"
    using ok(1,2) by (simp add: take_Suc_conv_app_nth)
  consider (space) "is_space8 c" | (eof) "\<not> is_space8 c" "eof_seen ctx"
    | (more) "\<not> is_space8 c" "\<not> eof_seen ctx" "data_used ctx + 1 \<noteq> 4"
    | (quad) "\<not> is_space8 c" "\<not> eof_seen ctx" "data_used ctx + 1 = 4" by blast
  then show ?case
  proof cases
    case space
    then have s: "decode_update_loop src out ctx = (ok, out', ctx')" "?f (c # src) = ?f src"
      using Cons.prems(2) by simp_all
    show ?thesis using Cons.IH [OF Cons.prems(1) s(1)] unfolding s(2) by (auto intro: le_trans)
  next
    case eof
    with Cons.prems(2) show ?thesis by (auto simp: accepts_def)
  next
    case more
    have "dec_ok ?ctx1" using ok more by (simp add: dec_ok_def)
    moreover have "decode_update_loop src out ?ctx1 = (ok, out', ctx')" using Cons.prems(2) more by simp
    moreover have "remaining ?ctx1 cs = remaining ctx (c # cs)" for cs
      using more(2) t by (simp add: accepts_def)
    ultimately show ?thesis using Cons.IH [of ?ctx1 out] more by auto
  next
    case quad
    note t = t [unfolded quad(3)]
    have four: "take 4 ?d = [?d ! 0, ?d ! 1, ?d ! 2, ?d ! 3]" by (rule take_4) (use ok in simp)
    have rem: "remaining ctx (c # cs) = accepts False [?d ! 0, ?d ! 1, ?d ! 2, ?d ! 3] cs" for cs
      unfolding four [symmetric] accepts_def t using quad(2) by simp
    show ?thesis
    proof (cases "base64_decode_quad (?d ! 0) (?d ! 1) (?d ! 2) (?d ! 3)")
      case None
      then show ?thesis using Cons.prems(2) quad rem by (auto simp: accepts_quad)
    next
      case (Some bs)
      let ?ctx3 = "if length bs < 3 then ?ctx1\<lparr>data_used := 0\<rparr>\<lparr>eof_seen := True\<rparr> else ?ctx1\<lparr>data_used := 0\<rparr>"
      have step: "decode_update_loop src (out @ bs) ?ctx3 = (ok, out', ctx')"
        using Cons.prems(2) quad Some by (cases "length bs < 3") (simp_all add: Let_def)
      have "dec_ok ?ctx3" using ok by (simp add: dec_ok_def)
      note ih = Cons.IH [OF this step]
      have e: "eof_seen ?ctx3 = (length bs < 3)" "data_used ?ctx3 = 0" using quad(2) by simp_all
      have r: "remaining ctx (c # cs) = map_option (\<lambda>o'. bs @ o') (remaining ?ctx3 cs)" for cs
        unfolding rem accepts_quad Some e by simp
      have f: "?f (c # src) = c # ?f src" using quad(1) by simp
      have "length bs \<le> 3" using quad_length [OF Some] by auto
      then show ?thesis
        unfolding f append_Cons r using ih e(2) quad(3)
        by (auto simp: map_append_comp)
    qed
  qed
qed

text \<open>A whole stream: the output of the updates and the answer of the final call.\<close>

primrec decode_updates :: "byte list list \<Rightarrow> EVP_ENCODE_CTX \<Rightarrow> byte list \<times> EVP_ENCODE_CTX" where
  "decode_updates [] ctx = ([], ctx)"
| "decode_updates (chunk # chunks) ctx =
     (case EVP_DecodeUpdate chunk ctx of
        (ret, out, n, ctx1) \<Rightarrow>
          (case decode_updates chunks ctx1 of (out', ctx2) \<Rightarrow> (take (nat n) out @ out', ctx2)))"

definition decode_stream :: "byte list list \<Rightarrow> byte list option" where
  "decode_stream chunks =
     (case decode_updates chunks EVP_DecodeInit of
        (out, ctx) \<Rightarrow> if EVP_DecodeFinal ctx = 1 then Some out else None)"

lemma error_stays: "error_encountered ctx \<Longrightarrow> decode_updates chunks ctx = ([], ctx)"
  by (induction chunks) (simp_all add: EVP_DecodeUpdate_def)

lemma decode_quads_short: "0 < length cs \<Longrightarrow> length cs < 4 \<Longrightarrow> decode_quads cs = None"
  by (cases cs rule: decode_quads.cases) simp_all

lemma decode_updates_ok:
  assumes "dec_ok ctx" "\<forall>c \<in> set chunks. length c < 2 ^ 30" "decode_updates chunks ctx = (out, ctx')"
  shows "(if EVP_DecodeFinal ctx' = 1 then Some out else None) =
    remaining ctx (filter (\<lambda>c. \<not> is_space8 c) (concat chunks))"
  using assms
proof (induction chunks arbitrary: ctx out)
  case Nil
  then have "length (take (data_used ctx) (data ctx)) = data_used ctx" by (simp add: dec_ok_def)
  then have "decode_quads (take (data_used ctx) (data ctx)) = (if data_used ctx = 0 then Some [] else None)"
    using Nil.prems(1) by (auto simp: dec_ok_def intro!: decode_quads_short)
  with Nil show ?case by (auto simp: dec_ok_def accepts_def EVP_DecodeFinal_def)
next
  case (Cons c chunks)
  let ?f = "filter (\<lambda>c. \<not> is_space8 c)"
  obtain ok out1 ctx1 where l: "decode_update_loop c [] ctx = (ok, out1, ctx1)" by (metis prod_cases3)
  note loop = update_loop_ok [OF Cons.prems(1) l]
  have ne: "\<not> error_encountered ctx" using Cons.prems(1) by (simp add: dec_ok_def)
  have f: "?f (concat (c # chunks)) = ?f c @ ?f (concat chunks)" by simp
  show ?case
  proof (cases ok)
    case False
    then have "ctx' = ctx1" "error_encountered ctx1"
      using Cons.prems(3) loop ne l by (auto simp: EVP_DecodeUpdate_def error_stays)
    then show ?thesis using loop False unfolding f by (simp add: EVP_DecodeFinal_def)
  next
    case True
    then have "length out1 < 2 ^ 31" using loop Cons.prems(1,2) by (auto simp: dec_ok_def)
    then have "EVP_DecodeUpdate c ctx = (if eof_seen ctx1 then 0 else 1, out1, int (length out1), ctx1)"
      using ne l True by (simp add: EVP_DecodeUpdate_def INT_MAX_def)
    with Cons.prems(3) obtain out2 where us: "decode_updates chunks ctx1 = (out2, ctx')" "out = out1 @ out2"
      by (auto split: prod.splits)
    from loop True obtain bs where bs: "out1 = bs"
      "\<And>cs. remaining ctx (?f c @ cs) = map_option (\<lambda>o'. bs @ o') (remaining ctx1 cs)" by auto
    have "dec_ok ctx1" using loop True by simp
    from Cons.IH [OF this _ us(1)] Cons.prems(2)
    have "remaining ctx1 (?f (concat chunks)) = (if EVP_DecodeFinal ctx' = 1 then Some out2 else None)" by simp
    then show ?thesis unfolding f bs(2) us(2) bs(1) by simp
  qed
qed

lemma decode_stream_eq:
  assumes "\<forall>c \<in> set chunks. length c < 2 ^ 30"
  shows "decode_stream chunks = decode_quads (filter (\<lambda>c. \<not> is_space8 c) (concat chunks))"
proof -
  obtain out ctx where us: "decode_updates chunks EVP_DecodeInit = (out, ctx)" by fastforce
  have "dec_ok EVP_DecodeInit" by (simp add: dec_ok_def EVP_DecodeInit_def)
  from decode_updates_ok [OF this assms us] us show ?thesis
    by (simp add: decode_stream_def accepts_def EVP_DecodeInit_def)
qed

lemma decode_quads_length: "decode_quads cs = Some bs \<Longrightarrow> length cs mod 4 = 0 \<and> length bs \<le> length cs div 4 * 3"
proof (induction cs arbitrary: bs rule: decode_quads.induct)
  case (2 a b c d src)
  from 2(2) obtain q where q: "base64_decode_quad a b c d = Some q" by (auto split: option.splits)
  from 2(2) obtain out where "length q \<noteq> 3 \<longrightarrow> src = []" "decode_quads src = Some out" "bs = q @ out"
    by (auto simp: q split: if_splits)
  moreover have "length q \<le> 3" using quad_length [OF q] by auto
  ultimately show ?case using 2(1) [OF q] by auto
qed simp_all

section \<open>Properties\<close>

text \<open>C25: The streaming base64 decoder is the one-shot decoder on the text without white space.  However
  a text is cut into chunks (short enough for their output to be counted by an \<open>int\<close>),
  \<open>EVP_DecodeUpdate\<close> on each chunk and \<open>EVP_DecodeFinal\<close> give the bytes that \<open>EVP_DecodeBase64\<close> gives
  with a buffer of the length it asks for, and fail when it fails: padding in the middle, an
  incomplete quad or another character are refused by both.\<close>

theorem base64_stream_decodes:
  assumes "\<forall>c \<in> set chunks. length c < 2 ^ 30"
    and "text = filter (\<lambda>c. \<not> is_space8 c) (concat chunks)"
  shows "decode_stream chunks = EVP_DecodeBase64 (length text div 4 * 3) text"
proof (cases "length text mod 4 = 0")
  case True
  then show ?thesis by (simp add: decode_stream_eq [OF assms(1)] assms(2) EVP_DecodeBase64_def EVP_DecodedLength_def)
next
  case False
  then have "decode_quads text = None" using decode_quads_length by (cases "decode_quads text") auto
  with False show ?thesis by (simp add: decode_stream_eq [OF assms(1)] assms(2) EVP_DecodeBase64_def)
qed

theorem base64_stream_decodes_witness:
  "decode_stream [[81, 85, 74], [68, 10, 82], [65, 61, 61, 10]] =
   EVP_DecodeBase64 (length [81, 85, 74, 68, 82, 65, 61, 61 :: byte] div 4 * 3) [81, 85, 74, 68, 82, 65, 61, 61]"
  by (rule base64_stream_decodes) (simp_all add: is_space8_def)

text \<open>C24: Base64 round trip.  However the bytes are cut into chunks of fewer than \<open>2 ^ 30\<close> bytes for
  the streaming encoder, it gives a text without a failed assertion, and however this text is cut again into
  chunks of fewer than \<open>2 ^ 30\<close> characters for the streaming decoder, the decoder succeeds and gives the
  bytes back.\<close>

theorem base64_roundtrip:
  assumes "\<forall>c \<in> set ins. length c < 2 ^ 30"
  shows "\<exists>txt. encode_stream ins = Some txt \<and>
    (\<forall>outs. concat outs = txt \<longrightarrow> (\<forall>c \<in> set outs. length c < 2 ^ 30) \<longrightarrow> decode_stream outs = Some (concat ins))"
proof (intro exI conjI allI impI)
  show "encode_stream ins = Some (b64_text (concat ins))" by (rule encode_stream_eq [OF assms])
  fix outs :: "byte list list" assume "concat outs = b64_text (concat ins)" "\<forall>c \<in> set outs. length c < 2 ^ 30"
  then show "decode_stream outs = Some (concat ins)"
    by (simp add: decode_stream_eq text_no_space decode_encode_quads)
qed

theorem base64_roundtrip_witness:
  "encode_stream [[1, 2], [3, 4, 5]] = Some [65, 81, 73, 68, 66, 65, 85, 61, 10] \<and>
    decode_stream [[65, 81], [73, 68, 66, 65, 85, 61, 10]] = Some [1, 2, 3, 4, 5]"
proof -
  have tx: "b64_text (concat [[1, 2], [3, 4, 5]]) = [65, 81, 73, 68, 66, 65, 85, 61, 10]" by code_simp
  have enc: "encode_stream [[1, 2], [3, 4, 5]] = Some [65, 81, 73, 68, 66, 65, 85, 61, 10]"
    unfolding tx [symmetric] by (rule encode_stream_eq) simp
  then have "concat outs = [65, 81, 73, 68, 66, 65, 85, 61, 10] \<Longrightarrow> \<forall>c \<in> set outs. length c < 2 ^ 30 \<Longrightarrow>
      decode_stream outs = Some (concat [[1, 2], [3, 4, 5]])" for outs
    using base64_roundtrip [of "[[1, 2], [3, 4, 5]]"] by auto
  from this [of "[[65, 81], [73, 68, 66, 65, 85, 61, 10]]"] enc show ?thesis by simp
qed

end
