(* ===== verification/Time_Support.thy ===== *)
theory Time_Support
  imports Prelude "HOL-Library.Signed_Division"
begin

text \<open>
  Calendar arithmetic (\<open>BoringSSL-GRPC/crypto/asn1/time_support.c\<close>).  \<open>int\<close> has 32 bits and
  \<open>long\<close> 64; division truncates.  A computation is \<open>None\<close> where signed arithmetic overflows; the
  conversion of a \<open>long\<close> to an \<open>int\<close> keeps the low 32 bits.
\<close>

section \<open>Definitions\<close>

definition SECS_PER_DAY :: int where "SECS_PER_DAY = 24 * 60 * 60"

definition is_int :: "int \<Rightarrow> bool" where "is_int x \<longleftrightarrow> - (2 ^ 31) \<le> x \<and> x < 2 ^ 31"
definition is_long :: "int \<Rightarrow> bool" where "is_long x \<longleftrightarrow> - (2 ^ 63) \<le> x \<and> x < 2 ^ 63"
definition to_int :: "int \<Rightarrow> int" where "to_int x = signed_take_bit 31 x"

record tm =
  tm_sec :: int
  tm_min :: int
  tm_hour :: int
  tm_mday :: int
  tm_mon :: int
  tm_year :: int

text \<open>The sums are evaluated from the left, in \<open>int\<close>.\<close>

definition date_to_julian :: "int \<Rightarrow> int \<Rightarrow> int \<Rightarrow> int option" where
  "date_to_julian y m d =
     (let a = (m - 14) sdiv 12;
          s = 1461 * (y + 4800 + a);
          t = 367 * (m - 2 - 12 * a);
          u = 3 * ((y + 4900 + a) sdiv 100);
          r1 = s sdiv 4 + t sdiv 12;
          r2 = r1 - u sdiv 4;
          r3 = r2 + d;
          r4 = r3 - 32075
      in if list_all is_int [m - 14, y + 4800, y + 4800 + a, s, m - 2, 12 * a, m - 2 - 12 * a, t, y + 4900,
             y + 4900 + a, u, r1, r2, r3, r4]
         then Some r4 else None)"

text \<open>In \<open>long\<close>; the results are converted to \<open>int\<close>.\<close>

definition julian_to_date :: "int \<Rightarrow> (int \<times> int \<times> int) option" where
  "julian_to_date jd =
     (let L0 = jd + 68569;
          n = (4 * L0) sdiv 146097;
          L1 = L0 - (146097 * n + 3) sdiv 4;
          i = (4000 * (L1 + 1)) sdiv 1461001;
          L2 = L1 - (1461 * i) sdiv 4 + 31;
          j = (80 * L2) sdiv 2447;
          d = L2 - (2447 * j) sdiv 80;
          L3 = j sdiv 11;
          m = j + 2 - 12 * L3;
          y = 100 * (n - 49) + i + L3
      in if list_all is_long [L0, 4 * L0, 146097 * n + 3, L1, 4000 * (L1 + 1), 1461 * i, L2, 80 * L2, 2447 * j, d, m, y]
         then Some (to_int y, to_int m, to_int d) else None)"

text \<open>The inner \<open>None\<close> is the failure return.\<close>

definition julian_adj :: "tm \<Rightarrow> int \<Rightarrow> int \<Rightarrow> (int \<times> int) option option" where
  "julian_adj tm off_day offset_sec =
     (let offset_day = to_int (offset_sec sdiv SECS_PER_DAY);
          product = offset_day * SECS_PER_DAY;
          offset_hms = to_int (offset_sec - product);
          offset_day1 = offset_day + off_day;
          h = tm_hour tm * 3600; mi = tm_min tm * 60;
          hms = offset_hms + (h + mi + tm_sec tm);
          (offset_day2, hms2) =
            (if hms \<ge> SECS_PER_DAY then (offset_day1 + 1, hms - SECS_PER_DAY)
             else if hms < 0 then (offset_day1 - 1, hms + SECS_PER_DAY)
             else (offset_day1, hms))
      in if \<not> list_all is_int [product, offset_day1, h, mi, h + mi, h + mi + tm_sec tm, hms, offset_day2, hms2,
             tm_year tm + 1900, tm_mon tm + 1]
         then None
         else
           (case date_to_julian (tm_year tm + 1900) (tm_mon tm + 1) (tm_mday tm) of
              None \<Rightarrow> None
            | Some jd \<Rightarrow>
                let time_jd = jd + offset_day2 in
                if time_jd < 0 then Some None else Some (Some (time_jd, hms2))))"

definition OPENSSL_gmtime_adj :: "tm \<Rightarrow> int \<Rightarrow> int \<Rightarrow> tm option option" where
  "OPENSSL_gmtime_adj tm off_day offset_sec =
     (case julian_adj tm off_day offset_sec of
        None \<Rightarrow> None
      | Some None \<Rightarrow> Some None
      | Some (Some (time_jd, time_sec)) \<Rightarrow>
          (case julian_to_date time_jd of
             None \<Rightarrow> None
           | Some (time_year, time_month, time_day) \<Rightarrow>
               if time_year < 1900 \<or> time_year > 9999 then Some None
               else Some (Some (tm\<lparr>tm_year := time_year - 1900, tm_mon := time_month - 1, tm_mday := time_day,
                 tm_hour := time_sec sdiv 3600, tm_min := (time_sec sdiv 60) smod 60, tm_sec := time_sec smod 60\<rparr>))))"

text \<open>The days and seconds for non-null out-parameters.\<close>

definition OPENSSL_gmtime_diff :: "tm \<Rightarrow> tm \<Rightarrow> (int \<times> int) option option" where
  "OPENSSL_gmtime_diff from to =
     (case julian_adj from 0 0 of
        None \<Rightarrow> None
      | Some None \<Rightarrow> Some None
      | Some (Some (from_jd, from_sec)) \<Rightarrow>
          (case julian_adj to 0 0 of
             None \<Rightarrow> None
           | Some None \<Rightarrow> Some None
           | Some (Some (to_jd, to_sec)) \<Rightarrow>
               let diff_day = to_jd - from_jd; diff_sec = to_sec - from_sec;
                   (diff_day, diff_sec) =
                     (if diff_day > 0 \<and> diff_sec < 0 then (diff_day - 1, diff_sec + SECS_PER_DAY)
                      else (diff_day, diff_sec));
                   (diff_day, diff_sec) =
                     (if diff_day < 0 \<and> diff_sec > 0 then (diff_day + 1, diff_sec - SECS_PER_DAY)
                      else (diff_day, diff_sec))
               in Some (Some (to_int diff_day, diff_sec))))"

end
