(* ===== verification/Time_Spec.thy ===== *)
theory Time_Spec
  imports Time_Support
begin

text \<open>
  The calendar that \<open>time_support.c\<close> computes in: Julian days count the days of the (proleptic)
  Gregorian calendar, \<open>julian_to_date\<close> inverts \<open>date_to_julian\<close>, and \<open>OPENSSL_gmtime_adj\<close> adds
  days and seconds exactly.
\<close>

section \<open>The calendar\<close>

definition leap :: "int \<Rightarrow> bool" where
  "leap y \<longleftrightarrow> 4 dvd y \<and> (\<not> 100 dvd y \<or> 400 dvd y)"

definition days_in_month :: "int \<Rightarrow> int \<Rightarrow> int" where
  "days_in_month y m =
     (if m = 2 then (if leap y then 29 else 28) else if m \<in> {4, 6, 9, 11} then 30 else 31)"

text \<open>The days of the years from 0, of the months before one, and the number of a date.\<close>

fun days_before_year :: "nat \<Rightarrow> int" where
  "days_before_year 0 = 0"
| "days_before_year (Suc y) = days_before_year y + (if leap (int y) then 366 else 365)"

fun days_before_month :: "int \<Rightarrow> nat \<Rightarrow> int" where
  "days_before_month y 0 = 0"
| "days_before_month y (Suc m) = days_before_month y m + days_in_month y (int m + 1)"

definition day_number :: "int \<Rightarrow> int \<Rightarrow> int \<Rightarrow> int" where
  "day_number y m d = days_before_year (nat y) + days_before_month y (nat (m - 1)) + (d - 1)"

definition valid_date :: "int \<Rightarrow> int \<Rightarrow> int \<Rightarrow> bool" where
  "valid_date y m d \<longleftrightarrow> 0 \<le> y \<and> 1 \<le> m \<and> m \<le> 12 \<and> 1 \<le> d \<and> d \<le> days_in_month y m"

section \<open>Closed forms\<close>

lemma div_round_up: "0 < k \<Longrightarrow> (x + k) div k = (x + (k - 1)) div k + (if k dvd x then 1 else 0 :: int)"
proof -
  assume k: "0 < k"
  have x: "x = k * (x div k) + x mod k" "0 \<le> x mod k" "x mod k < k" using k by simp_all
  have "(x + k) div k = x div k + 1" using k div_add_self2 [of k x] by simp
  moreover have "(x + (k - 1)) div k = x div k" if "k dvd x"
    by (rule int_div_pos_eq [of _ _ _ "k - 1"]) (use k x that in auto)
  moreover have "(x + (k - 1)) div k = x div k + 1" if "\<not> k dvd x"
    by (rule int_div_pos_eq [of _ _ _ "x mod k - 1"])
      (use k x that in \<open>auto simp: dvd_eq_mod_eq_0 algebra_simps\<close>)
  ultimately show ?thesis by simp
qed

lemma days_before_year: "days_before_year y = 365 * int y + (int y + 3) div 4 - (int y + 99) div 100 + (int y + 399) div 400"
proof (induction y)
  case (Suc y)
  let ?y = "int y"
  have up: "(?y + 4) div 4 = (?y + 3) div 4 + (if 4 dvd ?y then 1 else 0)"
    "(?y + 100) div 100 = (?y + 99) div 100 + (if 100 dvd ?y then 1 else 0)"
    "(?y + 400) div 400 = (?y + 399) div 400 + (if 400 dvd ?y then 1 else 0)"
    using div_round_up [of 4 ?y] div_round_up [of 100 ?y] div_round_up [of 400 ?y] by simp_all
  have d: "400 dvd ?y \<Longrightarrow> 100 dvd ?y" "100 dvd ?y \<Longrightarrow> 4 dvd ?y"
    by (rule dvd_trans; simp)+
  have e: "int (Suc y) + 3 = ?y + 4" "int (Suc y) + 99 = ?y + 100" "int (Suc y) + 399 = ?y + 400" by simp_all
  show ?case
    unfolding days_before_year.simps Suc e up leap_def using d
    by (cases "4 dvd ?y"; cases "100 dvd ?y"; cases "400 dvd ?y") simp_all
qed simp

lemma month_cases: "1 \<le> m \<Longrightarrow> m \<le> 12 \<Longrightarrow>
    m = 1 \<or> m = 2 \<or> m = 3 \<or> m = 4 \<or> m = 5 \<or> m = 6 \<or> m = 7 \<or> m = 8 \<or> m = 9 \<or> m = 10 \<or> m = 11 \<or> m = (12 :: int)"
  by arith

text \<open>Years and months counted from March.\<close>

definition march_year :: "int \<Rightarrow> int \<Rightarrow> int" where "march_year y m = (if m \<le> 2 then y - 1 else y)"
definition march_month :: "int \<Rightarrow> int" where "march_month m = (if m \<le> 2 then m + 10 else m - 2)"

definition julian :: "int \<Rightarrow> int \<Rightarrow> int \<Rightarrow> int" where
  "julian y m d = (1461 * (march_year y m + 4800)) div 4 + (367 * march_month m) div 12 -
     (3 * ((march_year y m + 4900) div 100)) div 4 + d - 32075"

lemma div_bounds: "0 < k \<Longrightarrow> x div k = q \<Longrightarrow> k * q \<le> x \<and> x < k * q + (k :: int)"
proof -
  assume k: "0 < k" and q: "x div k = q"
  have "k * q + x mod k = x" using mult_div_mod_eq [of k x] q by simp
  moreover have "0 \<le> x mod k" "x mod k < k" using k by simp_all
  ultimately show ?thesis by linarith
qed

lemma sdiv_div: "0 \<le> a \<Longrightarrow> 0 < b \<Longrightarrow> a sdiv b = a div (b :: int)"
  by (simp add: signed_divide_int_def sgn_if)

lemma smod_mod: "0 \<le> a \<Longrightarrow> 0 < b \<Longrightarrow> a smod b = a mod (b :: int)"
  by (simp add: signed_modulo_int_def sgn_if)

lemma date_to_julian_eq:
  assumes "valid_date y m d" "y \<le> 9999"
  shows "date_to_julian y m d = Some (julian y m d)"
proof -
  have m: "1 \<le> m" "m \<le> 12" "0 \<le> y" "1 \<le> d" "d \<le> 31"
    using assms(1) by (auto simp: valid_date_def days_in_month_def split: if_splits)
  have a: "(m - 14) sdiv 12 = (if m \<le> 2 then - 1 else 0)"
    using month_cases [OF m(1,2)] by (elim disjE) (simp_all add: signed_divide_int_def)
  have p: "0 \<le> march_month m" "march_month m \<le> 12" "- 1 \<le> march_year y m" "march_year y m \<le> 9999"
    using m assms(2) by (auto simp: march_month_def march_year_def)
  have y: "y + 4800 + (if m \<le> 2 then - 1 else 0) = march_year y m + 4800"
    "y + 4900 + (if m \<le> 2 then - 1 else 0) = march_year y m + 4900"
    "m - 2 - 12 * (if m \<le> 2 then - 1 else 0) = march_month m" by (auto simp: march_month_def march_year_def)
  have s: "1461 * (march_year y m + 4800) sdiv 4 = 1461 * (march_year y m + 4800) div 4"
    "367 * march_month m sdiv 12 = 367 * march_month m div 12"
    "(march_year y m + 4900) sdiv 100 = (march_year y m + 4900) div 100"
    "3 * ((march_year y m + 4900) div 100) sdiv 4 = 3 * ((march_year y m + 4900) div 100) div 4"
    using p by (intro sdiv_div; simp)+
  obtain q1 q2 q3 q4 where q: "1461 * (march_year y m + 4800) div 4 = q1" "367 * march_month m div 12 = q2"
    "(march_year y m + 4900) div 100 = q3" "3 * q3 div 4 = q4" by blast
  have b: "4 * q1 \<le> 1461 * (march_year y m + 4800)" "1461 * (march_year y m + 4800) < 4 * q1 + 4"
    "12 * q2 \<le> 367 * march_month m" "367 * march_month m < 12 * q2 + 12"
    "100 * q3 \<le> march_year y m + 4900" "march_year y m + 4900 < 100 * q3 + 100"
    "4 * q4 \<le> 3 * q3" "3 * q3 < 4 * q4 + 4"
    using div_bounds [OF _ q(1)] div_bounds [OF _ q(2)] div_bounds [OF _ q(3)] div_bounds [OF _ q(4)] by simp_all
  have "list_all is_int [m - 14, y + 4800, march_year y m + 4800, 1461 * (march_year y m + 4800), m - 2,
      12 * (if m \<le> 2 then - 1 else 0), march_month m, 367 * march_month m, y + 4900, march_year y m + 4900,
      3 * q3, q1 + q2, q1 + q2 - q4, q1 + q2 - q4 + d, q1 + q2 - q4 + d - 32075]"
    using b p m assms(2) by (simp add: is_int_def)
  then show ?thesis
    unfolding date_to_julian_def Let_def a y s julian_def unfolding q by simp
qed

section \<open>The inverse\<close>

lemma div_eqI: "0 < k \<Longrightarrow> k * q \<le> x \<Longrightarrow> x < k * q + k \<Longrightarrow> x div k = (q :: int)"
  by (rule int_div_pos_eq [of _ _ _ "x - k * q"]) simp_all

text \<open>
  A date as the century, the year of the century and the day of the year, all counted from March;
  the last day of such a year exists in a leap year only.
\<close>

definition year_day :: "int \<Rightarrow> int \<Rightarrow> int" where
  "year_day m d = 367 * march_month m div 12 + d - 31"

lemma month_start:
  "(367 * march_month m) div 12 = (if m = 3 then 30 else if m = 4 then 61 else if m = 5 then 91 else if m = 6 then 122
     else if m = 7 then 152 else if m = 8 then 183 else if m = 9 then 214 else if m = 10 then 244
     else if m = 11 then 275 else if m = 12 then 305 else if m = 1 then 336 else 367)"
  if "1 \<le> m" "m \<le> 12"
  using month_cases [OF that] by (elim disjE) (simp_all add: march_month_def)

lemma year_day_bounds:
  assumes "valid_date y m d"
  shows "0 \<le> year_day m d" "year_day m d \<le> (if leap (march_year y m + 1) then 365 else 364)"
proof -
  have m: "1 \<le> m" "m \<le> 12" and d: "1 \<le> d" "d \<le> days_in_month y m" using assms by (auto simp: valid_date_def)
  show "0 \<le> year_day m d" "year_day m d \<le> (if leap (march_year y m + 1) then 365 else 364)"
    unfolding year_day_def month_start [OF m] using month_cases [OF m] d
    by (elim disjE; simp add: days_in_month_def march_year_def split: if_splits)+
qed

lemma month_of_day:
  assumes "1 \<le> m" "m \<le> 12" "1 \<le> d" "d \<le> days_in_month y m"
  defines "L \<equiv> 367 * march_month m div 12 + d"
  shows "80 * L div 2447 = march_month m" "2447 * march_month m div 80 = 367 * march_month m div 12"
proof -
  show "80 * L div 2447 = march_month m"
    unfolding L_def month_start [OF assms(1,2)] using month_cases [OF assms(1,2)] assms(3,4)
    by (elim disjE; intro div_eqI) (simp_all add: march_month_def days_in_month_def split: if_splits)
  show "2447 * march_month m div 80 = 367 * march_month m div 12"
    unfolding month_start [OF assms(1,2)] using month_cases [OF assms(1,2)]
    by (elim disjE) (simp_all add: march_month_def)
qed

text \<open>\<open>julian_to_date\<close> without overflow.\<close>

definition civil :: "int \<Rightarrow> int \<times> int \<times> int" where
  "civil jd =
     (let L0 = jd + 68569; n = 4 * L0 div 146097; L1 = L0 - (146097 * n + 3) div 4;
          i = 4000 * (L1 + 1) div 1461001; L2 = L1 - 1461 * i div 4 + 31; j = 80 * L2 div 2447;
          L3 = j div 11
      in (100 * (n - 49) + i + L3, j + 2 - 12 * L3, L2 - 2447 * j div 80))"

lemma to_int_small: "- (2 ^ 31) \<le> x \<Longrightarrow> x < 2 ^ 31 \<Longrightarrow> to_int x = x"
  by (simp add: to_int_def signed_take_bit_int_eq_self)

lemma civil_steps:
  fixes jd :: int
  assumes "0 \<le> jd" "jd < 2 ^ 30"
  obtains n L1 i L2 j L3 where "4 * (jd + 68569) div 146097 = n" "jd + 68569 - (146097 * n + 3) div 4 = L1"
    "4000 * (L1 + 1) div 1461001 = i" "L1 - 1461 * i div 4 + 31 = L2" "80 * L2 div 2447 = j" "j div 11 = L3"
    "0 \<le> n" "n \<le> 30000" "- 1 \<le> L1" "L1 \<le> 36524" "0 \<le> i" "i \<le> 100" "0 \<le> L2" "L2 \<le> 40000" "0 \<le> j" "j \<le> 1400"
    "0 \<le> L3" "L3 \<le> 130"
proof -
  obtain n where n: "4 * (jd + 68569) div 146097 = n" by blast
  obtain t where t: "(146097 * n + 3) div 4 = t" by blast
  note b = div_bounds [OF _ n] div_bounds [OF _ t]
  obtain i where i: "4000 * (jd + 68569 - t + 1) div 1461001 = i" by blast
  obtain u where u: "1461 * i div 4 = u" by blast
  note b2 = div_bounds [OF _ i] div_bounds [OF _ u]
  obtain j where j: "80 * (jd + 68569 - t - u + 31) div 2447 = j" by blast
  obtain L3 where L3: "j div 11 = L3" by blast
  note b3 = div_bounds [OF _ j] div_bounds [OF _ L3]
  have n': "0 \<le> n" "n \<le> 30000" "- 1 \<le> jd + 68569 - t" "jd + 68569 - t \<le> 36524"
    using b assms by simp_all
  have i': "0 \<le> i" "i \<le> 100" "0 \<le> jd + 68569 - t - u + 31" "jd + 68569 - t - u + 31 \<le> 40000"
    using b2 n' by simp_all
  have j': "0 \<le> j" "j \<le> 1400" "0 \<le> L3" "L3 \<le> 130" using b3 i' by simp_all
  have e: "4000 * (jd + 68569 - (146097 * n + 3) div 4 + 1) div 1461001 = i"
    "80 * (jd + 68569 - (146097 * n + 3) div 4 - 1461 * i div 4 + 31) div 2447 = j"
    unfolding t u by (rule i j)+
  show thesis
    by (rule that [OF n refl e(1) refl e(2) L3 n'(1,2) _ _ i'(1,2) _ _ j']) (unfold t u, (rule n' i')+)
qed

lemma julian_to_date_eq:
  assumes "0 \<le> jd" "jd < 2 ^ 30"
  shows "julian_to_date jd = Some (civil jd)"
proof -
  from assms obtain n L1 i L2 j L3 where e: "4 * (jd + 68569) div 146097 = n" "jd + 68569 - (146097 * n + 3) div 4 = L1"
    "4000 * (L1 + 1) div 1461001 = i" "L1 - 1461 * i div 4 + 31 = L2" "80 * L2 div 2447 = j" "j div 11 = L3"
    and b: "0 \<le> n" "n \<le> 30000" "- 1 \<le> L1" "L1 \<le> 36524" "0 \<le> i" "i \<le> 100" "0 \<le> L2" "L2 \<le> 40000" "0 \<le> j" "j \<le> 1400"
    "0 \<le> L3" "L3 \<le> 130" by (rule civil_steps)
  have s: "4 * (jd + 68569) sdiv 146097 = n" "(146097 * n + 3) sdiv 4 = (146097 * n + 3) div 4"
    "4000 * (L1 + 1) sdiv 1461001 = i" "1461 * i sdiv 4 = 1461 * i div 4" "80 * L2 sdiv 2447 = j" "j sdiv 11 = L3"
    "2447 * j sdiv 80 = 2447 * j div 80"
    using b assms by (simp_all add: sdiv_div e del: distrib_left_numeral) 
  obtain q where q: "2447 * j div 80 = q" by blast
  have q': "0 \<le> q" "q \<le> 50000" using div_bounds [OF _ q] b by simp_all
  have small: "to_int (100 * (n - 49) + i + L3) = 100 * (n - 49) + i + L3" "to_int (j + 2 - 12 * L3) = j + 2 - 12 * L3"
    "to_int (L2 - q) = L2 - q" using b q' by (simp_all add: to_int_small)
  have "list_all is_long [jd + 68569, 4 * (jd + 68569), 146097 * n + 3, L1, 4000 * (L1 + 1), 1461 * i, L2, 80 * L2,
      2447 * j, L2 - q, j + 2 - 12 * L3, 100 * (n - 49) + i + L3]"
    using b q' assms by (simp add: is_long_def)
  then show ?thesis
    unfolding julian_to_date_def civil_def Let_def s e q by (simp only: small if_True)
qed

lemma civil_julian:
  assumes "valid_date y m d"
  shows "civil (julian y m d) = (y, m, d)"
proof -
  have m: "1 \<le> m" "m \<le> 12" and d: "1 \<le> d" "d \<le> days_in_month y m" and y: "0 \<le> y"
    using assms by (auto simp: valid_date_def)
  define Z C k R where "Z = march_year y m + 4800" and "C = (march_year y m + 4900) div 100"
    and "k = Z - 100 * (C - 1)" and "R = 1461 * k div 4 + year_day m d"
  have k: "0 \<le> k" "k \<le> 99" using div_bounds [of 100 "march_year y m + 4900" C]
    unfolding k_def Z_def C_def by simp_all
  have Z: "1461 * Z div 4 = 36525 * (C - 1) + 1461 * k div 4"
  proof -
    have "1461 * Z = 1461 * k + (36525 * (C - 1)) * 4" by (simp add: k_def)
    then show ?thesis by simp
  qed
  have jd: "julian y m d + 68569 = 36525 * C - 3 * C div 4 + R"
    unfolding julian_def Z_def [symmetric] C_def [symmetric] Z R_def year_day_def by simp
  have c: "100 * C \<le> march_year y m + 4900" "march_year y m + 4900 < 100 * C + 100"
    using div_bounds [of 100 "march_year y m + 4900" C] by (simp_all add: C_def)
  obtain g where g: "3 * C div 4 = g" by blast
  have g': "4 * g \<le> 3 * C" "3 * C < 4 * g + 4" using div_bounds [OF _ g] by simp_all
  obtain h where h: "1461 * k div 4 = h" by blast
  have "0 \<le> h" unfolding h [symmetric] using k by simp
  then have h': "4 * h \<le> 1461 * k" "1461 * k < 4 * h + 4" "0 \<le> h" using div_bounds [OF _ h] by simp_all
  have r: "0 \<le> year_day m d" "year_day m d \<le> 365" using year_day_bounds [OF assms] by (auto split: if_splits)
  have leapday: "4 dvd k + 1 \<and> (k = 99 \<longrightarrow> 4 dvd C)" if "year_day m d = 365"
  proof -
    have "leap (march_year y m + 1)" using year_day_bounds [OF assms] that by (auto split: if_splits)
    moreover have "march_year y m + 1 = k + 1 + 100 * (C - 49)" by (simp add: k_def Z_def)
    ultimately have l: "leap (k + 1 + 100 * (C - 49))" by simp
    have "4 dvd 100 * (C - 49)" by (rule dvd_mult2) simp
    moreover have "4 dvd k + 1 + 100 * (C - 49)" using l unfolding leap_def by blast
    ultimately have "4 dvd k + 1" by (rule iffD1 [OF dvd_add_left_iff])
    moreover have "4 dvd C" if "k = 99"
    proof -
      have x: "k + 1 + 100 * (C - 49) = 100 * (C - 48)" using that by simp
      have "100 dvd 100 * (C - 48)" by simp
      with l have "400 dvd 100 * (C - 48)" unfolding x leap_def by blast
      then obtain e where "100 * (C - 48) = 400 * e" by (rule dvdE)
      then have "C = 4 * (e + 12)" by simp
      then show ?thesis by (rule dvdI)
    qed
    ultimately show ?thesis by blast
  qed
  have n: "4 * (julian y m d + 68569) div 146097 = C"
  proof (rule div_eqI)
    have "4 * R < 146097 - (3 * C - 4 * g)"
    proof (cases "k = 99")
      case True
      then have h99: "h = 36159" using h by simp
      show ?thesis
      proof (cases "year_day m d = 365")
        case leap: True
        then have "4 dvd C" using leapday True by blast
        then have "3 * C = 4 * g" unfolding g [symmetric] by (simp add: dvd_mult)
        then show ?thesis using leap h99 by (simp add: R_def h)
      next
        case False
        then show ?thesis using r h99 g' by (simp add: R_def h)
      qed
    next
      case False
      then have "k \<le> 98" using k by simp
      then show ?thesis using h' g' r k by (simp add: R_def h)
    qed
    then show "4 * (julian y m d + 68569) < 146097 * C + 146097"
      unfolding jd R_def h g by simp
    have "0 \<le> R" using h'(3) r(1) unfolding R_def h by simp
    moreover have "146097 * C \<le> 4 * (36525 * C - g)" using g'(1) by simp
    ultimately show "146097 * C \<le> 4 * (julian y m d + 68569)" unfolding jd g by simp
  qed simp
  have "(146097 * C + 3) div 4 = 36525 * C - g" by (rule div_eqI) (use g' in simp_all)
  then have L1: "julian y m d + 68569 - (146097 * C + 3) div 4 = R" by (simp add: jd g)
  have i: "4000 * (R + 1) div 1461001 = k"
  proof (rule div_eqI)
    show "1461001 * k \<le> 4000 * (R + 1)" using h' r k by (simp add: R_def h)
    show "4000 * (R + 1) < 1461001 * k + 1461001"
    proof (cases "year_day m d = 365")
      case True
      then obtain w where w: "k + 1 = 4 * w" using leapday by (metis dvdE)
      then have kw: "k = 4 * w - 1" by simp
      have "h = 1461 * w - 366" unfolding h [symmetric] kw by (rule div_eqI) simp_all
      then show ?thesis using True k kw unfolding R_def h by simp
    next
      case False
      then show ?thesis using h' r k by (simp add: R_def h)
    qed
  qed simp
  have L2: "R - 1461 * k div 4 + 31 = 367 * march_month m div 12 + d" by (simp add: R_def year_day_def)
  have y': "march_year y m = 100 * (C - 49) + k" by (simp add: k_def Z_def)
  have "(100 * (C - 49) + k + march_month m div 11, march_month m + 2 - 12 * (march_month m div 11), d) = (y, m, d)"
    using month_cases [OF m] y' unfolding march_month_def march_year_def by (elim disjE) simp_all
  then show ?thesis
    unfolding civil_def Let_def n L1 i L2 month_of_day [OF m d] by simp
qed

section \<open>Julian days count days\<close>

lemma div_shift: "0 < k \<Longrightarrow> (z + k * c) div k = z div k + (c :: int)"
  by simp

lemma julian_century: "(3 * ((z + 4900) div 100)) div 4 = z div 100 - z div 400 + (36 :: int)"
proof -
  obtain c where c: "z div 100 = c" by blast
  obtain e where e: "c div 4 = e" by blast
  have "z div 400 = e" using zdiv_zmult2_eq [of 4 z 100] c e by simp
  moreover have "(z + 4900) div 100 = c + 49" using div_shift [of 100 z 49] c by simp
  moreover have "3 * (c + 49) div 4 = c - e + 36" by (rule div_eqI) (use div_bounds [OF _ e] in simp_all)
  ultimately show ?thesis using c by simp
qed

lemma julian_year: "(1461 * (z + 4800)) div 4 = 365 * z + z div 4 + (1753200 :: int)"
proof -
  have "1461 * (z + 4800) = z + 4 * (365 * z + 1753200)" by simp
  then show ?thesis using div_shift [of 4 z "365 * z + 1753200"] by simp
qed

lemma days_before_next_year:
  "- 1 \<le> z \<Longrightarrow> days_before_year (nat (z + 1)) = 366 + 365 * z + z div 4 - z div 100 + z div 400"
proof -
  assume z: "- 1 \<le> z"
  then have n: "int (nat (z + 1)) = z + 1" by simp
  have e: "z + 1 + 3 = z + 4 * 1" "z + 1 + 99 = z + 100 * 1" "z + 1 + 399 = z + 400 * 1" by simp_all
  have s: "(z + 4 * 1) div 4 = z div 4 + 1" "(z + 100 * 1) div 100 = z div 100 + 1"
    "(z + 400 * 1) div 400 = z div 400 + 1" by (rule div_shift; simp)+
  show ?thesis
    unfolding days_before_year n e s by simp
qed

lemma days_before_month:
  "1 \<le> m \<Longrightarrow> m \<le> 12 \<Longrightarrow> days_before_month y (nat (m - 1)) =
     367 * march_month m div 12 - 336 + (if m \<le> 2 then 0 else if leap y then 366 else 365)"
  by (frule (1) month_cases, elim disjE)
    (simp_all add: march_month_def eval_nat_numeral days_in_month_def)

lemma julian_day_number:
  assumes "valid_date y m d"
  shows "julian y m d = day_number y m d + 1721060"
proof -
  have m: "1 \<le> m" "m \<le> 12" and y: "0 \<le> y" using assms by (auto simp: valid_date_def)
  let ?z = "march_year y m"
  have z: "- 1 \<le> ?z" using y by (simp add: march_year_def)
  have year: "days_before_year (nat y) =
      days_before_year (nat (?z + 1)) - (if m \<le> 2 then 0 else if leap y then 366 else 365)"
  proof (cases "m \<le> 2")
    case False
    have "nat (y + 1) = Suc (nat y)" using y by simp
    with False y show ?thesis by (simp add: march_year_def)
  qed (simp add: march_year_def)
  show ?thesis
    unfolding julian_def day_number_def year days_before_month [OF m] days_before_next_year [OF z]
      julian_century julian_year by simp
qed

text \<open>Every number is the number of a date.\<close>

lemma date_of_number:
  obtains y m d where "valid_date y m d" "day_number y m d = int n"
proof (induction n arbitrary: thesis)
  case 0
  show thesis by (rule 0 [of 0 1 1]) (simp_all add: valid_date_def day_number_def days_in_month_def)
next
  case (Suc n)
  obtain y m d where v: "valid_date y m d" and n: "day_number y m d = int n" by (rule Suc.IH)
  have m: "1 \<le> m" "m \<le> 12" and y: "0 \<le> y" and d: "1 \<le> d" "d \<le> days_in_month y m" using v by (auto simp: valid_date_def)
  consider (day) "d < days_in_month y m" | (month) "d = days_in_month y m" "m < 12" | (year) "d = days_in_month y m" "m = 12"
    using d m by linarith
  then show thesis
  proof cases
    case day
    then show thesis using v n by (intro Suc.prems [of y m "d + 1"]) (auto simp: valid_date_def day_number_def)
  next
    case month
    have "nat m = Suc (nat (m - 1))" using m by simp
    then have "days_before_month y (nat m) = days_before_month y (nat (m - 1)) + days_in_month y m" using m by simp
    moreover have "1 \<le> days_in_month y (m + 1)" by (simp add: days_in_month_def)
    ultimately show thesis using v n month
      by (intro Suc.prems [of y "m + 1" 1]) (auto simp: valid_date_def day_number_def)
  next
    case year
    have "nat (y + 1) = Suc (nat y)" using y by simp
    moreover have "days_before_month y 11 = 334 + (if leap y then 1 else 0)"
      using days_before_month [of 12 y] by (simp add: march_month_def)
    ultimately show thesis using v n year y
      by (intro Suc.prems [of "y + 1" 1 1]) (auto simp: valid_date_def day_number_def days_in_month_def)
  qed
qed

lemma civil_early: "0 \<le> jd \<Longrightarrow> jd < 1721060 \<Longrightarrow> fst (civil jd) < 1900"
proof -
  assume jd: "0 \<le> jd" "jd < 1721060"
  then have "jd < 2 ^ 30" by simp
  with jd(1) obtain n L1 i L2 j L3 where e: "4 * (jd + 68569) div 146097 = n" "jd + 68569 - (146097 * n + 3) div 4 = L1"
    "4000 * (L1 + 1) div 1461001 = i" "L1 - 1461 * i div 4 + 31 = L2" "80 * L2 div 2447 = j" "j div 11 = L3"
    and b: "i \<le> 100" "L3 \<le> 130" by (rule civil_steps)
  have "n \<le> 48" using div_bounds [OF _ e(1)] jd by simp
  then show ?thesis using b unfolding civil_def Let_def e by simp
qed

section \<open>Adding days and seconds\<close>

definition valid_tm :: "tm \<Rightarrow> bool" where
  "valid_tm tm \<longleftrightarrow> valid_date (tm_year tm + 1900) (tm_mon tm + 1) (tm_mday tm) \<and> tm_year tm + 1900 \<le> 9999 \<and>
     0 \<le> tm_hour tm \<and> tm_hour tm < 24 \<and> 0 \<le> tm_min tm \<and> tm_min tm < 60 \<and> 0 \<le> tm_sec tm \<and> tm_sec tm < 60"

definition seconds :: "tm \<Rightarrow> int" where
  "seconds tm = 86400 * day_number (tm_year tm + 1900) (tm_mon tm + 1) (tm_mday tm) +
     (tm_hour tm * 3600 + tm_min tm * 60 + tm_sec tm)"

lemma day_number_bounds:
  assumes "valid_date y m d" "y \<le> 9999"
  shows "0 \<le> day_number y m d" "day_number y m d \<le> 4000000"
proof -
  have m: "1 \<le> m" "m \<le> 12" and y: "0 \<le> y" and d: "1 \<le> d" "d \<le> 31"
    using assms by (auto simp: valid_date_def days_in_month_def split: if_splits)
  have "mono days_before_year" by (rule mono_iff_le_Suc [THEN iffD2]) simp
  note up = monoD [OF this, of "nat y" 9999] monoD [OF this, of 0 "nat y"]
  have "days_before_year (nat y) \<le> days_before_year 9999" "days_before_year 0 \<le> days_before_year (nat y)"
    by (rule up; use assms(2) in simp)+
  then have "0 \<le> days_before_year (nat y)" "days_before_year (nat y) \<le> 3700000"
    unfolding days_before_year by simp_all
  moreover have "0 \<le> days_before_month y (nat (m - 1))" "days_before_month y (nat (m - 1)) \<le> 400"
    unfolding days_before_month [OF m] month_start [OF m] by simp_all
  ultimately show "0 \<le> day_number y m d" "day_number y m d \<le> 4000000"
    using d by (simp_all add: day_number_def)
qed

lemma sdiv_bounds:
  fixes x :: int
  assumes "x sdiv 86400 = q"
  shows "- 86400 < x - 86400 * q" "x - 86400 * q < 86400" "\<bar>86400 * q\<bar> \<le> \<bar>x\<bar>"
proof -
  have "x sdiv 86400 = (if 0 \<le> x then x div 86400 else - ((- x) div 86400))"
    by (simp add: signed_divide_int_def sgn_if)
  then show "- 86400 < x - 86400 * q" "x - 86400 * q < 86400" "\<bar>86400 * q\<bar> \<le> \<bar>x\<bar>"
    using assms div_bounds [of 86400 x q] div_bounds [of 86400 "- x" "- q"] by (auto split: if_splits)
qed

lemma julian_adj_eq:
  assumes tm: "valid_tm tm" and od: "\<bar>od\<bar> \<le> 10 ^ 8" and os: "\<bar>os\<bar> < 2 ^ 31"
  defines "t \<equiv> seconds tm + od * 86400 + os"
  shows "julian_adj tm od os =
    Some (if t div 86400 + 1721060 < 0 then None else Some (t div 86400 + 1721060, t mod 86400))"
proof -
  let ?y = "tm_year tm + 1900" and ?m = "tm_mon tm + 1" and ?d = "tm_mday tm"
  let ?n = "day_number ?y ?m ?d" and ?h = "tm_hour tm * 3600 + tm_min tm * 60 + tm_sec tm"
  have v: "valid_date ?y ?m ?d" "?y \<le> 9999" and h: "0 \<le> tm_hour tm" "tm_hour tm < 24" "0 \<le> tm_min tm" "tm_min tm < 60"
    "0 \<le> tm_sec tm" "tm_sec tm < 60" using tm by (auto simp: valid_tm_def)
  have ym: "0 \<le> ?y" "1 \<le> ?m" "?m \<le> 12" using v(1) by (auto simp: valid_date_def)
  note n = day_number_bounds [OF v]
  have jd: "date_to_julian ?y ?m ?d = Some (?n + 1721060)"
    using date_to_julian_eq [OF v] julian_day_number [OF v(1)] by simp
  obtain q where q: "os sdiv 86400 = q" by blast
  note q' = sdiv_bounds [OF q]
  have i: "to_int q = q" "to_int (os - q * 86400) = os - q * 86400"
    using q' os by (intro to_int_small; simp)+
  obtain k where k: "k = (if os - q * 86400 + ?h \<ge> 86400 then 1 else if os - q * 86400 + ?h < 0 then - 1 else (0 :: int))" by blast
  let ?r = "os - q * 86400 + ?h - 86400 * k"
  have r: "0 \<le> ?r" "?r < 86400" using q' h unfolding k by auto
  have t: "t = 86400 * (?n + od + q + k) + ?r" by (simp add: t_def seconds_def algebra_simps)
  have dm: "t div 86400 = ?n + od + q + k" "t mod 86400 = ?r"
    by (rule int_div_pos_eq [OF t r], rule int_mod_pos_eq [OF t r])
  have split: "(if os - q * 86400 + ?h \<ge> 86400 then (q + od + 1, os - q * 86400 + ?h - 86400)
      else if os - q * 86400 + ?h < 0 then (q + od - 1, os - q * 86400 + ?h + 86400)
      else (q + od, os - q * 86400 + ?h)) = (q + od + k, ?r)"
    unfolding k by simp
  have ints: "list_all is_int [q * 86400, q + od, tm_hour tm * 3600, tm_min tm * 60,
      tm_hour tm * 3600 + tm_min tm * 60, ?h, os - q * 86400 + ?h, q + od + k, ?r, ?y, ?m]"
    using q' os od h r ym v(2) by (auto simp: is_int_def k)
  have day: "SECS_PER_DAY = 86400" by (simp add: SECS_PER_DAY_def)
  show ?thesis
    unfolding julian_adj_def day Let_def q i split prod.case jd option.case dm
    using ints by (simp add: algebra_simps)
qed

lemma seconds_div: "valid_tm tm \<Longrightarrow>
    seconds tm div 86400 = day_number (tm_year tm + 1900) (tm_mon tm + 1) (tm_mday tm) \<and>
    seconds tm mod 86400 = tm_hour tm * 3600 + tm_min tm * 60 + tm_sec tm"
  unfolding seconds_def valid_tm_def
  by (intro conjI int_div_pos_eq [OF refl] int_mod_pos_eq [OF refl]) auto

lemma hms:
  fixes s :: int
  assumes "0 \<le> s" "s < 86400"
  shows "s sdiv 3600 * 3600 + (s sdiv 60) smod 60 * 60 + s smod 60 = s" "0 \<le> s sdiv 3600" "s sdiv 3600 < 24"
    "0 \<le> (s sdiv 60) smod 60" "(s sdiv 60) smod 60 < 60" "0 \<le> s smod 60" "s smod 60 < 60"
proof -
  have "s div 60 div 60 = s div 3600" using zdiv_zmult2_eq [of 60 s 60] by simp
  moreover have "s div 60 = 60 * (s div 60 div 60) + s div 60 mod 60" "s = 60 * (s div 60) + s mod 60" by simp_all
  ultimately have "s = 60 * (60 * (s div 3600) + s div 60 mod 60) + s mod 60" by metis
  moreover have "s div 3600 < 24" "0 \<le> s div 3600" using div_bounds [of 3600 s "s div 3600"] assms by simp_all
  moreover have s60: "0 \<le> s div 60" using assms by simp
  moreover have sd: "s sdiv 3600 = s div 3600" "s sdiv 60 = s div 60" "(s div 60) smod 60 = s div 60 mod 60" "s smod 60 = s mod 60"
    using assms s60 by (simp_all only: sdiv_div smod_mod)
  ultimately show "s sdiv 3600 * 3600 + (s sdiv 60) smod 60 * 60 + s smod 60 = s" "0 \<le> s sdiv 3600" "s sdiv 3600 < 24"
    "0 \<le> (s sdiv 60) smod 60" "(s sdiv 60) smod 60 < 60" "0 \<le> s smod 60" "s smod 60 < 60"
    unfolding sd by (simp_all add: algebra_simps)
qed

text \<open>C28: \<open>OPENSSL_gmtime_adj\<close> keeps times well formed and adds exactly.  On a valid time (a date of the
  Gregorian calendar from year 0 to 9999 and a time of day) and an offset of at most \<open>10 ^ 8\<close> days and
  fewer than \<open>2 ^ 31\<close> seconds, in any combination of signs, nothing overflows.  On success the result is a
  valid time from year 1900 on, exactly the offset later; it fails only when there is no such time.\<close>

theorem gmtime_adj_exact:
  assumes "valid_tm tm" "\<bar>off_day\<bar> \<le> 10 ^ 8" "\<bar>offset_sec\<bar> < 2 ^ 31"
  shows "case OPENSSL_gmtime_adj tm off_day offset_sec of
      None \<Rightarrow> False
    | Some None \<Rightarrow> \<nexists>tm'. valid_tm tm' \<and> 0 \<le> tm_year tm' \<and> seconds tm' = seconds tm + off_day * 86400 + offset_sec
    | Some (Some tm') \<Rightarrow> valid_tm tm' \<and> 0 \<le> tm_year tm' \<and> seconds tm' = seconds tm + off_day * 86400 + offset_sec"
proof -
  let ?t = "seconds tm + off_day * 86400 + offset_sec"
  let ?jd = "?t div 86400 + 1721060" and ?s = "?t mod 86400"
  note adj = julian_adj_eq [OF assms]
  have unique: "civil ?jd = (tm_year tm' + 1900, tm_mon tm' + 1, tm_mday tm')" "0 \<le> ?jd"
    if "valid_tm tm'" "0 \<le> tm_year tm'" "seconds tm' = ?t" for tm'
  proof -
    have v: "valid_date (tm_year tm' + 1900) (tm_mon tm' + 1) (tm_mday tm')" "tm_year tm' + 1900 \<le> 9999"
      using that(1) by (simp_all add: valid_tm_def)
    have "?jd = julian (tm_year tm' + 1900) (tm_mon tm' + 1) (tm_mday tm')"
      using seconds_div [OF that(1)] that(3) by (simp add: julian_day_number [OF v(1)])
    then show "civil ?jd = (tm_year tm' + 1900, tm_mon tm' + 1, tm_mday tm')" by (simp add: civil_julian [OF v(1)])
    show "0 \<le> ?jd" using seconds_div [OF that(1)] that(3) day_number_bounds(1) [OF v] by simp
  qed
  show ?thesis
  proof (cases "?jd < 0")
    case True
    then show ?thesis using adj unique(2) by (auto simp: OPENSSL_gmtime_adj_def)
  next
    case False
    have v: "valid_date (tm_year tm + 1900) (tm_mon tm + 1) (tm_mday tm)" "tm_year tm + 1900 \<le> 9999"
      using assms(1) by (simp_all add: valid_tm_def)
    have "seconds tm \<le> 86400 * 4000000 + 86400"
      using day_number_bounds(2) [OF v] assms(1) unfolding seconds_def valid_tm_def by simp
    then have "?t < 86400 * 150000000" using assms(2,3) by simp
    then have "?jd < 2 ^ 30" using div_bounds [of 86400 ?t "?t div 86400"] by simp
    then have cv: "julian_to_date ?jd = Some (civil ?jd)" using False by (intro julian_to_date_eq) simp_all
    obtain y m d where c: "civil ?jd = (y, m, d)" by (metis prod_cases3)
    show ?thesis
    proof (cases "y < 1900 \<or> y > 9999")
      case True
      have "\<not> (valid_tm tm' \<and> 0 \<le> tm_year tm' \<and> seconds tm' = ?t)" for tm'
        using unique(1) [of tm'] c True by (auto simp: valid_tm_def)
      then show ?thesis using adj cv c True False by (simp add: OPENSSL_gmtime_adj_def)
    next
      case in_range: False
      have "\<not> ?jd < 1721060" using civil_early [of ?jd] False c in_range by auto
      then have nat: "int (nat (?jd - 1721060)) = ?t div 86400" by simp
      obtain y' m' d' where dn: "valid_date y' m' d'" "day_number y' m' d' = ?t div 86400"
        using date_of_number [of "nat (?jd - 1721060)"] nat by metis
      then have "julian y' m' d' = ?jd" by (simp add: julian_day_number)
      with civil_julian [OF dn(1)] c have e: "y' = y" "m' = m" "d' = d" by simp_all
      let ?tm = "tm\<lparr>tm_year := y - 1900, tm_mon := m - 1, tm_mday := d,
         tm_hour := ?s sdiv 3600, tm_min := (?s sdiv 60) smod 60, tm_sec := ?s smod 60\<rparr>"
      have "0 \<le> ?s" "?s < 86400" by simp_all
      note s = hms [OF this]
      have "valid_tm ?tm" using dn(1) e in_range s by (simp add: valid_tm_def)
      moreover have "seconds ?tm = ?t" using dn(2) e s(1) by (simp add: seconds_def)
      moreover have "OPENSSL_gmtime_adj tm off_day offset_sec = Some (Some ?tm)"
        using adj cv c in_range False by (simp add: OPENSSL_gmtime_adj_def)
      ultimately show ?thesis using in_range by simp
    qed
  qed
qed

theorem gmtime_adj_exact_witness:
  "case OPENSSL_gmtime_adj \<lparr>tm_sec = 30, tm_min = 59, tm_hour = 23, tm_mday = 28, tm_mon = 1, tm_year = 124\<rparr> 0 31 of
      None \<Rightarrow> False
    | Some None \<Rightarrow> \<nexists>tm'. valid_tm tm' \<and> 0 \<le> tm_year tm' \<and> seconds tm' =
        seconds \<lparr>tm_sec = 30, tm_min = 59, tm_hour = 23, tm_mday = 28, tm_mon = 1, tm_year = 124\<rparr> + 0 * 86400 + 31
    | Some (Some tm') \<Rightarrow> valid_tm tm' \<and> 0 \<le> tm_year tm' \<and> seconds tm' =
        seconds \<lparr>tm_sec = 30, tm_min = 59, tm_hour = 23, tm_mday = 28, tm_mon = 1, tm_year = 124\<rparr> + 0 * 86400 + 31"
  by (rule gmtime_adj_exact) (simp_all add: valid_tm_def valid_date_def days_in_month_def)

text \<open>C29: \<open>OPENSSL_gmtime_diff\<close> undoes \<open>OPENSSL_gmtime_adj\<close>: for a valid time (a date of the Gregorian
  calendar from year 0 to 9999 and a time of day) and an offset of at most \<open>10 ^ 8\<close> days and fewer than
  \<open>2 ^ 31\<close> seconds that \<open>OPENSSL_gmtime_adj\<close> accepts, the days and seconds between the time and the adjusted
  one are computed, have one sign, fewer than a day's seconds, and add up to the offset.\<close>

theorem gmtime_diff_adj:
  assumes "valid_tm tm" "\<bar>off_day\<bar> \<le> 10 ^ 8" "\<bar>offset_sec\<bar> < 2 ^ 31"
    and "OPENSSL_gmtime_adj tm off_day offset_sec = Some (Some tm')"
  shows "\<exists>days secs. OPENSSL_gmtime_diff tm tm' = Some (Some (days, secs)) \<and> \<bar>secs\<bar> < 86400 \<and>
    0 \<le> days * secs \<and> days * 86400 + secs = off_day * 86400 + offset_sec"
proof -
  let ?T = "seconds tm" and ?T' = "seconds tm'"
  have tm': "valid_tm tm'" "?T' = ?T + off_day * 86400 + offset_sec"
    using gmtime_adj_exact [OF assms(1-3)] assms(4) by simp_all
  have days: "0 \<le> seconds x div 86400" "seconds x div 86400 \<le> 4000000" if "valid_tm x" for x
    using seconds_div [OF that] that day_number_bounds by (simp_all add: valid_tm_def)
  have adj: "julian_adj x 0 0 = Some (Some (seconds x div 86400 + 1721060, seconds x mod 86400))" if "valid_tm x" for x
    using julian_adj_eq [OF that, of 0 0] days [OF that] by simp
  obtain p r where p: "?T div 86400 = p" "?T mod 86400 = r" by blast
  obtain p' r' where p': "?T' div 86400 = p'" "?T' mod 86400 = r'" by blast
  have T: "?T = 86400 * p + r" "?T' = 86400 * p' + r'"
    using mult_div_mod_eq [of 86400 ?T] mult_div_mod_eq [of 86400 ?T'] p p' by simp_all
  have r: "0 \<le> r" "r < 86400" "0 \<le> r'" "r' < 86400"
    using p(2) p'(2) pos_mod_bound [of 86400 ?T] pos_mod_bound [of 86400 ?T']
      pos_mod_sign [of 86400 ?T] pos_mod_sign [of 86400 ?T'] by simp_all
  obtain D S where D: "D = p' - p" and S: "S = r' - r" by blast
  have sum: "D * 86400 + S = off_day * 86400 + offset_sec" unfolding D S using tm'(2) T by (simp add: algebra_simps)
  have b: "\<bar>S\<bar> < 86400" "- 4000000 \<le> D" "D \<le> 4000000"
    using days [OF assms(1)] days [OF tm'(1)] p p' r unfolding D S by simp_all
  have diff: "OPENSSL_gmtime_diff tm tm' =
    (let (D1, S1) = (if D > 0 \<and> S < 0 then (D - 1, S + 86400) else (D, S));
         (D2, S2) = (if D1 < 0 \<and> S1 > 0 then (D1 + 1, S1 - 86400) else (D1, S1))
     in Some (Some (to_int D2, S2)))"
    unfolding OPENSSL_gmtime_diff_def adj [OF assms(1)] adj [OF tm'(1)] p p' option.case prod.case D S SECS_PER_DAY_def
    by (simp only: add_diff_cancel_right Let_def) simp
  consider (up) "D > 0" "S < 0" | (down) "D < 0" "S > 0" | (same) "\<not> (D > 0 \<and> S < 0)" "\<not> (D < 0 \<and> S > 0)" by blast
  then show ?thesis
  proof cases
    case up
    then have "OPENSSL_gmtime_diff tm tm' = Some (Some (D - 1, S + 86400))"
      using b unfolding diff by (simp add: to_int_small)
    then show ?thesis using up b sum by (intro exI [of _ "D - 1"] exI [of _ "S + 86400"]) simp
  next
    case down
    then have "OPENSSL_gmtime_diff tm tm' = Some (Some (D + 1, S - 86400))"
      using b unfolding diff by (simp add: to_int_small)
    moreover have "0 \<le> (D + 1) * (S - 86400)" by (rule mult_nonpos_nonpos) (use down b in simp_all)
    ultimately show ?thesis using down b sum by (intro exI [of _ "D + 1"] exI [of _ "S - 86400"]) simp
  next
    case same
    then have "OPENSSL_gmtime_diff tm tm' = Some (Some (D, S))"
      using b unfolding diff by (auto simp: to_int_small)
    moreover have "0 \<le> D * S" using same by (auto simp: zero_le_mult_iff)
    ultimately show ?thesis using b sum by blast
  qed
qed

theorem gmtime_diff_adj_witness:
  "\<exists>tm'. OPENSSL_gmtime_adj \<lparr>tm_sec = 0, tm_min = 0, tm_hour = 0, tm_mday = 1, tm_mon = 2, tm_year = 100\<rparr> 0 (- 1) =
      Some (Some tm') \<and>
    (\<exists>days secs. OPENSSL_gmtime_diff \<lparr>tm_sec = 0, tm_min = 0, tm_hour = 0, tm_mday = 1, tm_mon = 2, tm_year = 100\<rparr> tm' =
      Some (Some (days, secs)) \<and> \<bar>secs\<bar> < 86400 \<and> 0 \<le> days * secs \<and> days * 86400 + secs = 0 * 86400 + (- 1))"
proof -
  let ?tm = "\<lparr>tm_sec = 0, tm_min = 0, tm_hour = 0, tm_mday = 1, tm_mon = 2, tm_year = 100\<rparr>"
  let ?tm' = "\<lparr>tm_sec = 59, tm_min = 59, tm_hour = 23, tm_mday = 29, tm_mon = 1, tm_year = 100\<rparr>"
  have adj: "OPENSSL_gmtime_adj ?tm 0 (- 1) = Some (Some ?tm')" by code_simp
  have "valid_tm ?tm" by (simp add: valid_tm_def valid_date_def days_in_month_def)
  from gmtime_diff_adj [OF this, of 0 "- 1" ?tm', OF _ _ adj] adj show ?thesis by auto
qed

text \<open>C38: The product of the day count and the seconds of a day is computed in \<open>int\<close>, before the
  remaining seconds are taken: an offset in seconds of at least 24856 days (about 68 years, far below what
  \<open>long\<close> holds) and fewer than \<open>2 ^ 31\<close> days overflows it, whatever the time and the days
  given apart.  (From \<open>2 ^ 31\<close> days on, the day count itself no longer fits into its \<open>int\<close>.)\<close>

theorem gmtime_adj_overflow:
  assumes "24856 * 86400 \<le> offset_sec" "offset_sec < 2 ^ 31 * 86400"
  shows "OPENSSL_gmtime_adj tm off_day offset_sec = None"
proof -
  obtain q where q: "offset_sec sdiv 86400 = q" by blast
  have "q = offset_sec div 86400" using q assms by (simp add: sdiv_div)
  then have "24856 \<le> q" "q < 2 ^ 31" using div_bounds [of 86400 offset_sec q] assms by simp_all
  then have "\<not> is_int (to_int q * 86400)" by (simp add: to_int_small is_int_def)
  then have "julian_adj tm off_day offset_sec = None"
    unfolding julian_adj_def Let_def by (simp add: SECS_PER_DAY_def q)
  then show ?thesis by (simp add: OPENSSL_gmtime_adj_def)
qed

theorem gmtime_adj_overflow_witness:
  "OPENSSL_gmtime_adj \<lparr>tm_sec = 0, tm_min = 0, tm_hour = 0, tm_mday = 1, tm_mon = 0, tm_year = 70\<rparr> 0 2200000000 = None"
  by (rule gmtime_adj_overflow) simp_all

end
