(* ===== verification/Bn.thy ===== *)
theory Bn
  imports Const_Time
begin

text \<open>
  Big numbers (\<open>BoringSSL-GRPC/crypto/fipsmodule/bn\<close>): \<open>bn.c\<close>, \<open>cmp.c\<close>, \<open>add.c\<close> and the word
  loops for them of \<open>generic.c\<close>, on a 64-bit target with 128-bit integers and without assembly.
  An array of words is a list; \<open>d\<close> of a \<open>BIGNUM\<close> has all its \<open>dmax\<close> words.  A function that writes
  to \<open>r\<close> takes the old \<open>r\<close> and gives the new one, on failure too.  The operands are passed as values:
  the code reads each word of an operand before it writes the word of \<open>r\<close> with that index, and copies
  the fields it needs later, so \<open>r\<close> may be the same object as an operand.
  \<open>alloc n\<close> says that \<open>malloc\<close> gives \<open>n\<close> bytes, and \<open>junk n\<close> is what \<open>n\<close> new words hold.
\<close>

section \<open>Big numbers\<close>

type_synonym BN_ULONG = "64 word"
type_synonym BN_ULLONG = "128 word"

record BIGNUM =
  d :: "BN_ULONG list"
  width :: nat
  neg :: bool
  static_data :: bool

definition BN_init :: BIGNUM where
  "BN_init = \<lparr>d = [], width = 0, neg = False, static_data = False\<rparr>"

text \<open>40 is \<open>sizeof(BIGNUM)\<close>.\<close>

definition BN_new :: "(nat \<Rightarrow> bool) \<Rightarrow> BIGNUM option" where
  "BN_new alloc = (if alloc 40 then Some BN_init else None)"

definition BN_value_one :: BIGNUM where
  "BN_value_one = \<lparr>d = [1], width = 1, neg = False, static_data = True\<rparr>"

definition bn_wexpand :: "(nat \<Rightarrow> bool) \<Rightarrow> (nat \<Rightarrow> BN_ULONG list) \<Rightarrow> nat \<Rightarrow> BIGNUM \<Rightarrow> bool \<times> BIGNUM" where
  "bn_wexpand alloc junk words bn =
     (if words \<le> length (d bn) then (True, bn)
      else if words > (2 ^ 31 - 1) div (4 * 64) then (False, bn)
      else if static_data bn then (False, bn)
      else if \<not> alloc (8 * words) then (False, bn)
      else (True, bn\<lparr>d := take (width bn) (d bn) @ drop (width bn) (junk words)\<rparr>))"

definition bn_expand :: "(nat \<Rightarrow> bool) \<Rightarrow> (nat \<Rightarrow> BN_ULONG list) \<Rightarrow> size_t \<Rightarrow> BIGNUM \<Rightarrow> bool \<times> BIGNUM" where
  "bn_expand alloc junk bits bn =
     (if bits + 64 - 1 < bits then (False, bn)
      else bn_wexpand alloc junk (unat ((bits + 64 - 1) div 64)) bn)"

text \<open>\<open>memcpy\<close> of a list to the start of an array.\<close>

definition store :: "'a list \<Rightarrow> 'a list \<Rightarrow> 'a list" where
  "store xs arr = xs @ drop (length xs) arr"

definition BN_copy ::
  "(nat \<Rightarrow> bool) \<Rightarrow> (nat \<Rightarrow> BN_ULONG list) \<Rightarrow> BIGNUM \<Rightarrow> BIGNUM \<Rightarrow> bool \<times> BIGNUM" where
  "BN_copy alloc junk dest src =
     (case bn_wexpand alloc junk (width src) dest of
        (False, dest1) \<Rightarrow> (False, dest1)
      | (True, dest1) \<Rightarrow>
          (True, dest1\<lparr>d := store (take (width src) (d src)) (d dest1), width := width src, neg := neg src\<rparr>))"

definition BN_dup :: "(nat \<Rightarrow> bool) \<Rightarrow> (nat \<Rightarrow> BN_ULONG list) \<Rightarrow> BIGNUM option \<Rightarrow> BIGNUM option" where
  "BN_dup alloc junk src =
     (case src of
        None \<Rightarrow> None
      | Some s \<Rightarrow>
          (case BN_new alloc of
             None \<Rightarrow> None
           | Some copy \<Rightarrow> (case BN_copy alloc junk copy s of (True, c) \<Rightarrow> Some c | (False, _) \<Rightarrow> None)))"

definition BN_clear :: "BIGNUM \<Rightarrow> BIGNUM" where
  "BN_clear bn = bn\<lparr>d := replicate (length (d bn)) 0, width := 0, neg := False\<rparr>"

definition BN_zero :: "BIGNUM \<Rightarrow> BIGNUM" where
  "BN_zero bn = bn\<lparr>width := 0, neg := False\<rparr>"

definition BN_set_word ::
  "(nat \<Rightarrow> bool) \<Rightarrow> (nat \<Rightarrow> BN_ULONG list) \<Rightarrow> BN_ULONG \<Rightarrow> BIGNUM \<Rightarrow> bool \<times> BIGNUM" where
  "BN_set_word alloc junk v bn =
     (if v = 0 then (True, BN_zero bn)
      else
        case bn_wexpand alloc junk 1 bn of
          (False, bn1) \<Rightarrow> (False, bn1)
        | (True, bn1) \<Rightarrow> (True, bn1\<lparr>neg := False, d := store [v] (d bn1), width := 1\<rparr>))"

definition BN_one :: "(nat \<Rightarrow> bool) \<Rightarrow> (nat \<Rightarrow> BN_ULONG list) \<Rightarrow> BIGNUM \<Rightarrow> bool \<times> BIGNUM" where
  "BN_one alloc junk = BN_set_word alloc junk 1"

definition BN_set_u64 ::
  "(nat \<Rightarrow> bool) \<Rightarrow> (nat \<Rightarrow> BN_ULONG list) \<Rightarrow> u64 \<Rightarrow> BIGNUM \<Rightarrow> bool \<times> BIGNUM" where
  "BN_set_u64 alloc junk v = BN_set_word alloc junk v"

definition bn_set_words ::
  "(nat \<Rightarrow> bool) \<Rightarrow> (nat \<Rightarrow> BN_ULONG list) \<Rightarrow> BN_ULONG list \<Rightarrow> BIGNUM \<Rightarrow> bool \<times> BIGNUM" where
  "bn_set_words alloc junk words bn =
     (case bn_wexpand alloc junk (length words) bn of
        (False, bn1) \<Rightarrow> (False, bn1)
      | (True, bn1) \<Rightarrow> (True, bn1\<lparr>d := store words (d bn1), width := length words, neg := False\<rparr>))"

text \<open>The or of words, as the loops that look for a non-zero one compute it.\<close>

primrec or_words :: "BN_ULONG \<Rightarrow> BN_ULONG list \<Rightarrow> BN_ULONG" where
  "or_words m [] = m"
| "or_words m (w # ws) = or_words (m OR w) ws"

definition bn_fits_in_words :: "BIGNUM \<Rightarrow> nat \<Rightarrow> bool" where
  "bn_fits_in_words bn num \<longleftrightarrow> or_words 0 (drop num (take (width bn) (d bn))) = 0"

definition bn_copy_words :: "nat \<Rightarrow> BIGNUM \<Rightarrow> BN_ULONG list option" where
  "bn_copy_words num bn =
     (if neg bn then None
      else if width bn > num \<and> \<not> bn_fits_in_words bn num then None
      else
        let w = (if width bn > num then num else width bn)
        in Some (store (take w (d bn)) (replicate num 0)))"

definition BN_is_zero :: "BIGNUM \<Rightarrow> bool" where
  "BN_is_zero bn = bn_fits_in_words bn 0"

definition BN_is_negative :: "BIGNUM \<Rightarrow> bool" where
  "BN_is_negative bn = neg bn"

definition BN_set_negative :: "bool \<Rightarrow> BIGNUM \<Rightarrow> BIGNUM" where
  "BN_set_negative sign bn = (if sign \<and> \<not> BN_is_zero bn then bn\<lparr>neg := True\<rparr> else bn\<lparr>neg := False\<rparr>)"

definition bn_resize_words ::
  "(nat \<Rightarrow> bool) \<Rightarrow> (nat \<Rightarrow> BN_ULONG list) \<Rightarrow> nat \<Rightarrow> BIGNUM \<Rightarrow> bool \<times> BIGNUM" where
  "bn_resize_words alloc junk words bn =
     (if width bn \<le> words
      then
        case bn_wexpand alloc junk words bn of
          (False, bn1) \<Rightarrow> (False, bn1)
        | (True, bn1) \<Rightarrow>
            (True, bn1\<lparr>d := take (width bn) (d bn1) @ replicate (words - width bn) 0 @ drop words (d bn1), width := words\<rparr>)
      else if \<not> bn_fits_in_words bn words then (False, bn)
      else (True, bn\<lparr>width := words\<rparr>))"

definition bn_select_words :: "BN_ULONG \<Rightarrow> BN_ULONG list \<Rightarrow> BN_ULONG list \<Rightarrow> BN_ULONG list" where
  "bn_select_words msk a b = map2 (constant_time_select_w msk) a b"

primrec minimal_width_loop :: "BN_ULONG list \<Rightarrow> nat \<Rightarrow> nat" where
  "minimal_width_loop ds 0 = 0"
| "minimal_width_loop ds (Suc ret) = (if ds ! ret = 0 then minimal_width_loop ds ret else Suc ret)"

definition bn_minimal_width :: "BIGNUM \<Rightarrow> nat" where
  "bn_minimal_width bn = minimal_width_loop (d bn) (width bn)"

definition bn_set_minimal_width :: "BIGNUM \<Rightarrow> BIGNUM" where
  "bn_set_minimal_width bn =
     (let bn1 = bn\<lparr>width := bn_minimal_width bn\<rparr> in if width bn1 = 0 then bn1\<lparr>neg := False\<rparr> else bn1)"

text \<open>\<open>BN_num_bits_word\<close>: one of its six blocks, then all of them; \<open>int\<close> has 32 bits.\<close>

definition num_bits_step :: "nat \<Rightarrow> u32 \<times> BN_ULONG \<Rightarrow> u32 \<times> BN_ULONG" where
  "num_bits_step k = (\<lambda>(bits, l).
     let x = drop_bit k l; m = 0 - drop_bit 63 (0 - x)
     in (bits + ucast (of_nat k AND m), l XOR ((x XOR l) AND m)))"

definition BN_num_bits_word :: "BN_ULONG \<Rightarrow> u32" where
  "BN_num_bits_word l =
     fst (num_bits_step 1 (num_bits_step 2 (num_bits_step 4 (num_bits_step 8 (num_bits_step 16
       (num_bits_step 32 (of_bool (l \<noteq> 0), l)))))))"

definition BN_num_bits :: "BIGNUM \<Rightarrow> u32" where
  "BN_num_bits bn =
     (let w = bn_minimal_width bn in
      if w = 0 then 0 else of_nat ((w - 1) * 64) + BN_num_bits_word (d bn ! (w - 1)))"

definition BN_num_bytes :: "BIGNUM \<Rightarrow> u32" where
  "BN_num_bytes bn = (BN_num_bits bn + 7) div 8"

section \<open>Comparison\<close>

primrec cmp_loop :: "32 word \<Rightarrow> (BN_ULONG \<times> BN_ULONG) list \<Rightarrow> 32 word" where
  "cmp_loop ret [] = ret"
| "cmp_loop ret (p # ps) =
     (let eq = constant_time_eq_w (fst p) (snd p); lt = constant_time_lt_w (fst p) (snd p)
      in cmp_loop (constant_time_select_int eq ret (constant_time_select_int lt (- 1) 1)) ps)"

definition bn_cmp_words_consttime :: "BN_ULONG list \<Rightarrow> BN_ULONG list \<Rightarrow> 32 word" where
  "bn_cmp_words_consttime a b =
     (let n = (if length a < length b then length a else length b);
          ret = cmp_loop 0 (zip (take n a) (take n b))
      in if length a < length b
         then constant_time_select_int (constant_time_is_zero_w (or_words 0 (drop (length a) b))) ret (- 1)
         else if length b < length a
         then constant_time_select_int (constant_time_is_zero_w (or_words 0 (drop (length b) a))) ret 1
         else ret)"

definition BN_ucmp :: "BIGNUM \<Rightarrow> BIGNUM \<Rightarrow> 32 word" where
  "BN_ucmp a b = bn_cmp_words_consttime (take (width a) (d a)) (take (width b) (d b))"

definition BN_cmp :: "BIGNUM option \<Rightarrow> BIGNUM option \<Rightarrow> 32 word" where
  "BN_cmp a b =
     (case (a, b) of
        (Some x, None) \<Rightarrow> - 1
      | (None, Some y) \<Rightarrow> 1
      | (None, None) \<Rightarrow> 0
      | (Some x, Some y) \<Rightarrow>
          if neg x \<noteq> neg y then (if neg x then - 1 else 1)
          else let ret = BN_ucmp x y in if neg x then - ret else ret)"

definition bn_less_than_words :: "BN_ULONG list \<Rightarrow> BN_ULONG list \<Rightarrow> bool" where
  "bn_less_than_words a b \<longleftrightarrow> sint (bn_cmp_words_consttime a b) < 0"

definition BN_abs_is_word :: "BIGNUM \<Rightarrow> BN_ULONG \<Rightarrow> bool" where
  "BN_abs_is_word bn w =
     (if width bn = 0 then w = 0
      else or_words ((d bn ! 0) XOR w) (drop 1 (take (width bn) (d bn))) = 0)"

definition BN_cmp_word :: "BIGNUM \<Rightarrow> BN_ULONG \<Rightarrow> 32 word" where
  "BN_cmp_word a b =
     BN_cmp (Some a) (Some (BN_init\<lparr>d := [b], width := (if b > 0 then 1 else 0), static_data := True\<rparr>))"

definition BN_is_one :: "BIGNUM \<Rightarrow> bool" where
  "BN_is_one bn \<longleftrightarrow> \<not> neg bn \<and> BN_abs_is_word bn 1"

definition BN_is_word :: "BIGNUM \<Rightarrow> BN_ULONG \<Rightarrow> bool" where
  "BN_is_word bn w \<longleftrightarrow> BN_abs_is_word bn w \<and> (w = 0 \<or> \<not> neg bn)"

definition BN_is_odd :: "BIGNUM \<Rightarrow> bool" where
  "BN_is_odd bn \<longleftrightarrow> width bn > 0 \<and> (d bn ! 0) AND 1 = 1"

definition BN_is_pow2 :: "BIGNUM \<Rightarrow> bool" where
  "BN_is_pow2 bn =
     (let w = bn_minimal_width bn in
      if w = 0 \<or> neg bn then False
      else if \<not> list_all (\<lambda>x. x = 0) (take (w - 1) (d bn)) then False
      else (d bn ! (w - 1)) AND (d bn ! (w - 1) - 1) = 0)"

definition BN_equal_consttime :: "BIGNUM \<Rightarrow> BIGNUM \<Rightarrow> bool" where
  "BN_equal_consttime a b =
     (let x = take (width a) (d a); y = take (width b) (d b);
          m1 = or_words 0 (drop (width a) y);
          m2 = or_words m1 (drop (width b) x);
          m3 = or_words m2 (map2 (XOR) x y)
      in m3 OR of_bool (neg a \<noteq> neg b) = 0)"

end
