(* ===== verification/Bn_Add.thy ===== *)
theory Bn_Add
  imports Bn
begin

text \<open>
  Addition and subtraction of big numbers: the word loops of \<open>bn/generic.c\<close> (with 128-bit
  integers), and \<open>bn/add.c\<close>.
\<close>

section \<open>Words\<close>

text \<open>One word of \<open>bn_add_words\<close>: the word of \<open>r\<close> and \<open>ll\<close> for the next.\<close>

definition add_step :: "BN_ULLONG \<Rightarrow> BN_ULONG \<Rightarrow> BN_ULONG \<Rightarrow> BN_ULONG \<times> BN_ULLONG" where
  "add_step ll a b = (let ll1 = ll + (ucast a + ucast b) in (ucast ll1, drop_bit 64 ll1))"

text \<open>The second loop, and the first one, which takes four words at a time.\<close>

fun add_words_1 :: "BN_ULLONG \<Rightarrow> BN_ULONG list \<Rightarrow> BN_ULONG list \<Rightarrow> BN_ULONG list \<times> BN_ULLONG" where
  "add_words_1 ll (a # as) (b # bs) =
     (let (r, ll1) = add_step ll a b; (rs, ll2) = add_words_1 ll1 as bs in (r # rs, ll2))"
| "add_words_1 ll _ _ = ([], ll)"

fun add_words_4 :: "BN_ULLONG \<Rightarrow> BN_ULONG list \<Rightarrow> BN_ULONG list \<Rightarrow> BN_ULONG list \<times> BN_ULLONG" where
  "add_words_4 ll (a0 # a1 # a2 # a3 # as) (b0 # b1 # b2 # b3 # bs) =
     (let (r0, ll1) = add_step ll a0 b0; (r1, ll2) = add_step ll1 a1 b1;
          (r2, ll3) = add_step ll2 a2 b2; (r3, ll4) = add_step ll3 a3 b3;
          (rs, ll5) = add_words_4 ll4 as bs
      in (r0 # r1 # r2 # r3 # rs, ll5))"
| "add_words_4 ll as bs = add_words_1 ll as bs"

text \<open>The words of \<open>r\<close> and the carry; \<open>a\<close> and \<open>b\<close> have \<open>n\<close> words or more.\<close>

definition bn_add_words :: "BN_ULONG list \<Rightarrow> BN_ULONG list \<Rightarrow> nat \<Rightarrow> BN_ULONG list \<times> BN_ULONG" where
  "bn_add_words a b n =
     (if n = 0 then ([], 0)
      else let (rs, ll) = add_words_4 0 (take n a) (take n b) in (rs, ucast ll))"

definition sub_step :: "bool \<Rightarrow> BN_ULONG \<Rightarrow> BN_ULONG \<Rightarrow> BN_ULONG \<times> bool" where
  "sub_step c t1 t2 = (t1 - t2 - of_bool c, if t1 \<noteq> t2 then t1 < t2 else c)"

fun sub_words_1 :: "bool \<Rightarrow> BN_ULONG list \<Rightarrow> BN_ULONG list \<Rightarrow> BN_ULONG list \<times> bool" where
  "sub_words_1 c (a # as) (b # bs) =
     (let (r, c1) = sub_step c a b; (rs, c2) = sub_words_1 c1 as bs in (r # rs, c2))"
| "sub_words_1 c _ _ = ([], c)"

fun sub_words_4 :: "bool \<Rightarrow> BN_ULONG list \<Rightarrow> BN_ULONG list \<Rightarrow> BN_ULONG list \<times> bool" where
  "sub_words_4 c (a0 # a1 # a2 # a3 # as) (b0 # b1 # b2 # b3 # bs) =
     (let (r0, c1) = sub_step c a0 b0; (r1, c2) = sub_step c1 a1 b1;
          (r2, c3) = sub_step c2 a2 b2; (r3, c4) = sub_step c3 a3 b3;
          (rs, c5) = sub_words_4 c4 as bs
      in (r0 # r1 # r2 # r3 # rs, c5))"
| "sub_words_4 c as bs = sub_words_1 c as bs"

definition bn_sub_words :: "BN_ULONG list \<Rightarrow> BN_ULONG list \<Rightarrow> nat \<Rightarrow> BN_ULONG list \<times> BN_ULONG" where
  "bn_sub_words a b n =
     (if n = 0 then ([], 0)
      else let (rs, c) = sub_words_4 False (take n a) (take n b) in (rs, of_bool c))"

section \<open>Addition and subtraction of absolute values\<close>

text \<open>The loops over the words that only \<open>a\<close> has.\<close>

primrec carry_loop :: "BN_ULONG \<Rightarrow> BN_ULONG list \<Rightarrow> BN_ULONG list \<times> BN_ULONG" where
  "carry_loop carry [] = ([], carry)"
| "carry_loop carry (x # xs) =
     (let tmp = carry + x; (rs, c) = carry_loop (of_bool (tmp < x)) xs in (tmp # rs, c))"

primrec borrow_loop :: "BN_ULONG \<Rightarrow> BN_ULONG list \<Rightarrow> BN_ULONG list \<times> BN_ULONG" where
  "borrow_loop borrow [] = ([], borrow)"
| "borrow_loop borrow (x # xs) =
     (let tmp = x; y = x - borrow; (rs, c) = borrow_loop (of_bool (tmp < y)) xs in (y # rs, c))"

definition bn_uadd_consttime ::
  "(nat \<Rightarrow> bool) \<Rightarrow> (nat \<Rightarrow> BN_ULONG list) \<Rightarrow> BIGNUM \<Rightarrow> BIGNUM \<Rightarrow> BIGNUM \<Rightarrow> bool \<times> BIGNUM" where
  "bn_uadd_consttime alloc junk r a0 b0 =
     (let (a, b) = (if width a0 < width b0 then (b0, a0) else (a0, b0));
          hi = width a; lo = width b
      in case bn_wexpand alloc junk (hi + 1) r of
           (False, r1) \<Rightarrow> (False, r1)
         | (True, r1) \<Rightarrow>
             let (rs, carry) = bn_add_words (d a) (d b) lo;
                 (ts, carry1) = carry_loop carry (drop lo (take hi (d a)))
             in (True, r1\<lparr>width := hi + 1, d := store (rs @ ts @ [carry1]) (d r1)\<rparr>))"

definition BN_uadd ::
  "(nat \<Rightarrow> bool) \<Rightarrow> (nat \<Rightarrow> BN_ULONG list) \<Rightarrow> BIGNUM \<Rightarrow> BIGNUM \<Rightarrow> BIGNUM \<Rightarrow> bool \<times> BIGNUM" where
  "BN_uadd alloc junk r a b =
     (case bn_uadd_consttime alloc junk r a b of
        (False, r1) \<Rightarrow> (False, r1)
      | (True, r1) \<Rightarrow> (True, bn_set_minimal_width r1))"

text \<open>The words are stored before the borrow is looked at.\<close>

definition bn_usub_consttime ::
  "(nat \<Rightarrow> bool) \<Rightarrow> (nat \<Rightarrow> BN_ULONG list) \<Rightarrow> BIGNUM \<Rightarrow> BIGNUM \<Rightarrow> BIGNUM \<Rightarrow> bool \<times> BIGNUM" where
  "bn_usub_consttime alloc junk r a b =
     (if width b > width a \<and> \<not> bn_fits_in_words b (width a) then (False, r)
      else
        let b_width = (if width b > width a then width a else width b) in
        case bn_wexpand alloc junk (width a) r of
          (False, r1) \<Rightarrow> (False, r1)
        | (True, r1) \<Rightarrow>
            let (rs, borrow) = bn_sub_words (d a) (d b) b_width;
                (ts, borrow1) = borrow_loop borrow (drop b_width (take (width a) (d a)));
                r2 = r1\<lparr>d := store (rs @ ts) (d r1)\<rparr>
            in if borrow1 \<noteq> 0 then (False, r2)
               else (True, r2\<lparr>width := width a, neg := False\<rparr>))"

definition BN_usub ::
  "(nat \<Rightarrow> bool) \<Rightarrow> (nat \<Rightarrow> BN_ULONG list) \<Rightarrow> BIGNUM \<Rightarrow> BIGNUM \<Rightarrow> BIGNUM \<Rightarrow> bool \<times> BIGNUM" where
  "BN_usub alloc junk r a b =
     (case bn_usub_consttime alloc junk r a b of
        (False, r1) \<Rightarrow> (False, r1)
      | (True, r1) \<Rightarrow> (True, bn_set_minimal_width r1))"

section \<open>Signed addition and subtraction\<close>

text \<open>The tail of \<open>BN_add\<close> and \<open>BN_sub\<close> that subtracts two absolute values.\<close>

definition signed_usub ::
  "(nat \<Rightarrow> bool) \<Rightarrow> (nat \<Rightarrow> BN_ULONG list) \<Rightarrow> BIGNUM \<Rightarrow> BIGNUM \<Rightarrow> BIGNUM \<Rightarrow> bool \<times> BIGNUM" where
  "signed_usub alloc junk r a b =
     (if sint (BN_ucmp a b) < 0
      then (case BN_usub alloc junk r b a of (False, r1) \<Rightarrow> (False, r1) | (True, r1) \<Rightarrow> (True, r1\<lparr>neg := True\<rparr>))
      else (case BN_usub alloc junk r a b of (False, r1) \<Rightarrow> (False, r1) | (True, r1) \<Rightarrow> (True, r1\<lparr>neg := False\<rparr>)))"

definition BN_add ::
  "(nat \<Rightarrow> bool) \<Rightarrow> (nat \<Rightarrow> BN_ULONG list) \<Rightarrow> BIGNUM \<Rightarrow> BIGNUM \<Rightarrow> BIGNUM \<Rightarrow> bool \<times> BIGNUM" where
  "BN_add alloc junk r a b =
     (if neg a \<noteq> neg b
      then (let (a1, b1) = (if neg a then (b, a) else (a, b)) in signed_usub alloc junk r a1 b1)
      else (let (ret, r1) = BN_uadd alloc junk r a b in (ret, r1\<lparr>neg := neg a\<rparr>)))"

definition BN_sub ::
  "(nat \<Rightarrow> bool) \<Rightarrow> (nat \<Rightarrow> BN_ULONG list) \<Rightarrow> BIGNUM \<Rightarrow> BIGNUM \<Rightarrow> BIGNUM \<Rightarrow> bool \<times> BIGNUM" where
  "BN_sub alloc junk r a b =
     (let (add, n, a1, b1) =
            (if neg a then (if neg b then (False, False, b, a) else (True, True, a, b))
             else if neg b then (True, False, a, b) else (False, False, a, b))
      in if add
         then (case BN_uadd alloc junk r a1 b1 of (False, r1) \<Rightarrow> (False, r1) | (True, r1) \<Rightarrow> (True, r1\<lparr>neg := n\<rparr>))
         else signed_usub alloc junk r a1 b1)"

section \<open>Adding and subtracting a word\<close>

text \<open>
  The carry loop of \<open>BN_add_word\<close>: the new words and what is left to add.  \<open>add_word_abs\<close> is the part
  of \<open>BN_add_word\<close> for a number that is not negative, and \<open>sub_word_abs\<close> that of \<open>BN_sub_word\<close>; each
  calls the other one only on such a number.
\<close>

primrec add_word_loop :: "BN_ULONG \<Rightarrow> BN_ULONG list \<Rightarrow> BN_ULONG list \<times> BN_ULONG" where
  "add_word_loop w [] = ([], w)"
| "add_word_loop w (x # xs) =
     (if w = 0 then (x # xs, 0)
      else let l = x + w; (rs, c) = add_word_loop (if w > l then 1 else 0) xs in (l # rs, c))"

definition add_word_abs ::
  "(nat \<Rightarrow> bool) \<Rightarrow> (nat \<Rightarrow> BN_ULONG list) \<Rightarrow> BN_ULONG \<Rightarrow> BIGNUM \<Rightarrow> bool \<times> BIGNUM" where
  "add_word_abs alloc junk w a =
     (let (rs, w1) = add_word_loop w (take (width a) (d a)); a1 = a\<lparr>d := store rs (d a)\<rparr> in
      if w1 \<noteq> 0
      then
        case bn_wexpand alloc junk (width a1 + 1) a1 of
          (False, a2) \<Rightarrow> (False, a2)
        | (True, a2) \<Rightarrow> (True, a2\<lparr>width := width a2 + 1, d := (d a2)[width a2 := w1]\<rparr>)
      else (True, a1))"

text \<open>
  The endless loop of \<open>BN_sub_word\<close>: the new words and the index it stops at, or nothing when it would
  leave the valid words.
\<close>

primrec sub_word_loop :: "BN_ULONG \<Rightarrow> nat \<Rightarrow> BN_ULONG list \<Rightarrow> (BN_ULONG list \<times> nat) option" where
  "sub_word_loop w i [] = None"
| "sub_word_loop w i (x # xs) =
     (if x \<ge> w then Some ((x - w) # xs, i)
      else map_option (\<lambda>(rs, k). ((x - w) # rs, k)) (sub_word_loop 1 (Suc i) xs))"

definition sub_word_abs :: "BN_ULONG \<Rightarrow> BIGNUM \<Rightarrow> (bool \<times> BIGNUM) option" where
  "sub_word_abs w a =
     (if bn_minimal_width a = 1 \<and> d a ! 0 < w
      then Some (True, a\<lparr>d := (d a)[0 := w - d a ! 0], neg := True\<rparr>)
      else
        case sub_word_loop w 0 (take (width a) (d a)) of
          None \<Rightarrow> None
        | Some (rs, i) \<Rightarrow>
            let a1 = a\<lparr>d := store rs (d a)\<rparr> in
            Some (True, if d a1 ! i = 0 \<and> i = width a1 - 1 then a1\<lparr>width := width a1 - 1\<rparr> else a1))"

definition BN_add_word ::
  "(nat \<Rightarrow> bool) \<Rightarrow> (nat \<Rightarrow> BN_ULONG list) \<Rightarrow> BN_ULONG \<Rightarrow> BIGNUM \<Rightarrow> (bool \<times> BIGNUM) option" where
  "BN_add_word alloc junk w a =
     (if w = 0 then Some (True, a)
      else if BN_is_zero a then Some (BN_set_word alloc junk w a)
      else if neg a
      then map_option (\<lambda>(ret, a1). (ret, if BN_is_zero a1 then a1 else a1\<lparr>neg := \<not> neg a1\<rparr>))
             (sub_word_abs w (a\<lparr>neg := False\<rparr>))
      else Some (add_word_abs alloc junk w a))"

definition BN_sub_word ::
  "(nat \<Rightarrow> bool) \<Rightarrow> (nat \<Rightarrow> BN_ULONG list) \<Rightarrow> BN_ULONG \<Rightarrow> BIGNUM \<Rightarrow> (bool \<times> BIGNUM) option" where
  "BN_sub_word alloc junk w a =
     (if w = 0 then Some (True, a)
      else if BN_is_zero a
      then Some (case BN_set_word alloc junk w a of
                   (False, a1) \<Rightarrow> (False, a1) | (True, a1) \<Rightarrow> (True, BN_set_negative True a1))
      else if neg a
      then Some (let (ret, a1) = add_word_abs alloc junk w (a\<lparr>neg := False\<rparr>) in (ret, a1\<lparr>neg := True\<rparr>))
      else sub_word_abs w a)"

end
