(* ===== verification/Bn_Bytes.thy ===== *)
theory Bn_Bytes
  imports Bn
begin

text \<open>
  Conversions between big numbers and byte strings (\<open>bn/bytes.c\<close>).  A null \<open>ret\<close> is \<open>None\<close>; the
  machine is little-endian, so the bytes of the array of words are those of each word, low byte first.
\<close>

text \<open>The loop of \<open>BN_bin2bn\<close>: \<open>m\<close> bytes are missing of the current word, and one more.\<close>

primrec bin_loop :: "byte list \<Rightarrow> BN_ULONG \<Rightarrow> nat \<Rightarrow> nat \<Rightarrow> BN_ULONG list \<Rightarrow> BN_ULONG list" where
  "bin_loop [] word m num_words ds = ds"
| "bin_loop (x # xs) word m num_words ds =
     (let w = push_bit 8 word OR ucast x in
      if m = 0 then bin_loop xs 0 (8 - 1) (num_words - 1) (ds[num_words - 1 := w])
      else bin_loop xs w (m - 1) num_words ds)"

definition BN_bin2bn ::
  "(nat \<Rightarrow> bool) \<Rightarrow> (nat \<Rightarrow> BN_ULONG list) \<Rightarrow> byte list \<Rightarrow> BIGNUM option \<Rightarrow> BIGNUM option" where
  "BN_bin2bn alloc junk bs ret0 =
     (case (case ret0 of None \<Rightarrow> BN_new alloc | Some r \<Rightarrow> Some r) of
        None \<Rightarrow> None
      | Some ret \<Rightarrow>
          if bs = [] then Some (ret\<lparr>width := 0\<rparr>)
          else
            let num_words = (length bs - 1) div 8 + 1; m = (length bs - 1) mod 8 in
            (case bn_wexpand alloc junk num_words ret of
               (False, _) \<Rightarrow> None
             | (True, ret1) \<Rightarrow>
                 Some (ret1\<lparr>width := num_words, neg := False, d := bin_loop bs 0 m num_words (d ret1)\<rparr>)))"

text \<open>The bytes of words in memory, and \<open>memcpy\<close> of bytes over them.\<close>

definition mem_bytes :: "BN_ULONG list \<Rightarrow> byte list" where
  "mem_bytes ws = concat (map (le_bytes 8) ws)"

fun words_of_bytes :: "byte list \<Rightarrow> BN_ULONG list" where
  "words_of_bytes (b0 # b1 # b2 # b3 # b4 # b5 # b6 # b7 # bs) =
     le_word [b0, b1, b2, b3, b4, b5, b6, b7] # words_of_bytes bs"
| "words_of_bytes _ = []"

definition copy_bytes :: "byte list \<Rightarrow> BN_ULONG list \<Rightarrow> BN_ULONG list" where
  "copy_bytes bs ws = words_of_bytes (store bs (mem_bytes ws))"

definition BN_le2bn ::
  "(nat \<Rightarrow> bool) \<Rightarrow> (nat \<Rightarrow> BN_ULONG list) \<Rightarrow> byte list \<Rightarrow> BIGNUM option \<Rightarrow> BIGNUM option" where
  "BN_le2bn alloc junk bs ret0 =
     (case (case ret0 of None \<Rightarrow> BN_new alloc | Some r \<Rightarrow> Some r) of
        None \<Rightarrow> None
      | Some ret \<Rightarrow>
          if bs = [] then Some (ret\<lparr>width := 0, neg := False\<rparr>)
          else
            let num_words = (length bs - 1) div 8 + 1 in
            (case bn_wexpand alloc junk num_words ret of
               (False, _) \<Rightarrow> None
             | (True, ret1) \<Rightarrow>
                 let ret2 = ret1\<lparr>width := num_words, d := (d ret1)[num_words - 1 := 0]\<rparr>
                 in Some (ret2\<lparr>d := copy_bytes bs (d ret2)\<rparr>)))"

definition BN_bn2bin :: "BIGNUM \<Rightarrow> byte list" where
  "BN_bn2bin bn =
     map (\<lambda>i. ucast (drop_bit (8 * (i mod 8)) (d bn ! (i div 8))) AND 0xff) (rev [0..<unat (BN_num_bytes bn)])"

primrec or_bytes :: "byte \<Rightarrow> byte list \<Rightarrow> byte" where
  "or_bytes m [] = m"
| "or_bytes m (w # ws) = or_bytes (m OR w) ws"

definition fits_in_bytes :: "byte list \<Rightarrow> nat \<Rightarrow> bool" where
  "fits_in_bytes bytes len \<longleftrightarrow> or_bytes 0 (drop len bytes) = 0"

text \<open>\<open>bytes\<close> are the \<open>num_bytes\<close> bytes of the valid words.\<close>

definition BN_bn2le_padded :: "nat \<Rightarrow> BIGNUM \<Rightarrow> byte list option" where
  "BN_bn2le_padded len bn =
     (let bytes = mem_bytes (take (width bn) (d bn)); num_bytes = width bn * 8 in
      if len < num_bytes \<and> \<not> fits_in_bytes bytes len then None
      else
        let n = (if len < num_bytes then len else num_bytes)
        in Some (take n bytes @ replicate (len - n) 0))"

definition BN_bn2bin_padded :: "nat \<Rightarrow> BIGNUM \<Rightarrow> byte list option" where
  "BN_bn2bin_padded len bn =
     (let bytes = mem_bytes (take (width bn) (d bn)); num_bytes = width bn * 8 in
      if len < num_bytes \<and> \<not> fits_in_bytes bytes len then None
      else
        let n = (if len < num_bytes then len else num_bytes)
        in Some (replicate (len - n) 0 @ rev (take n bytes)))"

definition BN_get_word :: "BIGNUM \<Rightarrow> BN_ULONG" where
  "BN_get_word bn =
     (let w = bn_minimal_width bn in if w = 0 then 0 else if w = 1 then d bn ! 0 else 0xffffffffffffffff)"

definition BN_get_u64 :: "BIGNUM \<Rightarrow> u64 option" where
  "BN_get_u64 bn =
     (let w = bn_minimal_width bn in if w = 0 then Some 0 else if w = 1 then Some (d bn ! 0) else None)"

end
