(* ===== verification/Byte_Val.thy ===== *)
theory Byte_Val
  imports Prelude
begin

text \<open>
  The number that a list of bytes stands for, in either order.
\<close>

lemma word_less_high:
  assumes "x < (q::nat)" "y < q" "v < w"
  shows "x + q * v < y + q * w"
proof -
  have "x + q * v < q * Suc v" using assms by simp
  also have "\<dots> \<le> q * w" using assms by (intro mult_left_mono) simp_all
  finally show ?thesis by simp
qed

lemma cmp_word:
  "x < (q::nat) \<Longrightarrow> y < q \<Longrightarrow> (x + q * v < y + q * w \<longleftrightarrow> v < w \<or> v = w \<and> x < y) \<and> (x + q * v = y + q * w \<longleftrightarrow> v = w \<and> x = y)"
  using word_less_high [of x q y v w] word_less_high [of y q x w v] by (cases v w rule: linorder_cases) auto

primrec le_val :: "byte list \<Rightarrow> nat" where
  "le_val [] = 0"
| "le_val (b # bs) = unat b + 256 * le_val bs"

definition be_val :: "byte list \<Rightarrow> nat" where
  "be_val bs = le_val (rev bs)"

lemma le_val_append: "le_val (xs @ ys) = le_val xs + 256 ^ length xs * le_val ys"
  by (induction xs) (simp_all add: algebra_simps)

lemma be_val_Cons: "be_val (b # bs) = 256 ^ length bs * unat b + be_val bs"
  by (simp add: be_val_def le_val_append)

lemma le_val_0: "le_val bs = 0 \<longleftrightarrow> (\<forall>b \<in> set bs. b = 0)"
  by (induction bs) (auto simp: unat_eq_zero)

lemma le_val_replicate [simp]: "le_val (replicate n 0) = 0"
  by (simp add: le_val_0)

lemma unat8: "unat (b :: byte) < 256"
  using unsigned_less [of b, where ?'a = nat] by simp

lemma le_val_less: "le_val bs < 256 ^ length bs"
proof (induction bs)
  case (Cons b bs)
  then show ?case using unat8 [of b] by simp
qed simp

lemma le_val_le_bytes: "le_val (le_bytes n w) = unat (w :: 'a::len word) mod 256 ^ n"
proof (induction n arbitrary: w)
  case (Suc n)
  have "unat (ucast w :: byte) = unat w mod 256" by (simp add: unsigned_ucast_eq take_bit_eq_mod)
  moreover have "unat (drop_bit 8 w) = drop_bit 8 (unat w)" by (rule unat_drop_bit_eq)
  then have "unat (drop_bit 8 w) = unat w div 256" unfolding drop_bit_eq_div by simp
  ultimately show ?case using Suc [of "drop_bit 8 w"] by (simp add: le_bytes_Suc mod_mult2_eq)
qed simp

lemma le_val_inj: "length xs = length ys \<Longrightarrow> le_val xs = le_val ys \<Longrightarrow> xs = ys"
proof (induction xs ys rule: list_induct2)
  case (Cons x xs y ys)
  then show ?case
    using cmp_word [OF unat8 [of x] unat8 [of y], of "le_val xs" "le_val ys"] by (simp add: word_unat_eq_iff)
qed simp

end
