(* ===== verification/Bn_Words.thy ===== *)
theory Bn_Words
  imports Bn_Add Bn_Bytes Byte_Val
begin

text \<open>
  The value of an array of words, and what the word loops of addition and subtraction do to it.
\<close>

section \<open>Values\<close>

primrec words_val :: "BN_ULONG list \<Rightarrow> nat" where
  "words_val [] = 0"
| "words_val (w # ws) = unat w + 2 ^ 64 * words_val ws"

lemma words_val_append: "words_val (xs @ ys) = words_val xs + 2 ^ (64 * length xs) * words_val ys"
  by (induction xs) (simp_all add: power_add algebra_simps)

lemma words_val_less: "words_val ws < 2 ^ (64 * length ws)"
proof (induction ws)
  case (Cons w ws)
  have "unat w + 2 ^ 64 * words_val ws < 2 ^ 64 * (words_val ws + 1)" using unat64 [of w] by simp
  also have "\<dots> \<le> 2 ^ 64 * 2 ^ (64 * length ws)" using Cons by (intro mult_left_mono) simp_all
  also have "\<dots> = 2 ^ (64 * length (w # ws))" by (simp add: power_add)
  finally show ?case by simp
qed simp

lemma words_val_0: "words_val ws = 0 \<longleftrightarrow> (\<forall>w \<in> set ws. w = 0)"
  by (induction ws) (auto simp: unat_eq_zero)

lemma words_val_replicate [simp]: "words_val (replicate n 0) = 0"
  by (simp add: words_val_0)

lemma or_zero: "a OR b = 0 \<longleftrightarrow> a = 0 \<and> b = (0 :: 'a::len word)"
  by (auto simp: bit_eq_iff bit_or_iff)

lemma or_words_0: "or_words m ws = 0 \<longleftrightarrow> m = 0 \<and> words_val ws = 0"
  by (induction ws arbitrary: m) (auto simp: or_zero unat_eq_zero)

text \<open>The value of a number, and what every function keeps of its fields.\<close>

definition abs_val :: "BIGNUM \<Rightarrow> nat" where
  "abs_val bn = words_val (take (width bn) (d bn))"

definition bn_val :: "BIGNUM \<Rightarrow> int" where
  "bn_val bn = (if neg bn then - int (abs_val bn) else int (abs_val bn))"

definition bn_ok :: "BIGNUM \<Rightarrow> bool" where
  "bn_ok bn \<longleftrightarrow> width bn \<le> length (d bn) \<and> (neg bn \<longrightarrow> abs_val bn \<noteq> 0)"

definition minimal :: "BIGNUM \<Rightarrow> bool" where
  "minimal bn \<longleftrightarrow> width bn = 0 \<or> d bn ! (width bn - 1) \<noteq> 0"

section \<open>Word loops\<close>

lemma unat128: "unat (w :: 128 word) < 2 ^ 128"
  using unsigned_less [of w, where ?'a = nat] by simp

lemma unat_ucast_64_128 [simp]: "unat (ucast (a :: 64 word) :: 128 word) = unat a"
  using unat64 [of a] by (simp add: unsigned_ucast_eq take_bit_nat_eq_self)

lemma add_step_val:
  assumes "unat ll \<le> 1" "add_step ll a b = (r, ll')"
  shows "unat r + 2 ^ 64 * unat ll' = unat ll + unat a + unat b" "unat ll' \<le> 1"
proof -
  let ?s = "ll + (ucast a + ucast b) :: 128 word"
  have ab: "unat (ucast a + ucast b :: 128 word) = unat a + unat b"
    using unat64 [of a] unat64 [of b] by (subst unat_add_lem [THEN iffD1]) simp_all
  have s: "unat ?s = unat ll + unat a + unat b"
    using unat64 [of a] unat64 [of b] assms(1) ab by (subst unat_add_lem [THEN iffD1]) simp_all
  have e: "r = ucast ?s" "ll' = drop_bit 64 ?s" using assms(2) by (simp_all only: add_step_def Let_def prod.inject)
  have r: "unat r = unat ?s mod 2 ^ 64" unfolding e(1) by (simp add: unsigned_ucast_eq take_bit_eq_mod)
  have "unat ll' = drop_bit 64 (unat ?s)" unfolding e(2) by (rule unat_drop_bit_eq)
  note r = r this [unfolded drop_bit_eq_div]
  show "unat r + 2 ^ 64 * unat ll' = unat ll + unat a + unat b" unfolding r s by simp
  have "unat ?s < 2 * 2 ^ 64" using unat64 [of a] unat64 [of b] assms(1) s by simp
  then show "unat ll' \<le> 1" unfolding r(2) by (simp add: less_mult_imp_div_less less_Suc_eq_le)
qed

lemma add_words_4_eq: "add_words_4 ll as bs = add_words_1 ll as bs"
proof (induction ll as bs rule: add_words_4.induct)
  case (1 ll a0 a1 a2 a3 as b0 b1 b2 b3 bs)
  note ih = 1 [OF refl prod.collapse refl prod.collapse refl prod.collapse refl prod.collapse]
  show ?case by (simp add: Let_def case_prod_beta ih)
qed simp_all

text \<open>One more word, in a base \<open>B\<close>.\<close>

lemma sum_word:
  fixes B :: nat
  assumes "r + B * l1 = l + a + b" "q + P * l2 = l1 + x + y"
  shows "(r + B * q) + (B * P) * l2 = l + (a + B * x) + (b + B * y)"
proof -
  have "B * (q + P * l2) = B * (l1 + x + y)" using assms(2) by simp
  then have "B * q + (B * P) * l2 = B * l1 + B * x + B * y" by (simp add: distrib_left mult.assoc)
  with assms(1) show ?thesis by linarith
qed

lemma power_64_Suc: "(2 :: nat) ^ (64 * length (w # ws)) = 2 ^ 64 * 2 ^ (64 * length ws)"
  by (simp add: power_add)

lemma add_words_val:
  "length as = length bs \<Longrightarrow> unat ll \<le> 1 \<Longrightarrow> add_words_1 ll as bs = (rs, ll') \<Longrightarrow>
   words_val rs + 2 ^ (64 * length as) * unat ll' = unat ll + words_val as + words_val bs \<and>
   unat ll' \<le> 1 \<and> length rs = length as"
proof (induction as arbitrary: bs ll rs)
  case Nil
  then show ?case by simp
next
  case (Cons a as)
  from Cons.prems(1) obtain b bs' where bs: "bs = b # bs'" "length as = length bs'" by (cases bs) auto
  obtain r ll1 where s: "add_step ll a b = (r, ll1)" by fastforce
  obtain qs q where q': "add_words_1 ll1 as bs' = (qs, q)" by fastforce
  have q: "add_words_1 ll1 as bs' = (qs, ll')" "rs = r # qs" using Cons.prems(3) s q' by (simp_all add: bs)
  note step = add_step_val [OF Cons.prems(2) s]
  have ih: "words_val qs + 2 ^ (64 * length as) * unat ll' = unat ll1 + words_val as + words_val bs'"
    "unat ll' \<le> 1" "length qs = length as" using Cons.IH [OF bs(2) step(2) q(1)] by blast+
  show ?case
    unfolding q(2) bs(1) power_64_Suc words_val.simps using sum_word [OF step(1) ih(1)] ih(2,3) by simp
qed

lemma bn_add_words_val:
  assumes "n \<le> length a" "n \<le> length b" "bn_add_words a b n = (rs, c)"
  shows "words_val rs + 2 ^ (64 * n) * unat c = words_val (take n a) + words_val (take n b)" "unat c \<le> 1" "length rs = n"
proof -
  obtain ll where l: "add_words_1 0 (take n a) (take n b) = (rs, ll)" "c = ucast ll"
    using assms by (cases "n = 0") (auto simp: bn_add_words_def add_words_4_eq split: prod.splits)
  note v = add_words_val [OF _ _ l(1)]
  have "unat ll \<le> 1" using v assms(1,2) by simp
  then have "unat c = unat ll" unfolding l(2) by (simp add: unsigned_ucast_eq take_bit_nat_eq_self)
  then show "words_val rs + 2 ^ (64 * n) * unat c = words_val (take n a) + words_val (take n b)" "unat c \<le> 1" "length rs = n"
    using v assms(1,2) by simp_all
qed

lemma diff_word:
  fixes B :: nat
  assumes "r + b + c = a + B * c1" "q + y + c1 = x + P * c2"
  shows "(r + B * q) + (b + B * y) + c = (a + B * x) + (B * P) * c2"
proof -
  have "B * (q + y + c1) = B * (x + P * c2)" using assms(2) by simp
  then have "B * q + B * y + B * c1 = B * x + (B * P) * c2" by (simp add: distrib_left mult.assoc)
  with assms(1) show ?thesis by linarith
qed

lemma unat_of_bool_64 [simp]: "unat (of_bool c :: 64 word) = of_bool c"
  by simp

lemma sub_step_val:
  assumes "sub_step c a b = (r, c')"
  shows "unat r + unat b + of_bool c = unat a + 2 ^ 64 * of_bool c'"
proof -
  have r: "r = a - b - of_bool c" and c': "c' = (if a \<noteq> b then a < b else c)"
    using assms by (auto simp: sub_step_def)
  show ?thesis
    using unat64 [of a] unat64 [of b] unfolding r c'
    by (cases c) (auto simp: unat_minus word_less_nat_alt word_unat_eq_iff)
qed

lemma sub_words_4_eq: "sub_words_4 c as bs = sub_words_1 c as bs"
proof (induction c as bs rule: sub_words_4.induct)
  case (1 c a0 a1 a2 a3 as b0 b1 b2 b3 bs)
  note ih = 1 [OF refl prod.collapse refl prod.collapse refl prod.collapse refl prod.collapse]
  show ?case by (simp add: Let_def case_prod_beta ih)
qed simp_all

lemma sub_words_val:
  "length as = length bs \<Longrightarrow> sub_words_1 c as bs = (rs, c') \<Longrightarrow>
   words_val rs + words_val bs + of_bool c = words_val as + 2 ^ (64 * length as) * of_bool c' \<and> length rs = length as"
proof (induction as arbitrary: bs c rs)
  case Nil
  then show ?case by simp
next
  case (Cons a as)
  from Cons.prems(1) obtain b bs' where bs: "bs = b # bs'" "length as = length bs'" by (cases bs) auto
  obtain r c1 where s: "sub_step c a b = (r, c1)" by fastforce
  obtain qs q where q': "sub_words_1 c1 as bs' = (qs, q)" by fastforce
  have q: "sub_words_1 c1 as bs' = (qs, c')" "rs = r # qs" using Cons.prems(2) s q' by (simp_all add: bs)
  have ih: "words_val qs + words_val bs' + of_bool c1 = words_val as + 2 ^ (64 * length as) * of_bool c'"
    "length qs = length as" using Cons.IH [OF bs(2) q(1)] by blast+
  show ?case
    unfolding q(2) bs(1) power_64_Suc words_val.simps using diff_word [OF sub_step_val [OF s] ih(1)] ih(2) by simp
qed

lemma bn_sub_words_val:
  assumes "n \<le> length a" "n \<le> length b" "bn_sub_words a b n = (rs, c)"
  shows "words_val rs + words_val (take n b) = words_val (take n a) + 2 ^ (64 * n) * unat c" "unat c \<le> 1" "length rs = n"
proof -
  obtain c' where l: "sub_words_1 False (take n a) (take n b) = (rs, c')" "c = of_bool c'"
    using assms by (cases "n = 0") (auto simp: bn_sub_words_def sub_words_4_eq split: prod.splits)
  note v = sub_words_val [OF _ l(1)]
  show "words_val rs + words_val (take n b) = words_val (take n a) + 2 ^ (64 * n) * unat c" "unat c \<le> 1" "length rs = n"
    using v assms(1,2) unfolding l(2) by simp_all
qed

lemma carry_step_val:
  fixes c x :: BN_ULONG
  assumes "unat c \<le> 1"
  shows "unat (c + x) + 2 ^ 64 * unat (of_bool (c + x < x) :: BN_ULONG) = unat c + unat x + 0"
proof (cases "unat c + unat x < 2 ^ 64")
  case True
  then have "unat (c + x) = unat c + unat x" by (simp add: unat_word_ariths)
  then show ?thesis by (simp add: word_less_nat_alt)
next
  case False
  then have "unat c = 1" "unat x = 2 ^ 64 - 1" using assms unat64 [of x] by auto
  then show ?thesis by (simp add: word_less_nat_alt unat_word_ariths)
qed

lemma carry_loop_val:
  "unat c \<le> 1 \<Longrightarrow> carry_loop c xs = (rs, c') \<Longrightarrow>
   words_val rs + 2 ^ (64 * length xs) * unat c' = unat c + words_val xs \<and> unat c' \<le> 1 \<and> length rs = length xs"
proof (induction xs arbitrary: c rs)
  case (Cons x xs)
  let ?c1 = "of_bool (c + x < x) :: 64 word"
  obtain qs where q: "carry_loop ?c1 xs = (qs, c')" "rs = (c + x) # qs"
    using Cons.prems(2) by (auto simp: Let_def split: prod.splits)
  have ih: "words_val qs + 2 ^ (64 * length xs) * unat c' = unat ?c1 + words_val xs + 0"
    "unat c' \<le> 1" "length qs = length xs" using Cons.IH [OF _ q(1)] by simp_all
  have "unat (c + x) + 2 ^ 64 * unat ?c1 = unat c + unat x + 0"
    by (rule carry_step_val [OF Cons.prems(1)])
  from sum_word [OF this ih(1)] show ?case
    unfolding q(2) power_64_Suc words_val.simps using ih(2,3) by simp
qed simp

lemma borrow_loop_val:
  "unat c \<le> 1 \<Longrightarrow> borrow_loop c xs = (rs, c') \<Longrightarrow>
   words_val rs + unat c = words_val xs + 2 ^ (64 * length xs) * unat c' \<and> unat c' \<le> 1 \<and> length rs = length xs"
proof (induction xs arbitrary: c rs)
  case (Cons x xs)
  let ?c1 = "of_bool (x < x - c) :: 64 word"
  obtain qs where q: "borrow_loop ?c1 xs = (qs, c')" "rs = (x - c) # qs"
    using Cons.prems(2) by (auto simp: Let_def split: prod.splits)
  have ih: "words_val qs + 0 + unat ?c1 = words_val xs + 2 ^ (64 * length xs) * unat c'"
    "unat c' \<le> 1" "length qs = length xs" using Cons.IH [OF _ q(1)] by simp_all
  have "unat (x - c) + 0 + unat c = unat x + 2 ^ 64 * unat ?c1"
    using Cons.prems(1) unat64 [of x] by (auto simp: word_less_nat_alt unat_minus le_Suc_eq)
  from diff_word [OF this ih(1)] show ?case
    unfolding q(2) power_64_Suc words_val.simps using ih(2,3) by simp
qed simp

end
