(* ===== verification/Bn_Spec.thy ===== *)
theory Bn_Spec
  imports Bn_Words
begin

text \<open>
  Big numbers refine the integers: addition, subtraction and comparison, and the conversions to bytes.
\<close>

section \<open>Room and minimal width\<close>

definition room :: "(nat \<Rightarrow> bool) \<Rightarrow> nat \<Rightarrow> BIGNUM \<Rightarrow> bool" where
  "room alloc n bn \<longleftrightarrow>
     n \<le> length (d bn) \<or> (n \<le> (2 ^ 31 - 1) div (4 * 64) \<and> \<not> static_data bn \<and> (\<forall>k \<le> n. alloc (8 * k)))"

lemma ok_cases: "(\<And>x. p = (False, x) \<Longrightarrow> P) \<Longrightarrow> (\<And>x. p = (True, x) \<Longrightarrow> P) \<Longrightarrow> P"
  by (cases p; cases "fst p") auto

lemma room_mono: "room alloc n bn \<Longrightarrow> m \<le> n \<Longrightarrow> room alloc m bn"
  by (auto simp: room_def)

lemma wexpand_room: "room alloc n bn \<Longrightarrow> fst (bn_wexpand alloc junk n bn)"
  by (auto simp: room_def bn_wexpand_def)

lemma wexpand_width:
  assumes "bn_wexpand alloc junk n bn = (True, bn1)" "\<forall>n. length (junk n) = n" "width bn \<le> length (d bn)"
  shows "n \<le> length (d bn1)" "width bn1 = width bn" "neg bn1 = neg bn"
  using assms by (auto simp: bn_wexpand_def split: if_splits)

lemma wexpand_keeps:
  assumes "bn_wexpand alloc junk n bn = (ok, bn1)" "\<forall>n. length (junk n) = n" "width bn \<le> length (d bn)"
  shows "take (width bn) (d bn1) = take (width bn) (d bn)" "width bn \<le> length (d bn1)" "width bn1 = width bn"
  using assms by (auto simp: bn_wexpand_def split: if_splits)

lemma take_store [simp]: "length xs \<le> length arr \<Longrightarrow> take (length xs) (store xs arr) = xs"
  by (simp add: store_def)

lemma length_store [simp]: "length xs \<le> length arr \<Longrightarrow> length (store xs arr) = length arr"
  by (simp add: store_def)

lemma minimal_width_loop:
  assumes "n \<le> length ds"
  shows "minimal_width_loop ds n \<le> n"
    "words_val (take (minimal_width_loop ds n) ds) = words_val (take n ds)"
    "minimal_width_loop ds n \<noteq> 0 \<Longrightarrow> ds ! (minimal_width_loop ds n - 1) \<noteq> 0"
  using assms by (induction n) (auto simp: take_Suc_conv_app_nth words_val_append le_SucI)

lemma minimal_abs_val: "minimal bn \<Longrightarrow> width bn \<le> length (d bn) \<Longrightarrow> abs_val bn = 0 \<longleftrightarrow> width bn = 0"
  by (cases "width bn") (auto simp: minimal_def abs_val_def words_val_0 take_Suc_conv_app_nth)

lemma set_minimal_width:
  assumes "width bn \<le> length (d bn)"
  shows "abs_val (bn_set_minimal_width bn) = abs_val bn" "minimal (bn_set_minimal_width bn)"
    "width (bn_set_minimal_width bn) \<le> length (d (bn_set_minimal_width bn))"
    "neg (bn_set_minimal_width bn) \<longleftrightarrow> neg bn \<and> abs_val bn \<noteq> 0"
proof -
  note m = minimal_width_loop [OF assms]
  let ?b = "bn_set_minimal_width bn"
  show v: "abs_val ?b = abs_val bn" and mi: "minimal ?b" and w: "width ?b \<le> length (d ?b)"
    using m assms by (auto simp: bn_set_minimal_width_def bn_minimal_width_def abs_val_def minimal_def Let_def)
  have "neg ?b \<longleftrightarrow> neg bn \<and> width ?b \<noteq> 0"
    by (simp add: bn_set_minimal_width_def Let_def)
  then show "neg ?b \<longleftrightarrow> neg bn \<and> abs_val bn \<noteq> 0" using minimal_abs_val [OF mi w] v by simp
qed

section \<open>Comparison\<close>

lemma fits_in_words: "bn_fits_in_words bn n \<longleftrightarrow> words_val (drop n (take (width bn) (d bn))) = 0"
  by (simp add: bn_fits_in_words_def or_words_0)

lemma is_zero_val: "BN_is_zero bn \<longleftrightarrow> abs_val bn = 0"
  by (simp add: BN_is_zero_def fits_in_words abs_val_def)

lemma cmp_loop_val:
  "length xs = length ys \<Longrightarrow> cmp_loop ret (zip xs ys) =
     (if words_val xs < words_val ys then - 1 else if words_val xs = words_val ys then ret else 1)"
proof (induction xs ys arbitrary: ret rule: list_induct2)
  case (Cons x xs y ys)
  note c = cmp_word [OF unat64 [of x] unat64 [of y], of "words_val xs" "words_val ys"]
  show ?case using Cons.IH c by (auto simp: Let_def word_less_nat_alt word_unat_eq_iff)
qed simp

lemma cmp_words:
  "bn_cmp_words_consttime a b =
     (if words_val a < words_val b then - 1 else if words_val a = words_val b then 0 else 1)"
proof -
  have split: "words_val xs = words_val (take n xs) + 2 ^ (64 * min (length xs) n) * words_val (drop n xs)" for n xs
    using words_val_append [of "take n xs" "drop n xs"] by simp
  have big: "words_val ys < words_val xs" if "words_val (drop (length ys) xs) \<noteq> 0" "length ys < length xs" for xs ys
  proof -
    have "words_val ys < 2 ^ (64 * length ys)" by (rule words_val_less)
    also have "\<dots> \<le> 2 ^ (64 * length ys) * words_val (drop (length ys) xs)" using that by simp
    also have "\<dots> \<le> words_val xs" using split [of xs "length ys"] that by simp
    finally show ?thesis .
  qed
  have small: "words_val xs = words_val (take n xs)" if "words_val (drop n xs) = 0" for n xs
    using split [of xs n] that by simp
  have eq: "cmp_loop 0 (zip xs ys) =
      (if words_val xs < words_val ys then - 1 else if words_val xs = words_val ys then 0 else 1)"
    if "length xs = length ys" for xs ys
    by (rule cmp_loop_val [OF that])
  show ?thesis
  proof (cases "length a" "length b" rule: linorder_cases)
    case less
    show ?thesis
    proof (cases "words_val (drop (length a) b) = 0")
      case True
      with less small [OF True] eq [of a "take (length a) b"] show ?thesis
        by (simp add: bn_cmp_words_consttime_def Let_def or_words_0)
    next
      case False
      with less big [OF False less] show ?thesis
        by (simp add: bn_cmp_words_consttime_def Let_def or_words_0)
    qed
  next
    case equal
    with eq [of a b] show ?thesis by (simp add: bn_cmp_words_consttime_def Let_def)
  next
    case greater
    show ?thesis
    proof (cases "words_val (drop (length b) a) = 0")
      case True
      with greater small [OF True] eq [of "take (length b) a" b] show ?thesis
        by (simp add: bn_cmp_words_consttime_def Let_def or_words_0)
    next
      case False
      with greater big [OF False greater] show ?thesis
        by (simp add: bn_cmp_words_consttime_def Let_def or_words_0)
    qed
  qed
qed

lemma ucmp_val: "BN_ucmp a b = (if abs_val a < abs_val b then - 1 else if abs_val a = abs_val b then 0 else 1)"
  by (simp add: BN_ucmp_def cmp_words abs_val_def)

lemma cmp_val:
  "BN_cmp (Some a) (Some b) = (if bn_val a < bn_val b then - 1 else if bn_val a = bn_val b then 0 else 1)"
  if "bn_ok a" "bn_ok b"
  using that by (auto simp: BN_cmp_def ucmp_val bn_val_def bn_ok_def Let_def)

section \<open>Addition and subtraction\<close>

lemma words_split:
  "words_val (take m xs) = words_val (take n xs) + 2 ^ (64 * n) * words_val (drop n (take m xs))"
  if "n \<le> m" "m \<le> length xs"
proof -
  have "take n (take m xs) = take n xs" using that by (simp add: min_absorb1)
  then have "take m xs = take n xs @ drop n (take m xs)" by (metis append_take_drop_id)
  then have "words_val (take m xs) = words_val (take n xs @ drop n (take m xs))" by (rule arg_cong)
  then show ?thesis using that by (simp add: words_val_append)
qed

lemma uadd_sum:
  assumes "width a \<le> length (d a)" "width b \<le> width a" "width b \<le> length (d b)"
    "bn_add_words (d a) (d b) (width b) = (rs, c)"
    "carry_loop c (drop (width b) (take (width a) (d a))) = (ts, c1)"
  shows "words_val (rs @ ts @ [c1]) = abs_val a + abs_val b" "length (rs @ ts @ [c1]) = width a + 1"
proof -
  let ?hi = "drop (width b) (take (width a) (d a))" and ?P = "2 ^ (64 * width b) :: nat"
  note lo = bn_add_words_val [OF _ assms(3,4)]
  have l: "width b \<le> length (d a)" using assms(1,2) by simp
  have hi: "words_val ts + 2 ^ (64 * length ts) * unat c1 = unat c + words_val ?hi" "length ts = width a - width b"
    using carry_loop_val [OF lo(2) [OF l] assms(5)] assms(1) by auto
  have "words_val (rs @ ts @ [c1]) = words_val rs + ?P * (words_val ts + 2 ^ (64 * length ts) * unat c1)"
    using lo(3) [OF l] by (simp add: words_val_append)
  also have "\<dots> = (words_val rs + ?P * unat c) + ?P * words_val ?hi"
    unfolding hi(1) by (simp add: algebra_simps)
  also have "\<dots> = abs_val a + abs_val b"
    unfolding lo(1) [OF l] abs_val_def using words_split [OF assms(2,1)] by simp
  finally show "words_val (rs @ ts @ [c1]) = abs_val a + abs_val b" .
  show "length (rs @ ts @ [c1]) = width a + 1" using lo(3) [OF l] hi(2) assms(2) by simp
qed

lemma uadd_consttime_ordered:
  assumes "width a \<le> length (d a)" "width b \<le> length (d b)" "width r \<le> length (d r)" "\<forall>n. length (junk n) = n"
    "bn_uadd_consttime alloc junk r a b = (True, r1)" "width b \<le> width a"
  shows "abs_val r1 = abs_val a + abs_val b \<and> width r1 \<le> length (d r1)"
proof -
  obtain r0 where w: "bn_wexpand alloc junk (width a + 1) r = (True, r0)"
    using assms(5,6) by (cases "bn_wexpand alloc junk (width a + 1) r" rule: ok_cases) (auto simp: bn_uadd_consttime_def Let_def)
  obtain rs c where rs: "bn_add_words (d a) (d b) (width b) = (rs, c)" by fastforce
  obtain ts c1 where ts: "carry_loop c (drop (width b) (take (width a) (d a))) = (ts, c1)" by fastforce
  have r1: "r1 = r0\<lparr>width := width a + 1, d := store (rs @ ts @ [c1]) (d r0)\<rparr>"
    using assms(5,6) w rs ts by (simp add: bn_uadd_consttime_def Let_def)
  note sum = uadd_sum [OF assms(1,6,2) rs ts]
  have l: "length (rs @ ts @ [c1]) \<le> length (d r0)" using wexpand_width(1) [OF w assms(4,3)] sum(2) by simp
  have "take (width a + 1) (store (rs @ ts @ [c1]) (d r0)) = rs @ ts @ [c1]"
    using take_store [OF l] unfolding sum(2) .
  then show ?thesis
    using sum(1) length_store [OF l] wexpand_width(1) [OF w assms(4,3)] unfolding r1 abs_val_def by simp
qed

lemma uadd_consttime_comm:
  "bn_uadd_consttime alloc junk r a b = bn_uadd_consttime alloc junk r b a" if "width a < width b"
  using that by (simp add: bn_uadd_consttime_def)

lemma uadd_consttime_val:
  assumes "width a \<le> length (d a)" "width b \<le> length (d b)" "width r \<le> length (d r)" "\<forall>n. length (junk n) = n"
    "bn_uadd_consttime alloc junk r a b = (True, r1)"
  shows "abs_val r1 = abs_val a + abs_val b \<and> width r1 \<le> length (d r1)"
proof (cases "width b \<le> width a")
  case True
  then show ?thesis by (rule uadd_consttime_ordered [OF assms])
next
  case False
  then have "bn_uadd_consttime alloc junk r b a = (True, r1)"
    using assms(5) uadd_consttime_comm [of a b alloc junk r] by simp
  from uadd_consttime_ordered [OF assms(2,1,3,4) this] False show ?thesis by simp
qed

lemma uadd_val:
  assumes "width a \<le> length (d a)" "width b \<le> length (d b)" "width r \<le> length (d r)" "\<forall>n. length (junk n) = n"
    "BN_uadd alloc junk r a b = (True, r1)"
  shows "abs_val r1 = abs_val a + abs_val b \<and> width r1 \<le> length (d r1) \<and> minimal r1"
proof -
  obtain r0 where "bn_uadd_consttime alloc junk r a b = (True, r0)" "r1 = bn_set_minimal_width r0"
    using assms(5) by (auto simp: BN_uadd_def split: prod.splits bool.splits)
  with uadd_consttime_val [OF assms(1-4)] set_minimal_width [of r0] show ?thesis by auto
qed

lemma uadd_room: "room alloc (max (width a) (width b) + 1) r \<Longrightarrow> fst (BN_uadd alloc junk r a b)"
  using wexpand_room [of alloc "max (width a) (width b) + 1" r junk]
  by (auto simp: BN_uadd_def bn_uadd_consttime_def Let_def max_def not_less split: prod.splits bool.splits if_splits)

lemma usub_diff:
  assumes "width a \<le> length (d a)" "n \<le> width a" "n \<le> length (d b)"
    "bn_sub_words (d a) (d b) n = (rs, c)"
    "borrow_loop c (drop n (take (width a) (d a))) = (ts, c1)"
  shows "words_val (rs @ ts) + words_val (take n (d b)) = abs_val a + 2 ^ (64 * width a) * unat c1"
    "length (rs @ ts) = width a" "unat c1 \<le> 1"
proof -
  let ?hi = "drop n (take (width a) (d a))" and ?P = "2 ^ (64 * n) :: nat"
  note lo = bn_sub_words_val [OF _ assms(3,4)]
  have l: "n \<le> length (d a)" using assms(1,2) by simp
  have hi: "words_val ts + unat c = words_val ?hi + 2 ^ (64 * (width a - n)) * unat c1"
    "length ts = width a - n" and c1: "unat c1 \<le> 1"
    using borrow_loop_val [OF lo(2) [OF l] assms(5)] assms(1) by auto
  have p: "?P * 2 ^ (64 * (width a - n)) = (2 ^ (64 * width a) :: nat)"
    using assms(2) by (simp flip: power_add add: diff_mult_distrib2)
  have "words_val (rs @ ts) + words_val (take n (d b)) + ?P * unat c =
      (words_val rs + words_val (take n (d b))) + ?P * (words_val ts + unat c)"
    using lo(3) [OF l] by (simp add: words_val_append algebra_simps)
  also have "\<dots> = (words_val (take n (d a)) + ?P * words_val ?hi) + ?P * unat c + (?P * 2 ^ (64 * (width a - n))) * unat c1"
    unfolding lo(1) [OF l] hi(1) by (simp add: algebra_simps)
  also have "\<dots> = abs_val a + ?P * unat c + 2 ^ (64 * width a) * unat c1"
    unfolding p abs_val_def using words_split [OF assms(2,1)] by simp
  finally show "words_val (rs @ ts) + words_val (take n (d b)) = abs_val a + 2 ^ (64 * width a) * unat c1" by simp
  show "length (rs @ ts) = width a" using lo(3) [OF l] hi(2) assms(2) by simp
  show "unat c1 \<le> 1" by (rule c1)
qed

text \<open>The words of \<open>b\<close> that \<open>a\<close> has too: all its value, or \<open>b\<close> is larger.\<close>

lemma common_words:
  assumes "width a \<le> length (d a)" "width b \<le> length (d b)"
  shows "\<not> (width b > width a \<and> \<not> bn_fits_in_words b (width a)) \<Longrightarrow>
      words_val (take (if width b > width a then width a else width b) (d b)) = abs_val b"
    "width b > width a \<Longrightarrow> \<not> bn_fits_in_words b (width a) \<Longrightarrow> abs_val a < abs_val b"
proof -
  show "words_val (take (if width b > width a then width a else width b) (d b)) = abs_val b"
    if "\<not> (width b > width a \<and> \<not> bn_fits_in_words b (width a))"
    using that words_split [of "width a" "width b" "d b"] assms by (auto simp: abs_val_def fits_in_words)
  assume w: "width b > width a" "\<not> bn_fits_in_words b (width a)"
  have "abs_val a < 2 ^ (64 * width a)" using words_val_less [of "take (width a) (d a)"] assms by (simp add: abs_val_def)
  also have "\<dots> \<le> abs_val b"
    using w words_split [of "width a" "width b" "d b"] assms by (simp add: abs_val_def fits_in_words trans_le_add2)
  finally show "abs_val a < abs_val b" .
qed

lemma usub_cases:
  assumes "width a \<le> length (d a)" "width b \<le> length (d b)" "width r \<le> length (d r)" "\<forall>n. length (junk n) = n"
    "bn_usub_consttime alloc junk r a b = (ok, r1)"
  shows "ok \<Longrightarrow> abs_val r1 + abs_val b = abs_val a \<and> width r1 \<le> length (d r1) \<and> \<not> neg r1"
    "room alloc (width a) r \<Longrightarrow> abs_val b \<le> abs_val a \<Longrightarrow> ok"
proof -
  let ?n = "if width b > width a then width a else width b"
  obtain rs c where rs: "bn_sub_words (d a) (d b) ?n = (rs, c)" by fastforce
  obtain ts c1 where ts: "borrow_loop c (drop ?n (take (width a) (d a))) = (ts, c1)" by fastforce
  note diff = usub_diff [OF assms(1) _ _ rs ts]
  have n: "?n \<le> width a" "?n \<le> length (d b)" using assms(2) by auto
  show "abs_val r1 + abs_val b = abs_val a \<and> width r1 \<le> length (d r1) \<and> \<not> neg r1" if ok: ok
  proof -
    obtain r0 where w: "bn_wexpand alloc junk (width a) r = (True, r0)"
      and f: "\<not> (width b > width a \<and> \<not> bn_fits_in_words b (width a))"
      using assms(5) ok
      by (cases "bn_wexpand alloc junk (width a) r" rule: ok_cases) (auto simp: bn_usub_consttime_def Let_def split: if_splits)
    have r1: "c1 = 0" "r1 = r0\<lparr>d := store (rs @ ts) (d r0), width := width a, neg := False\<rparr>"
      using assms(5) ok w f rs ts by (auto simp: bn_usub_consttime_def Let_def split: if_splits)
    have l: "length (rs @ ts) \<le> length (d r0)" using wexpand_width(1) [OF w assms(4,3)] diff(2) [OF n] by simp
    have "take (width a) (store (rs @ ts) (d r0)) = rs @ ts" using take_store [OF l] unfolding diff(2) [OF n] .
    then show ?thesis
      using diff(1) [OF n] common_words(1) [OF assms(1,2) f] length_store [OF l] l r1(1) diff(2) [OF n]
      unfolding r1(2) by (simp add: abs_val_def)
  qed
  show ok if room: "room alloc (width a) r" and le: "abs_val b \<le> abs_val a"
  proof -
    have f: "\<not> (width b > width a \<and> \<not> bn_fits_in_words b (width a))"
      using common_words(2) [OF assms(1,2)] le by auto
    have "words_val (rs @ ts) < 2 ^ (64 * width a)" using words_val_less [of "rs @ ts"] unfolding diff(2) [OF n] .
    moreover have "words_val (rs @ ts) + abs_val b = abs_val a + 2 ^ (64 * width a) * unat c1"
      using diff(1) [OF n] unfolding common_words(1) [OF assms(1,2) f] .
    ultimately have "unat c1 \<noteq> 1" using le by auto
    then have "c1 = 0" using diff(3) [OF n] unat_eq_zero [of c1] by (simp add: le_Suc_eq)
    then show ok
      using assms(5) wexpand_room [OF room, of junk] f rs ts
      by (auto simp: bn_usub_consttime_def Let_def split: prod.splits bool.splits)
  qed
qed

lemma usub_val:
  assumes "width a \<le> length (d a)" "width b \<le> length (d b)" "width r \<le> length (d r)" "\<forall>n. length (junk n) = n"
    "BN_usub alloc junk r a b = (True, r1)"
  shows "abs_val r1 + abs_val b = abs_val a \<and> width r1 \<le> length (d r1) \<and> minimal r1"
proof -
  obtain r0 where "bn_usub_consttime alloc junk r a b = (True, r0)" "r1 = bn_set_minimal_width r0"
    using assms(5) by (cases "bn_usub_consttime alloc junk r a b" rule: ok_cases) (auto simp: BN_usub_def)
  with usub_cases(1) [OF assms(1-4), of alloc True r0] set_minimal_width [of r0] show ?thesis by auto
qed

lemma usub_room:
  assumes "width a \<le> length (d a)" "width b \<le> length (d b)" "width r \<le> length (d r)" "\<forall>n. length (junk n) = n"
    "room alloc (width a) r" "abs_val b \<le> abs_val a"
  shows "fst (BN_usub alloc junk r a b)"
  using usub_cases(2) [OF assms(1-4) _ assms(5,6)]
  by (cases "bn_usub_consttime alloc junk r a b" rule: ok_cases) (auto simp: BN_usub_def)

definition refines :: "int \<Rightarrow> BIGNUM \<Rightarrow> bool" where
  "refines v bn \<longleftrightarrow> bn_ok bn \<and> minimal bn \<and> bn_val bn = v"

lemma signed_usub_val:
  assumes "width a \<le> length (d a)" "width b \<le> length (d b)" "width r \<le> length (d r)" "\<forall>n. length (junk n) = n"
  shows "signed_usub alloc junk r a b = (True, r1) \<Longrightarrow> refines (int (abs_val a) - int (abs_val b)) r1"
    "room alloc (max (width a) (width b) + 1) r \<Longrightarrow> fst (signed_usub alloc junk r a b)"
proof -
  have lt: "sint (BN_ucmp a b) < 0 \<longleftrightarrow> abs_val a < abs_val b" by (simp add: ucmp_val)
  note va = usub_val [OF assms(1-4)] and vb = usub_val [OF assms(2,1,3,4)]
  have neg: "abs_val (x\<lparr>neg := s\<rparr>) = abs_val x" "minimal (x\<lparr>neg := s\<rparr>) = minimal x" for x s
    by (simp_all add: abs_val_def minimal_def)
  show "refines (int (abs_val a) - int (abs_val b)) r1" if s: "signed_usub alloc junk r a b = (True, r1)"
  proof (cases "abs_val a < abs_val b")
    case True
    then obtain r0 where "BN_usub alloc junk r b a = (True, r0)" "r1 = r0\<lparr>neg := True\<rparr>"
      using s by (cases "BN_usub alloc junk r b a" rule: ok_cases) (auto simp: signed_usub_def lt)
    with vb [of alloc r0] True show ?thesis by (auto simp: refines_def bn_ok_def bn_val_def neg)
  next
    case False
    then obtain r0 where "BN_usub alloc junk r a b = (True, r0)" "r1 = r0\<lparr>neg := False\<rparr>"
      using s by (cases "BN_usub alloc junk r a b" rule: ok_cases) (auto simp: signed_usub_def lt)
    with va [of alloc r0] False show ?thesis by (auto simp: refines_def bn_ok_def bn_val_def neg)
  qed
  assume room: "room alloc (max (width a) (width b) + 1) r"
  have ra: "room alloc (width a) r" "room alloc (width b) r" using room by (auto intro: room_mono)
  show "fst (signed_usub alloc junk r a b)"
    using usub_room [OF assms(1-4) ra(1)] usub_room [OF assms(2,1,3,4) ra(2)]
    by (cases "abs_val a < abs_val b"; cases "BN_usub alloc junk r a b" rule: ok_cases;
        cases "BN_usub alloc junk r b a" rule: ok_cases) (simp_all add: signed_usub_def lt)
qed

lemma uadd_refines:
  assumes "width a \<le> length (d a)" "width b \<le> length (d b)" "width r \<le> length (d r)" "\<forall>n. length (junk n) = n"
    "BN_uadd alloc junk r a b = (True, r1)" "s \<longrightarrow> abs_val a + abs_val b \<noteq> 0"
  shows "refines (if s then - (int (abs_val a) + int (abs_val b)) else int (abs_val a) + int (abs_val b)) (r1\<lparr>neg := s\<rparr>)"
  using uadd_val [OF assms(1-5)] assms(6) by (auto simp: refines_def bn_ok_def bn_val_def abs_val_def minimal_def)

text \<open>C26: Addition and subtraction of big numbers refine those of the integers: for well-formed
  operands and any number of allocated words in the result, a success gives a well-formed number of
  minimal width whose value is the sum or the difference, and the functions succeed when the result has
  room for one word more than the wider operand, or may grow to it.\<close>

theorem bn_add_sub_refine:
  assumes "bn_ok a" "bn_ok b" "width r \<le> length (d r)" "\<forall>n. length (junk n) = n"
  shows "(BN_add alloc junk r a b = (True, r1) \<longrightarrow> refines (bn_val a + bn_val b) r1) \<and>
    (BN_sub alloc junk r a b = (True, r1) \<longrightarrow> refines (bn_val a - bn_val b) r1) \<and>
    (room alloc (max (width a) (width b) + 1) r \<longrightarrow>
       fst (BN_add alloc junk r a b) \<and> fst (BN_sub alloc junk r a b))"
proof -
  have w: "width a \<le> length (d a)" "width b \<le> length (d b)"
    and z: "neg a \<Longrightarrow> abs_val a \<noteq> 0" "neg b \<Longrightarrow> abs_val b \<noteq> 0" using assms by (auto simp: bn_ok_def)
  note sab = signed_usub_val [OF w assms(3,4), of alloc] and sba = signed_usub_val [OF w(2,1) assms(3,4), of alloc]
  note u = uadd_refines [OF w assms(3,4), of alloc]
  have v: "bn_val x = (if neg x then - int (abs_val x) else int (abs_val x))" for x by (simp add: bn_val_def)
  have m: "max (width b) (width a) = max (width a) (width b)" by simp
  have add: "refines (bn_val a + bn_val b) r1" if "BN_add alloc junk r a b = (True, r1)"
    using that sab(1) [of r1] sba(1) [of r1] u [of _ "neg a"] z
    by (cases "neg a"; cases "neg b"; cases "BN_uadd alloc junk r a b" rule: ok_cases)
      (auto simp: BN_add_def v)
  have sub: "refines (bn_val a - bn_val b) r1" if "BN_sub alloc junk r a b = (True, r1)"
    using that sab(1) [of r1] sba(1) [of r1] u [of _ "neg a"] z
    by (cases "neg a"; cases "neg b"; cases "BN_uadd alloc junk r a b" rule: ok_cases)
      (auto simp: BN_sub_def v)
  have room: "fst (BN_add alloc junk r a b) \<and> fst (BN_sub alloc junk r a b)"
    if "room alloc (max (width a) (width b) + 1) r"
    using sab(2) [OF that] sba(2) [unfolded m, OF that] uadd_room [OF that, of junk]
    by (cases "neg a"; cases "neg b"; cases "BN_uadd alloc junk r a b" rule: ok_cases)
      (auto simp: BN_add_def BN_sub_def)
  show ?thesis using add sub room by blast
qed

definition bn_sample_a :: BIGNUM where
  "bn_sample_a = \<lparr>d = [0xffffffffffffffff, 7], width = 1, neg = False, static_data = False\<rparr>"

definition bn_sample_b :: BIGNUM where
  "bn_sample_b = \<lparr>d = [1, 0], width = 2, neg = True, static_data = True\<rparr>"

definition bn_sample_junk :: "nat \<Rightarrow> BN_ULONG list" where
  "bn_sample_junk n = replicate n 42"

definition bn_sample_diff :: BIGNUM where
  "bn_sample_diff = \<lparr>d = [0, 1, 0], width = 2, neg = False, static_data = False\<rparr>"

lemma minimal_width_numeral:
  "minimal_width_loop ds (numeral k) =
     (if ds ! pred_numeral k = 0 then minimal_width_loop ds (pred_numeral k) else numeral k)"
  by (simp add: numeral_eq_Suc)

lemma bn_sample_sub: "BN_sub (\<lambda>n. n < 1000) bn_sample_junk BN_init bn_sample_a bn_sample_b = (True, bn_sample_diff)"
  by (simp add: BN_sub_def BN_uadd_def bn_uadd_consttime_def bn_wexpand_def BN_init_def bn_sample_a_def bn_sample_b_def
      bn_sample_junk_def bn_sample_diff_def bn_add_words_def add_step_def store_def bn_set_minimal_width_def
      bn_minimal_width_def Let_def
      minimal_width_numeral)

lemma bn_sample_ok: "bn_ok bn_sample_a" "bn_ok bn_sample_b" "width BN_init \<le> length (d BN_init)" "\<forall>n. length (bn_sample_junk n) = n"
  by (simp_all add: bn_ok_def abs_val_def bn_sample_a_def bn_sample_b_def BN_init_def bn_sample_junk_def)

theorem bn_add_sub_refine_witness:
  "refines (2 ^ 64) bn_sample_diff \<and> fst (BN_add (\<lambda>n. n < 1000) bn_sample_junk BN_init bn_sample_a bn_sample_b)"
proof -
  have v: "bn_val bn_sample_a - bn_val bn_sample_b = 2 ^ 64"
    by (simp add: bn_val_def abs_val_def bn_sample_a_def bn_sample_b_def)
  have room: "room (\<lambda>n. n < 1000) (max (width bn_sample_a) (width bn_sample_b) + 1) BN_init"
    by (simp add: room_def bn_sample_a_def bn_sample_b_def BN_init_def)
  show ?thesis
    using bn_add_sub_refine [OF bn_sample_ok, of "\<lambda>n. n < 1000" bn_sample_diff] bn_sample_sub room v by simp
qed

end
