(* ===== verification/Bn_Conv.thy ===== *)
theory Bn_Conv
  imports Bn_Spec
begin

text \<open>
  The conversions between big numbers and byte strings are inverse to each other: the value of the
  bytes of words, what the loops of \<open>bytes.c\<close> do to it, and the theorem.
\<close>

section \<open>The bytes of words\<close>

lemma or_bytes_0: "or_bytes m bs = 0 \<longleftrightarrow> m = 0 \<and> le_val bs = 0"
  by (induction bs arbitrary: m) (auto simp: or_zero unat_eq_zero)

lemma pow_256_64: "(256::nat) ^ (8 * n) = 2 ^ (64 * n)"
  by (simp add: power_mult)

lemma le_val_word [simp]: "le_val (le_bytes 8 (w :: BN_ULONG)) = unat w"
  using unat64 [of w] by (simp add: le_val_le_bytes)

lemma unat_le_word: "length bs = 8 \<Longrightarrow> unat (le_word bs :: BN_ULONG) = le_val bs"
  using le_bytes_le_word [of bs, where 'a = 64] le_val_word [of "le_word bs"] by simp

lemma le_val_mem_bytes: "le_val (mem_bytes ws) = words_val ws"
  by (induction ws) (simp_all add: mem_bytes_def le_val_append)

lemma length_mem_bytes [simp]: "length (mem_bytes ws) = 8 * length ws"
  by (induction ws) (simp_all add: mem_bytes_def)

lemma words_val_of_bytes: "8 dvd length bs \<Longrightarrow> words_val (words_of_bytes bs) = le_val bs"
proof (induction bs rule: words_of_bytes.induct)
  case (1 b0 b1 b2 b3 b4 b5 b6 b7 bs)
  then have "8 dvd length bs" by (simp add: dvd_def) presburger
  with 1 have "words_val (words_of_bytes bs) = le_val bs" by blast
  moreover have "unat (le_word [b0, b1, b2, b3, b4, b5, b6, b7] :: BN_ULONG) = le_val [b0, b1, b2, b3, b4, b5, b6, b7]"
    by (rule unat_le_word) simp
  ultimately show ?case using le_val_append [of "[b0, b1, b2, b3, b4, b5, b6, b7]" bs] by simp
qed (auto dest!: dvd_imp_le)

lemma take_8_Suc:
  "take (8 * Suc k) (b0 # b1 # b2 # b3 # b4 # b5 # b6 # b7 # bs) = b0 # b1 # b2 # b3 # b4 # b5 # b6 # b7 # take (8 * k) bs"
proof -
  have "8 * Suc k = Suc (Suc (Suc (Suc (Suc (Suc (Suc (Suc (8 * k))))))))" by simp
  then show ?thesis by (simp only: take_Suc_Cons)
qed

lemma words_of_bytes_short: "length bs < 8 \<Longrightarrow> words_of_bytes bs = []"
  by (cases bs rule: words_of_bytes.cases) simp_all

lemma take_words_of_bytes: "take n (words_of_bytes bs) = words_of_bytes (take (8 * n) bs)"
proof (induction n arbitrary: bs)
  case (Suc n)
  show ?case
  proof (cases "length bs < 8")
    case True
    then show ?thesis by (simp add: words_of_bytes_short)
  next
    case False
    then have "length bs = Suc (Suc (Suc (Suc (Suc (Suc (Suc (Suc (length bs - 8))))))))" by simp
    then obtain b0 b1 b2 b3 b4 b5 b6 b7 bs' where bs: "bs = b0 # b1 # b2 # b3 # b4 # b5 # b6 # b7 # bs'"
      unfolding length_Suc_conv by blast
    show ?thesis unfolding bs take_8_Suc words_of_bytes.simps(1) take_Suc_Cons Suc ..
  qed
qed simp

lemma length_words_of_bytes: "length (words_of_bytes bs) = length bs div 8"
  by (induction bs rule: words_of_bytes.induct) simp_all

section \<open>Reading a big number\<close>

lemma bin_word:
  "unat (w :: BN_ULONG) < 256 ^ 7 \<Longrightarrow> unat (push_bit 8 w OR ucast (x :: byte)) = 256 * unat w + unat x"
proof -
  assume w: "unat w < 256 ^ 7"
  have "push_bit 8 w + ucast x = push_bit 8 w OR ucast x"
    by (rule disjunctive_add_eq_or) (auto simp: bit_eq_iff bit_simps dest: bit_imp_le_length)
  moreover have "unat (push_bit 8 w) = take_bit LENGTH(64) (push_bit 8 (unat w))"
    by (rule unsigned_push_bit_eq)
  then have "unat (push_bit 8 w) = 256 * unat w"
    using w unfolding push_bit_eq_mult take_bit_eq_mod by simp
  moreover have "unat (ucast x :: BN_ULONG) = unat x"
    using unat8 [of x] by (simp add: unsigned_ucast_eq take_bit_nat_eq_self)
  moreover have "256 * unat w + unat x < 2 ^ 64" using w unat8 [of x] by simp
  ultimately show ?thesis using unat_add_lem [of "push_bit 8 w" "ucast x"] by simp
qed

lemma bin_loop_val:
  "length bs + 7 = 8 * nw + m \<Longrightarrow> m \<le> 7 \<Longrightarrow> nw \<le> length ds \<Longrightarrow> unat word < 256 ^ (7 - m) \<Longrightarrow>
   length (bin_loop bs word m nw ds) = length ds \<and> drop nw (bin_loop bs word m nw ds) = drop nw ds \<and>
   words_val (take nw (bin_loop bs word m nw ds)) = 256 ^ length bs * (if bs = [] then 0 else unat word) + be_val bs"
proof (induction bs arbitrary: word m nw ds)
  case Nil
  then have "nw = 0" by simp
  then show ?case by (simp add: be_val_def)
next
  case (Cons x xs)
  have "unat word < 256 ^ 7" using Cons.prems(4) by (rule order_less_le_trans) (intro power_increasing, simp_all)
  note w = bin_word [OF this, of x]
  let ?w = "push_bit 8 word OR ucast x"
  show ?case
  proof (cases m)
    case 0
    then obtain k where nw: "nw = Suc k" using Cons.prems(1) by (cases nw) simp_all
    let ?r = "bin_loop xs 0 7 k (ds[k := ?w])"
    have l: "length xs = 8 * k" using Cons.prems(1) 0 nw by simp
    have k: "k < length ds" using Cons.prems(3) nw by simp
    have ih: "length ?r = length ds" "drop k ?r = ?w # drop (Suc k) ds" "words_val (take k ?r) = be_val xs"
      using Cons.IH [of k 7 "ds[k := ?w]" 0] l k by (auto simp: drop_update_swap Cons_nth_drop_Suc [symmetric])
    have "take (Suc k) ?r = take k ?r @ [?w]" "drop (Suc k) ?r = drop (Suc k) ds"
      using ih(1,2) k by (simp_all add: take_Suc_conv_app_nth nth_via_drop) (metis drop_Suc list.sel(3) tl_drop)
    then have "words_val (take (Suc k) ?r) = be_val xs + 256 ^ length xs * unat ?w"
      using ih(1,3) k l by (simp add: words_val_append pow_256_64)
    then show ?thesis
      using ih(1) \<open>drop (Suc k) ?r = drop (Suc k) ds\<close> unfolding w
      by (simp add: 0 nw be_val_Cons algebra_simps)
  next
    case (Suc m')
    have "unat ?w < 256 ^ Suc (7 - m)" using Cons.prems(4) unat8 [of x] unfolding w by simp
    moreover have "7 - m' = Suc (7 - m)" using Cons.prems(2) Suc by simp
    ultimately have b: "unat ?w < 256 ^ (7 - m')" by (simp only:)
    have ne: "xs \<noteq> []" using Cons.prems(1,2) Suc by (cases nw) auto
    have "length (bin_loop xs ?w m' nw ds) = length ds \<and> drop nw (bin_loop xs ?w m' nw ds) = drop nw ds \<and>
        words_val (take nw (bin_loop xs ?w m' nw ds)) = 256 ^ length xs * (if xs = [] then 0 else unat ?w) + be_val xs"
      using Cons.IH [of nw m' ds ?w] Cons.prems(1-3) Suc b by simp
    then show ?thesis using ne unfolding w by (simp add: Suc be_val_Cons algebra_simps)
  qed
qed

lemma words_for_bytes:
  "bs \<noteq> [] \<Longrightarrow> length bs + 7 = 8 * ((length bs - 1) div 8 + 1) + (length bs - 1) mod 8"
  by (cases bs) simp_all

lemma new_ok:
  assumes "(case ret0 of None \<Rightarrow> BN_new alloc | Some r \<Rightarrow> Some r) = Some ret" "\<forall>r. ret0 = Some r \<longrightarrow> width r \<le> length (d r)"
  shows "width ret \<le> length (d ret)"
  using assms by (auto simp: BN_new_def BN_init_def split: option.splits if_splits)

lemma bin2bn_val:
  assumes "BN_bin2bn alloc junk bs ret0 = Some b" "\<forall>r. ret0 = Some r \<longrightarrow> width r \<le> length (d r)" "\<forall>n. length (junk n) = n"
  shows "abs_val b = be_val bs" "bs \<noteq> [] \<Longrightarrow> \<not> neg b" "width b \<le> length (d b)"
proof -
  obtain ret where ret: "(case ret0 of None \<Rightarrow> BN_new alloc | Some r \<Rightarrow> Some r) = Some ret"
    using assms(1) by (auto simp: BN_bin2bn_def split: option.splits)
  note w = new_ok [OF ret assms(2)]
  let ?nw = "(length bs - 1) div 8 + 1" and ?m = "(length bs - 1) mod 8"
  have "abs_val b = be_val bs \<and> (bs \<noteq> [] \<longrightarrow> \<not> neg b) \<and> width b \<le> length (d b)"
  proof (cases "bs = []")
    case True
    then have "b = ret\<lparr>width := 0\<rparr>" using assms(1) unfolding BN_bin2bn_def ret by simp
    with True show ?thesis by (simp add: abs_val_def be_val_def)
  next
    case False
    obtain r1 where r1: "bn_wexpand alloc junk ?nw ret = (True, r1)"
      "b = r1\<lparr>width := ?nw, neg := False, d := bin_loop bs 0 ?m ?nw (d r1)\<rparr>"
      using assms(1) False unfolding BN_bin2bn_def ret
      by (cases "bn_wexpand alloc junk ?nw ret" rule: ok_cases) (auto simp: Let_def)
    note l = wexpand_width(1) [OF r1(1) assms(3) w]
    from bin_loop_val [OF words_for_bytes [OF False] _ l, of 0] l False
    show ?thesis unfolding r1(2) abs_val_def by simp
  qed
  then show "abs_val b = be_val bs" "bs \<noteq> [] \<Longrightarrow> \<not> neg b" "width b \<le> length (d b)" by blast+
qed

lemma drop_bytes_zero:
  assumes "n < length ws" "k \<ge> 8 * n"
  shows "le_val (take (8 * Suc n - k) (drop k (mem_bytes (ws[n := 0])))) = 0"
proof -
  have "mem_bytes (ws[n := 0]) = mem_bytes (take n ws) @ replicate 8 0 @ mem_bytes (drop (Suc n) ws)"
    using assms(1) by (simp add: upd_conv_take_nth_drop mem_bytes_def le_bytes_def numeral_eq_Suc)
  moreover have "length (mem_bytes (take n ws)) = 8 * n" using assms(1) by simp
  ultimately have "drop k (mem_bytes (ws[n := 0])) = drop (k - 8 * n) (replicate 8 0 @ mem_bytes (drop (Suc n) ws))"
    using assms(2) by simp
  then show ?thesis using assms(2) by (cases "k - 8 * n \<le> 8") (auto simp: le_val_0 in_set_conv_nth)
qed

lemma copy_bytes_val:
  assumes "bs \<noteq> []" "nw = (length bs - 1) div 8 + 1" "nw \<le> length ws"
  shows "words_val (take nw (copy_bytes bs (ws[nw - 1 := 0]))) = le_val bs" "nw \<le> length (copy_bytes bs (ws[nw - 1 := 0]))"
proof -
  let ?m = "mem_bytes (ws[nw - 1 := 0])"
  have n: "nw = Suc (nw - 1)" "length bs \<le> 8 * nw" "8 * (nw - 1) \<le> length bs"
    using words_for_bytes [OF assms(1)] assms(2) by (simp_all add: Suc_leI)
  have l: "8 * nw \<le> length (store bs ?m)" using n(2) assms(3) by (simp add: store_def)
  have t: "take (8 * nw) (store bs ?m) = bs @ take (8 * nw - length bs) (drop (length bs) ?m)"
    using n(2) by (simp add: store_def)
  have z: "le_val (take (8 * nw - length bs) (drop (length bs) ?m)) = 0"
    using drop_bytes_zero [of "nw - 1" ws "length bs"] n assms(3) by simp
  have "words_val (take nw (copy_bytes bs (ws[nw - 1 := 0]))) = le_val (take (8 * nw) (store bs ?m))"
    unfolding copy_bytes_def take_words_of_bytes by (rule words_val_of_bytes) (use l in simp)
  then show "words_val (take nw (copy_bytes bs (ws[nw - 1 := 0]))) = le_val bs"
    unfolding t le_val_append z by simp
  show "nw \<le> length (copy_bytes bs (ws[nw - 1 := 0]))"
    using l by (simp add: copy_bytes_def length_words_of_bytes)
qed

lemma le2bn_val:
  assumes "BN_le2bn alloc junk bs ret0 = Some b" "\<forall>r. ret0 = Some r \<longrightarrow> width r \<le> length (d r)" "\<forall>n. length (junk n) = n"
  shows "abs_val b = le_val bs" "bs \<noteq> [] \<Longrightarrow> ret0 = Some r \<Longrightarrow> neg b = neg r" "width b \<le> length (d b)"
proof -
  obtain ret where ret: "(case ret0 of None \<Rightarrow> BN_new alloc | Some r \<Rightarrow> Some r) = Some ret"
    using assms(1) by (auto simp: BN_le2bn_def split: option.splits)
  note w = new_ok [OF ret assms(2)]
  let ?nw = "(length bs - 1) div 8 + 1"
  have "abs_val b = le_val bs \<and> (bs \<noteq> [] \<longrightarrow> neg b = neg ret) \<and> width b \<le> length (d b)"
  proof (cases "bs = []")
    case True
    then have "b = ret\<lparr>width := 0, neg := False\<rparr>" using assms(1) unfolding BN_le2bn_def ret by simp
    with True show ?thesis by (simp add: abs_val_def)
  next
    case False
    obtain r1 where r1: "bn_wexpand alloc junk ?nw ret = (True, r1)"
      "b = r1\<lparr>width := ?nw, d := copy_bytes bs ((d r1)[?nw - 1 := 0])\<rparr>"
      using assms(1) False unfolding BN_le2bn_def ret
      by (cases "bn_wexpand alloc junk ?nw ret" rule: ok_cases) (auto simp: Let_def)
    note l = wexpand_width(1) [OF r1(1) assms(3) w] and ng = wexpand_width(3) [OF r1(1) assms(3) w]
    from copy_bytes_val [OF False refl l] ng False
    show ?thesis unfolding r1(2) abs_val_def by simp
  qed
  then show "abs_val b = le_val bs" "width b \<le> length (d b)" by blast+
  show "neg b = neg r" if "bs \<noteq> []" "ret0 = Some r"
    using that ret \<open>abs_val b = le_val bs \<and> (bs \<noteq> [] \<longrightarrow> neg b = neg ret) \<and> width b \<le> length (d b)\<close> by simp
qed

section \<open>Writing a big number\<close>

lemma padded_val:
  assumes "width a \<le> length (d a)"
  shows "BN_bn2le_padded len a =
      (if abs_val a < 256 ^ len then Some (take (min len (8 * width a)) (mem_bytes (take (width a) (d a))) @ replicate (len - 8 * width a) 0) else None)"
    "BN_bn2bin_padded len a = map_option rev (BN_bn2le_padded len a)"
    "BN_bn2le_padded len a = Some bs \<Longrightarrow> length bs = len \<and> le_val bs = abs_val a"
proof -
  let ?b = "mem_bytes (take (width a) (d a))"
  have v: "le_val ?b = abs_val a" by (simp add: le_val_mem_bytes abs_val_def)
  have l: "length ?b = 8 * width a" using assms by simp
  have s: "le_val ?b = le_val (take len ?b) + 256 ^ len * le_val (drop len ?b)" if "len \<le> 8 * width a"
    using le_val_append [of "take len ?b" "drop len ?b"] l that by simp
  have lt: "le_val (take len ?b) < 256 ^ len" if "len \<le> 8 * width a"
    using le_val_less [of "take len ?b"] l that by simp
  have fits: "fits_in_bytes ?b len \<longleftrightarrow> abs_val a < 256 ^ len" if "len < 8 * width a"
    unfolding fits_in_bytes_def or_bytes_0 v [symmetric] using s lt that by (cases "le_val (drop len ?b)") auto
  have all: "abs_val a < 256 ^ len" if "\<not> len < 8 * width a"
    by (rule order_less_le_trans [OF le_val_less [of ?b, unfolded v l] power_increasing]) (use that in simp_all)
  show p: "BN_bn2le_padded len a =
      (if abs_val a < 256 ^ len then Some (take (min len (8 * width a)) ?b @ replicate (len - 8 * width a) 0) else None)"
    using fits all by (auto simp: BN_bn2le_padded_def Let_def min_def mult.commute)
  show "BN_bn2bin_padded len a = map_option rev (BN_bn2le_padded len a)"
    by (simp add: BN_bn2bin_padded_def BN_bn2le_padded_def Let_def)
  assume o: "BN_bn2le_padded len a = Some bs"
  then have lt': "abs_val a < 256 ^ len" and bs: "bs = take (min len (8 * width a)) ?b @ replicate (len - 8 * width a) 0"
    unfolding p by (auto split: if_splits)
  have "le_val (take (min len (8 * width a)) ?b) = abs_val a"
  proof (cases "len < 8 * width a")
    case True
    with fits lt' have "le_val (drop len ?b) = 0" by (simp add: fits_in_bytes_def or_bytes_0)
    with s True v show ?thesis by (simp add: min_def)
  qed (simp add: l v flip: v)
  then show "length bs = len \<and> le_val bs = abs_val a" unfolding bs le_val_append using assms by (auto simp: min_def)
qed

lemma read_room:
  assumes "room alloc ((length bs + 7) div 8) r"
  shows "BN_bin2bn alloc junk bs (Some r) \<noteq> None" "BN_le2bn alloc junk bs (Some r) \<noteq> None"
proof -
  have "bs \<noteq> [] \<Longrightarrow> (length bs - 1) div 8 + 1 = (length bs + 7) div 8" by (cases bs) simp_all
  then have "fst (bn_wexpand alloc junk ((length bs - 1) div 8 + 1) r)" if "bs \<noteq> []"
    using wexpand_room [OF assms, of junk] that by simp
  then show "BN_bin2bn alloc junk bs (Some r) \<noteq> None" "BN_le2bn alloc junk bs (Some r) \<noteq> None"
    by (cases "bn_wexpand alloc junk ((length bs - 1) div 8 + 1) r" rule: ok_cases;
        auto simp: BN_bin2bn_def BN_le2bn_def Let_def)+
qed

lemma bn_le_roundtrip:
  assumes "width a \<le> length (d a)" "\<forall>n. length (junk n) = n" "\<forall>r. ret = Some r \<longrightarrow> width r \<le> length (d r)"
  shows "BN_bn2le_padded n a = Some bs \<Longrightarrow> BN_le2bn alloc junk bs ret = Some b \<Longrightarrow> abs_val b = abs_val a"
    "BN_le2bn alloc junk cs ret = Some b \<Longrightarrow> BN_bn2le_padded (length cs) b = Some cs"
proof -
  show "abs_val b = abs_val a" if "BN_bn2le_padded n a = Some bs" "BN_le2bn alloc junk bs ret = Some b"
    using le2bn_val(1) [OF that(2) assms(3,2)] padded_val(3) [OF assms(1) that(1)] by simp
  assume b: "BN_le2bn alloc junk cs ret = Some b"
  note v = le2bn_val(1) [OF b assms(3,2)] and w = le2bn_val(3) [OF b assms(3,2)]
  obtain bs where bs: "BN_bn2le_padded (length cs) b = Some bs"
    using padded_val(1) [OF w, of "length cs"] le_val_less [of cs] v by simp
  from padded_val(3) [OF w bs] v have "bs = cs" by (intro le_val_inj) simp_all
  with bs show "BN_bn2le_padded (length cs) b = Some cs" by simp
qed

lemma bn_be_roundtrip:
  assumes "width a \<le> length (d a)" "\<forall>n. length (junk n) = n" "\<forall>r. ret = Some r \<longrightarrow> width r \<le> length (d r)"
  shows "BN_bn2bin_padded n a = Some bs \<Longrightarrow> BN_bin2bn alloc junk bs ret = Some b \<Longrightarrow> abs_val b = abs_val a"
    "BN_bin2bn alloc junk cs ret = Some b \<Longrightarrow> BN_bn2bin_padded (length cs) b = Some cs"
proof -
  show "abs_val b = abs_val a" if bs: "BN_bn2bin_padded n a = Some bs" and b: "BN_bin2bn alloc junk bs ret = Some b"
  proof -
    obtain xs where xs: "BN_bn2le_padded n a = Some xs" "bs = rev xs"
      using bs unfolding padded_val(2) [OF assms(1)] by auto
    with bin2bn_val(1) [OF b assms(3,2)] padded_val(3) [OF assms(1) xs(1)] show ?thesis by (simp add: be_val_def)
  qed
  assume b: "BN_bin2bn alloc junk cs ret = Some b"
  note v = bin2bn_val(1) [OF b assms(3,2)] and w = bin2bn_val(3) [OF b assms(3,2)]
  obtain bs where bs: "BN_bn2le_padded (length cs) b = Some bs"
    using padded_val(1) [OF w, of "length cs"] le_val_less [of "rev cs"] v by (simp add: be_val_def)
  from padded_val(3) [OF w bs] v have "bs = rev cs" by (intro le_val_inj) (simp_all add: be_val_def)
  with bs show "BN_bn2bin_padded (length cs) b = Some cs" unfolding padded_val(2) [OF w] by simp
qed

text \<open>C27: The byte strings of big numbers round-trip, big-endian and little-endian: writing to \<open>n\<close>
  bytes succeeds exactly when the absolute value is below \<open>256 ^ n\<close>, reading the bytes back gives the
  absolute value, and a number that was read from bytes is written to as many bytes as the same ones.
  Reading into a number with room for the words succeeds.  For at least one byte \<open>BN_bin2bn\<close> clears
  the sign of the number it writes to, \<open>BN_le2bn\<close> leaves it as it was.\<close>

theorem bn_bytes_roundtrip:
  assumes "width a \<le> length (d a)" "width r \<le> length (d r)" "\<forall>n. length (junk n) = n"
  shows "(BN_bn2bin_padded n a \<noteq> None \<longleftrightarrow> abs_val a < 256 ^ n) \<and> (BN_bn2le_padded n a \<noteq> None \<longleftrightarrow> abs_val a < 256 ^ n) \<and>
    (BN_bn2bin_padded n a = Some bs \<and> BN_bin2bn alloc junk bs (Some r) = Some b \<longrightarrow> abs_val b = abs_val a) \<and>
    (BN_bn2le_padded n a = Some bs \<and> BN_le2bn alloc junk bs (Some r) = Some b \<longrightarrow> abs_val b = abs_val a) \<and>
    (BN_bin2bn alloc junk cs (Some r) = Some c \<longrightarrow>
       BN_bn2bin_padded (length cs) c = Some cs \<and> (cs \<noteq> [] \<longrightarrow> \<not> neg c)) \<and>
    (BN_le2bn alloc junk cs (Some r) = Some c \<longrightarrow>
       BN_bn2le_padded (length cs) c = Some cs \<and> (cs \<noteq> [] \<longrightarrow> neg c = neg r)) \<and>
    (room alloc ((length cs + 7) div 8) r \<longrightarrow>
       BN_bin2bn alloc junk cs (Some r) \<noteq> None \<and> BN_le2bn alloc junk cs (Some r) \<noteq> None)"
proof (intro conjI impI; (elim conjE)?)
  have w: "\<forall>s. Some r = Some s \<longrightarrow> width s \<le> length (d s)" using assms(2) by simp
  note be = bn_be_roundtrip [OF assms(1,3) w] and le = bn_le_roundtrip [OF assms(1,3) w]
  show "BN_bn2bin_padded n a \<noteq> None \<longleftrightarrow> abs_val a < 256 ^ n" "BN_bn2le_padded n a \<noteq> None \<longleftrightarrow> abs_val a < 256 ^ n"
    unfolding padded_val(2) [OF assms(1)] by (simp_all add: padded_val(1) [OF assms(1)])
  show "abs_val b = abs_val a" if "BN_bn2bin_padded n a = Some bs" "BN_bin2bn alloc junk bs (Some r) = Some b"
    by (rule be(1) [OF that])
  show "abs_val b = abs_val a" if "BN_bn2le_padded n a = Some bs" "BN_le2bn alloc junk bs (Some r) = Some b"
    by (rule le(1) [OF that])
  show "BN_bn2bin_padded (length cs) c = Some cs" if "BN_bin2bn alloc junk cs (Some r) = Some c" by (rule be(2) [OF that])
  show "BN_bn2le_padded (length cs) c = Some cs" if "BN_le2bn alloc junk cs (Some r) = Some c" by (rule le(2) [OF that])
  show "\<not> neg c" if "BN_bin2bn alloc junk cs (Some r) = Some c" "cs \<noteq> []"
    by (rule bin2bn_val(2) [OF that(1) w assms(3) that(2)])
  show "neg c = neg r" if "BN_le2bn alloc junk cs (Some r) = Some c" "cs \<noteq> []"
    by (rule le2bn_val(2) [OF that(1) w assms(3) that(2) refl])
  show "BN_bin2bn alloc junk cs (Some r) \<noteq> None" "BN_le2bn alloc junk cs (Some r) \<noteq> None"
    if "room alloc ((length cs + 7) div 8) r"
    by (rule read_room [OF that])+
qed

text \<open>Nine bytes, read over a negative number with one valid word of three.\<close>

definition bytes_sample :: "byte list" where
  "bytes_sample = [1, 2, 3, 4, 5, 6, 7, 8, 9]"

definition bytes_sample_old :: BIGNUM where
  "bytes_sample_old = \<lparr>d = [5, 6, 7], width = 1, neg = True, static_data = False\<rparr>"

definition bytes_sample_be :: BIGNUM where
  "bytes_sample_be = \<lparr>d = [0x0203040506070809, 1, 7], width = 2, neg = False, static_data = False\<rparr>"

definition bytes_sample_le :: BIGNUM where
  "bytes_sample_le = \<lparr>d = [0x0807060504030201, 9, 7], width = 2, neg = True, static_data = False\<rparr>"

lemma bytes_sample_read:
  "BN_bin2bn (\<lambda>n. False) bn_sample_junk bytes_sample (Some bytes_sample_old) = Some bytes_sample_be"
  "BN_le2bn (\<lambda>n. False) bn_sample_junk bytes_sample (Some bytes_sample_old) = Some bytes_sample_le"
  by code_simp+

theorem bn_bytes_roundtrip_witness:
  "BN_bn2bin_padded 9 bytes_sample_be = Some bytes_sample \<and> BN_bn2le_padded 9 bytes_sample_le = Some bytes_sample \<and>
   \<not> neg bytes_sample_be \<and> neg bytes_sample_le"
proof -
  have w: "width bytes_sample_old \<le> length (d bytes_sample_old)" by (simp add: bytes_sample_old_def)
  have s: "length bytes_sample = 9" "bytes_sample \<noteq> []" "neg bytes_sample_old"
    by (simp_all add: bytes_sample_def bytes_sample_old_def)
  note rt = bn_bytes_roundtrip [OF w w bn_sample_ok(4), of 0 Nil "\<lambda>n. False"]
  show ?thesis
    using rt [of bytes_sample_be bytes_sample bytes_sample_be] rt [of bytes_sample_le bytes_sample bytes_sample_le]
    unfolding bytes_sample_read s(1) using s(2,3) by simp
qed

end
