(* ===== verification/Modes.thy ===== *)
theory Modes
  imports Prelude
begin

text \<open>
  The stream modes of a 128-bit block cipher (\<open>BoringSSL-GRPC/crypto/fipsmodule/modes\<close>): counter mode
  (\<open>ctr.c\<close>), output feedback (\<open>ofb.c\<close>) and cipher feedback (\<open>cfb.c\<close>), for a target that allows
  unaligned access (\<open>STRICT_ALIGNMENT\<close> is 0).  \<open>block\<close> is the function pointer argument of type
  \<open>block128_f\<close> together with its key.  \<open>in\<close> and \<open>out\<close> are lists: each function writes the byte of \<open>out\<close>
  with some index only after it has read the bytes of \<open>in\<close> up to it, so \<open>out\<close> may be the same buffer.
  \<open>ivec\<close> and \<open>ecount_buf\<close> are lists of 16 bytes, and \<open>*num\<close> is below 16, as \<open>ctr.c\<close> asserts;
  \<open>CRYPTO_cfb128_8_encrypt\<close> and \<open>CRYPTO_cfb128_1_encrypt\<close> assert that it is 0 and do not use it, so it is left
  out there.
\<close>

section \<open>Words of a block\<close>

type_synonym block128_f = "byte list \<Rightarrow> byte list"

definition load_word_le :: "byte list \<Rightarrow> nat \<Rightarrow> size_t" where
  "load_word_le p n = le_word (take 8 (drop n p))"

definition store_word_le :: "byte list \<Rightarrow> nat \<Rightarrow> size_t \<Rightarrow> byte list" where
  "store_word_le p n v = take n p @ le_bytes 8 v @ drop (n + 8) p"

definition GETU32 :: "byte list \<Rightarrow> nat \<Rightarrow> u32" where
  "GETU32 p n = le_word (rev (take 4 (drop n p)))"

definition PUTU32 :: "byte list \<Rightarrow> nat \<Rightarrow> u32 \<Rightarrow> byte list" where
  "PUTU32 p n v = take n p @ be_bytes 4 v @ drop (n + 4) p"

text \<open>The loop over the two words of a block that stores \<open>a ^ b\<close>.\<close>

definition xor_block :: "byte list \<Rightarrow> byte list \<Rightarrow> byte list" where
  "xor_block a b =
     le_bytes 8 (load_word_le a 0 XOR load_word_le b 0) @ le_bytes 8 (load_word_le a 8 XOR load_word_le b 8)"

section \<open>Counter mode\<close>

text \<open>\<open>inc_loop n c\<close> is the rest of the loop of the increments, from \<open>counter[n - 1]\<close> down.\<close>

primrec inc_loop :: "nat \<Rightarrow> u32 \<Rightarrow> byte list \<Rightarrow> byte list" where
  "inc_loop 0 c counter = counter"
| "inc_loop (Suc n) c counter =
     (let c1 = c + ucast (counter ! n) in inc_loop n (drop_bit 8 c1) (counter[n := ucast c1]))"

definition ctr128_inc :: "byte list \<Rightarrow> byte list" where
  "ctr128_inc = inc_loop 16 1"

definition ctr96_inc :: "byte list \<Rightarrow> byte list" where
  "ctr96_inc = inc_loop 12 1"

record ctr_state =
  ivec :: "byte list"
  ecount_buf :: "byte list"
  num :: nat

text \<open>
  The first loop of \<open>ctr.c\<close> and \<open>ofb.c\<close>, which uses up the rest of a key block, and the last one, for
  less than a block: the bytes written, \<open>n\<close>, and the bytes of \<open>in\<close> that are left.
\<close>

fun rest_loop :: "byte list \<Rightarrow> nat \<Rightarrow> byte list \<Rightarrow> byte list \<times> nat \<times> byte list" where
  "rest_loop key n [] = ([], n, [])"
| "rest_loop key n (x # xs) =
     (if n = 0 then ([], n, x # xs)
      else let (ys, n1, zs) = rest_loop key ((n + 1) mod 16) xs in ((x XOR key ! n) # ys, n1, zs))"

primrec tail_loop :: "byte list \<Rightarrow> nat \<Rightarrow> byte list \<Rightarrow> byte list \<times> nat" where
  "tail_loop key n [] = ([], n)"
| "tail_loop key n (x # xs) = (let (ys, n1) = tail_loop key (n + 1) xs in ((x XOR key ! n) # ys, n1))"

fun ctr_blocks :: "block128_f \<Rightarrow> ctr_state \<Rightarrow> byte list \<Rightarrow> byte list \<times> ctr_state \<times> byte list" where
  "ctr_blocks block s xs =
     (if length xs \<ge> 16
      then
        let e = block (ivec s);
            (ys, s1, zs) = ctr_blocks block \<lparr>ivec = ctr128_inc (ivec s), ecount_buf = e, num = 0\<rparr> (drop 16 xs)
        in (xor_block xs e @ ys, s1, zs)
      else ([], s, xs))"

declare ctr_blocks.simps [simp del]

definition CRYPTO_ctr128_encrypt :: "block128_f \<Rightarrow> ctr_state \<Rightarrow> byte list \<Rightarrow> byte list \<times> ctr_state" where
  "CRYPTO_ctr128_encrypt block s xs =
     (let (ys1, n, xs1) = rest_loop (ecount_buf s) (num s) xs;
          (ys2, s1, xs2) = ctr_blocks block (s\<lparr>num := n\<rparr>) xs1
      in if xs2 \<noteq> []
         then
           let e = block (ivec s1); (ys3, n1) = tail_loop e (num s1) xs2
           in (ys1 @ ys2 @ ys3, \<lparr>ivec = ctr128_inc (ivec s1), ecount_buf = e, num = n1\<rparr>)
         else (ys1 @ ys2, s1))"

text \<open>
  With a function that encrypts whole blocks and counts on 32 bits.  \<open>ctr128_f\<close> gets the input, the
  number of blocks and the counter block, and gives the output.
\<close>

type_synonym ctr128_f = "byte list \<Rightarrow> nat \<Rightarrow> byte list \<Rightarrow> byte list"

text \<open>How many blocks the next call takes, and the new \<open>ctr32\<close>.\<close>

definition ctr32_blocks :: "u32 \<Rightarrow> nat \<Rightarrow> nat \<times> u32" where
  "ctr32_blocks ctr32 len =
     (let blocks = len div 16;
          blocks1 = (if blocks > 2 ^ 28 then 2 ^ 28 else blocks);
          ctr = ctr32 + of_nat blocks1
      in if unat ctr < blocks1 then (blocks1 - unat ctr, 0) else (blocks1, ctr))"

definition ctr32_store :: "byte list \<Rightarrow> u32 \<Rightarrow> byte list" where
  "ctr32_store iv ctr32 = (let iv1 = PUTU32 iv 12 ctr32 in if ctr32 = 0 then ctr96_inc iv1 else iv1)"

lemma ctr32_blocks_pos: "16 \<le> len \<Longrightarrow> 0 < fst (ctr32_blocks c len)"
  by (auto simp: ctr32_blocks_def Let_def)

function ctr32_loop ::
  "ctr128_f \<Rightarrow> byte list \<Rightarrow> u32 \<Rightarrow> byte list \<Rightarrow> byte list \<times> byte list \<times> u32 \<times> byte list" where
  "ctr32_loop func iv ctr32 xs =
     (if length xs \<ge> 16
      then
        let blocks = fst (ctr32_blocks ctr32 (length xs)); ctr = snd (ctr32_blocks ctr32 (length xs));
            out = func xs blocks iv;
            (ys, iv1, ctr1, zs) = ctr32_loop func (ctr32_store iv ctr) ctr (drop (blocks * 16) xs)
        in (out @ ys, iv1, ctr1, zs)
      else ([], iv, ctr32, xs))"
  by auto
termination
proof (relation "measure (\<lambda>(func, iv, c, xs). length xs)")
  fix func iv ctr32 xs x xa xb
  assume "16 \<le> length (xs :: byte list)" "x = fst (ctr32_blocks ctr32 (length xs))"
  then show "((func, ctr32_store iv xa, xa, drop (x * 16) xs), func, iv, ctr32, xs)
      \<in> measure (\<lambda>(func, iv, c, xs). length xs)"
    using ctr32_blocks_pos [of "length xs" ctr32] by simp
qed simp

declare ctr32_loop.simps [simp del]

definition CRYPTO_ctr128_encrypt_ctr32 :: "ctr128_f \<Rightarrow> ctr_state \<Rightarrow> byte list \<Rightarrow> byte list \<times> ctr_state" where
  "CRYPTO_ctr128_encrypt_ctr32 func s xs =
     (let (ys1, n, xs1) = rest_loop (ecount_buf s) (num s) xs;
          (ys2, iv, ctr32, xs2) = ctr32_loop func (ivec s) (GETU32 (ivec s) 12) xs1
      in if xs2 \<noteq> []
         then
           let e = func (replicate 16 0) 1 iv; (ys3, n1) = tail_loop e n xs2
           in (ys1 @ ys2 @ ys3, \<lparr>ivec = ctr32_store iv (ctr32 + 1), ecount_buf = e, num = n1\<rparr>)
         else (ys1 @ ys2, s\<lparr>ivec := iv, num := n\<rparr>))"

section \<open>Output feedback\<close>

text \<open>The loop over words starts at \<open>n\<close>, which is 0 wherever a block of \<open>in\<close> is left.\<close>

fun ofb_blocks :: "block128_f \<Rightarrow> byte list \<Rightarrow> nat \<Rightarrow> byte list \<Rightarrow> byte list \<times> byte list \<times> nat \<times> byte list" where
  "ofb_blocks block iv n xs =
     (if length xs \<ge> 16
      then
        let iv1 = block iv; (ys, iv2, n1, zs) = ofb_blocks block iv1 0 (drop 16 xs)
        in (drop n (xor_block xs iv1) @ ys, iv2, n1, zs)
      else ([], iv, n, xs))"

declare ofb_blocks.simps [simp del]

definition CRYPTO_ofb128_encrypt :: "block128_f \<Rightarrow> byte list \<times> nat \<Rightarrow> byte list \<Rightarrow> byte list \<times> byte list \<times> nat" where
  "CRYPTO_ofb128_encrypt block s xs =
     (let (ys1, n, xs1) = rest_loop (fst s) (snd s) xs;
          (ys2, iv, n1, xs2) = ofb_blocks block (fst s) n xs1
      in if xs2 \<noteq> []
         then let iv1 = block iv; (ys3, n2) = tail_loop iv1 n1 xs2 in (ys1 @ ys2 @ ys3, iv1, n2)
         else (ys1 @ ys2, iv, n1))"

section \<open>Cipher feedback\<close>

text \<open>The loops of the two directions differ in the byte that goes to \<open>ivec\<close>.\<close>

fun cfb_rest :: "bool \<Rightarrow> byte list \<Rightarrow> nat \<Rightarrow> byte list \<Rightarrow> byte list \<times> byte list \<times> nat \<times> byte list" where
  "cfb_rest enc iv n [] = ([], iv, n, [])"
| "cfb_rest enc iv n (x # xs) =
     (if n = 0 then ([], iv, n, x # xs)
      else
        let y = iv ! n XOR x; iv1 = iv[n := (if enc then y else x)];
            (ys, iv2, n1, zs) = cfb_rest enc iv1 ((n + 1) mod 16) xs
        in (y # ys, iv2, n1, zs))"

text \<open>The two words of a block, from index \<open>n\<close>, which is 0.\<close>

fun cfb_blocks ::
  "block128_f \<Rightarrow> bool \<Rightarrow> byte list \<Rightarrow> nat \<Rightarrow> byte list \<Rightarrow> byte list \<times> byte list \<times> nat \<times> byte list" where
  "cfb_blocks block enc iv n xs =
     (if length xs \<ge> 16
      then
        let iv1 = block iv;
            y0 = load_word_le iv1 0 XOR load_word_le xs 0; y1 = load_word_le iv1 8 XOR load_word_le xs 8;
            iv2 = store_word_le iv1 0 (if enc then y0 else load_word_le xs 0);
            iv3 = store_word_le iv2 8 (if enc then y1 else load_word_le xs 8);
            (ys, iv4, n1, zs) = cfb_blocks block enc iv3 0 (drop 16 xs)
        in (drop n (le_bytes 8 y0 @ le_bytes 8 y1) @ ys, iv4, n1, zs)
      else ([], iv, n, xs))"

declare cfb_blocks.simps [simp del]

primrec cfb_tail :: "bool \<Rightarrow> byte list \<Rightarrow> nat \<Rightarrow> byte list \<Rightarrow> byte list \<times> byte list \<times> nat" where
  "cfb_tail enc iv n [] = ([], iv, n)"
| "cfb_tail enc iv n (x # xs) =
     (let y = iv ! n XOR x; (ys, iv1, n1) = cfb_tail enc (iv[n := (if enc then y else x)]) (n + 1) xs
      in (y # ys, iv1, n1))"

definition CRYPTO_cfb128_encrypt ::
  "block128_f \<Rightarrow> bool \<Rightarrow> byte list \<times> nat \<Rightarrow> byte list \<Rightarrow> byte list \<times> byte list \<times> nat" where
  "CRYPTO_cfb128_encrypt block enc s xs =
     (let (ys1, iv, n, xs1) = cfb_rest enc (fst s) (snd s) xs;
          (ys2, iv1, n1, xs2) = cfb_blocks block enc iv n xs1
      in if xs2 \<noteq> []
         then let (ys3, iv2, n2) = cfb_tail enc (block iv1) n1 xs2 in (ys1 @ ys2 @ ys3, iv2, n2)
         else (ys1 @ ys2, iv1, n1))"

text \<open>
  One step of a shift register of \<open>nbits\<close> bits: the bytes of \<open>out\<close> and the new \<open>ivec\<close>.  \<open>ovec\<close> are the
  bytes of the array that have been written.
\<close>

definition cfbr_encrypt_block :: "block128_f \<Rightarrow> bool \<Rightarrow> nat \<Rightarrow> byte list \<Rightarrow> byte list \<Rightarrow> byte list \<times> byte list" where
  "cfbr_encrypt_block block enc nbits iv xs =
     (if nbits = 0 \<or> nbits > 128 then ([], iv)
      else
        let iv1 = block iv;
            out = map (\<lambda>n. xs ! n XOR iv1 ! n) [0..<(nbits + 7) div 8];
            ovec = iv @ (if enc then out else take ((nbits + 7) div 8) xs);
            rem = nbits mod 8; k = nbits div 8
        in (out,
            if rem = 0 then take 16 (drop k ovec)
            else map (\<lambda>n. push_bit rem (ovec ! (n + k)) OR drop_bit (8 - rem) (ovec ! (n + k + 1))) [0..<16]))"

primrec CRYPTO_cfb128_8_encrypt ::
  "block128_f \<Rightarrow> bool \<Rightarrow> byte list \<Rightarrow> byte list \<Rightarrow> byte list \<times> byte list" where
  "CRYPTO_cfb128_8_encrypt block enc iv [] = ([], iv)"
| "CRYPTO_cfb128_8_encrypt block enc iv (x # xs) =
     (let (y, iv1) = cfbr_encrypt_block block enc 8 iv [x];
          (ys, iv2) = CRYPTO_cfb128_8_encrypt block enc iv1 xs
      in (y @ ys, iv2))"

text \<open>The loop of \<open>CRYPTO_cfb128_1_encrypt\<close> over the bits with numbers in a list; \<open>out\<close> is the old buffer.\<close>

primrec cfb1_loop ::
  "block128_f \<Rightarrow> bool \<Rightarrow> byte list \<Rightarrow> nat list \<Rightarrow> byte list \<Rightarrow> byte list \<Rightarrow> byte list \<times> byte list" where
  "cfb1_loop block enc xs [] iv out = (out, iv)"
| "cfb1_loop block enc xs (n # ns) iv out =
     (let c = (if xs ! (n div 8) AND push_bit (7 - n mod 8) 1 \<noteq> 0 then 0x80 else 0);
          (ds, iv1) = cfbr_encrypt_block block enc 1 iv [c]
      in cfb1_loop block enc xs ns iv1
           (out[n div 8 := (out ! (n div 8) AND NOT (push_bit (7 - n mod 8) 1)) OR
                           drop_bit (n mod 8) (ds ! 0 AND 0x80)]))"

definition CRYPTO_cfb128_1_encrypt ::
  "block128_f \<Rightarrow> bool \<Rightarrow> byte list \<Rightarrow> byte list \<Rightarrow> nat \<Rightarrow> byte list \<Rightarrow> byte list \<times> byte list" where
  "CRYPTO_cfb128_1_encrypt block enc iv xs bits out = cfb1_loop block enc xs [0..<bits] iv out"

end
