(* ===== verification/Modes_Spec.thy ===== *)
theory Modes_Spec
  imports Modes Byte_Val
begin

text \<open>
  What the stream modes compute.  The reference is a mode that works byte by byte: each function of
  \<open>Modes\<close>, with its loops over the rest of a block, over whole blocks by words and over the last bytes,
  is the run of such a step function over the input.
\<close>

section \<open>Byte by byte\<close>

primrec run :: "('s \<Rightarrow> byte \<Rightarrow> byte \<times> 's) \<Rightarrow> 's \<Rightarrow> byte list \<Rightarrow> byte list \<times> 's" where
  "run step s [] = ([], s)"
| "run step s (x # xs) = (let (y, s1) = step s x; (ys, s2) = run step s1 xs in (y # ys, s2))"

lemma run_append:
  "run step s (xs @ ys) = (let (us, s1) = run step s xs; (vs, s2) = run step s1 ys in (us @ vs, s2))"
  by (induction xs arbitrary: s) (simp_all add: Let_def case_prod_beta)

lemma run_split:
  "fst (run step s (xs @ ys)) = fst (run step s xs) @ fst (run step (snd (run step s xs)) ys)"
  "snd (run step s (xs @ ys)) = snd (run step (snd (run step s xs)) ys)"
  by (simp_all add: run_append Let_def case_prod_beta)

lemma length_run [simp]: "length (fst (run step s xs)) = length xs"
  by (induction xs arbitrary: s) (simp_all add: Let_def case_prod_beta)

text \<open>Input that comes in pieces.\<close>

primrec pieces :: "('s \<Rightarrow> byte list \<Rightarrow> byte list \<times> 's) \<Rightarrow> 's \<Rightarrow> byte list list \<Rightarrow> byte list \<times> 's" where
  "pieces mode s [] = ([], s)"
| "pieces mode s (xs # xss) = (let (ys, s1) = mode s xs; (zs, s2) = pieces mode s1 xss in (ys @ zs, s2))"

locale stream_mode =
  fixes step :: "'s \<Rightarrow> byte \<Rightarrow> byte \<times> 's"
    and mode :: "'s \<Rightarrow> byte list \<Rightarrow> byte list \<times> 's"
    and good :: "'s \<Rightarrow> bool"
  assumes good_step: "good s \<Longrightarrow> good (snd (step s x))"
    and mode_run: "good s \<Longrightarrow> mode s xs = run step s xs"
begin

lemma good_run: "good s \<Longrightarrow> good (snd (run step s xs))"
  by (induction xs arbitrary: s) (auto simp: Let_def case_prod_beta intro: good_step)

lemma pieces_run: "good s \<Longrightarrow> pieces mode s xss = run step s (concat xss)"
proof (induction xss arbitrary: s)
  case (Cons xs xss)
  then show ?case using good_run [OF Cons.prems, of xs] by (simp add: mode_run run_append Let_def case_prod_beta)
qed simp

lemma pieces_mode: "good s \<Longrightarrow> pieces mode s xss = mode s (concat xss)"
  by (simp add: pieces_run mode_run)

end

section \<open>Words of a block\<close>

lemma map2_append: "length xs = length us \<Longrightarrow> map2 f (xs @ ys) (us @ vs) = map2 f xs us @ map2 f ys vs"
  by simp

lemma le_bytes_xor:
  "le_bytes n (a XOR b) = map2 (XOR) (le_bytes n a) (le_bytes n (b :: 'a::len word))"
  by (rule nth_equalityI) (auto simp: le_bytes_def intro!: bit_word_eqI simp: bit_simps)

lemma le_bytes_load: "n + 8 \<le> length p \<Longrightarrow> le_bytes 8 (load_word_le p n) = take 8 (drop n p)"
  using le_bytes_le_word [of "take 8 (drop n p)", where 'a = 64] by (simp add: load_word_le_def)

lemma take_16: "16 \<le> length p \<Longrightarrow> take 8 p @ take 8 (drop 8 p) = take 16 p"
  using take_add [of 8 8 p] by simp

lemma xor_block_map2:
  assumes "16 \<le> length a" "length b = 16"
  shows "xor_block a b = map2 (XOR) (take 16 a) b"
proof -
  have "xor_block a b = map2 (XOR) (take 8 a) (take 8 b) @ map2 (XOR) (take 8 (drop 8 a)) (take 8 (drop 8 b))"
    using assms by (simp add: xor_block_def le_bytes_xor le_bytes_load)
  also have "\<dots> = map2 (XOR) (take 8 a @ take 8 (drop 8 a)) (take 8 b @ take 8 (drop 8 b))"
    by (rule map2_append [symmetric]) (use assms in simp)
  finally show ?thesis using take_16 [of a] take_16 [of b] assms by simp
qed

lemma store_load:
  assumes "length iv = 16"
  shows "store_word_le (store_word_le iv 0 u) 8 v = le_bytes 8 u @ le_bytes 8 v"
  using assms by (simp add: store_word_le_def)

section \<open>Modes with a key stream\<close>

text \<open>
  A step of such a mode takes a new key block when the last one is used up, and combines the byte with the
  next byte of the key block.
\<close>

definition key_step ::
  "('s \<Rightarrow> byte list) \<Rightarrow> ('s \<Rightarrow> nat) \<Rightarrow> (nat \<Rightarrow> 's \<Rightarrow> 's) \<Rightarrow> ('s \<Rightarrow> 's) \<Rightarrow> 's \<Rightarrow> byte \<Rightarrow> byte \<times> 's" where
  "key_step key pos at next_key s x =
     (let s1 = (if pos s = 0 then next_key s else s) in (x XOR key s1 ! pos s, at ((pos s + 1) mod 16) s1))"

locale key_stream =
  fixes key :: "'s \<Rightarrow> byte list"
    and pos :: "'s \<Rightarrow> nat"
    and at :: "nat \<Rightarrow> 's \<Rightarrow> 's"
    and next_key :: "'s \<Rightarrow> 's"
  assumes key_at [simp]: "key (at n s) = key s"
    and pos_at [simp]: "pos (at n s) = n"
    and at_at [simp]: "at m (at n s) = at m s"
    and at_pos: "pos s = n \<Longrightarrow> at n s = s"
    and pos_next [simp]: "pos (next_key s) = pos s"
begin

abbreviation "step \<equiv> key_step key pos at next_key"

lemma step_simps:
  "0 < pos s \<Longrightarrow> step s x = (x XOR key s ! pos s, at ((pos s + 1) mod 16) s)"
  "pos s = 0 \<Longrightarrow> step s x = (x XOR key (next_key s) ! 0, at 1 (next_key s))"
  by (simp_all add: key_step_def Let_def)

lemma inner:
  "0 < pos s \<Longrightarrow> pos s < 16 \<Longrightarrow> pos s + length xs \<le> 16 \<Longrightarrow> length (key s) = 16 \<Longrightarrow>
   run step s xs = (map2 (XOR) xs (drop (pos s) (key s)), at ((pos s + length xs) mod 16) s)"
proof (induction xs arbitrary: s)
  case Nil
  then show ?case by (simp add: at_pos)
next
  case (Cons x xs)
  show ?case
  proof (cases xs)
    case Nil
    then show ?thesis using Cons.prems by (simp add: step_simps Cons_nth_drop_Suc [symmetric])
  next
    case (Cons a as)
    have l: "pos s + 1 < 16" using Cons Cons.prems by simp
    let ?s = "at ((pos s + 1) mod 16) s"
    have p: "pos ?s = pos s + 1" using l by simp
    have "run step ?s xs = (map2 (XOR) xs (drop (pos s + 1) (key s)), at ((pos s + 1 + length xs) mod 16) s)"
      using Cons.IH [of ?s] Cons.prems l unfolding p by simp
    then show ?thesis
      using Cons.prems l by (simp add: step_simps Let_def Cons_nth_drop_Suc [symmetric])
  qed
qed

lemma fresh:
  assumes "pos s = 0" "xs \<noteq> []" "length xs \<le> 16" "length (key (next_key s)) = 16"
  shows "run step s xs = (map2 (XOR) xs (key (next_key s)), at (length xs mod 16) (next_key s))"
proof -
  obtain x ys where xs: "xs = x # ys" using assms(2) by (cases xs) auto
  obtain k ks where k: "key (next_key s) = k # ks" using assms(4) by (cases "key (next_key s)") auto
  show ?thesis
    using inner [of "at 1 (next_key s)" ys] assms(1,3,4) unfolding xs
    by (simp add: step_simps Let_def k)
qed

lemma rest:
  "pos s = n \<Longrightarrow> n < 16 \<Longrightarrow> rest_loop (key s) n xs = (ys, n1, zs) \<Longrightarrow>
   run step s xs = (ys @ fst (run step (at n1 s) zs), snd (run step (at n1 s) zs)) \<and> n1 < 16 \<and> (zs = [] \<or> n1 = 0)"
proof (induction xs arbitrary: s n ys)
  case Nil
  then show ?case by (simp add: at_pos)
next
  case (Cons x xs)
  show ?case
  proof (cases "n = 0")
    case True
    then show ?thesis using Cons.prems by (auto simp: at_pos)
  next
    case False
    obtain vs where r: "rest_loop (key s) ((n + 1) mod 16) xs = (vs, n1, zs)" "ys = (x XOR key s ! n) # vs"
      using Cons.prems(3) False by (auto simp: Let_def split: prod.splits)
    from Cons.IH [of "at ((n + 1) mod 16) s" "(n + 1) mod 16" vs] r Cons.prems(1) False
    show ?thesis by (simp add: step_simps Let_def case_prod_beta)
  qed
qed

end

lemma tail_loop_map2:
  "n + length xs \<le> length key \<Longrightarrow> tail_loop key n xs = (map2 (XOR) xs (drop n key), n + length xs)"
  by (induction xs arbitrary: n) (auto simp: Let_def Cons_nth_drop_Suc [symmetric])

text \<open>A block cipher takes blocks of 16 bytes to blocks of 16 bytes.\<close>

definition cipher :: "block128_f \<Rightarrow> bool" where
  "cipher block \<longleftrightarrow> (\<forall>b. length b = 16 \<longrightarrow> length (block b) = 16)"

end
