(* ===== verification/Ctr_Spec.thy ===== *)
theory Ctr_Spec
  imports Modes_Spec
begin

text \<open>
  Counter mode: both functions of \<open>ctr.c\<close> combine the input with the encryptions of the successive
  values of a 128-bit counter, however the input is cut into pieces.
\<close>

section \<open>Counter mode\<close>

definition ctr_ok :: "ctr_state \<Rightarrow> bool" where
  "ctr_ok s \<longleftrightarrow> length (ivec s) = 16 \<and> length (ecount_buf s) = 16 \<and> num s < 16"

definition next_ctr :: "block128_f \<Rightarrow> ctr_state \<Rightarrow> ctr_state" where
  "next_ctr block s = s\<lparr>ivec := ctr128_inc (ivec s), ecount_buf := block (ivec s)\<rparr>"

abbreviation ctr_step :: "block128_f \<Rightarrow> ctr_state \<Rightarrow> byte \<Rightarrow> byte \<times> ctr_state" where
  "ctr_step block \<equiv> key_step ecount_buf num (\<lambda>n s. s\<lparr>num := n\<rparr>) (next_ctr block)"

interpretation ctr: key_stream ecount_buf num "\<lambda>n s. s\<lparr>num := n\<rparr>" "next_ctr block"
  by unfold_locales (auto simp: next_ctr_def)

lemma length_inc_loop [simp]: "length (inc_loop n c counter) = length counter"
  by (induction n arbitrary: c counter) (simp_all add: Let_def)

lemma length_ctr128_inc [simp]: "length (ctr128_inc iv) = length iv"
  by (simp add: ctr128_inc_def)

lemma ctr_next: "cipher block \<Longrightarrow> ctr_ok s \<Longrightarrow> length (ecount_buf (next_ctr block s)) = 16"
  by (simp add: next_ctr_def cipher_def ctr_ok_def)

lemma ctr_good_step: "cipher block \<Longrightarrow> ctr_ok s \<Longrightarrow> ctr_ok (snd (ctr_step block s x))"
  by (auto simp: key_step_def next_ctr_def cipher_def ctr_ok_def Let_def)

lemma ctr_state_next: "\<lparr>ivec = ctr128_inc (ivec s), ecount_buf = block (ivec s), num = n\<rparr> = next_ctr block s\<lparr>num := n\<rparr>"
  by (simp add: next_ctr_def)

lemma ctr_blocks_run:
  assumes "cipher block"
  shows "ctr_ok s \<Longrightarrow> num s = 0 \<or> xs = [] \<Longrightarrow> ctr_blocks block s xs = (ys, s1, zs) \<Longrightarrow>
    run (ctr_step block) s xs = (ys @ fst (run (ctr_step block) s1 zs), snd (run (ctr_step block) s1 zs)) \<and>
    ctr_ok s1 \<and> length zs < 16 \<and> (zs = [] \<or> num s1 = 0)"
proof (induction "length xs" arbitrary: s xs ys rule: less_induct)
  case less
  show ?case
  proof (cases "length xs \<ge> 16")
    case False
    with less.prems show ?thesis by (auto simp: ctr_blocks.simps)
  next
    case True
    let ?s = "next_ctr block s\<lparr>num := 0\<rparr>"
    have n: "num s = 0" "xs \<noteq> []" using True less.prems(2) by auto
    obtain vs where v: "ctr_blocks block ?s (drop 16 xs) = (vs, s1, zs)" "ys = xor_block xs (block (ivec s)) @ vs"
      using less.prems(3) True by (subst (asm) ctr_blocks.simps) (auto simp: Let_def ctr_state_next split: prod.splits)
    have ok: "ctr_ok ?s" "length (block (ivec s)) = 16"
      using less.prems(1) assms by (auto simp: ctr_ok_def next_ctr_def cipher_def)
    have k: "ecount_buf (next_ctr block s) = block (ivec s)" by (simp add: next_ctr_def)
    have "run (ctr_step block) s (take 16 xs) = (xor_block xs (block (ivec s)), ?s)"
      using ctr.fresh [of s "take 16 xs" block] n True ok(2) by (auto simp: k xor_block_map2)
    moreover have "run (ctr_step block) s xs = run (ctr_step block) s (take 16 xs @ drop 16 xs)" by simp
    ultimately show ?thesis
      using less.hyps [OF _ ok(1) _ v(1)] True unfolding v(2) run_append by (simp add: Let_def case_prod_beta)
  qed
qed

lemma ctr_mode_run:
  assumes "cipher block" "ctr_ok s"
  shows "CRYPTO_ctr128_encrypt block s xs = run (ctr_step block) s xs"
proof -
  obtain ys n zs where r: "rest_loop (ecount_buf s) (num s) xs = (ys, n, zs)" by (metis prod_cases3)
  have rest: "run (ctr_step block) s xs = (ys @ fst (run (ctr_step block) (s\<lparr>num := n\<rparr>) zs), snd (run (ctr_step block) (s\<lparr>num := n\<rparr>) zs))"
    "n < 16" "zs = [] \<or> n = 0"
    using ctr.rest [OF refl _ r, of block] assms(2) by (auto simp: ctr_ok_def)
  have ok: "ctr_ok (s\<lparr>num := n\<rparr>)" using assms(2) rest(2) by (simp add: ctr_ok_def)
  obtain us s1 ws where b: "ctr_blocks block (s\<lparr>num := n\<rparr>) zs = (us, s1, ws)" by (metis prod_cases3)
  have blocks: "run (ctr_step block) (s\<lparr>num := n\<rparr>) zs = (us @ fst (run (ctr_step block) s1 ws), snd (run (ctr_step block) s1 ws))"
    "ctr_ok s1" "length ws < 16" "ws = [] \<or> num s1 = 0"
    using ctr_blocks_run [OF assms(1) ok _ b] rest(3) by auto
  show ?thesis
  proof (cases "ws = []")
    case True
    then show ?thesis unfolding rest(1) blocks(1) by (simp add: CRYPTO_ctr128_encrypt_def r b)
  next
    case False
    then have n: "num s1 = 0" using blocks(4) by simp
    have k: "ecount_buf (next_ctr block s1) = block (ivec s1)" "length (block (ivec s1)) = 16"
      using blocks(2) assms(1) by (simp_all add: next_ctr_def cipher_def ctr_ok_def)
    have "run (ctr_step block) s1 ws = (map2 (XOR) ws (block (ivec s1)), next_ctr block s1\<lparr>num := length ws\<rparr>)"
      using ctr.fresh [OF n False, of block] blocks(3) k by simp
    then show ?thesis
      unfolding rest(1) blocks(1) using False n blocks(3) k(2)
      by (simp add: CRYPTO_ctr128_encrypt_def r b tail_loop_map2 ctr_state_next Let_def)
  qed
qed

interpretation ctr_mode: stream_mode "ctr_step block" "CRYPTO_ctr128_encrypt block" "\<lambda>s. cipher block \<and> ctr_ok s"
  by unfold_locales (simp_all add: ctr_good_step ctr_mode_run)

section \<open>The counter\<close>

definition be_of :: "nat \<Rightarrow> nat \<Rightarrow> byte list" where
  "be_of n v = rev (map (\<lambda>i. of_nat (v div 256 ^ i)) [0..<n])"

lemma length_be_of [simp]: "length (be_of n v) = n"
  by (simp add: be_of_def)

lemma be_of_Suc: "be_of (Suc n) v = be_of n (v div 256) @ [of_nat v]"
proof -
  have "map (\<lambda>i. of_nat (v div 256 ^ i) :: byte) [0..<Suc n] = of_nat v # map (\<lambda>i. of_nat (v div 256 ^ Suc i)) [0..<n]"
    unfolding upt_conv_Cons [OF zero_less_Suc] by (simp add: map_Suc_upt [symmetric] del: upt_Suc)
  then show ?thesis by (simp add: be_of_def div_mult2_eq)
qed

lemma be_val_snoc: "be_val (xs @ [b]) = 256 * be_val xs + unat b"
  by (simp add: be_val_def)

lemma be_val_Nil [simp]: "be_val [] = 0"
  by (simp add: be_val_def)

lemma be_val_less: "be_val bs < 256 ^ length bs"
  using le_val_less [of "rev bs"] by (simp add: be_val_def)

lemma be_val_append: "be_val (xs @ ys) = 256 ^ length ys * be_val xs + be_val ys"
  by (simp add: be_val_def le_val_append)

lemma be_val_inj: "length xs = length ys \<Longrightarrow> be_val xs = be_val ys \<Longrightarrow> xs = ys"
  unfolding be_val_def using le_val_inj [of "rev xs" "rev ys"] by simp

lemma mod_256_Suc: "x mod 256 ^ Suc n = 256 * (x div 256 mod 256 ^ n) + x mod (256::nat)"
  using mod_mult2_eq [of x 256 "256 ^ n"] by simp

lemma be_val_be_of: "be_val (be_of n v) = v mod 256 ^ n"
proof (induction n arbitrary: v)
  case 0
  then show ?case by (simp add: be_of_def)
next
  case (Suc n)
  have "unat (of_nat v :: byte) = v mod 256" by (simp add: unat_of_nat)
  then show ?case unfolding be_of_Suc be_val_snoc Suc mod_256_Suc by simp
qed

lemma be_of_val: "length xs = n \<Longrightarrow> be_of n (be_val xs) = xs"
  using be_val_inj [of "be_of n (be_val xs)" xs] be_val_less [of xs] by (simp add: be_val_be_of)

lemma ucast_byte: "ucast w = (of_nat (unat (w :: 'a::len word)) :: byte)"
proof -
  have "unat (ucast w :: byte) = unat w mod 256" by (simp add: unsigned_ucast_eq take_bit_eq_mod)
  then show ?thesis by (simp add: word_unat_eq_iff unat_of_nat)
qed

lemma len_8: "2 ^ LENGTH(8) = (256 :: nat)"
  by simp

lemma carry_digit:
  fixes v b c :: nat
  shows "(256 * v + b + c) div 256 = v + (c + b) div 256" "(256 * v + b + c) mod 256 = (c + b) mod 256"
  using div_mult_self2 [of 256 "c + b" v] mod_mult_self2 [of "c + b" 256 v] by (simp_all add: ac_simps)

lemma inc_loop_val:
  "n \<le> length cs \<Longrightarrow> unat c \<le> 1 \<Longrightarrow>
   inc_loop n c cs = be_of n ((be_val (take n cs) + unat c) mod 256 ^ n) @ drop n cs"
proof (induction n arbitrary: c cs)
  case 0
  then show ?case by (simp add: be_of_def)
next
  case (Suc n)
  let ?b = "cs ! n"
  let ?c1 = "c + ucast ?b :: u32"
  have b: "unat (ucast ?b :: u32) = unat ?b"
    using unat8 [of ?b] by (simp add: unsigned_ucast_eq take_bit_nat_eq_self)
  have c1: "unat ?c1 = unat c + unat ?b"
    using Suc.prems(2) unat8 [of ?b] unat_add_lem [of c "ucast ?b"] by (simp add: b)
  have carry: "unat (drop_bit 8 ?c1) = (unat c + unat ?b) div 256" unfolding unat_drop_bit_div c1 by simp
  have low: "ucast ?c1 = (of_nat (unat c + unat ?b) :: byte)"
    unfolding c1 [symmetric] by (rule ucast_byte)
  let ?v = "be_val (take n cs)" and ?w = "unat c + unat ?b"
  have take: "be_val (take (Suc n) cs) = 256 * ?v + unat ?b"
    using Suc.prems(1) by (simp add: take_Suc_conv_app_nth be_val_snoc)
  have le: "unat (drop_bit 8 ?c1) \<le> 1" unfolding carry using Suc.prems(2) unat8 [of ?b] by simp
  have "inc_loop (Suc n) c cs = inc_loop n (drop_bit 8 ?c1) (cs[n := ucast ?c1])" by (simp add: Let_def)
  also have "\<dots> = be_of n ((?v + ?w div 256) mod 256 ^ n) @ drop n (cs[n := ucast ?c1])"
    using Suc.IH [of "cs[n := ucast ?c1]" "drop_bit 8 ?c1"] Suc.prems(1) le unfolding carry by simp
  also have "drop n (cs[n := ucast ?c1]) = of_nat ?w # drop (Suc n) cs"
    using Suc.prems(1) unfolding low by (simp add: Cons_nth_drop_Suc [symmetric])
  finally have l: "inc_loop (Suc n) c cs = (be_of n ((?v + ?w div 256) mod 256 ^ n) @ [of_nat ?w]) @ drop (Suc n) cs"
    by simp
  have "be_of n ((?v + ?w div 256) mod 256 ^ n) @ [of_nat ?w] = be_of (Suc n) ((be_val (take (Suc n) cs) + unat c) mod 256 ^ Suc n)"
  proof (rule be_val_inj)
    have "unat (of_nat ?w :: byte) = ?w mod 2 ^ LENGTH(8)" by (rule unat_of_nat)
    then have "unat (of_nat ?w :: byte) = ?w mod 256" by (simp only: len_8)
    then show "be_val (be_of n ((?v + ?w div 256) mod 256 ^ n) @ [of_nat ?w]) =
        be_val (be_of (Suc n) ((be_val (take (Suc n) cs) + unat c) mod 256 ^ Suc n))"
      unfolding be_val_snoc be_val_be_of take mod_mod_trivial by (simp only: mod_256_Suc carry_digit)
  qed simp
  then show ?case unfolding l by simp
qed

text \<open>The counter block after \<open>k\<close> more blocks.\<close>

definition ctr_iv :: "byte list \<Rightarrow> nat \<Rightarrow> byte list" where
  "ctr_iv iv k = be_of 16 ((be_val iv + k) mod 2 ^ 128)"

lemma length_ctr_iv [simp]: "length (ctr_iv iv k) = 16"
  by (simp add: ctr_iv_def)

lemma pow_256_16: "(256::nat) ^ 16 = 2 ^ 128"
  by simp

lemma ctr_iv_0: "length iv = 16 \<Longrightarrow> ctr_iv iv 0 = iv"
  using be_val_less [of iv] be_of_val [of iv 16] by (simp add: ctr_iv_def)

lemma be_val_ctr_iv: "be_val (ctr_iv iv k) = (be_val iv + k) mod 2 ^ 128"
  unfolding ctr_iv_def be_val_be_of pow_256_16 by simp

lemma ctr_iv_add: "ctr_iv (ctr_iv iv j) k = ctr_iv iv (j + k)"
  unfolding ctr_iv_def [of "ctr_iv iv j"] be_val_ctr_iv unfolding ctr_iv_def by (simp only: mod_add_left_eq add.assoc)

lemma ctr128_inc_iv: "length iv = 16 \<Longrightarrow> ctr128_inc iv = ctr_iv iv 1"
  using inc_loop_val [of 16 iv 1] unfolding pow_256_16 by (simp add: ctr128_inc_def ctr_iv_def)

section \<open>The key stream\<close>

definition ctr_xor :: "block128_f \<Rightarrow> byte list \<Rightarrow> byte list \<Rightarrow> byte list" where
  "ctr_xor block iv xs = map (\<lambda>i. xs ! i XOR block (ctr_iv iv (i div 16)) ! (i mod 16)) [0..<length xs]"

lemma length_ctr_xor [simp]: "length (ctr_xor block iv xs) = length xs"
  by (simp add: ctr_xor_def)

lemma nth_ctr_xor: "i < length xs \<Longrightarrow> ctr_xor block iv xs ! i = xs ! i XOR block (ctr_iv iv (i div 16)) ! (i mod 16)"
  by (simp add: ctr_xor_def)

lemma ctr_xor_append:
  assumes "length xs = 16 * m"
  shows "ctr_xor block iv (xs @ ys) = ctr_xor block iv xs @ ctr_xor block (ctr_iv iv m) ys"
proof (rule nth_equalityI)
  fix i assume i: "i < length (ctr_xor block iv (xs @ ys))"
  show "ctr_xor block iv (xs @ ys) ! i = (ctr_xor block iv xs @ ctr_xor block (ctr_iv iv m) ys) ! i"
  proof (cases "i < length xs")
    case True
    then have "i < length (xs @ ys)" by simp
    from nth_ctr_xor [OF this] nth_ctr_xor [OF True] True show ?thesis by (simp add: nth_append)
  next
    case False
    then obtain j where j: "i = 16 * m + j" using le_iff_add not_less assms by metis
    then have l: "j < length ys" "i < length (xs @ ys)" "i - length xs = j" using i assms by simp_all
    have d: "i div 16 = m + j div 16" "i mod 16 = j mod 16" unfolding j by simp_all
    have "ctr_xor block iv (xs @ ys) ! i = ys ! j XOR block (ctr_iv iv (m + j div 16)) ! (j mod 16)"
      unfolding nth_ctr_xor [OF l(2)] d using False l(3) by (simp only: nth_append if_False)
    also have "\<dots> = ctr_xor block (ctr_iv iv m) ys ! j" unfolding nth_ctr_xor [OF l(1)] ctr_iv_add ..
    also have "\<dots> = (ctr_xor block iv xs @ ctr_xor block (ctr_iv iv m) ys) ! i"
      using False l(3) by (simp only: nth_append length_ctr_xor if_False)
    finally show ?thesis .
  qed
qed simp

lemma ctr_xor_block:
  assumes "length xs \<le> 16" "length iv = 16" "length (block iv) = 16"
  shows "ctr_xor block iv xs = map2 (XOR) xs (block iv)"
  by (rule nth_equalityI) (use assms in \<open>simp_all add: nth_ctr_xor ctr_iv_0\<close>)

text \<open>The state after all of the input, up to a key block that is used up.\<close>

definition same :: "ctr_state \<Rightarrow> ctr_state \<Rightarrow> bool" where
  "same s t \<longleftrightarrow> ivec s = ivec t \<and> num s = num t \<and> (num s \<noteq> 0 \<longrightarrow> ecount_buf s = ecount_buf t)"

lemma same_refl [simp]: "same s s"
  by (simp add: same_def)

lemma same_step: "same s t \<Longrightarrow> fst (ctr_step block s x) = fst (ctr_step block t x) \<and> same (snd (ctr_step block s x)) (snd (ctr_step block t x))"
  by (auto simp: same_def key_step_def next_ctr_def Let_def)

lemma same_run:
  "same s t \<Longrightarrow> fst (run (ctr_step block) s xs) = fst (run (ctr_step block) t xs) \<and>
     same (snd (run (ctr_step block) s xs)) (snd (run (ctr_step block) t xs))"
proof (induction xs arbitrary: s t)
  case (Cons x xs)
  from same_step [OF Cons.prems, of block x] Cons.IH show ?case by (simp add: Let_def case_prod_beta)
qed simp

lemma ctr_run_one:
  assumes "cipher block" "length iv = 16" "length xs = 16"
  shows "run (ctr_step block) \<lparr>ivec = iv, ecount_buf = e, num = 0\<rparr> xs =
    (ctr_xor block iv xs, \<lparr>ivec = ctr_iv iv 1, ecount_buf = block iv, num = 0\<rparr>)"
proof -
  have b: "length (block iv) = 16" using assms(1,2) by (simp add: cipher_def)
  have ne: "xs \<noteq> []" using assms(3) by (metis list.size(3) zero_neq_numeral)
  have "next_ctr block \<lparr>ivec = iv, ecount_buf = e, num = 0\<rparr> = \<lparr>ivec = ctr_iv iv 1, ecount_buf = block iv, num = 0\<rparr>"
    using assms(2) by (simp add: next_ctr_def ctr128_inc_iv)
  then show ?thesis
    using ctr.fresh [of "\<lparr>ivec = iv, ecount_buf = e, num = 0\<rparr>" xs block] assms(3) b ne
      ctr_xor_block [of xs iv block] assms(2) by simp
qed

lemma ctr_run_blocks:
  assumes "cipher block"
  shows "length iv = 16 \<Longrightarrow> length xs = 16 * m \<Longrightarrow>
    fst (run (ctr_step block) \<lparr>ivec = iv, ecount_buf = e, num = 0\<rparr> xs) = ctr_xor block iv xs \<and>
    same (snd (run (ctr_step block) \<lparr>ivec = iv, ecount_buf = e, num = 0\<rparr> xs)) \<lparr>ivec = ctr_iv iv m, ecount_buf = e', num = 0\<rparr>"
proof (induction m arbitrary: iv e xs)
  case 0
  then show ?case by (simp add: same_def ctr_iv_0 ctr_xor_def)
next
  case (Suc m)
  have l: "length (take 16 xs) = 16" "length (take 16 xs) = 16 * 1" "length (drop 16 xs) = 16 * m"
    using Suc.prems(2) by simp_all
  note first = ctr_run_one [OF assms Suc.prems(1) l(1), of e]
  note rest = Suc.IH [OF length_ctr_iv l(3), of iv 1 "block iv", unfolded ctr_iv_add]
  have "fst (run (ctr_step block) \<lparr>ivec = iv, ecount_buf = e, num = 0\<rparr> (take 16 xs @ drop 16 xs)) =
      ctr_xor block iv (take 16 xs @ drop 16 xs)"
    unfolding run_split ctr_xor_append [OF l(2)] first fst_conv snd_conv using rest by blast
  moreover have "same (snd (run (ctr_step block) \<lparr>ivec = iv, ecount_buf = e, num = 0\<rparr> (take 16 xs @ drop 16 xs)))
      \<lparr>ivec = ctr_iv iv (1 + m), ecount_buf = e', num = 0\<rparr>"
    unfolding run_split first snd_conv using rest by blast
  ultimately show ?case by simp
qed

lemma ctr_run_fresh:
  assumes "cipher block" "length (ivec s) = 16" "num s = 0"
  shows "fst (run (ctr_step block) s xs) = ctr_xor block (ivec s) xs"
proof -
  let ?m = "length xs div 16"
  let ?u = "take (16 * ?m) xs" and ?v = "drop (16 * ?m) xs"
  have s: "s = \<lparr>ivec = ivec s, ecount_buf = ecount_buf s, num = 0\<rparr>" using assms(3) by simp
  have l: "length ?u = 16 * ?m" "length ?v < 16" by simp_all
  let ?t = "\<lparr>ivec = ctr_iv (ivec s) ?m, ecount_buf = [], num = 0\<rparr>"
  note b = ctr_run_blocks [OF assms(1,2) l(1), of "ecount_buf s" "[]", folded s]
  have k: "length (block (ivec ?t)) = 16" using assms(1) by (simp add: cipher_def)
  have "fst (run (ctr_step block) ?t ?v) = ctr_xor block (ivec ?t) ?v"
  proof (cases "?v = []")
    case True
    then show ?thesis by (simp add: ctr_xor_def)
  next
    case False
    then show ?thesis
      using ctr.fresh [of ?t ?v block] l(2) k ctr_xor_block [of ?v "ivec ?t" block]
      by (simp add: next_ctr_def)
  qed
  moreover have "fst (run (ctr_step block) (snd (run (ctr_step block) s ?u)) ?v) = fst (run (ctr_step block) ?t ?v)"
    using same_run [of "snd (run (ctr_step block) s ?u)" ?t block ?v] b by blast
  ultimately have "fst (run (ctr_step block) s (?u @ ?v)) = ctr_xor block (ivec s) (?u @ ?v)"
    unfolding run_split ctr_xor_append [OF l(1)] using b by simp
  then show ?thesis by simp
qed

section \<open>Counting on 32 bits\<close>

lemma GETU32_val: "length iv = 16 \<Longrightarrow> unat (GETU32 iv 12) = be_val (drop 12 iv)"
proof -
  assume l: "length iv = 16"
  have "le_val (le_bytes (length (rev (drop 12 iv))) (GETU32 iv 12)) = le_val (rev (drop 12 iv))"
    using le_bytes_le_word [of "rev (drop 12 iv)", where 'a = 32] l by (simp add: GETU32_def)
  moreover have "unat (GETU32 iv 12) < 256 ^ 4" using unsigned_less [of "GETU32 iv 12", where ?'a = nat] by simp
  ultimately show ?thesis using l by (simp add: le_val_le_bytes be_val_def)
qed

lemma be_val_be_bytes_4: "be_val (be_bytes 4 (v :: u32)) = unat v"
  using unsigned_less [of v, where ?'a = nat] by (simp add: be_val_def be_bytes_def le_val_le_bytes)

lemma split_iv:
  "length iv = 16 \<Longrightarrow> be_val iv = 2 ^ 32 * be_val (take 12 iv) + unat (GETU32 iv 12)"
  using be_val_append [of "take 12 iv" "drop 12 iv"] by (simp add: GETU32_val)

lemma PUTU32_val:
  "length iv = 16 \<Longrightarrow> be_val (PUTU32 iv 12 v) = 2 ^ 32 * be_val (take 12 iv) + unat v \<and> length (PUTU32 iv 12 v) = 16"
  by (simp add: PUTU32_def be_val_append be_val_be_bytes_4)

lemma iv_less: "length iv = 16 \<Longrightarrow> be_val iv < 2 ^ 128"
  using be_val_less [of iv] by simp

lemma ctr_iv_low:
  assumes "length iv = 16" "unat (GETU32 iv 12) + k < 2 ^ 32"
  shows "PUTU32 iv 12 (GETU32 iv 12 + of_nat k) = ctr_iv iv k"
proof (rule be_val_inj)
  have u: "unat (GETU32 iv 12 + of_nat k) = unat (GETU32 iv 12) + k"
    using assms(2) by (simp add: unat_word_ariths unat_of_nat)
  have p: "be_val (PUTU32 iv 12 (GETU32 iv 12 + of_nat k)) = be_val iv + k"
    using PUTU32_val [OF assms(1)] split_iv [OF assms(1)] u by simp
  moreover have "be_val (PUTU32 iv 12 (GETU32 iv 12 + of_nat k)) < 2 ^ 128"
    by (rule iv_less) (simp add: PUTU32_val [OF assms(1)])
  ultimately show "be_val (PUTU32 iv 12 (GETU32 iv 12 + of_nat k)) = be_val (ctr_iv iv k)"
    unfolding be_val_ctr_iv by simp
qed (simp add: PUTU32_val [OF assms(1)])

lemma ctr96_inc_val:
  assumes "length cs = 16"
  shows "ctr96_inc cs = be_of 12 ((be_val (take 12 cs) + 1) mod 2 ^ 96) @ drop 12 cs"
proof -
  have "(256::nat) ^ 12 = 2 ^ 96" by simp
  then show ?thesis using inc_loop_val [of 12 cs 1] assms by (simp only: ctr96_inc_def) simp
qed

lemma GET_PUTU32: "length iv = 16 \<Longrightarrow> GETU32 (PUTU32 iv 12 v) 12 = v"
  by (simp add: GETU32_def PUTU32_def be_bytes_def byte_simps take_bit_word_eq_self)

lemma GET_store:
  assumes "length iv = 16"
  shows "GETU32 (ctr32_store iv v) 12 = v"
proof (cases "v = 0")
  case True
  have "drop 12 (ctr96_inc (PUTU32 iv 12 0)) = drop 12 (PUTU32 iv 12 0)"
    using ctr96_inc_val [of "PUTU32 iv 12 0"] PUTU32_val [OF assms, of 0] by simp
  with True GET_PUTU32 [OF assms, of v] show ?thesis by (simp add: ctr32_store_def GETU32_def)
qed (simp add: ctr32_store_def GET_PUTU32 assms)

lemma pow_256_12: "(256::nat) ^ 12 = 2 ^ 96"
  by simp

lemma pow_32_96: "(2::nat) ^ 128 = 2 ^ 32 * 2 ^ 96"
  by (simp flip: power_add)

lemma store_iv:
  assumes "length iv = 16" "unat (GETU32 iv 12) + k \<le> 2 ^ 32" "0 < k"
  shows "ctr32_store iv (GETU32 iv 12 + of_nat k) = ctr_iv iv k"
proof (cases "unat (GETU32 iv 12) + k < 2 ^ 32")
  case True
  then have "unat (GETU32 iv 12 + of_nat k) = unat (GETU32 iv 12) + k" by (simp add: unat_word_ariths unat_of_nat)
  then have "GETU32 iv 12 + of_nat k \<noteq> 0" using assms(3) by (metis add_is_0 not_gr0 unat_0)
  then show ?thesis using ctr_iv_low [OF assms(1) True] by (simp add: ctr32_store_def)
next
  case False
  then have e: "unat (GETU32 iv 12) + k = 2 ^ 32" using assms(2) by simp
  then have "unat (GETU32 iv 12 + of_nat k) = 0" by (simp add: unat_word_ariths unat_of_nat mod_add_right_eq)
  then have z: "GETU32 iv 12 + of_nat k = 0" by (simp add: unat_eq_zero)
  let ?p = "PUTU32 iv 12 0" and ?h = "be_val (take 12 iv)"
  have p: "length ?p = 16" "take 12 ?p = take 12 iv" "be_val (drop 12 ?p) = 0"
    using assms(1) be_val_be_bytes_4 [of 0] by (simp_all add: PUTU32_def)
  have "be_val (ctr96_inc ?p) = 2 ^ 32 * ((?h + 1) mod 2 ^ 96)"
    unfolding ctr96_inc_val [OF p(1)] be_val_append be_val_be_of p(2,3) pow_256_12 mod_mod_trivial
    by (simp add: p(1))
  also have "\<dots> = (2 ^ 32 * (?h + 1)) mod 2 ^ 128"
    unfolding pow_32_96 by (rule mult_mod_right)
  also have "2 ^ 32 * (?h + 1) = be_val iv + k"
    unfolding split_iv [OF assms(1)] distrib_left add.assoc e by simp
  also have "(be_val iv + k) mod 2 ^ 128 = be_val (ctr_iv iv k)" unfolding be_val_ctr_iv ..
  finally have v: "be_val (ctr96_inc ?p) = be_val (ctr_iv iv k)" .
  have "length (ctr96_inc ?p) = 16" unfolding ctr96_inc_def by (simp add: p(1))
  with v show ?thesis unfolding z ctr32_store_def by (simp add: Let_def be_val_inj)
qed

lemma ctr32_limit:
  fixes c :: u32
  assumes "b \<le> 2 ^ 28" "(n, c') = (if unat (c + of_nat b) < b then (b - unat (c + of_nat b), 0) else (b, c + of_nat b))"
  shows "n \<le> b \<and> unat c + n \<le> 2 ^ 32 \<and> c' = c + of_nat n"
proof -
  have c: "unat c < 2 ^ 32" using unsigned_less [of c, where ?'a = nat] by simp
  have u: "unat (c + of_nat b) = (unat c + b) mod 2 ^ 32"
    by (simp add: unat_word_ariths unat_of_nat mod_add_right_eq)
  show ?thesis
  proof (cases "unat c + b < 2 ^ 32")
    case True
    then have "unat (c + of_nat b) = unat c + b" unfolding u by (rule mod_less)
    with True assms(2) show ?thesis by simp
  next
    case False
    then have v: "unat (c + of_nat b) = unat c + b - 2 ^ 32"
      using c assms(1) unfolding u by (simp add: le_mod_geq)
    with c False have "unat (c + of_nat b) < b" by simp
    with assms(2) have n: "n = b - unat (c + of_nat b)" "c' = 0" by simp_all
    have n': "n = 2 ^ 32 - unat c" unfolding n(1) v using c False by simp
    have "unat (c + of_nat n) = (unat c + n) mod 2 ^ 32"
      by (simp add: unat_word_ariths unat_of_nat mod_add_right_eq)
    also have "unat c + n = 2 ^ 32" unfolding n' using c by simp
    finally have "c + of_nat n = 0" by (simp add: unat_eq_zero)
    with n n' c show ?thesis by simp
  qed
qed

lemma ctr32_blocks_val:
  assumes "16 \<le> len"
  shows "0 < fst (ctr32_blocks c len)" "16 * fst (ctr32_blocks c len) \<le> len"
    "unat c + fst (ctr32_blocks c len) \<le> 2 ^ 32" "snd (ctr32_blocks c len) = c + of_nat (fst (ctr32_blocks c len))"
proof -
  define b :: nat where "b = (if len div 16 > 2 ^ 28 then 2 ^ 28 else len div 16)"
  have b: "b \<le> 2 ^ 28" "16 * b \<le> len" by (auto simp: b_def)
  have "(fst (ctr32_blocks c len), snd (ctr32_blocks c len)) =
      (if unat (c + of_nat b) < b then (b - unat (c + of_nat b), 0) else (b, c + of_nat b))"
    unfolding b_def ctr32_blocks_def Let_def prod.collapse by (rule refl)
  from ctr32_limit [OF b(1) this] b(2)
  show "16 * fst (ctr32_blocks c len) \<le> len" "unat c + fst (ctr32_blocks c len) \<le> 2 ^ 32"
    "snd (ctr32_blocks c len) = c + of_nat (fst (ctr32_blocks c len))" by simp_all
  show "0 < fst (ctr32_blocks c len)" by (rule ctr32_blocks_pos [OF assms])
qed

text \<open>What \<open>ctr128_f\<close> is to do: counter mode on whole blocks, with the low 32 bits of the counter only.\<close>

definition ctr32_fun :: "block128_f \<Rightarrow> ctr128_f \<Rightarrow> bool" where
  "ctr32_fun block func \<longleftrightarrow> (\<forall>xs n iv. length iv = 16 \<and> 16 * n \<le> length xs \<longrightarrow>
     func xs n iv =
       map (\<lambda>i. xs ! i XOR block (PUTU32 iv 12 (GETU32 iv 12 + of_nat (i div 16))) ! (i mod 16)) [0..<16 * n])"

lemma ctr32_fun_xor:
  assumes "ctr32_fun block func" "length iv = 16" "16 * n \<le> length xs" "unat (GETU32 iv 12) + n \<le> 2 ^ 32"
  shows "func xs n iv = ctr_xor block iv (take (16 * n) xs)"
proof -
  have "PUTU32 iv 12 (GETU32 iv 12 + of_nat (i div 16)) = ctr_iv iv (i div 16)" if "i < 16 * n" for i
  proof -
    have "i div 16 < n" using that by (simp add: less_mult_imp_div_less mult.commute)
    then show ?thesis using assms(4) by (intro ctr_iv_low [OF assms(2)]) simp
  qed
  moreover have "func xs n iv =
      map (\<lambda>i. xs ! i XOR block (PUTU32 iv 12 (GETU32 iv 12 + of_nat (i div 16))) ! (i mod 16)) [0..<16 * n]"
    using assms(1-3) unfolding ctr32_fun_def by blast
  ultimately show ?thesis using assms(3) by (simp add: ctr_xor_def min_def)
qed

lemma ctr32_loop_val:
  assumes "ctr32_fun block func"
  shows "length iv = 16 \<Longrightarrow> c = GETU32 iv 12 \<Longrightarrow> ctr32_loop func iv c xs = (ys, iv1, c1, zs) \<Longrightarrow>
    \<exists>m. 16 * m \<le> length xs \<and> ys = ctr_xor block iv (take (16 * m) xs) \<and> zs = drop (16 * m) xs \<and>
      iv1 = ctr_iv iv m \<and> c1 = GETU32 iv1 12 \<and> length zs < 16"
proof (induction "length xs" arbitrary: iv c xs ys rule: less_induct)
  case less
  show ?case
  proof (cases "length xs \<ge> 16")
    case False
    with less.prems show ?thesis by (intro exI [of _ 0]) (auto simp: ctr32_loop.simps ctr_iv_0 ctr_xor_def)
  next
    case True
    let ?n = "fst (ctr32_blocks c (length xs))" and ?c = "snd (ctr32_blocks c (length xs))"
    note b = ctr32_blocks_val [OF True, of c]
    have iv: "ctr32_store iv ?c = ctr_iv iv ?n"
      unfolding b(4) by (rule store_iv [OF less.prems(1), folded less.prems(2), OF b(3,1)])
    have c: "GETU32 (ctr_iv iv ?n) 12 = ?c" unfolding iv [symmetric] by (rule GET_store [OF less.prems(1)])
    obtain us where u: "ctr32_loop func (ctr_iv iv ?n) ?c (drop (16 * ?n) xs) = (us, iv1, c1, zs)"
      "ys = func xs ?n iv @ us"
      using less.prems(3) True by (subst (asm) ctr32_loop.simps) (auto simp: Let_def iv mult.commute split: prod.splits)
    have f: "func xs ?n iv = ctr_xor block iv (take (16 * ?n) xs)"
      by (rule ctr32_fun_xor [OF assms less.prems(1) b(2)]) (use b(3) less.prems(2) in simp)
    have "length (drop (16 * ?n) xs) < length xs" using b(1) True by simp
    from less.hyps [OF this length_ctr_iv c [symmetric] u(1)]
    obtain m where m: "16 * m \<le> length (drop (16 * ?n) xs)" "us = ctr_xor block (ctr_iv iv ?n) (take (16 * m) (drop (16 * ?n) xs))"
      "zs = drop (16 * m) (drop (16 * ?n) xs)" "iv1 = ctr_iv (ctr_iv iv ?n) m" "c1 = GETU32 iv1 12" "length zs < 16"
      by blast
    have l: "length (take (16 * ?n) xs) = 16 * ?n" using b(2) by simp
    have t: "take (16 * (?n + m)) xs = take (16 * ?n) xs @ take (16 * m) (drop (16 * ?n) xs)"
      unfolding distrib_left take_add ..
    have "ys = ctr_xor block iv (take (16 * (?n + m)) xs)"
      unfolding u(2) f m(2) t ctr_xor_append [OF l] ..
    moreover have "zs = drop (16 * (?n + m)) xs" unfolding m(3) by (simp add: algebra_simps)
    moreover have "16 * (?n + m) \<le> length xs" using m(1) b(2) by simp
    moreover have "iv1 = ctr_iv iv (?n + m)" unfolding m(4) ctr_iv_add ..
    ultimately show ?thesis using m(5,6) by blast
  qed
qed

lemma ctr32_mode:
  assumes "cipher block" "ctr32_fun block func" "ctr_ok s" "CRYPTO_ctr128_encrypt_ctr32 func s xs = (ys, t)"
  shows "ys = fst (run (ctr_step block) s xs) \<and> same t (snd (run (ctr_step block) s xs)) \<and> ctr_ok t"
proof -
  obtain us n zs where r: "rest_loop (ecount_buf s) (num s) xs = (us, n, zs)" by (metis prod_cases3)
  have rest: "run (ctr_step block) s xs = (us @ fst (run (ctr_step block) (s\<lparr>num := n\<rparr>) zs), snd (run (ctr_step block) (s\<lparr>num := n\<rparr>) zs))"
    "n < 16" "zs = [] \<or> n = 0"
    using ctr.rest [OF refl _ r, of block] assms(3) by (auto simp: ctr_ok_def)
  have iv: "length (ivec s) = 16" using assms(3) by (simp add: ctr_ok_def)
  obtain vs iv1 c1 ws where l: "ctr32_loop func (ivec s) (GETU32 (ivec s) 12) zs = (vs, iv1, c1, ws)" by (metis prod_cases4)
  from ctr32_loop_val [OF assms(2) iv refl l] obtain m where m: "16 * m \<le> length zs" "vs = ctr_xor block (ivec s) (take (16 * m) zs)"
    "ws = drop (16 * m) zs" "iv1 = ctr_iv (ivec s) m" "c1 = GETU32 iv1 12" "length ws < 16" by blast
  show ?thesis
  proof (cases "zs = []")
    case True
    then show ?thesis
      using assms(3,4) r l m rest iv by (auto simp: CRYPTO_ctr128_encrypt_ctr32_def ctr_xor_def ctr_ok_def ctr_iv_0)
  next
    case False
    then have n: "n = 0" using rest(3) by simp
    have s: "s\<lparr>num := n\<rparr> = \<lparr>ivec = ivec s, ecount_buf = ecount_buf s, num = 0\<rparr>" by (simp add: n)
    have lz: "length (take (16 * m) zs) = 16 * m" using m(1) by simp
    let ?t = "\<lparr>ivec = iv1, ecount_buf = ecount_buf s, num = 0\<rparr>"
    note b = ctr_run_blocks [OF assms(1) iv lz, of "ecount_buf s" "ecount_buf s", folded m(4)]
    have z: "zs = take (16 * m) zs @ ws" unfolding m(3) by simp
    have run: "fst (run (ctr_step block) (s\<lparr>num := n\<rparr>) zs) = vs @ fst (run (ctr_step block) ?t ws)"
      "same (snd (run (ctr_step block) (s\<lparr>num := n\<rparr>) zs)) (snd (run (ctr_step block) ?t ws))"
      unfolding s by (subst z, use b same_run [OF conjunct2 [OF b], of block ws] in \<open>simp add: run_split m(2)\<close>)+
    show ?thesis
    proof (cases "ws = []")
      case True
      with assms(3,4) r l run rest(1) n show ?thesis
        by (auto simp: CRYPTO_ctr128_encrypt_ctr32_def ctr_ok_def same_def m(4))
    next
      case False
      have k: "length iv1 = 16" "length (block iv1) = 16" using assms(1) by (simp_all add: m(4) cipher_def)
      have u: "unat (GETU32 iv1 12) + 1 \<le> 2 ^ 32" using unsigned_less [of "GETU32 iv1 12", where ?'a = nat] by simp
      have "func (replicate 16 0) 1 iv1 = ctr_xor block iv1 (replicate 16 0)"
        using ctr32_fun_xor [OF assms(2) k(1) _ u, of "replicate 16 0"] by simp
      also have "\<dots> = block iv1"
        by (rule nth_equalityI) (use k in \<open>simp_all add: nth_ctr_xor ctr_iv_0\<close>)
      finally have e: "func (replicate 16 0) 1 iv1 = block iv1" .
      have st: "ctr32_store iv1 (c1 + 1) = ctr128_inc iv1"
        using store_iv [OF k(1) u] ctr128_inc_iv [OF k(1)] m(5) by simp
      have "run (ctr_step block) ?t ws = (map2 (XOR) ws (block iv1), next_ctr block ?t\<lparr>num := length ws\<rparr>)"
        using ctr.fresh [of ?t ws block] False m(6) k by (simp add: next_ctr_def)
      with False assms(4) r l run rest(1) n m(6) k show ?thesis
        by (auto simp: CRYPTO_ctr128_encrypt_ctr32_def e [unfolded One_nat_def] st tail_loop_map2 ctr_ok_def next_ctr_def same_def Let_def)
    qed
  qed
qed

lemma pieces_32:
  assumes "cipher block" "ctr32_fun block func"
  shows "ctr_ok s \<Longrightarrow> ctr_ok s' \<Longrightarrow> same s s' \<Longrightarrow>
    fst (pieces (CRYPTO_ctr128_encrypt_ctr32 func) s xss) = fst (pieces (CRYPTO_ctr128_encrypt block) s' xss)"
proof (induction xss arbitrary: s s')
  case (Cons xs xss)
  obtain ys t where t: "CRYPTO_ctr128_encrypt_ctr32 func s xs = (ys, t)" by fastforce
  obtain ys' t' where t': "CRYPTO_ctr128_encrypt block s' xs = (ys', t')" by fastforce
  note m = ctr32_mode [OF assms Cons.prems(1) t] and r = ctr_mode_run [OF assms(1) Cons.prems(2), of xs, unfolded t', symmetric]
  note same_run [OF Cons.prems(3), of block xs, unfolded r fst_conv snd_conv]
  with m have st: "ys = ys'" "same t t'" "ctr_ok t" by (auto simp: same_def)
  have "ctr_ok t'" using ctr_mode.good_run [of block s' xs] assms(1) Cons.prems(2) r by simp
  from Cons.IH [OF st(3) this st(2)] show ?case by (simp add: t t' st(1) Let_def case_prod_beta)
qed simp

text \<open>C10: Counter mode is a stream cipher, for every way to cut the input into pieces: started at the
  beginning of a block, \<open>CRYPTO_ctr128_encrypt\<close> combines the \<open>i\<close>-th byte of all of the input with the byte
  \<open>i mod 16\<close> of the encryption of the 128-bit counter advanced by \<open>i div 16\<close>, modulo \<open>2 ^ 128\<close>;
  \<open>CRYPTO_ctr128_encrypt_ctr32\<close> gives the same bytes with any function that encrypts whole blocks and
  counts on the low 32 bits only; and doing it twice gives the input back.\<close>

theorem ctr_stream_cipher:
  assumes "cipher block" "ctr32_fun block func" "ctr_ok s" "num s = 0"
  shows "fst (pieces (CRYPTO_ctr128_encrypt block) s xss) = ctr_xor block (ivec s) (concat xss) \<and>
    fst (pieces (CRYPTO_ctr128_encrypt_ctr32 func) s xss) = ctr_xor block (ivec s) (concat xss) \<and>
    fst (CRYPTO_ctr128_encrypt block s (fst (CRYPTO_ctr128_encrypt_ctr32 func s xs))) = xs"
proof -
  have iv: "length (ivec s) = 16" using assms(3) by (simp add: ctr_ok_def)
  have x: "fst (run (ctr_step block) s zs) = ctr_xor block (ivec s) zs" for zs
    by (rule ctr_run_fresh [OF assms(1) iv assms(4)])
  have a: "fst (pieces (CRYPTO_ctr128_encrypt block) s zss) = ctr_xor block (ivec s) (concat zss)" for zss
    using ctr_mode.pieces_run [of block s zss] assms(1,3) x by simp
  note b = pieces_32 [OF assms(1,2,3,3) same_refl]
  have c: "fst (CRYPTO_ctr128_encrypt_ctr32 func s xs) = ctr_xor block (ivec s) xs"
    using b [of "[xs]"] a [of "[xs]"] by (simp add: Let_def case_prod_beta)
  have "ctr_xor block (ivec s) (ctr_xor block (ivec s) xs) = xs"
    by (rule nth_equalityI) (simp_all add: nth_ctr_xor xor.assoc)
  then have "fst (CRYPTO_ctr128_encrypt block s (fst (CRYPTO_ctr128_encrypt_ctr32 func s xs))) = xs"
    unfolding c ctr_mode_run [OF assms(1,3)] x .
  with a b show ?thesis by simp
qed

text \<open>A counter three blocks before its low 32 bits overflow, and input that runs over that point.\<close>

definition ctr_sample_block :: block128_f where
  "ctr_sample_block b = map (\<lambda>x. x + 3) (rev b)"

definition ctr_sample_func :: ctr128_f where
  "ctr_sample_func xs n iv =
     map (\<lambda>i. xs ! i XOR ctr_sample_block (PUTU32 iv 12 (GETU32 iv 12 + of_nat (i div 16))) ! (i mod 16)) [0..<16 * n]"

definition ctr_sample_state :: ctr_state where
  "ctr_sample_state = \<lparr>ivec = replicate 12 0 @ [0xff, 0xff, 0xff, 0xfd], ecount_buf = replicate 16 0, num = 0\<rparr>"

definition ctr_sample_input :: "byte list list" where
  "ctr_sample_input = [replicate 7 1, replicate 80 2, replicate 13 3]"

theorem ctr_stream_cipher_witness:
  "fst (pieces (CRYPTO_ctr128_encrypt_ctr32 ctr_sample_func) ctr_sample_state ctr_sample_input) =
     ctr_xor ctr_sample_block (ivec ctr_sample_state) (concat ctr_sample_input) \<and>
   fst (pieces (CRYPTO_ctr128_encrypt ctr_sample_block) ctr_sample_state ctr_sample_input) =
     fst (pieces (CRYPTO_ctr128_encrypt_ctr32 ctr_sample_func) ctr_sample_state ctr_sample_input)"
proof -
  have "cipher ctr_sample_block" by (simp add: cipher_def ctr_sample_block_def)
  moreover have "ctr32_fun ctr_sample_block ctr_sample_func" by (simp add: ctr32_fun_def ctr_sample_func_def)
  moreover have "ctr_ok ctr_sample_state" "num ctr_sample_state = 0" by (simp_all add: ctr_ok_def ctr_sample_state_def)
  ultimately show ?thesis using ctr_stream_cipher [of ctr_sample_block ctr_sample_func ctr_sample_state] by metis
qed

end
