(* ===== verification/Feedback_Spec.thy ===== *)
theory Feedback_Spec
  imports Modes_Spec
begin

text \<open>
  Output feedback and cipher feedback: the functions of \<open>ofb.c\<close> and \<open>cfb.c\<close> work byte by byte (or bit by
  bit) and write what the modes define, and decryption undoes encryption; the functions on bytes do so
  however the input of either is cut into pieces.
\<close>

section \<open>Output feedback\<close>

definition mode_ok :: "byte list \<times> nat \<Rightarrow> bool" where
  "mode_ok s \<longleftrightarrow> length (fst s) = 16 \<and> snd s < 16"

abbreviation ofb_step :: "block128_f \<Rightarrow> byte list \<times> nat \<Rightarrow> byte \<Rightarrow> byte \<times> byte list \<times> nat" where
  "ofb_step block \<equiv> key_step fst snd (\<lambda>n s. (fst s, n)) (\<lambda>s. (block (fst s), snd s))"

interpretation ofb: key_stream fst snd "\<lambda>n s. (fst s, n)" "\<lambda>s. (block (fst s), snd s)"
  by unfold_locales auto

lemma ofb_good_step: "cipher block \<Longrightarrow> mode_ok s \<Longrightarrow> mode_ok (snd (ofb_step block s x))"
  by (auto simp: key_step_def cipher_def mode_ok_def Let_def)

lemma ofb_blocks_run:
  assumes "cipher block"
  shows "mode_ok (iv, n) \<Longrightarrow> n = 0 \<or> xs = [] \<Longrightarrow> ofb_blocks block iv n xs = (ys, iv1, n1, zs) \<Longrightarrow>
    run (ofb_step block) (iv, n) xs = (ys @ fst (run (ofb_step block) (iv1, n1) zs), snd (run (ofb_step block) (iv1, n1) zs)) \<and>
    mode_ok (iv1, n1) \<and> length zs < 16 \<and> (zs = [] \<or> n1 = 0)"
proof (induction "length xs" arbitrary: iv n xs ys rule: less_induct)
  case less
  show ?case
  proof (cases "length xs \<ge> 16")
    case False
    with less.prems show ?thesis by (auto simp: ofb_blocks.simps)
  next
    case True
    have n: "n = 0" "xs \<noteq> []" using True less.prems(2) by auto
    have b: "length (block iv) = 16" using less.prems(1) assms by (simp add: mode_ok_def cipher_def)
    obtain vs where v: "ofb_blocks block (block iv) 0 (drop 16 xs) = (vs, iv1, n1, zs)" "ys = xor_block xs (block iv) @ vs"
      using less.prems(3) True n(1) by (subst (asm) ofb_blocks.simps) (auto simp: Let_def split: prod.splits)
    have ok: "mode_ok (block iv, 0)" using b by (simp add: mode_ok_def)
    have first: "run (ofb_step block) (iv, n) (take 16 xs) = (xor_block xs (block iv), (block iv, 0))"
      using ofb.fresh [of "(iv, n)" "take 16 xs" block] n True b by (simp add: xor_block_map2)
    have "length (drop 16 xs) < length xs" using True by simp
    note ih = less.hyps [OF this ok _ v(1)]
    have "run (ofb_step block) (iv, n) (take 16 xs @ drop 16 xs) =
        (ys @ fst (run (ofb_step block) (iv1, n1) zs), snd (run (ofb_step block) (iv1, n1) zs))"
      unfolding run_append first v(2) using ih by (simp add: Let_def)
    with ih show ?thesis by simp
  qed
qed

lemma ofb_mode_run:
  assumes "cipher block" "mode_ok s"
  shows "CRYPTO_ofb128_encrypt block s xs = run (ofb_step block) s xs"
proof -
  obtain ys n zs where r: "rest_loop (fst s) (snd s) xs = (ys, n, zs)" by (metis prod_cases3)
  have rest: "run (ofb_step block) s xs = (ys @ fst (run (ofb_step block) (fst s, n) zs), snd (run (ofb_step block) (fst s, n) zs))"
    "n < 16" "zs = [] \<or> n = 0"
    using ofb.rest [OF refl _ r, of block] assms(2) by (auto simp: mode_ok_def)
  have ok: "mode_ok (fst s, n)" using assms(2) rest(2) by (simp add: mode_ok_def)
  obtain us iv1 n1 ws where b: "ofb_blocks block (fst s) n zs = (us, iv1, n1, ws)" by (metis prod_cases4)
  have blocks: "run (ofb_step block) (fst s, n) zs = (us @ fst (run (ofb_step block) (iv1, n1) ws), snd (run (ofb_step block) (iv1, n1) ws))"
    "mode_ok (iv1, n1)" "length ws < 16" "ws = [] \<or> n1 = 0"
    using ofb_blocks_run [OF assms(1) ok _ b] rest(3) by auto
  show ?thesis
  proof (cases "ws = []")
    case True
    then show ?thesis unfolding rest(1) blocks(1) by (simp add: CRYPTO_ofb128_encrypt_def r b)
  next
    case False
    then have n: "n1 = 0" using blocks(4) by simp
    have k: "length (block iv1) = 16" using blocks(2) assms(1) by (simp add: cipher_def mode_ok_def)
    have "run (ofb_step block) (iv1, n1) ws = (map2 (XOR) ws (block iv1), (block iv1, length ws))"
      using ofb.fresh [of "(iv1, n1)" ws block] False blocks(3) k n by simp
    then show ?thesis
      unfolding rest(1) blocks(1) using False n blocks(3) k
      by (simp add: CRYPTO_ofb128_encrypt_def r b tail_loop_map2 Let_def)
  qed
qed

interpretation ofb_mode: stream_mode "ofb_step block" "CRYPTO_ofb128_encrypt block" "\<lambda>s. cipher block \<and> mode_ok s"
  by unfold_locales (simp_all add: ofb_good_step ofb_mode_run)

lemma ofb_involution: "run (ofb_step block) s (fst (run (ofb_step block) s xs)) = (xs, snd (run (ofb_step block) s xs))"
proof (induction xs arbitrary: s)
  case (Cons x xs)
  have "ofb_step block s (fst (ofb_step block s x)) = (x, snd (ofb_step block s x))"
    by (simp add: key_step_def Let_def xor.assoc)
  with Cons show ?case by (simp add: Let_def case_prod_beta)
qed simp

text \<open>Block by block: the key stream is the initial vector, encrypted again and again.\<close>

fun ofb_text :: "block128_f \<Rightarrow> byte list \<Rightarrow> byte list \<Rightarrow> byte list" where
  "ofb_text block iv xs =
     (if xs = [] then [] else map2 (XOR) (take 16 xs) (block iv) @ ofb_text block (block iv) (drop 16 xs))"

declare ofb_text.simps [simp del]

lemma ofb_run_text: "cipher block \<Longrightarrow> length iv = 16 \<Longrightarrow> fst (run (ofb_step block) (iv, 0) xs) = ofb_text block iv xs"
proof (induction "length xs" arbitrary: iv xs rule: less_induct)
  case less
  have b: "length (block iv) = 16" using less.prems by (simp add: cipher_def)
  show ?case
  proof (cases "xs = []")
    case False
    have first: "run (ofb_step block) (iv, 0) (take 16 xs) = (map2 (XOR) (take 16 xs) (block iv), (block iv, length (take 16 xs) mod 16))"
      using ofb.fresh [of "(iv, 0)" "take 16 xs" block] b False by simp
    have "fst (run (ofb_step block) (iv, 0) (take 16 xs @ drop 16 xs)) =
        map2 (XOR) (take 16 xs) (block iv) @ fst (run (ofb_step block) (block iv, length (take 16 xs) mod 16) (drop 16 xs))"
      unfolding run_split first by simp
    moreover have "fst (run (ofb_step block) (block iv, length (take 16 xs) mod 16) (drop 16 xs)) = ofb_text block (block iv) (drop 16 xs)"
    proof (cases "length xs > 16")
      case True
      then show ?thesis using less.hyps [of "drop 16 xs" "block iv"] less.prems(1) b by (simp add: min_def)
    qed (simp add: ofb_text.simps)
    ultimately show ?thesis using False by (simp add: ofb_text.simps [of block iv xs])
  qed (simp add: ofb_text.simps)
qed

section \<open>Cipher feedback\<close>

definition cfb_step :: "block128_f \<Rightarrow> bool \<Rightarrow> byte list \<times> nat \<Rightarrow> byte \<Rightarrow> byte \<times> byte list \<times> nat" where
  "cfb_step block enc s x =
     (let iv = (if snd s = 0 then block (fst s) else fst s); y = iv ! snd s XOR x
      in (y, iv[snd s := (if enc then y else x)], (snd s + 1) mod 16))"

lemma cfb_step_simps:
  "0 < n \<Longrightarrow> cfb_step block enc (iv, n) x = (iv ! n XOR x, iv[n := if enc then iv ! n XOR x else x], (n + 1) mod 16)"
  "cfb_step block enc (iv, 0) x = (block iv ! 0 XOR x, (block iv)[0 := if enc then block iv ! 0 XOR x else x], 1)"
  by (simp_all add: cfb_step_def Let_def)

lemma cfb_good_step: "cipher block \<Longrightarrow> mode_ok s \<Longrightarrow> mode_ok (snd (cfb_step block enc s x))"
  by (auto simp: cfb_step_def cipher_def mode_ok_def Let_def)

text \<open>The bytes that go to \<open>ivec\<close>, and the run within a block.\<close>

definition fed :: "bool \<Rightarrow> byte list \<Rightarrow> byte list \<Rightarrow> byte list" where
  "fed enc ks xs = (if enc then map2 (XOR) ks xs else take (length ks) xs)"

lemma cfb_tail_val:
  "n + length xs \<le> length iv \<Longrightarrow>
   cfb_tail enc iv n xs =
     (map2 (XOR) (drop n iv) xs, take n iv @ fed enc (drop n iv) xs @ drop (n + length xs) iv, n + length xs)"
proof (induction xs arbitrary: iv n)
  case Nil
  then show ?case by (simp add: fed_def)
next
  case (Cons x xs)
  let ?y = "iv ! n XOR x"
  let ?iv = "iv[n := if enc then ?y else x]"
  have d: "drop n iv = iv ! n # drop (Suc n) iv" using Cons.prems by (simp add: Cons_nth_drop_Suc)
  have t: "take (Suc n) ?iv = take n iv @ [if enc then ?y else x]"
    using Cons.prems by (simp add: take_Suc_conv_app_nth)
  have "cfb_tail enc ?iv (Suc n) xs =
      (map2 (XOR) (drop (Suc n) iv) xs, take (Suc n) ?iv @ fed enc (drop (Suc n) iv) xs @ drop (Suc n + length xs) iv, Suc n + length xs)"
    using Cons.IH [of "Suc n" ?iv] Cons.prems by simp
  then show ?case unfolding t d by (simp add: fed_def Let_def)
qed

lemma cfb_inner:
  "0 < n \<Longrightarrow> n < 16 \<Longrightarrow> n + length xs \<le> 16 \<Longrightarrow> length iv = 16 \<Longrightarrow>
   run (cfb_step block enc) (iv, n) xs =
     (let (ys, iv1, n1) = cfb_tail enc iv n xs in (ys, iv1, n1 mod 16))"
proof (induction xs arbitrary: iv n)
  case (Cons x xs)
  show ?case
  proof (cases "n + 1 < 16")
    case True
    with Cons.prems Cons.IH [of "n + 1" "iv[n := if enc then iv ! n XOR x else x]"] show ?thesis
      by (cases enc) (simp_all add: cfb_step_simps Let_def case_prod_beta)
  next
    case False
    then have "length xs = 0" "n = 15" using Cons.prems(2,3) unfolding list.size by linarith+
    then show ?thesis using Cons.prems by (simp add: cfb_step_simps Let_def)
  qed
qed simp

lemma cfb_fresh:
  assumes "xs \<noteq> []" "length xs \<le> 16" "length (block iv) = 16"
  shows "run (cfb_step block enc) (iv, 0) xs =
    (let (ys, iv1, n1) = cfb_tail enc (block iv) 0 xs in (ys, iv1, n1 mod 16))"
proof -
  obtain x ys where xs: "xs = x # ys" using assms(1) by (cases xs) auto
  show ?thesis
    using cfb_inner [of 1 ys "(block iv)[0 := if enc then block iv ! 0 XOR x else x]" block enc] assms(2,3)
    unfolding xs by (cases enc) (simp_all add: cfb_step_simps Let_def case_prod_beta)
qed

lemma cfb_rest_run:
  "n < 16 \<Longrightarrow> length iv = 16 \<Longrightarrow> cfb_rest enc iv n xs = (ys, iv1, n1, zs) \<Longrightarrow>
   run (cfb_step block enc) (iv, n) xs =
     (ys @ fst (run (cfb_step block enc) (iv1, n1) zs), snd (run (cfb_step block enc) (iv1, n1) zs)) \<and>
   mode_ok (iv1, n1) \<and> (zs = [] \<or> n1 = 0)"
proof (induction xs arbitrary: iv n ys)
  case Nil
  then show ?case by (simp add: mode_ok_def)
next
  case (Cons x xs)
  show ?case
  proof (cases "n = 0")
    case True
    then show ?thesis using Cons.prems by (auto simp: mode_ok_def)
  next
    case False
    let ?y = "iv ! n XOR x"
    let ?iv = "iv[n := if enc then ?y else x]"
    obtain vs where r: "cfb_rest enc ?iv ((n + 1) mod 16) xs = (vs, iv1, n1, zs)" "ys = ?y # vs"
      using Cons.prems(3) False by (auto simp: Let_def split: prod.splits)
    from Cons.IH [OF _ _ r(1)] Cons.prems(1,2) r(2) False
    show ?thesis by (cases enc) (simp_all add: cfb_step_simps Let_def case_prod_beta)
  qed
qed

text \<open>A whole block, by words.\<close>

lemma cfb_blocks_run:
  assumes "cipher block"
  shows "mode_ok (iv, n) \<Longrightarrow> n = 0 \<or> xs = [] \<Longrightarrow> cfb_blocks block enc iv n xs = (ys, iv1, n1, zs) \<Longrightarrow>
    run (cfb_step block enc) (iv, n) xs =
      (ys @ fst (run (cfb_step block enc) (iv1, n1) zs), snd (run (cfb_step block enc) (iv1, n1) zs)) \<and>
    mode_ok (iv1, n1) \<and> length zs < 16 \<and> (zs = [] \<or> n1 = 0)"
proof (induction "length xs" arbitrary: iv n xs ys rule: less_induct)
  case less
  show ?case
  proof (cases "length xs \<ge> 16")
    case False
    with less.prems show ?thesis by (auto simp: cfb_blocks.simps)
  next
    case True
    have n: "n = 0" "take 16 xs \<noteq> []" "length (take 16 xs) = 16" using True less.prems(2) by auto
    have b: "length (block iv) = 16" using less.prems(1) assms by (simp add: mode_ok_def cipher_def)
    let ?a = "load_word_le (block iv) 0" and ?b = "load_word_le (block iv) 8"
    let ?x = "load_word_le xs 0" and ?y = "load_word_le xs 8"
    let ?out = "le_bytes 8 (?a XOR ?x) @ le_bytes 8 (?b XOR ?y)"
    let ?iv = "store_word_le (store_word_le (block iv) 0 (if enc then ?a XOR ?x else ?x)) 8 (if enc then ?b XOR ?y else ?y)"
    obtain vs where v: "cfb_blocks block enc ?iv 0 (drop 16 xs) = (vs, iv1, n1, zs)" "ys = ?out @ vs"
      using less.prems(3) True n(1) by (subst (asm) cfb_blocks.simps) (auto simp: Let_def split: prod.splits)
    have x: "le_bytes 8 ?x @ le_bytes 8 ?y = take 16 xs"
      using True take_16 [OF True] by (simp add: le_bytes_load)
    have k: "le_bytes 8 ?a @ le_bytes 8 ?b = block iv"
      using take_16 [of "block iv"] b by (simp add: le_bytes_load)
    have "?out = map2 (XOR) (le_bytes 8 ?a @ le_bytes 8 ?b) (le_bytes 8 ?x @ le_bytes 8 ?y)"
      by (simp add: le_bytes_xor)
    then have out: "?out = map2 (XOR) (block iv) (take 16 xs)" unfolding x k .
    have iv: "?iv = fed enc (block iv) (take 16 xs)"
      unfolding store_load [OF b] using out x b by (cases enc) (simp_all add: fed_def)
    have tail: "cfb_tail enc (block iv) 0 (take 16 xs) = (?out, ?iv, 16)"
      using cfb_tail_val [of 0 "take 16 xs" "block iv" enc] n(3) b unfolding out iv by simp
    have first: "run (cfb_step block enc) (iv, n) (take 16 xs) = (?out, (?iv, 0))"
      using cfb_fresh [where block = block and enc = enc, OF n(2) _ b] n(1,3) unfolding tail by simp
    have ok: "mode_ok (?iv, 0)" unfolding iv using b n(3) by (simp add: mode_ok_def fed_def)
    have "length (drop 16 xs) < length xs" using True by simp
    note ih = less.hyps [OF this ok _ v(1)]
    have "run (cfb_step block enc) (iv, n) (take 16 xs @ drop 16 xs) =
        (ys @ fst (run (cfb_step block enc) (iv1, n1) zs), snd (run (cfb_step block enc) (iv1, n1) zs))"
      unfolding run_append first v(2) using ih by (simp add: Let_def)
    with ih show ?thesis by simp
  qed
qed

lemma cfb_mode_run:
  assumes "cipher block" "mode_ok s"
  shows "CRYPTO_cfb128_encrypt block enc s xs = run (cfb_step block enc) s xs"
proof -
  obtain ys iv n zs where r: "cfb_rest enc (fst s) (snd s) xs = (ys, iv, n, zs)" by (metis prod_cases4)
  have rest: "run (cfb_step block enc) s xs = (ys @ fst (run (cfb_step block enc) (iv, n) zs), snd (run (cfb_step block enc) (iv, n) zs))"
    "mode_ok (iv, n)" "n = 0 \<or> zs = []"
    using cfb_rest_run [OF _ _ r, of block] assms(2) by (auto simp: mode_ok_def)
  obtain us iv1 n1 ws where b: "cfb_blocks block enc iv n zs = (us, iv1, n1, ws)" by (metis prod_cases4)
  note blocks = cfb_blocks_run [OF assms(1) rest(2,3) b]
  show ?thesis
  proof (cases "ws = []")
    case True
    then show ?thesis unfolding rest(1) using blocks by (simp add: CRYPTO_cfb128_encrypt_def r b)
  next
    case False
    then have n: "n1 = 0" using blocks by simp
    have k: "length (block iv1) = 16" using blocks assms(1) by (simp add: cipher_def mode_ok_def)
    have l: "length ws < 16" using blocks by blast
    have "run (cfb_step block enc) (iv1, n1) ws = (let (ys, iv, n) = cfb_tail enc (block iv1) n1 ws in (ys, iv, n mod 16))"
      unfolding n by (rule cfb_fresh) (use False l k in simp_all)
    moreover have "snd (snd (cfb_tail enc (block iv1) n1 ws)) mod 16 = snd (snd (cfb_tail enc (block iv1) n1 ws))"
      using cfb_tail_val [of n1 ws "block iv1" enc] n l k by simp
    ultimately show ?thesis
      unfolding rest(1) using blocks False by (simp add: CRYPTO_cfb128_encrypt_def r b Let_def case_prod_beta)
  qed
qed

interpretation cfb_mode: stream_mode "cfb_step block enc" "CRYPTO_cfb128_encrypt block enc" "\<lambda>s. cipher block \<and> mode_ok s"
  by unfold_locales (simp_all add: cfb_good_step cfb_mode_run)

lemma cfb_inverse:
  "run (cfb_step block False) s (fst (run (cfb_step block True) s xs)) = (xs, snd (run (cfb_step block True) s xs))"
proof (induction xs arbitrary: s)
  case (Cons x xs)
  have "cfb_step block False s (fst (cfb_step block True s x)) = (x, snd (cfb_step block True s x))"
    by (simp add: cfb_step_def Let_def flip: xor.assoc)
  with Cons show ?case by (simp add: Let_def case_prod_beta)
qed simp

text \<open>Block by block: the key stream of a block is the encryption of the cipher block before it.\<close>

fun cfb_text :: "block128_f \<Rightarrow> byte list \<Rightarrow> byte list \<Rightarrow> byte list" where
  "cfb_text block iv xs =
     (if xs = [] then []
      else let c = map2 (XOR) (block iv) (take 16 xs) in c @ cfb_text block c (drop 16 xs))"

declare cfb_text.simps [simp del]

lemma cfb_run_text: "cipher block \<Longrightarrow> length iv = 16 \<Longrightarrow> fst (run (cfb_step block True) (iv, 0) xs) = cfb_text block iv xs"
proof (induction "length xs" arbitrary: iv xs rule: less_induct)
  case less
  have b: "length (block iv) = 16" using less.prems by (simp add: cipher_def)
  let ?c = "map2 (XOR) (block iv) (take 16 xs)"
  show ?case
  proof (cases "xs = []")
    case False
    have t: "cfb_tail True (block iv) 0 (take 16 xs) = (?c, ?c @ drop (length (take 16 xs)) (block iv), length (take 16 xs))"
      using cfb_tail_val [of 0 "take 16 xs" "block iv" True] b by (simp add: fed_def)
    have first: "run (cfb_step block True) (iv, 0) (take 16 xs) =
        (?c, (?c @ drop (length (take 16 xs)) (block iv), length (take 16 xs) mod 16))"
      using cfb_fresh [of "take 16 xs" block iv True] b False unfolding t by simp
    have "fst (run (cfb_step block True) (iv, 0) (take 16 xs @ drop 16 xs)) =
        ?c @ fst (run (cfb_step block True) (?c @ drop (length (take 16 xs)) (block iv), length (take 16 xs) mod 16) (drop 16 xs))"
      unfolding run_split first by simp
    moreover have "fst (run (cfb_step block True) (?c @ drop (length (take 16 xs)) (block iv), length (take 16 xs) mod 16) (drop 16 xs)) =
        cfb_text block ?c (drop 16 xs)"
    proof (cases "length xs > 16")
      case True
      then have l: "length (take 16 xs) = 16" "length ?c = 16" using b by simp_all
      then show ?thesis using less.hyps [of "drop 16 xs" ?c] less.prems(1) b True by simp
    qed (simp add: cfb_text.simps)
    ultimately show ?thesis using False by (simp add: cfb_text.simps [of block iv xs] Let_def)
  qed (simp add: cfb_text.simps)
qed

section \<open>Shift registers\<close>

lemma cfbr_8:
  assumes "length iv = 16"
  shows "cfbr_encrypt_block block enc 8 iv [x] =
    ([x XOR block iv ! 0], tl iv @ [if enc then x XOR block iv ! 0 else x])"
  using assms by (cases iv) (simp_all add: cfbr_encrypt_block_def Let_def)

definition cfb8_step :: "block128_f \<Rightarrow> bool \<Rightarrow> byte list \<Rightarrow> byte \<Rightarrow> byte \<times> byte list" where
  "cfb8_step block enc iv x = (let y = x XOR block iv ! 0 in (y, tl iv @ [if enc then y else x]))"

lemma cfb8_run: "length iv = 16 \<Longrightarrow> CRYPTO_cfb128_8_encrypt block enc iv xs = run (cfb8_step block enc) iv xs"
proof (induction xs arbitrary: iv)
  case (Cons x xs)
  then show ?case by (cases enc) (simp_all add: cfbr_8 cfb8_step_def Let_def case_prod_beta)
qed simp

interpretation cfb8_mode: stream_mode "cfb8_step block enc" "CRYPTO_cfb128_8_encrypt block enc" "\<lambda>iv. length iv = 16"
  by unfold_locales (simp_all add: cfb8_run, simp add: cfb8_step_def Let_def)

lemma cfb8_inverse:
  "run (cfb8_step block False) iv (fst (run (cfb8_step block True) iv xs)) = (xs, snd (run (cfb8_step block True) iv xs))"
proof (induction xs arbitrary: iv)
  case (Cons x xs)
  have "cfb8_step block False iv (fst (cfb8_step block True iv x)) = (x, snd (cfb8_step block True iv x))"
    by (simp add: cfb8_step_def Let_def xor.assoc)
  with Cons show ?case by (simp add: Let_def case_prod_beta)
qed simp

text \<open>The register before byte \<open>i\<close> is the last 16 bytes of the initial vector and the text so far.\<close>

lemma cfb8_text:
  "length iv = 16 \<Longrightarrow> i < length xs \<Longrightarrow> c = fst (run (cfb8_step block True) iv xs) \<Longrightarrow>
   c ! i = xs ! i XOR block (take 16 (drop i (iv @ c))) ! 0"
proof (induction xs arbitrary: iv i c)
  case (Cons x xs)
  let ?y = "x XOR block iv ! 0"
  obtain k ks where iv: "iv = k # ks" using Cons.prems(1) by (cases iv) auto
  let ?c = "fst (run (cfb8_step block True) (ks @ [?y]) xs)"
  have "cfb8_step block True iv x = (?y, ks @ [?y])" by (simp add: cfb8_step_def Let_def iv)
  then have c: "c = ?y # ?c" using Cons.prems(3) by (simp add: Let_def case_prod_beta)
  show ?case
  proof (cases i)
    case 0
    then show ?thesis using Cons.prems(1) c by simp
  next
    case (Suc j)
    have "length (ks @ [?y]) = 16" "j < length xs" using Cons.prems(1,2) iv Suc by simp_all
    from Cons.IH [OF this refl] show ?thesis unfolding c by (simp add: Suc iv)
  qed
qed simp

text \<open>CFB-1: the bits of a buffer, most significant first, and a step on bits.\<close>

definition get_bit :: "byte list \<Rightarrow> nat \<Rightarrow> bool" where
  "get_bit xs m = bit (xs ! (m div 8)) (7 - m mod 8)"

definition cfb1_iv :: "byte list \<Rightarrow> bool \<Rightarrow> byte list" where
  "cfb1_iv iv b = map (\<lambda>n. push_bit 1 ((iv @ [0]) ! n) OR drop_bit 7 ((iv @ [if b then 0x80 else 0]) ! (n + 1))) [0..<16]"

primrec bits_run :: "block128_f \<Rightarrow> bool \<Rightarrow> byte list \<Rightarrow> bool list \<Rightarrow> bool list" where
  "bits_run block enc iv [] = []"
| "bits_run block enc iv (b # bs) =
     (let c = (b \<noteq> bit (block iv ! 0) 7) in c # bits_run block enc (cfb1_iv iv (if enc then c else b)) bs)"

lemma bits_run_inverse: "bits_run block False iv (bits_run block True iv bs) = bs"
  by (induction bs arbitrary: iv) (auto simp: Let_def)

lemma drop_bit_7: "drop_bit 7 (y :: byte) = (if bit y 7 then 1 else 0)"
proof (rule bit_word_eqI)
  fix n show "bit (drop_bit 7 y) n = bit (if bit y 7 then 1 else 0 :: byte) n"
    by (cases n) (auto simp: bit_drop_bit_eq bit_1_iff dest: bit_imp_le_length)
qed

lemma cfbr_1:
  assumes "length iv = 16" "c = (if b then 0x80 else 0)"
  shows "cfbr_encrypt_block block enc 1 iv [c] =
    ([c XOR block iv ! 0], cfb1_iv iv (if enc then b \<noteq> bit (block iv ! 0) 7 else b))"
proof -
  let ?z = "if enc then c XOR block iv ! 0 else c" and ?b = "if enc then b \<noteq> bit (block iv ! 0) 7 else b"
  have f: "cfbr_encrypt_block block enc 1 iv [c] =
      ([c XOR block iv ! 0], map (\<lambda>n. push_bit 1 ((iv @ [?z]) ! n) OR drop_bit 7 ((iv @ [?z]) ! (n + 1))) [0..<16])"
    by (cases enc) (simp_all add: cfbr_encrypt_block_def Let_def del: upt_rec_numeral)
  have top: "bit ?z 7 \<longleftrightarrow> ?b" using assms(2) by (cases b) (auto simp: bit_xor_iff)
  have "push_bit 1 ((iv @ [?z]) ! n) OR drop_bit 7 ((iv @ [?z]) ! (n + 1)) =
      push_bit 1 ((iv @ [0]) ! n) OR drop_bit 7 ((iv @ [if ?b then 0x80 else 0]) ! (n + 1))" if "n \<in> set [0..<16]" for n
  proof -
    have n: "n < 16" using that by (simp del: upt_rec_numeral)
    then have "(iv @ [?z]) ! n = (iv @ [0]) ! n" using assms(1) by (simp only: nth_append if_True)
    moreover have "drop_bit 7 ((iv @ [?z]) ! (n + 1)) = drop_bit 7 ((iv @ [if ?b then 0x80 else 0]) ! (n + 1))"
    proof (cases "n + 1 < 16")
      case True
      then show ?thesis using assms(1) by (simp only: nth_append if_True)
    next
      case False
      then have n15: "n + 1 = length iv" using n assms(1) by simp
      have "drop_bit 7 ?z = drop_bit 7 (if ?b then 0x80 else 0 :: byte)"
        unfolding drop_bit_7 top by (cases "?b") simp_all
      then show ?thesis unfolding n15 nth_append_length .
    qed
    ultimately show ?thesis by (simp only:)
  qed
  then show ?thesis unfolding f cfb1_iv_def by (simp only: prod.inject map_eq_conv simp_thms) blast
qed

lemma length_cfb1_iv [simp]: "length (cfb1_iv iv b) = 16"
  by (simp add: cfb1_iv_def)

lemma get_bit_cfb1_iv:
  assumes "length iv = 16" "k < 128"
  shows "get_bit (cfb1_iv iv b) k = (if k < 127 then get_bit iv (k + 1) else b)"
proof -
  let ?q = "k div 8"
  have q: "?q < 16" using assms(2) by simp
  have v: "cfb1_iv iv b ! ?q = push_bit 1 (iv ! ?q) OR drop_bit 7 ((iv @ [if b then 0x80 else 0]) ! (?q + 1))"
    using q assms(1) by (simp add: cfb1_iv_def nth_append del: upt_rec_numeral)
  show ?thesis
  proof (cases "k mod 8 = 7")
    case False
    then have m: "k mod 8 < 7" using mod_less_divisor [of 8 k] by linarith
    then have s: "(k + 1) div 8 = ?q" "(k + 1) mod 8 = k mod 8 + 1" "k < 127"
      using assms(2) by (simp_all add: div_Suc mod_Suc) presburger
    have "7 - k mod 8 = Suc (6 - k mod 8)" "6 - k mod 8 < 7" using m by simp_all
    moreover have "bit (push_bit 1 x OR drop_bit 7 y) (Suc j) = bit x j" if "j < 7" for x y :: byte and j
      using that unfolding bit_or_iff bit_push_bit_iff bit_drop_bit_eq by (auto dest: bit_imp_le_length)
    ultimately show ?thesis using s unfolding get_bit_def v by (simp only: if_True) simp
  next
    case True
    have s: "(k + 1) div 8 = ?q + 1" "(k + 1) mod 8 = 0" using True by presburger+
    have e: "get_bit (cfb1_iv iv b) k = bit ((iv @ [if b then 0x80 else 0]) ! (?q + 1)) 7"
      unfolding get_bit_def v bit_or_iff bit_push_bit_iff bit_drop_bit_eq using True by simp
    show ?thesis
    proof (cases "k < 127")
      case l: True
      then have "?q + 1 < 16" using True by presburger
      then show ?thesis unfolding e using l s assms(1) by (simp add: get_bit_def nth_append)
    next
      case l: False
      then have "?q + 1 = length iv" using assms by simp
      then show ?thesis unfolding e using l by (simp only: nth_append_length) simp
    qed
  qed
qed

text \<open>The register before bit \<open>i\<close> holds the last 128 bits of the initial vector and the text so far.\<close>

lemma cfb1_text:
  "length iv = 16 \<Longrightarrow> i < length bs \<Longrightarrow> cs = bits_run block True iv bs \<Longrightarrow>
   \<exists>r. length r = 16 \<and> (\<forall>m < 128. get_bit r m = (if i + m < 128 then get_bit iv (i + m) else cs ! (i + m - 128))) \<and>
     cs ! i = (bs ! i \<noteq> get_bit (block r) 0)"
proof (induction bs arbitrary: iv i cs)
  case (Cons b bs)
  let ?c = "b \<noteq> bit (block iv ! 0) 7"
  let ?cs = "bits_run block True (cfb1_iv iv ?c) bs"
  have cs: "cs = ?c # ?cs" using Cons.prems(3) by (simp add: Let_def)
  show ?case
  proof (cases i)
    case 0
    then show ?thesis using Cons.prems(1) by (intro exI [of _ iv]) (simp add: cs get_bit_def)
  next
    case (Suc j)
    with Cons.prems(2) have "j < length bs" by simp
    from Cons.IH [OF length_cfb1_iv this refl] obtain r where r: "length r = 16"
      "\<forall>m < 128. get_bit r m = (if j + m < 128 then get_bit (cfb1_iv iv ?c) (j + m) else ?cs ! (j + m - 128))"
      "?cs ! j = (bs ! j \<noteq> get_bit (block r) 0)" by blast
    have "get_bit r m = (if i + m < 128 then get_bit iv (i + m) else cs ! (i + m - 128))" if m: "m < 128" for m
    proof -
      consider "j + m < 127" | "j + m = 127" | "j + m = 128 + (j + m - 128)" by linarith
      then show ?thesis
      proof cases
        case 1
        then show ?thesis using r(2) m get_bit_cfb1_iv [OF Cons.prems(1), of "j + m" ?c] Suc by simp
      next
        case 2
        then show ?thesis using r(2) m get_bit_cfb1_iv [OF Cons.prems(1), of "j + m" ?c] Suc by (simp add: cs)
      next
        case 3
        then obtain k where "j + m = 128 + k" by blast
        then show ?thesis using r(2) m Suc by (simp add: cs)
      qed
    qed
    with r(1,3) Suc show ?thesis by (intro exI [of _ r]) (simp add: cs)
  qed
qed simp

lemma test_bit: "(x AND push_bit k 1 \<noteq> 0) = bit (x :: byte) k"
  by (metis and_exp_eq_0_iff_not_bit push_bit_of_1)

lemma get_set_bit:
  assumes "n div 8 < length out"
  shows "get_bit (out[n div 8 := (out ! (n div 8) AND NOT (push_bit (7 - n mod 8) 1)) OR drop_bit (n mod 8) (y AND 0x80)]) m =
    (if m = n then bit y 7 else get_bit out m)"
proof (cases "m div 8 = n div 8")
  case True
  have m: "m mod 8 < 8" "n mod 8 < 8" by simp_all
  have e: "m = n \<longleftrightarrow> m mod 8 = n mod 8" using True by (metis div_mult_mod_eq)
  have "bit (drop_bit (n mod 8) (y AND 0x80)) (7 - m mod 8) \<longleftrightarrow> m mod 8 = n mod 8 \<and> bit y 7"
    using m by (auto simp: bit_drop_bit_eq bit_and_iff)
  moreover have "bit (out ! (n div 8) AND NOT (push_bit (7 - n mod 8) 1)) (7 - m mod 8) \<longleftrightarrow>
      bit (out ! (n div 8)) (7 - m mod 8) \<and> m mod 8 \<noteq> n mod 8"
    using m by (auto simp: bit_and_iff bit_not_iff bit_exp_iff)
  ultimately show ?thesis using assms True e by (auto simp: get_bit_def bit_or_iff)
next
  case False
  then show ?thesis by (auto simp: get_bit_def)
qed

lemma cfb1_loop_bits:
  "distinct ns \<Longrightarrow> \<forall>n \<in> set ns. n div 8 < length out \<Longrightarrow> length iv = 16 \<Longrightarrow>
   length (fst (cfb1_loop block enc xs ns iv out)) = length out \<and>
   (\<forall>m. m \<notin> set ns \<longrightarrow> get_bit (fst (cfb1_loop block enc xs ns iv out)) m = get_bit out m) \<and>
   map (get_bit (fst (cfb1_loop block enc xs ns iv out))) ns = bits_run block enc iv (map (get_bit xs) ns)"
proof (induction ns arbitrary: iv out)
  case (Cons n ns)
  let ?b = "get_bit xs n"
  let ?c = "if ?b then 0x80 else 0 :: byte"
  let ?y = "?c XOR block iv ! 0"
  let ?out = "out[n div 8 := (out ! (n div 8) AND NOT (push_bit (7 - n mod 8) 1)) OR drop_bit (n mod 8) (?y AND 0x80)]"
  let ?iv = "cfb1_iv iv (if enc then ?b \<noteq> bit (block iv ! 0) 7 else ?b)"
  have loop: "cfb1_loop block enc xs (n # ns) iv out = cfb1_loop block enc xs ns ?iv ?out"
    unfolding cfb1_loop.simps test_bit get_bit_def [symmetric] Let_def cfbr_1 [OF Cons.prems(3) refl] prod.case nth_Cons_0 ..
  have out: "get_bit ?out m = (if m = n then (?b \<noteq> bit (block iv ! 0) 7) else get_bit out m)" for m
    using get_set_bit [of n out ?y m] Cons.prems(2) by (simp add: bit_xor_iff)
  note ih = Cons.IH [of ?out ?iv]
  show ?case
    using ih Cons.prems out unfolding loop by (simp add: Let_def)
qed simp

lemma cfb1_bits:
  assumes "bits \<le> 8 * length out" "length iv = 16"
  shows "map (get_bit (fst (CRYPTO_cfb128_1_encrypt block enc iv xs bits out))) [0..<bits] =
      bits_run block enc iv (map (get_bit xs) [0..<bits])"
    "length (fst (CRYPTO_cfb128_1_encrypt block enc iv xs bits out)) = length out"
    "m \<ge> bits \<Longrightarrow> get_bit (fst (CRYPTO_cfb128_1_encrypt block enc iv xs bits out)) m = get_bit out m"
proof -
  have "\<forall>n \<in> set [0..<bits]. n div 8 < length out" using assms(1) by (auto simp: less_mult_imp_div_less mult.commute)
  from cfb1_loop_bits [OF distinct_upt this assms(2), of block enc xs]
  show "map (get_bit (fst (CRYPTO_cfb128_1_encrypt block enc iv xs bits out))) [0..<bits] =
      bits_run block enc iv (map (get_bit xs) [0..<bits])"
    "length (fst (CRYPTO_cfb128_1_encrypt block enc iv xs bits out)) = length out"
    "m \<ge> bits \<Longrightarrow> get_bit (fst (CRYPTO_cfb128_1_encrypt block enc iv xs bits out)) m = get_bit out m"
    by (simp_all add: CRYPTO_cfb128_1_encrypt_def)
qed

text \<open>C23: The feedback modes of 128-bit blocks encrypt as the modes are defined, and decryption from the
  same initial vector gives back what was encrypted.  For output feedback, for cipher feedback on
  whole blocks, with their loops over words and their state between calls, and for cipher feedback
  with a shift register of 8 bits, this holds however the input of encryption and that of decryption are
  cut into pieces: the key stream is the initial vector encrypted again and again, the encryption of the
  cipher block before, and the first byte of the encryption of the last 16 bytes of the initial vector and
  the cipher text so far.  For cipher feedback of one bit it holds for one call each way: a bit is combined with
  the first bit of the encryption of the last 128 bits of initial vector and cipher text, and the bits
  of the buffer behind the message stay as they were.\<close>

theorem feedback_roundtrip:
  assumes "cipher block" "mode_ok (iv, n)"
    "concat yss = fst (pieces (CRYPTO_ofb128_encrypt block) (iv, n) xss)"
    "concat zss = fst (pieces (CRYPTO_cfb128_encrypt block True) (iv, n) xss)"
    "concat wss = fst (pieces (CRYPTO_cfb128_8_encrypt block True) iv xss)"
    "c = fst (CRYPTO_cfb128_1_encrypt block True iv xs bits out)"
    "r = fst (CRYPTO_cfb128_1_encrypt block False iv c bits out')"
    "bits \<le> 8 * length out" "bits \<le> 8 * length out'"
  shows "(n = 0 \<longrightarrow> concat yss = ofb_text block iv (concat xss) \<and> concat zss = cfb_text block iv (concat xss)) \<and>
    fst (pieces (CRYPTO_ofb128_encrypt block) (iv, n) yss) = concat xss \<and>
    pieces (CRYPTO_cfb128_encrypt block False) (iv, n) zss =
      (concat xss, snd (pieces (CRYPTO_cfb128_encrypt block True) (iv, n) xss)) \<and>
    (\<forall>i < length (concat xss). concat wss ! i = concat xss ! i XOR block (take 16 (drop i (iv @ concat wss))) ! 0) \<and>
    pieces (CRYPTO_cfb128_8_encrypt block False) iv wss =
      (concat xss, snd (pieces (CRYPTO_cfb128_8_encrypt block True) iv xss)) \<and>
    (\<forall>i < bits. \<exists>reg. length reg = 16 \<and> get_bit c i = (get_bit xs i \<noteq> get_bit (block reg) 0) \<and>
       (\<forall>m < 128. get_bit reg m = (if i + m < 128 then get_bit iv (i + m) else get_bit c (i + m - 128)))) \<and>
    (\<forall>i < bits. get_bit r i = get_bit xs i) \<and> (\<forall>i \<ge> bits. get_bit c i = get_bit out i \<and> get_bit r i = get_bit out' i)"
proof (intro conjI)
  have iv: "length iv = 16" using assms(2) by (simp add: mode_ok_def)
  have ofb: "pieces (CRYPTO_ofb128_encrypt block) (iv, n) uss = run (ofb_step block) (iv, n) (concat uss)" for uss
    using ofb_mode.pieces_run assms(1,2) by blast
  have cfb: "pieces (CRYPTO_cfb128_encrypt block enc) (iv, n) uss = run (cfb_step block enc) (iv, n) (concat uss)" for enc uss
    using cfb_mode.pieces_run assms(1,2) by blast
  have cfb8: "pieces (CRYPTO_cfb128_8_encrypt block enc) iv uss = run (cfb8_step block enc) iv (concat uss)" for enc uss
    by (rule cfb8_mode.pieces_run [OF iv])
  show "n = 0 \<longrightarrow> concat yss = ofb_text block iv (concat xss) \<and> concat zss = cfb_text block iv (concat xss)"
    unfolding assms(3,4) ofb cfb using ofb_run_text [OF assms(1) iv] cfb_run_text [OF assms(1) iv] by simp
  show "fst (pieces (CRYPTO_ofb128_encrypt block) (iv, n) yss) = concat xss"
    unfolding ofb assms(3) by (simp add: ofb_involution)
  show "pieces (CRYPTO_cfb128_encrypt block False) (iv, n) zss =
      (concat xss, snd (pieces (CRYPTO_cfb128_encrypt block True) (iv, n) xss))"
    unfolding cfb assms(4) by (rule cfb_inverse)
  show "\<forall>i < length (concat xss). concat wss ! i = concat xss ! i XOR block (take 16 (drop i (iv @ concat wss))) ! 0"
    using cfb8_text [OF iv _ assms(5) [unfolded cfb8]] by blast
  show "pieces (CRYPTO_cfb128_8_encrypt block False) iv wss =
      (concat xss, snd (pieces (CRYPTO_cfb128_8_encrypt block True) iv xss))"
    unfolding cfb8 assms(5) by (rule cfb8_inverse)
  have cs: "map (get_bit c) [0..<bits] = bits_run block True iv (map (get_bit xs) [0..<bits])"
    unfolding assms(6) by (rule cfb1_bits(1) [OF assms(8) iv])
  show "\<forall>i < bits. \<exists>reg. length reg = 16 \<and> get_bit c i = (get_bit xs i \<noteq> get_bit (block reg) 0) \<and>
       (\<forall>m < 128. get_bit reg m = (if i + m < 128 then get_bit iv (i + m) else get_bit c (i + m - 128)))"
  proof (intro allI impI)
    fix i assume i: "i < bits"
    from cfb1_text [OF iv _ cs, of i] i obtain reg where reg: "length reg = 16"
      "\<forall>m < 128. get_bit reg m = (if i + m < 128 then get_bit iv (i + m) else map (get_bit c) [0..<bits] ! (i + m - 128))"
      "get_bit c i = (get_bit xs i \<noteq> get_bit (block reg) 0)" by auto
    have "get_bit reg m = (if i + m < 128 then get_bit iv (i + m) else get_bit c (i + m - 128))" if "m < 128" for m
      using reg(2) that i by (cases "i + m < 128") simp_all
    with reg(1,3) show "\<exists>reg. length reg = 16 \<and> get_bit c i = (get_bit xs i \<noteq> get_bit (block reg) 0) \<and>
       (\<forall>m < 128. get_bit reg m = (if i + m < 128 then get_bit iv (i + m) else get_bit c (i + m - 128)))" by blast
  qed
  have "map (get_bit r) [0..<bits] = map (get_bit xs) [0..<bits]"
    unfolding assms(7) cfb1_bits(1) [OF assms(9) iv] cs by (rule bits_run_inverse)
  then show "\<forall>i < bits. get_bit r i = get_bit xs i" by (simp add: map_eq_conv)
  show "\<forall>i \<ge> bits. get_bit c i = get_bit out i \<and> get_bit r i = get_bit out' i"
    unfolding assms(6,7) using cfb1_bits(3) [OF assms(8) iv] cfb1_bits(3) [OF assms(9) iv] by blast
qed

text \<open>A message of twenty bytes in two pieces, and its encryptions in three.\<close>

definition feedback_sample :: "byte list list" where
  "feedback_sample = [[1, 2, 3], [4, 5, 6, 7, 8, 9, 10, 11, 12, 13, 14, 15, 16, 17, 18, 19, 20]]"

definition feedback_block :: block128_f where
  "feedback_block b = map (\<lambda>x. x + 3) (rev b)"

definition feedback_iv :: "byte list" where
  "feedback_iv = [0, 1, 2, 3, 4, 5, 6, 7, 8, 9, 10, 11, 12, 13, 14, 15]"

definition cut :: "byte list \<Rightarrow> byte list list" where
  "cut ys = [take 1 ys, take 17 (drop 1 ys), drop 18 ys]"

theorem feedback_roundtrip_witness:
  "fst (pieces (CRYPTO_ofb128_encrypt feedback_block) (feedback_iv, 0)
     (cut (fst (pieces (CRYPTO_ofb128_encrypt feedback_block) (feedback_iv, 0) feedback_sample)))) = concat feedback_sample \<and>
   fst (pieces (CRYPTO_cfb128_encrypt feedback_block False) (feedback_iv, 0)
     (cut (fst (pieces (CRYPTO_cfb128_encrypt feedback_block True) (feedback_iv, 0) feedback_sample)))) = concat feedback_sample \<and>
   fst (pieces (CRYPTO_cfb128_8_encrypt feedback_block False) feedback_iv
     (cut (fst (pieces (CRYPTO_cfb128_8_encrypt feedback_block True) feedback_iv feedback_sample)))) = concat feedback_sample \<and>
   map (get_bit (fst (CRYPTO_cfb128_1_encrypt feedback_block False feedback_iv
     (fst (CRYPTO_cfb128_1_encrypt feedback_block True feedback_iv [0xa5, 0x3c] 11 [0, 0])) 11 [0xff, 0xff]))) [0..<11] =
     map (get_bit [0xa5, 0x3c]) [0..<11]"
proof -
  have c: "cipher feedback_block" "mode_ok (feedback_iv, 0)"
    by (simp_all add: cipher_def feedback_block_def mode_ok_def feedback_iv_def)
  have cut: "concat (cut ys) = ys" for ys
  proof -
    have "ys = take 1 ys @ take 17 (drop 1 ys) @ drop 17 (drop 1 ys)" by (simp only: append_take_drop_id)
    then show ?thesis by (simp add: cut_def)
  qed
  have l: "11 \<le> 8 * length [0, 0 :: byte]" "11 \<le> 8 * length [0xff, 0xff :: byte]" by simp_all
  have map: "map f [0..<11] = map g [0..<11]" if "\<forall>i < 11. f i = g i" for f g :: "nat \<Rightarrow> bool"
    by (rule map_cong) (use that in \<open>simp_all del: upt_rec_numeral\<close>)
  note r = feedback_roundtrip [where xss = feedback_sample and xs = "[0xa5, 0x3c]", OF c cut cut cut refl refl l]
  show ?thesis
    by (intro conjI map) (use r in \<open>metis fst_conv\<close>)+
qed

end
