(* ===== verification/Cbc.thy ===== *)
theory Cbc
  imports Modes
begin

text \<open>
  Cipher block chaining (\<open>BoringSSL-GRPC/crypto/fipsmodule/modes/cbc.c\<close>).  What the functions do depends
  on how \<open>in\<close> and \<open>out\<close> overlap, so they work on memory here.  \<open>ivec\<close> is an array of its own; \<open>iv\<close> is
  the pointer to the last cipher block, or \<open>None\<close> while it points to \<open>ivec\<close>.  The functions return the
  new memory and the new \<open>ivec\<close>.
\<close>

section \<open>Encryption\<close>

definition iv_word :: "mem \<Rightarrow> byte list \<Rightarrow> ptr option \<Rightarrow> nat \<Rightarrow> size_t" where
  "iv_word m iv0 iv n = (case iv of None \<Rightarrow> load_word_le iv0 n | Some p \<Rightarrow> load64 m (p + of_nat n))"

definition iv_byte :: "mem \<Rightarrow> byte list \<Rightarrow> ptr option \<Rightarrow> nat \<Rightarrow> byte" where
  "iv_byte m iv0 iv n = (case iv of None \<Rightarrow> iv0 ! n | Some p \<Rightarrow> m (p + of_nat n))"

text \<open>The final \<open>memcpy\<close> to \<open>ivec\<close>.\<close>

definition iv_bytes :: "mem \<Rightarrow> byte list \<Rightarrow> ptr option \<Rightarrow> byte list" where
  "iv_bytes m iv0 iv = (case iv of None \<Rightarrow> iv0 | Some p \<Rightarrow> read_bytes m p 16)"

fun cbc_enc_blocks ::
  "block128_f \<Rightarrow> byte list \<Rightarrow> ptr option \<Rightarrow> mem \<Rightarrow> ptr \<Rightarrow> ptr \<Rightarrow> nat \<Rightarrow> mem \<times> ptr option \<times> ptr \<times> ptr \<times> nat" where
  "cbc_enc_blocks block iv0 iv m inp out len =
     (if len \<ge> 16
      then
        let m1 = store64 m out (load64 m inp XOR iv_word m iv0 iv 0);
            m2 = store64 m1 (out + 8) (load64 m1 (inp + 8) XOR iv_word m1 iv0 iv 8);
            m3 = write_bytes m2 out (block (read_bytes m2 out 16))
        in cbc_enc_blocks block iv0 (Some out) m3 (inp + 16) (out + 16) (len - 16)
      else (m, iv, inp, out, len))"

declare cbc_enc_blocks.simps [simp del]

text \<open>The two byte loops over the indices of the last block.\<close>

primrec pad_loop :: "byte list \<Rightarrow> ptr option \<Rightarrow> ptr \<Rightarrow> ptr \<Rightarrow> nat \<Rightarrow> nat list \<Rightarrow> mem \<Rightarrow> mem" where
  "pad_loop iv0 iv inp out len [] m = m"
| "pad_loop iv0 iv inp out len (n # ns) m =
     (let x = (if n < len then m (inp + of_nat n) XOR iv_byte m iv0 iv n else iv_byte m iv0 iv n)
      in pad_loop iv0 iv inp out len ns (m(out + of_nat n := x)))"

fun cbc_enc_tail ::
  "block128_f \<Rightarrow> byte list \<Rightarrow> ptr option \<Rightarrow> mem \<Rightarrow> ptr \<Rightarrow> ptr \<Rightarrow> nat \<Rightarrow> mem \<times> ptr option" where
  "cbc_enc_tail block iv0 iv m inp out len =
     (if len = 0 then (m, iv)
      else
        let m1 = pad_loop iv0 iv inp out len [0..<16] m;
            m2 = write_bytes m1 out (block (read_bytes m1 out 16))
        in if len \<le> 16 then (m2, Some out)
           else cbc_enc_tail block iv0 (Some out) m2 (inp + 16) (out + 16) (len - 16))"

declare cbc_enc_tail.simps [simp del]

definition CRYPTO_cbc128_encrypt ::
  "block128_f \<Rightarrow> mem \<Rightarrow> ptr \<Rightarrow> ptr \<Rightarrow> nat \<Rightarrow> byte list \<Rightarrow> mem \<times> byte list" where
  "CRYPTO_cbc128_encrypt block m inp out len iv0 =
     (let (m1, iv1, inp1, out1, len1) = cbc_enc_blocks block iv0 None m inp out len;
          (m2, iv2) = cbc_enc_tail block iv0 iv1 m1 inp1 out1 len1
      in (m2, iv_bytes m2 iv0 iv2))"

section \<open>Decryption\<close>

fun cbc_dec_direct ::
  "block128_f \<Rightarrow> byte list \<Rightarrow> ptr option \<Rightarrow> mem \<Rightarrow> ptr \<Rightarrow> ptr \<Rightarrow> nat \<Rightarrow> mem \<times> ptr option \<times> ptr \<times> ptr \<times> nat" where
  "cbc_dec_direct block iv0 iv m inp out len =
     (if len \<ge> 16
      then
        let m1 = write_bytes m out (block (read_bytes m inp 16));
            m2 = store64 m1 out (load64 m1 out XOR iv_word m1 iv0 iv 0);
            m3 = store64 m2 (out + 8) (load64 m2 (out + 8) XOR iv_word m2 iv0 iv 8)
        in cbc_dec_direct block iv0 (Some inp) m3 (inp + 16) (out + 16) (len - 16)
      else (m, iv, inp, out, len))"

declare cbc_dec_direct.simps [simp del]

fun cbc_dec_tmp ::
  "block128_f \<Rightarrow> byte list \<Rightarrow> mem \<Rightarrow> ptr \<Rightarrow> ptr \<Rightarrow> nat \<Rightarrow> mem \<times> byte list \<times> ptr \<times> ptr \<times> nat" where
  "cbc_dec_tmp block iv0 m inp out len =
     (if len \<ge> 16
      then
        let tmp = block (read_bytes m inp 16);
            c0 = load64 m inp;
            m1 = store64 m out (load_word_le tmp 0 XOR load_word_le iv0 0);
            ivec1 = store_word_le iv0 0 c0;
            c1 = load64 m1 (inp + 8);
            m2 = store64 m1 (out + 8) (load_word_le tmp 8 XOR load_word_le ivec1 8);
            ivec2 = store_word_le ivec1 8 c1
        in cbc_dec_tmp block ivec2 m2 (inp + 16) (out + 16) (len - 16)
      else (m, iv0, inp, out, len))"

declare cbc_dec_tmp.simps [simp del]

primrec dec_loop :: "byte list \<Rightarrow> ptr \<Rightarrow> ptr \<Rightarrow> nat list \<Rightarrow> mem \<Rightarrow> byte list \<Rightarrow> mem \<times> byte list" where
  "dec_loop tmp inp out [] m iv0 = (m, iv0)"
| "dec_loop tmp inp out (n # ns) m iv0 =
     (let c = m (inp + of_nat n); m1 = m(out + of_nat n := tmp ! n XOR iv0 ! n)
      in dec_loop tmp inp out ns m1 (iv0[n := c]))"

primrec iv_loop :: "mem \<Rightarrow> ptr \<Rightarrow> nat list \<Rightarrow> byte list \<Rightarrow> byte list" where
  "iv_loop m inp [] iv0 = iv0"
| "iv_loop m inp (n # ns) iv0 = iv_loop m inp ns (iv0[n := m (inp + of_nat n)])"

fun cbc_dec_tail :: "block128_f \<Rightarrow> byte list \<Rightarrow> mem \<Rightarrow> ptr \<Rightarrow> ptr \<Rightarrow> nat \<Rightarrow> mem \<times> byte list" where
  "cbc_dec_tail block iv0 m inp out len =
     (if len = 0 then (m, iv0)
      else
        let tmp = block (read_bytes m inp 16); k = min 16 len;
            (m1, ivec1) = dec_loop tmp inp out [0..<k] m iv0
        in if len \<le> 16 then (m1, iv_loop m1 inp [k..<16] ivec1)
           else cbc_dec_tail block ivec1 m1 (inp + 16) (out + 16) (len - 16))"

declare cbc_dec_tail.simps [simp del]

text \<open>Nothing, when the assertion on the overlap fails.\<close>

definition CRYPTO_cbc128_decrypt ::
  "block128_f \<Rightarrow> mem \<Rightarrow> ptr \<Rightarrow> ptr \<Rightarrow> nat \<Rightarrow> byte list \<Rightarrow> (mem \<times> byte list) option" where
  "CRYPTO_cbc128_decrypt block m inp out len iv0 =
     (if \<not> (inp \<ge> out \<or> inp + of_nat len \<le> out) then None
      else if inp \<ge> 32 \<and> out \<le> inp - 32 \<or> inp < out
      then
        let (m1, iv1, inp1, out1, len1) = cbc_dec_direct block iv0 None m inp out len
        in Some (cbc_dec_tail block (iv_bytes m1 iv0 iv1) m1 inp1 out1 len1)
      else
        let (m1, ivec1, inp1, out1, len1) = cbc_dec_tmp block iv0 m inp out len
        in Some (cbc_dec_tail block ivec1 m1 inp1 out1 len1))"

end
