(* ===== verification/Cbc_Spec.thy ===== *)
theory Cbc_Spec
  imports Cbc Modes_Spec Const_Time
begin

text \<open>
  Cipher block chaining: in place, on buffers apart, and for decryption with an output that starts before
  its input, the functions write what the mode defines and nothing else, and decryption undoes encryption.
\<close>

section \<open>The mode\<close>

fun cbc_enc :: "block128_f \<Rightarrow> byte list \<Rightarrow> byte list \<Rightarrow> byte list" where
  "cbc_enc block iv xs =
     (if xs = [] then []
      else let c = block (map2 (XOR) (take 16 (xs @ replicate 16 0)) iv) in c @ cbc_enc block c (drop 16 xs))"

fun cbc_dec :: "block128_f \<Rightarrow> byte list \<Rightarrow> byte list \<Rightarrow> byte list" where
  "cbc_dec block iv cs =
     (if cs = [] then [] else map2 (XOR) (block (take 16 cs)) iv @ cbc_dec block (take 16 cs) (drop 16 cs))"

declare cbc_enc.simps [simp del] cbc_dec.simps [simp del]

text \<open>Length in whole blocks.\<close>

definition whole :: "nat \<Rightarrow> nat" where
  "whole len = 16 * ((len + 15) div 16)"

lemma whole_simps [simp]: "whole 0 = 0" "whole (len + 16) = whole len + 16"
proof -
  have "(len + 16 + 15) div 16 = ((len + 15) + 16) div 16" by (simp only: ac_simps)
  also have "\<dots> = (len + 15) div 16 + 1" by (rule div_add_self2) simp
  finally show "whole (len + 16) = whole len + 16" by (simp only: whole_def) simp
qed (simp add: whole_def)

lemma whole_step: "16 \<le> len \<Longrightarrow> whole len = whole (len - 16) + 16"
  using whole_simps(2) [of "len - 16"] by simp

lemma whole_small: "0 < len \<Longrightarrow> len \<le> 16 \<Longrightarrow> whole len = 16"
proof -
  assume "0 < len" "len \<le> 16"
  then have "(len + 15) div 16 = 1" by (intro div_nat_eqI) simp_all
  then show ?thesis by (simp add: whole_def)
qed

lemma whole_ge: "len \<le> whole len"
  by (simp add: whole_def)

lemma cbc_enc_Nil [simp]: "cbc_enc block iv [] = []"
  by (simp add: cbc_enc.simps)

lemma cbc_dec_Nil [simp]: "cbc_dec block iv [] = []"
  by (simp add: cbc_dec.simps)

lemma cbc_dec_block: "length c = 16 \<Longrightarrow> cbc_dec block iv (c @ cs) = map2 (XOR) (block c) iv @ cbc_dec block c cs"
  by (subst cbc_dec.simps) auto

lemma length_cbc_dec:
  "cipher block \<Longrightarrow> length iv = 16 \<Longrightarrow> length cs = 16 * k \<Longrightarrow> length (cbc_dec block iv cs) = length cs"
proof (induction k arbitrary: iv cs)
  case (Suc k)
  then have l: "length (take 16 cs) = 16" by simp
  have "cbc_dec block iv (take 16 cs @ drop 16 cs) = map2 (XOR) (block (take 16 cs)) iv @ cbc_dec block (take 16 cs) (drop 16 cs)"
    by (rule cbc_dec_block [OF l])
  then show ?case using Suc.IH [of "take 16 cs" "drop 16 cs"] Suc.prems l by (simp add: cipher_def)
qed simp

lemma length_cbc_enc: "cipher block \<Longrightarrow> length iv = 16 \<Longrightarrow> length (cbc_enc block iv xs) = whole (length xs)"
proof (induction "length xs" arbitrary: iv xs rule: less_induct)
  case less
  show ?case
  proof (cases "xs = []")
    case False
    let ?c = "block (map2 (XOR) (take 16 (xs @ replicate 16 0)) iv)"
    have c: "length ?c = 16" using less.prems by (simp add: cipher_def)
    have "length (cbc_enc block ?c (drop 16 xs)) = whole (length xs - 16)"
      using less.hyps [of "drop 16 xs" ?c] False less.prems(1) c by simp
    moreover have "whole (length xs) = whole (length xs - 16) + 16"
      using whole_step [of "length xs"] whole_small [of "length xs"] False by (cases "16 \<le> length xs") auto
    ultimately show ?thesis using False c by (subst cbc_enc.simps) (simp add: Let_def)
  qed simp
qed

lemma cbc_inverse:
  assumes "cipher enc" "\<forall>b. length b = 16 \<longrightarrow> dec (enc b) = b"
  shows "length iv = 16 \<Longrightarrow> cbc_dec dec iv (cbc_enc enc iv xs) = take (whole (length xs)) (xs @ replicate 16 0)"
proof (induction "length xs" arbitrary: iv xs rule: less_induct)
  case less
  show ?case
  proof (cases "xs = []")
    case False
    let ?p = "take 16 (xs @ replicate 16 0)"
    let ?c = "enc (map2 (XOR) ?p iv)"
    have c: "length ?c = 16" "dec ?c = map2 (XOR) ?p iv" using less.prems assms by (simp_all add: cipher_def)
    have "map2 (XOR) (map2 (XOR) ?p iv) iv = ?p"
      by (rule nth_equalityI) (use less.prems in \<open>simp_all add: xor.assoc\<close>)
    then have "cbc_dec dec iv (cbc_enc enc iv xs) = ?p @ cbc_dec dec ?c (cbc_enc enc ?c (drop 16 xs))"
      using False c by (subst cbc_enc.simps, subst cbc_dec.simps) (auto simp: Let_def)
    also have "cbc_dec dec ?c (cbc_enc enc ?c (drop 16 xs)) = take (whole (length xs - 16)) (drop 16 xs @ replicate 16 0)"
      using less.hyps [of "drop 16 xs" ?c] False c by simp
    also have "?p @ \<dots> = take (whole (length xs)) (xs @ replicate 16 0)"
    proof (cases "16 \<le> length xs")
      case True
      then have "whole (length xs) = 16 + whole (length xs - 16)" using whole_step by simp
      then show ?thesis using True by (simp only: take_add) simp
    next
      case F: False
      then have "whole (length xs) = 16" using False by (intro whole_small) simp_all
      then show ?thesis using F by simp
    qed
    finally show ?thesis .
  qed simp
qed

section \<open>Blocks of memory\<close>

text \<open>Addresses that do not wrap around.\<close>

lemma in_block_unat:
  "unat a + n \<le> 2 ^ 64 \<Longrightarrow> in_block a n p \<longleftrightarrow> unat a \<le> unat p \<and> unat p < unat a + n"
  using unat64 [of p] unfolding in_block_def unat_minus by auto

lemma apart:
  assumes "unat a + n \<le> 2 ^ 64" "unat b + k \<le> 2 ^ 64" "unat a + n \<le> unat b \<or> unat b + k \<le> unat a"
  shows "in_block a n p \<Longrightarrow> \<not> in_block b k p"
  using assms by (auto simp: in_block_unat)

lemma read_apart:
  assumes "unat a + length bs \<le> 2 ^ 64" "unat b + k \<le> 2 ^ 64" "unat a + length bs \<le> unat b \<or> unat b + k \<le> unat a"
  shows "read_bytes (write_bytes m a bs) b k = read_bytes m b k"
  by (rule read_write_other) (use apart [OF assms] assms(2) in auto)

lemma unat_plus: "unat a + n < 2 ^ 64 \<Longrightarrow> unat (a + of_nat n :: ptr) = unat a + n"
  by (simp add: unat_word_ariths unat_of_nat)

lemma unat_plus_16: "unat a + 16 < 2 ^ 64 \<Longrightarrow> unat (a + 16 :: ptr) = unat a + 16"
  using unat_plus [of a 16] by simp

lemma unat_plus_8: "unat a + 8 < 2 ^ 64 \<Longrightarrow> unat (a + 8 :: ptr) = unat a + 8"
  using unat_plus [of a 8] by simp

lemma write_over: "length xs = length ys \<Longrightarrow> write_bytes (write_bytes m a xs) a ys = write_bytes m a ys"
  by (auto simp: write_bytes_def)

lemma read_write: "length bs = n \<Longrightarrow> n \<le> 2 ^ 64 \<Longrightarrow> read_bytes (write_bytes m a bs) a n = bs"
  using read_write_same by blast

lemma le_bytes_load64 [simp]: "le_bytes 8 (load64 m a) = read_bytes m a 8"
  using le_bytes_le_word [of "read_bytes m a 8", where 'a = 64] by (simp add: load64_def)

lemma read_16: "read_bytes m a 16 = read_bytes m a 8 @ read_bytes m (a + 8) 8"
  using read_bytes_add [of m a 8 8] by simp

lemma store_16: "store64 (store64 m a u) (a + 8) v = write_bytes m a (le_bytes 8 u @ le_bytes 8 v)"
  using write_bytes_append [of "le_bytes 8 u" "le_bytes 8 v" m a] by (simp add: store64_def)

lemma store64_write: "store64 m a u = write_bytes m a (le_bytes 8 u)"
  by (simp add: store64_def)

lemma load64_apart:
  assumes "unat a + 8 \<le> 2 ^ 64" "unat b + 8 \<le> 2 ^ 64" "unat a + 8 \<le> unat b \<or> unat b + 8 \<le> unat a"
  shows "load64 (store64 m a u) b = load64 m b"
  using read_apart [of a "le_bytes 8 u" b 8 m] assms by (simp add: load64_def store64_write)

text \<open>The block that \<open>iv\<close> points to does not overlap the block at \<open>out\<close>.\<close>

definition iv_apart :: "ptr option \<Rightarrow> ptr \<Rightarrow> bool" where
  "iv_apart iv out \<longleftrightarrow> (case iv of None \<Rightarrow> True | Some p \<Rightarrow>
     unat p + 16 < 2 ^ 64 \<and> (unat p + 16 \<le> unat out \<or> unat out + 16 \<le> unat p))"

lemma iv_bytes_write:
  assumes "iv_apart iv out" "unat out + 16 < 2 ^ 64" "length bs \<le> 16"
  shows "iv_bytes (write_bytes m out bs) iv0 iv = iv_bytes m iv0 iv"
proof (cases iv)
  case (Some p)
  then have "unat p + 16 < 2 ^ 64" "unat p + 16 \<le> unat out \<or> unat out + 16 \<le> unat p" using assms(1) by (simp_all add: iv_apart_def)
  then show ?thesis using Some read_apart [of out bs p 16 m] assms(2,3) by (auto simp: iv_bytes_def)
qed (simp add: iv_bytes_def)

lemma length_iv_bytes: "length iv0 = 16 \<Longrightarrow> length (iv_bytes m iv0 iv) = 16"
  by (simp add: iv_bytes_def split: option.splits)

lemma iv_word_bytes:
  assumes "length iv0 = 16"
  shows "le_bytes 8 (iv_word m iv0 iv 0) = take 8 (iv_bytes m iv0 iv)"
    "le_bytes 8 (iv_word m iv0 iv 8) = drop 8 (iv_bytes m iv0 iv)"
  using assms by (simp_all add: iv_word_def iv_bytes_def le_bytes_load read_16 split: option.splits)

lemma xor_block_mem:
  assumes "a = out \<or> unat a + 16 \<le> unat out \<or> unat out + 16 \<le> unat a" "unat a + 16 < 2 ^ 64" "unat out + 16 < 2 ^ 64"
    "iv_apart iv out" "length iv0 = 16"
    "m2 = store64 m out (load64 m a XOR iv_word m iv0 iv 0)"
  shows "store64 m2 (out + 8) (load64 m2 (a + 8) XOR iv_word m2 iv0 iv 8) =
    write_bytes m out (map2 (XOR) (read_bytes m a 16) (iv_bytes m iv0 iv))"
proof -
  have p: "unat (a + 8) = unat a + 8" "unat (out + 8) = unat out + 8"
    using assms(2,3) by (simp_all add: unat_plus_8)
  have s: "store64 m2 (out + 8) x = write_bytes m out (le_bytes 8 (load64 m a XOR iv_word m iv0 iv 0) @ le_bytes 8 x)" for x
    unfolding assms(6) by (rule store_16)
  have l: "load64 m2 (a + 8) = load64 m (a + 8)"
    unfolding assms(6) by (rule load64_apart) (use assms(1-3) p in auto)
  have "iv_bytes m2 iv0 iv = iv_bytes m iv0 iv"
    unfolding assms(6) store64_write by (rule iv_bytes_write [OF assms(4,3)]) simp
  then have "le_bytes 8 (iv_word m2 iv0 iv 8) = drop 8 (iv_bytes m iv0 iv)" using iv_word_bytes(2) [OF assms(5)] by metis
  moreover have "map2 (XOR) (read_bytes m a 16) (iv_bytes m iv0 iv) =
      map2 (XOR) (read_bytes m a 8) (take 8 (iv_bytes m iv0 iv)) @ map2 (XOR) (read_bytes m (a + 8) 8) (drop 8 (iv_bytes m iv0 iv))"
    using map2_append [of "read_bytes m a 8" "take 8 (iv_bytes m iv0 iv)" "(XOR)" "read_bytes m (a + 8) 8" "drop 8 (iv_bytes m iv0 iv)"]
      length_iv_bytes [OF assms(5)] by (simp add: read_16)
  ultimately show ?thesis
    unfolding s l le_bytes_xor iv_word_bytes(1) [OF assms(5)] le_bytes_load64 by (simp only:)
qed

section \<open>Decryption\<close>

text \<open>Where \<open>in\<close> may be: at or behind \<open>out\<close>, or in front of it with all its blocks.\<close>

definition dec_apart :: "nat \<Rightarrow> ptr \<Rightarrow> ptr \<Rightarrow> nat \<Rightarrow> bool" where
  "dec_apart gap inp out len \<longleftrightarrow> unat inp + whole len < 2 ^ 64 \<and> unat out + whole len < 2 ^ 64 \<and>
     (unat out + gap \<le> unat inp \<or> unat inp + whole len \<le> unat out)"

lemma dec_apart_step:
  assumes "dec_apart gap inp out len" "16 \<le> len"
  shows "unat (inp + 16) = unat inp + 16" "unat (out + 16) = unat out + 16" "dec_apart gap (inp + 16) (out + 16) (len - 16)"
    "unat inp + 16 < 2 ^ 64" "unat out + 16 < 2 ^ 64"
proof -
  note w = whole_step [OF assms(2)]
  show b: "unat inp + 16 < 2 ^ 64" "unat out + 16 < 2 ^ 64" using assms(1) w by (simp_all add: dec_apart_def)
  show i: "unat (inp + 16) = unat inp + 16" "unat (out + 16) = unat out + 16" using b by (simp_all add: unat_plus_16)
  show "dec_apart gap (inp + 16) (out + 16) (len - 16)"
    using assms(1) w i by (simp add: dec_apart_def) linarith
qed

lemma dec_step_reads:
  assumes "dec_apart 16 inp out len \<or> dec_apart 0 inp out len" "16 \<le> len" "length bs = 16" "k \<le> whole (len - 16)"
  shows "read_bytes (write_bytes m out bs) (inp + 16) k = read_bytes m (inp + 16) k"
proof -
  have w: "whole len = whole (len - 16) + 16" by (rule whole_step [OF assms(2)])
  have a: "unat inp + whole len < 2 ^ 64" "unat out + whole len < 2 ^ 64" "unat out \<le> unat inp \<or> unat inp + whole len \<le> unat out"
    using assms(1) by (auto simp: dec_apart_def)
  have i: "unat (inp + 16) = unat inp + 16" using a w by (simp add: unat_plus_16)
  show ?thesis by (rule read_apart) (use a w i assms(3,4) in auto)
qed

lemma cbc_dec_direct_val:
  assumes "cipher block"
  shows "dec_apart 32 inp out len \<Longrightarrow> length iv0 = 16 \<Longrightarrow> iv = None \<or> iv = Some (inp - 16) \<and> 16 \<le> unat inp \<Longrightarrow>
    \<exists>m' iv'. cbc_dec_direct block iv0 iv m inp out len =
        (m', iv', inp + of_nat (16 * (len div 16)), out + of_nat (16 * (len div 16)), len mod 16) \<and>
      m' = write_bytes m out (cbc_dec block (iv_bytes m iv0 iv) (read_bytes m inp (16 * (len div 16)))) \<and>
      iv_bytes m' iv0 iv' = drop (16 * (len div 16)) (iv_bytes m iv0 iv @ read_bytes m inp (16 * (len div 16)))"
proof (induction len arbitrary: inp out iv m rule: less_induct)
  case (less len)
  show ?case
  proof (cases "16 \<le> len")
    case False
    then show ?thesis by (simp add: cbc_dec_direct.simps)
  next
    case True
    note st = dec_apart_step [OF less.prems(1) True]
    let ?c = "read_bytes m inp 16" and ?v = "iv_bytes m iv0 iv"
    let ?m1 = "write_bytes m out (block ?c)"
    let ?o = "map2 (XOR) (block ?c) ?v"
    have b: "length (block ?c) = 16" "length ?v = 16" "length ?o = 16"
      using assms length_iv_bytes [OF less.prems(2)] by (simp_all add: cipher_def)
    have ap: "iv_apart iv out"
      using less.prems(1,3) whole_step [OF True] unat_minus [of inp 16] st(4)
      by (auto simp: iv_apart_def dec_apart_def)
    have v1: "iv_bytes ?m1 iv0 iv = ?v" by (rule iv_bytes_write [OF ap st(5)]) (simp add: b)
    have r1: "read_bytes ?m1 out 16 = block ?c" by (rule read_write) (simp_all add: b)
    define m3 where "m3 = write_bytes m out ?o"
    have m3: "store64 (store64 ?m1 out (load64 ?m1 out XOR iv_word ?m1 iv0 iv 0)) (out + 8)
        (load64 (store64 ?m1 out (load64 ?m1 out XOR iv_word ?m1 iv0 iv 0)) (out + 8) XOR
         iv_word (store64 ?m1 out (load64 ?m1 out XOR iv_word ?m1 iv0 iv 0)) iv0 iv 8) = m3"
      unfolding xor_block_mem [OF disjI1 [OF refl] st(5,5) ap less.prems(2) refl] v1 r1 m3_def
      by (rule write_over) (simp add: b)
    have loop: "cbc_dec_direct block iv0 iv m inp out len = cbc_dec_direct block iv0 (Some inp) m3 (inp + 16) (out + 16) (len - 16)"
      using True by (subst cbc_dec_direct.simps) (simp only: Let_def m3 if_True)
    have "Some inp = None \<or> Some inp = Some (inp + 16 - 16) \<and> 16 \<le> unat (inp + 16)" using st(1) by simp
    from less.IH [OF _ st(3) less.prems(2) this, of m3] True
    obtain m' iv' where ih: "cbc_dec_direct block iv0 (Some inp) m3 (inp + 16) (out + 16) (len - 16) =
        (m', iv', inp + 16 + of_nat (16 * ((len - 16) div 16)), out + 16 + of_nat (16 * ((len - 16) div 16)), (len - 16) mod 16)"
      "m' = write_bytes m3 (out + 16) (cbc_dec block (iv_bytes m3 iv0 (Some inp)) (read_bytes m3 (inp + 16) (16 * ((len - 16) div 16))))"
      "iv_bytes m' iv0 iv' = drop (16 * ((len - 16) div 16)) (iv_bytes m3 iv0 (Some inp) @ read_bytes m3 (inp + 16) (16 * ((len - 16) div 16)))"
      by auto
    define k where "k = 16 * ((len - 16) div 16)"
    have k: "16 * (len div 16) = 16 + k" "len mod 16 = (len - 16) mod 16"
      using True by (simp_all add: k_def le_div_geq le_mod_geq)
    have kw: "k \<le> whole (len - 16)" unfolding k_def whole_def by (simp add: div_le_mono)
    have c3: "iv_bytes m3 iv0 (Some inp) = ?c"
      unfolding m3_def iv_bytes_def option.case
      by (rule read_apart) (use less.prems(1) whole_step [OF True] st(4,5) b in \<open>auto simp: dec_apart_def\<close>)
    have r3: "read_bytes m3 (inp + 16) k = read_bytes m (inp + 16) k"
      unfolding m3_def by (rule dec_step_reads [OF _ True b(3) kw]) (use less.prems(1) in \<open>auto simp: dec_apart_def\<close>)
    let ?d = "cbc_dec block ?c (read_bytes m (inp + 16) k)"
    have cs: "read_bytes m inp (16 + k) = ?c @ read_bytes m (inp + 16) k" using read_bytes_add [of m inp 16 k] by simp
    have dec: "cbc_dec block ?v (read_bytes m inp (16 + k)) = ?o @ ?d"
      unfolding cs by (rule cbc_dec_block) simp
    have "length ?d = k" 
      using length_cbc_dec [OF assms, of ?c "read_bytes m (inp + 16) k" "k div 16"] by (simp add: k_def)
    then have "length ?o + length ?d \<le> 2 ^ 64" using b(3) kw less.prems(1) whole_step [OF True] by (simp add: dec_apart_def)
    from write_bytes_append [OF this, of m out]
    have w: "m' = write_bytes m out (?o @ ?d)"
      unfolding ih(2) k_def [symmetric] c3 r3 unfolding m3_def b(3) by simp
    have "iv_bytes m' iv0 iv' = drop (16 + k) (?v @ ?c @ read_bytes m (inp + 16) k)"
      unfolding ih(3) k_def [symmetric] c3 r3 using b(2) by simp
    then show ?thesis
      unfolding loop ih(1) k_def [symmetric] k cs dec [unfolded cs] w by (simp add: algebra_simps)
  qed
qed

lemma cbc_dec_tmp_val:
  assumes "cipher block"
  shows "dec_apart 0 inp out len \<Longrightarrow> length iv0 = 16 \<Longrightarrow>
    cbc_dec_tmp block iv0 m inp out len =
      (write_bytes m out (cbc_dec block iv0 (read_bytes m inp (16 * (len div 16)))),
       drop (16 * (len div 16)) (iv0 @ read_bytes m inp (16 * (len div 16))),
       inp + of_nat (16 * (len div 16)), out + of_nat (16 * (len div 16)), len mod 16)"
proof (induction len arbitrary: inp out iv0 m rule: less_induct)
  case (less len)
  show ?case
  proof (cases "16 \<le> len")
    case False
    then show ?thesis by (simp add: cbc_dec_tmp.simps)
  next
    case True
    note st = dec_apart_step [OF less.prems(1) True]
    let ?c = "read_bytes m inp 16"
    let ?o = "map2 (XOR) (block ?c) iv0"
    let ?m1 = "store64 m out (load_word_le (block ?c) 0 XOR load_word_le iv0 0)"
    have b: "length (block ?c) = 16" "length ?o = 16"
      using assms less.prems(2) by (simp_all add: cipher_def)
    have l: "load64 ?m1 (inp + 8) = load64 m (inp + 8)"
    proof (rule load64_apart)
      have u: "unat (inp + 8) = unat inp + 8" using st(4) by (simp add: unat_plus_8)
      then show "unat out + 8 \<le> unat (inp + 8) \<or> unat (inp + 8) + 8 \<le> unat out" "unat (inp + 8) + 8 \<le> 2 ^ 64"
        using less.prems(1) whole_step [OF True] st(4) by (auto simp: dec_apart_def)
    qed (use st(5) in simp)
    have iv: "load_word_le (store_word_le iv0 0 x) 8 = load_word_le iv0 8" for x
      using less.prems(2) by (simp add: load_word_le_def store_word_le_def)
    have o: "le_bytes 8 (load_word_le (block ?c) 0 XOR load_word_le iv0 0) @ le_bytes 8 (load_word_le (block ?c) 8 XOR load_word_le iv0 8) = ?o"
      using xor_block_map2 [of "block ?c" iv0] b(1) less.prems(2) by (simp add: xor_block_def)
    have c: "store_word_le (store_word_le iv0 0 (load64 m inp)) 8 (load64 m (inp + 8)) = ?c"
      unfolding store_load [OF less.prems(2)] by (simp add: read_16)
    have loop: "cbc_dec_tmp block iv0 m inp out len = cbc_dec_tmp block ?c (write_bytes m out ?o) (inp + 16) (out + 16) (len - 16)"
      using True by (subst cbc_dec_tmp.simps) (simp only: Let_def if_True l iv store_16 o c)
    define k where "k = 16 * ((len - 16) div 16)"
    have k: "16 * (len div 16) = 16 + k" "len mod 16 = (len - 16) mod 16"
      using True by (simp_all add: k_def le_div_geq le_mod_geq)
    have kw: "k \<le> whole (len - 16)" unfolding k_def whole_def by (simp add: div_le_mono)
    have r: "read_bytes (write_bytes m out ?o) (inp + 16) k = read_bytes m (inp + 16) k"
      by (rule dec_step_reads [OF disjI2 [OF less.prems(1)] True b(2) kw])
    let ?d = "cbc_dec block ?c (read_bytes m (inp + 16) k)"
    have cs: "read_bytes m inp (16 + k) = ?c @ read_bytes m (inp + 16) k" using read_bytes_add [of m inp 16 k] by simp
    have dec: "cbc_dec block iv0 (?c @ read_bytes m (inp + 16) k) = ?o @ ?d" by (rule cbc_dec_block) simp
    have "length ?d = k"
      using length_cbc_dec [OF assms, of ?c "read_bytes m (inp + 16) k" "k div 16"] by (simp add: k_def)
    then have "length ?o + length ?d \<le> 2 ^ 64" using b(2) kw less.prems(1) whole_step [OF True] by (simp add: dec_apart_def)
    from write_bytes_append [OF this, of m out]
    have w: "write_bytes (write_bytes m out ?o) (out + 16) ?d = write_bytes m out (?o @ ?d)" unfolding b(2) by simp
    have ih: "cbc_dec_tmp block ?c (write_bytes m out ?o) (inp + 16) (out + 16) (len - 16) =
      (write_bytes (write_bytes m out ?o) (out + 16) ?d, drop k (?c @ read_bytes m (inp + 16) k),
       inp + 16 + of_nat k, out + 16 + of_nat k, (len - 16) mod 16)"
      using less.IH [OF _ st(3), of ?c "write_bytes m out ?o", folded k_def, unfolded r] True by simp
    have "drop (16 + k) (iv0 @ ?c @ read_bytes m (inp + 16) k) = drop k (?c @ read_bytes m (inp + 16) k)"
      using less.prems(2) by simp
    then show ?thesis unfolding loop ih w k cs dec by (simp add: algebra_simps)
  qed
qed

text \<open>The last bytes.\<close>

definition tail_apart :: "ptr \<Rightarrow> ptr \<Rightarrow> bool" where
  "tail_apart inp out \<longleftrightarrow> unat inp + 16 < 2 ^ 64 \<and> unat out + 16 < 2 ^ 64 \<and>
     (unat out \<le> unat inp \<or> unat inp + 16 \<le> unat out)"

lemma write_one: "m(a := x) = write_bytes m a [x]"
  by (rule ext) (auto simp: write_bytes_def unat_eq_zero)

lemma dec_loop_val:
  assumes "tail_apart inp out" "length tmp = 16"
  shows "length iv = 16 \<Longrightarrow> j + n \<le> 16 \<Longrightarrow> dec_loop tmp inp out [j..<j + n] m iv =
    (write_bytes m (out + of_nat j) (take n (drop j (map2 (XOR) tmp iv))),
     take j iv @ read_bytes m (inp + of_nat j) n @ drop (j + n) iv)"
proof (induction n arbitrary: j m iv)
  case (Suc n)
  let ?x = "tmp ! j XOR iv ! j" and ?c = "m (inp + of_nat j)"
  let ?m = "write_bytes m (out + of_nat j) [?x]" and ?iv = "iv[j := ?c]"
  have u: "[j..<j + Suc n] = j # [Suc j..<Suc j + n]" by (simp add: upt_conv_Cons)
  have lt: "j < 16" "unat out + j < 2 ^ 64" "unat inp + Suc j < 2 ^ 64"
    using Suc.prems(2) assms(1) by (simp_all add: tail_apart_def)
  note j = lt(1) unat_plus [OF lt(2)] unat_plus [OF lt(3)]
  have d: "drop j (map2 (XOR) tmp iv) = ?x # drop (Suc j) (map2 (XOR) tmp iv)"
    using j(1) assms(2) Suc.prems(1) Cons_nth_drop_Suc [of j "map2 (XOR) tmp iv"] by simp
  have s: "drop (Suc j) (map2 (XOR) tmp ?iv) = drop (Suc j) (map2 (XOR) tmp iv)"
    by (simp add: drop_map drop_zip)
  have r: "read_bytes ?m (inp + of_nat (Suc j)) n = read_bytes m (inp + of_nat (Suc j)) n"
    by (rule read_apart) (use Suc.prems(2) assms(1) j in \<open>auto simp: tail_apart_def\<close>)
  have w: "write_bytes ?m (out + of_nat (Suc j)) (take n (drop (Suc j) (map2 (XOR) tmp iv))) =
      write_bytes m (out + of_nat j) (take (Suc n) (drop j (map2 (XOR) tmp iv)))"
    using write_bytes_append [of "[?x]" "take n (drop (Suc j) (map2 (XOR) tmp iv))" m "out + of_nat j"] Suc.prems
    unfolding d by (simp add: algebra_simps)
  have i: "take (Suc j) ?iv @ read_bytes m (inp + of_nat (Suc j)) n @ drop (Suc j + n) ?iv =
      take j iv @ read_bytes m (inp + of_nat j) (Suc n) @ drop (j + Suc n) iv"
    using j(1) Suc.prems(1) by (simp add: take_Suc_conv_app_nth read_bytes_Suc algebra_simps)
  have "dec_loop tmp inp out [j..<j + Suc n] m iv = dec_loop tmp inp out [Suc j..<Suc j + n] ?m ?iv"
    unfolding u by (simp add: Let_def write_one)
  also have "\<dots> = (write_bytes ?m (out + of_nat (Suc j)) (take n (drop (Suc j) (map2 (XOR) tmp ?iv))),
      take (Suc j) ?iv @ read_bytes ?m (inp + of_nat (Suc j)) n @ drop (Suc j + n) ?iv)"
    by (rule Suc.IH) (use Suc.prems in simp_all)
  finally show ?case unfolding s r w i .
qed simp

lemma iv_loop_val:
  "length iv = 16 \<Longrightarrow> j + n = 16 \<Longrightarrow> iv_loop m inp [j..<16] iv = take j iv @ read_bytes m (inp + of_nat j) n"
proof (induction n arbitrary: j iv)
  case (Suc n)
  let ?iv = "iv[j := m (inp + of_nat j)]"
  have u: "[j..<16] = j # [Suc j..<16]" using Suc.prems(2) by (intro upt_conv_Cons) simp
  have "iv_loop m inp [j..<16] iv = take (Suc j) ?iv @ read_bytes m (inp + of_nat (Suc j)) n"
    unfolding u using Suc.IH [of ?iv "Suc j"] Suc.prems by simp
  then show ?case using Suc.prems by (simp add: take_Suc_conv_app_nth read_bytes_Suc algebra_simps)
qed simp

lemma cbc_dec_tail_val:
  assumes "cipher block" "tail_apart inp out \<or> r = 0" "length iv = 16" "r < 16"
  shows "cbc_dec_tail block iv m inp out r =
    (if r = 0 then (m, iv)
     else (write_bytes m out (take r (map2 (XOR) (block (read_bytes m inp 16)) iv)), read_bytes m inp 16))"
proof (cases "r = 0")
  case True
  then show ?thesis by (simp add: cbc_dec_tail.simps)
next
  case False
  then have ap: "tail_apart inp out" using assms(2) by simp
  let ?c = "read_bytes m inp 16"
  let ?m = "write_bytes m out (take r (map2 (XOR) (block ?c) iv))" and ?iv = "read_bytes m inp r @ drop r iv"
  have b: "length (block ?c) = 16" using assms(1) by (simp add: cipher_def)
  have d: "dec_loop (block ?c) inp out [0..<r] m iv = (?m, ?iv)"
    using dec_loop_val [OF ap b assms(3), of 0 r m] assms(4) by simp
  have u: "unat (inp + of_nat r) = unat inp + r" using ap assms(4) by (intro unat_plus) (simp add: tail_apart_def)
  have "read_bytes ?m (inp + of_nat r) (16 - r) = read_bytes m (inp + of_nat r) (16 - r)"
    by (rule read_apart) (use ap assms(3,4) u b in \<open>auto simp: tail_apart_def\<close>)
  then have "iv_loop ?m inp [r..<16] ?iv = read_bytes m inp r @ read_bytes m (inp + of_nat r) (16 - r)"
    using iv_loop_val [of ?iv r "16 - r" ?m inp] assms(3,4) by simp
  also have "\<dots> = ?c" using read_bytes_add [of m inp r "16 - r"] assms(4) by simp
  finally show ?thesis using False assms(4) d by (subst cbc_dec_tail.simps) (simp add: Let_def min_def)
qed

lemma cbc_dec_append:
  "length iv = 16 \<Longrightarrow> length cs = 16 * k \<Longrightarrow>
   cbc_dec block iv (cs @ ds) = cbc_dec block iv cs @ cbc_dec block (drop (16 * k) (iv @ cs)) ds"
proof (induction k arbitrary: iv cs)
  case (Suc k)
  let ?c = "take 16 cs" and ?r = "drop 16 cs"
  have l: "length ?c = 16" "length ?r = 16 * k" using Suc.prems(2) by simp_all
  have "cbc_dec block iv ((?c @ ?r) @ ds) = map2 (XOR) (block ?c) iv @ cbc_dec block ?c (?r @ ds)"
    unfolding append_assoc by (rule cbc_dec_block [OF l(1)])
  also have "cbc_dec block ?c (?r @ ds) = cbc_dec block ?c ?r @ cbc_dec block (drop (16 * k) (?c @ ?r)) ds"
    by (rule Suc.IH [OF l])
  also have "map2 (XOR) (block ?c) iv @ cbc_dec block ?c ?r @ cbc_dec block (drop (16 * k) (?c @ ?r)) ds =
      cbc_dec block iv (?c @ ?r) @ cbc_dec block (drop (16 * k) (?c @ ?r)) ds"
    unfolding cbc_dec_block [OF l(1), of block iv ?r] append_assoc ..
  also have "drop (16 * k) (?c @ ?r) = drop (16 * Suc k) (iv @ cs)"
    using Suc.prems by simp
  finally show ?case by simp
qed simp

lemma whole_split: "whole len = 16 * (len div 16) + whole (len mod 16)"
proof -
  have "(len + 15) div 16 = (len mod 16 + 15 + 16 * (len div 16)) div 16"
    by (rule arg_cong [of _ _ "\<lambda>x. x div 16"]) simp
  also have "\<dots> = len div 16 + (len mod 16 + 15) div 16" by (rule div_mult_self2) simp
  finally show ?thesis by (simp add: whole_def)
qed

lemma dec_finish:
  assumes "cipher block" "dec_apart 0 inp out len" "length iv = 16" "K = 16 * (len div 16)"
  shows "cbc_dec_tail block (drop K (iv @ read_bytes m inp K)) (write_bytes m out (cbc_dec block iv (read_bytes m inp K)))
      (inp + of_nat K) (out + of_nat K) (len mod 16) =
    (write_bytes m out (take len (cbc_dec block iv (read_bytes m inp (whole len)))),
     drop (whole len) (iv @ read_bytes m inp (whole len)))"
proof -
  let ?r = "len mod 16" and ?cs = "read_bytes m inp K"
  let ?d = "cbc_dec block iv ?cs" and ?v = "drop K (iv @ ?cs)"
  let ?m = "write_bytes m out ?d"
  have w: "whole len = K + whole ?r" unfolding assms(4) by (rule whole_split)
  have d: "length ?d = K" using length_cbc_dec [OF assms(1,3), of ?cs "len div 16"] by (simp add: assms(4))
  have v: "length ?v = 16" using assms(3) by simp
  show ?thesis
  proof (cases "?r = 0")
    case True
    then have "len = K" using assms(4) mult_div_mod_eq [of 16 len] by simp
    then show ?thesis using True w d by (simp add: cbc_dec_tail.simps)
  next
    case False
    then have wr: "whole ?r = 16" by (intro whole_small) simp_all
    have a: "unat inp + (K + 16) < 2 ^ 64" "unat out + (K + 16) < 2 ^ 64" "unat out \<le> unat inp \<or> unat inp + (K + 16) \<le> unat out"
      using assms(2) unfolding dec_apart_def w wr by auto
    have p: "unat (inp + of_nat K) = unat inp + K" "unat (out + of_nat K) = unat out + K"
      using a(1,2) by (simp_all add: unat_plus)
    have t: "tail_apart (inp + of_nat K) (out + of_nat K)" using a unfolding tail_apart_def p by auto
    let ?c = "read_bytes m (inp + of_nat K) 16"
    let ?o = "map2 (XOR) (block ?c) ?v"
    have c: "read_bytes ?m (inp + of_nat K) 16 = ?c" by (rule read_apart) (use a p d in auto)
    have cs: "read_bytes m inp (whole len) = ?cs @ ?c" unfolding w wr by (rule read_bytes_add)
    have o: "length ?o = 16" using assms(1) v by (simp add: cipher_def)
    have dec: "cbc_dec block iv (?cs @ ?c) = ?d @ ?o"
      using cbc_dec_append [OF assms(3), of ?cs "len div 16" block ?c] cbc_dec_block [of ?c block ?v "[]"]
      by (simp add: assms(4))
    have len: "len = K + ?r" using assms(4) mult_div_mod_eq [of 16 len] by simp
    have tk: "take len (?d @ ?o) = ?d @ take ?r ?o" by (subst len) (simp add: d)
    have "write_bytes ?m (out + of_nat K) (take ?r ?o) = write_bytes m out (?d @ take ?r ?o)"
      using write_bytes_append [of ?d "take ?r ?o" m out] d o a(2) by simp
    moreover have "drop (whole len) (iv @ ?cs @ ?c) = ?c" unfolding w wr using assms(3) by simp
    ultimately show ?thesis
      using cbc_dec_tail_val [OF assms(1) disjI1 [OF t] v, of ?r ?m] False unfolding c cs dec tk by simp
  qed
qed

lemma decrypt_val:
  assumes "cipher block" "dec_apart 0 inp out len" "length iv = 16"
  shows "CRYPTO_cbc128_decrypt block m inp out len iv =
    Some (write_bytes m out (take len (cbc_dec block iv (read_bytes m inp (whole len)))),
          drop (whole len) (iv @ read_bytes m inp (whole len)))"
proof -
  have a: "unat inp + whole len < 2 ^ 64" "unat out + whole len < 2 ^ 64" "unat out \<le> unat inp \<or> unat inp + whole len \<le> unat out"
    using assms(2) by (auto simp: dec_apart_def)
  have "unat (inp + of_nat len) = unat inp + len" using a(1) whole_ge [of len] by (intro unat_plus) simp
  then have assertion: "inp \<ge> out \<or> inp + of_nat len \<le> out"
    using a(3) whole_ge [of len] by (auto simp: word_le_nat_alt)
  note fin = dec_finish [OF assms refl, of m]
  show ?thesis
  proof (cases "inp \<ge> 32 \<and> out \<le> inp - 32 \<or> inp < out")
    case True
    then have "dec_apart 32 inp out len"
      using a unat_minus [of inp 32] by (auto simp: dec_apart_def word_le_nat_alt word_less_nat_alt)
    from cbc_dec_direct_val [OF assms(1) this assms(3), of None m]
    obtain iv' where d: "cbc_dec_direct block iv None m inp out len =
        (write_bytes m out (cbc_dec block iv (read_bytes m inp (16 * (len div 16)))), iv',
         inp + of_nat (16 * (len div 16)), out + of_nat (16 * (len div 16)), len mod 16)"
      "iv_bytes (write_bytes m out (cbc_dec block iv (read_bytes m inp (16 * (len div 16))))) iv iv' =
        drop (16 * (len div 16)) (iv @ read_bytes m inp (16 * (len div 16)))"
      by (auto simp: iv_bytes_def)
    show ?thesis
      using assertion True unfolding CRYPTO_cbc128_decrypt_def d(1) by (simp only: if_True if_False not_True_eq_False Let_def prod.case d(2) fin)
  next
    case False
    show ?thesis
      using assertion False unfolding CRYPTO_cbc128_decrypt_def cbc_dec_tmp_val [OF assms]
      by (simp only: if_True if_False not_True_eq_False Let_def prod.case fin)
  qed
qed

section \<open>Encryption\<close>

text \<open>In place, or the \<open>len\<close> bytes of the input apart from the whole blocks of the output.\<close>

definition enc_apart :: "ptr \<Rightarrow> ptr \<Rightarrow> nat \<Rightarrow> bool" where
  "enc_apart inp out len \<longleftrightarrow> unat inp + len < 2 ^ 64 \<and> unat out + whole len < 2 ^ 64 \<and>
     (inp = out \<or> unat inp + len \<le> unat out \<or> unat out + whole len \<le> unat inp)"

lemma enc_apart_step:
  assumes "enc_apart inp out len" "16 \<le> len"
  shows "unat (inp + 16) = unat inp + 16" "unat (out + 16) = unat out + 16" "enc_apart (inp + 16) (out + 16) (len - 16)"
    "unat inp + 16 < 2 ^ 64" "unat out + 16 < 2 ^ 64" "inp = out \<or> unat inp + 16 \<le> unat out \<or> unat out + 16 \<le> unat inp"
proof -
  note w = whole_step [OF assms(2)]
  show b: "unat inp + 16 < 2 ^ 64" "unat out + 16 < 2 ^ 64" using assms w by (simp_all add: enc_apart_def)
  show i: "unat (inp + 16) = unat inp + 16" "unat (out + 16) = unat out + 16" using b by (simp_all add: unat_plus_16)
  show "enc_apart (inp + 16) (out + 16) (len - 16)"
    using assms w i by (simp add: enc_apart_def) linarith
  show "inp = out \<or> unat inp + 16 \<le> unat out \<or> unat out + 16 \<le> unat inp" using assms w by (auto simp: enc_apart_def)
qed

lemma cbc_enc_block:
  "length x = 16 \<Longrightarrow> cbc_enc block iv (x @ xs) =
     block (map2 (XOR) x iv) @ cbc_enc block (block (map2 (XOR) x iv)) xs"
  by (subst cbc_enc.simps) (auto simp: Let_def)

lemma cbc_enc_append:
  "length iv = 16 \<Longrightarrow> cipher block \<Longrightarrow> length xs = 16 * k \<Longrightarrow>
   cbc_enc block iv (xs @ ys) =
     cbc_enc block iv xs @ cbc_enc block (drop (16 * k) (iv @ cbc_enc block iv xs)) ys"
proof (induction k arbitrary: iv xs)
  case (Suc k)
  let ?x = "take 16 xs" and ?r = "drop 16 xs"
  let ?c = "block (map2 (XOR) ?x iv)"
  have l: "length ?x = 16" "length ?r = 16 * k" using Suc.prems(3) by simp_all
  have c: "length ?c = 16" using Suc.prems l(1) by (simp add: cipher_def)
  have "cbc_enc block iv ((?x @ ?r) @ ys) = ?c @ cbc_enc block ?c (?r @ ys)"
    unfolding append_assoc by (rule cbc_enc_block [OF l(1)])
  also have "cbc_enc block ?c (?r @ ys) =
      cbc_enc block ?c ?r @ cbc_enc block (drop (16 * k) (?c @ cbc_enc block ?c ?r)) ys"
    by (rule Suc.IH [OF c Suc.prems(2) l(2)])
  also have "?c @ cbc_enc block ?c ?r @ cbc_enc block (drop (16 * k) (?c @ cbc_enc block ?c ?r)) ys =
      cbc_enc block iv (?x @ ?r) @ cbc_enc block (drop (16 * k) (?c @ cbc_enc block ?c ?r)) ys"
    unfolding cbc_enc_block [OF l(1), of block iv ?r] append_assoc ..
  also have "drop (16 * k) (?c @ cbc_enc block ?c ?r) = drop (16 * Suc k) (iv @ cbc_enc block iv (?x @ ?r))"
    unfolding cbc_enc_block [OF l(1), of block iv ?r] using Suc.prems(1) by simp
  finally show ?case by simp
qed simp

lemma cbc_enc_blocks_val:
  assumes "cipher block"
  shows "enc_apart inp out len \<Longrightarrow> length iv0 = 16 \<Longrightarrow> iv = None \<or> iv = Some (out - 16) \<and> 16 \<le> unat out \<Longrightarrow>
    K = 16 * (len div 16) \<Longrightarrow> C = cbc_enc block (iv_bytes m iv0 iv) (read_bytes m inp K) \<Longrightarrow>
    \<exists>iv'. cbc_enc_blocks block iv0 iv m inp out len =
        (write_bytes m out C, iv', inp + of_nat K, out + of_nat K, len mod 16) \<and>
      iv_bytes (write_bytes m out C) iv0 iv' = drop K (iv_bytes m iv0 iv @ C) \<and>
      (iv' = None \<or> iv' = Some (out + of_nat K - 16) \<and> 16 \<le> unat out + K)"
proof (induction len arbitrary: inp out iv m K C rule: less_induct)
  case (less len)
  show ?case
  proof (cases "16 \<le> len")
    case False
    then show ?thesis using less.prems by (auto simp: cbc_enc_blocks.simps)
  next
    case True
    note st = enc_apart_step [OF less.prems(1) True]
    let ?x = "read_bytes m inp 16" and ?v = "iv_bytes m iv0 iv"
    let ?c = "block (map2 (XOR) ?x ?v)"
    let ?m = "write_bytes m out ?c"
    have v: "length ?v = 16" "length ?c = 16" "length (map2 (XOR) ?x ?v) = 16"
      using assms length_iv_bytes [OF less.prems(2)] by (simp_all add: cipher_def)
    have ap: "iv_apart iv out"
      using less.prems(3) unat_minus [of out 16] st(5) by (auto simp: iv_apart_def)
    have r2: "read_bytes (write_bytes m out (map2 (XOR) ?x ?v)) out 16 = map2 (XOR) ?x ?v"
      by (rule read_write) (use v(3) in simp_all)
    have loop: "cbc_enc_blocks block iv0 iv m inp out len = cbc_enc_blocks block iv0 (Some out) ?m (inp + 16) (out + 16) (len - 16)"
      using True write_over [of "map2 (XOR) ?x ?v" ?c m out] v(2,3)
      by (subst cbc_enc_blocks.simps)
        (simp only: Let_def if_True xor_block_mem [OF st(6,4,5) ap less.prems(2) refl] r2)
    define k where "k = 16 * ((len - 16) div 16)"
    have k: "K = 16 + k" "len mod 16 = (len - 16) mod 16"
      unfolding less.prems(4) using True by (simp_all add: k_def le_div_geq le_mod_geq)
    have kw: "k \<le> whole (len - 16)" "k \<le> len - 16" unfolding k_def whole_def by (simp_all add: div_le_mono)
    have "read_bytes ?m out 16 = ?c" by (rule read_write [OF v(2)]) simp
    then have c: "iv_bytes ?m iv0 (Some out) = ?c" by (simp only: iv_bytes_def option.case)
    have r: "read_bytes ?m (inp + 16) k = read_bytes m (inp + 16) k"
      by (rule read_apart)
        (use less.prems(1) whole_step [OF True] kw st(1) v(2) True in \<open>auto simp: enc_apart_def\<close>)
    let ?d = "cbc_enc block ?c (read_bytes m (inp + 16) k)"
    have xs: "read_bytes m inp (16 + k) = ?x @ read_bytes m (inp + 16) k" using read_bytes_add [of m inp 16 k] by simp
    have C: "C = ?c @ ?d" unfolding less.prems(5) k(1) xs by (rule cbc_enc_block) simp
    have "whole k = k" by (simp add: k_def whole_def)
    then have "length ?d = k" using length_cbc_enc [OF assms v(2), of "read_bytes m (inp + 16) k"] by simp
    then have "length ?c + length ?d \<le> 2 ^ 64" using v(2) kw less.prems(1) whole_step [OF True] by (simp add: enc_apart_def)
    from write_bytes_append [OF this, of m out]
    have w: "write_bytes ?m (out + 16) ?d = write_bytes m out C" unfolding v(2) C by simp
    have "Some out = None \<or> Some out = Some (out + 16 - 16) \<and> 16 \<le> unat (out + 16)" using st(2) by simp
    from less.IH [OF _ st(3) less.prems(2) this k_def refl, of ?m, unfolded c r w] True
    obtain iv' where ih: "cbc_enc_blocks block iv0 (Some out) ?m (inp + 16) (out + 16) (len - 16) =
        (write_bytes m out C, iv', inp + 16 + of_nat k, out + 16 + of_nat k, (len - 16) mod 16)"
      "iv_bytes (write_bytes m out C) iv0 iv' = drop k (?c @ ?d)"
      "iv' = None \<or> iv' = Some (out + 16 + of_nat k - 16) \<and> 16 \<le> unat (out + 16) + k" by auto
    have "drop K (?v @ C) = drop k (?c @ ?d)" unfolding k(1) C using v(1) by simp
    moreover have "inp + 16 + of_nat k = inp + of_nat K" "out + 16 + of_nat k = out + of_nat K" "unat (out + 16) + k = unat out + K"
      unfolding k(1) st(2) by simp_all
    note eqs = this
    moreover have "iv_bytes (write_bytes m out C) iv0 iv' = drop K (?v @ C)" unfolding ih(2) calculation(1) ..
    moreover have "iv' = None \<or> iv' = Some (out + of_nat K - 16) \<and> 16 \<le> unat out + K" using ih(3) unfolding eqs .
    ultimately show ?thesis unfolding loop k(2) ih(1) eqs by blast
  qed
qed

lemma pad_loop_val:
  assumes "inp = out \<or> unat inp + r \<le> unat out \<or> unat out + 16 \<le> unat inp" "unat inp + r < 2 ^ 64" "unat out + 16 < 2 ^ 64"
    "iv_apart iv out" "length p = 16" "length v = 16" "\<forall>n. r \<le> n \<and> n < 16 \<longrightarrow> p ! n = 0"
  shows "j + n \<le> 16 \<Longrightarrow> \<forall>i. j \<le> i \<and> i < r \<and> i < 16 \<longrightarrow> m (inp + of_nat i) = p ! i \<Longrightarrow> \<forall>i < 16. iv_byte m iv0 iv i = v ! i \<Longrightarrow>
    pad_loop iv0 iv inp out r [j..<j + n] m = write_bytes m (out + of_nat j) (take n (drop j (map2 (XOR) p v)))"
proof (induction n arbitrary: j m)
  case (Suc n)
  let ?x = "p ! j XOR v ! j"
  let ?m = "write_bytes m (out + of_nat j) [?x]"
  have u: "[j..<j + Suc n] = j # [Suc j..<Suc j + n]" by (simp add: upt_conv_Cons)
  have j: "j < 16" using Suc.prems(1) by simp
  have x: "(if j < r then m (inp + of_nat j) XOR iv_byte m iv0 iv j else iv_byte m iv0 iv j) = ?x"
    using Suc.prems(2,3) j assms(7) by simp
  have uo: "unat (out + of_nat j) = unat out + j" using assms(3) j by (intro unat_plus) simp
  have other: "?m q = m q" if "unat q \<noteq> unat out + j" for q
    unfolding write_one [symmetric] using that uo by auto
  have a: "\<forall>i. Suc j \<le> i \<and> i < r \<and> i < 16 \<longrightarrow> ?m (inp + of_nat i) = p ! i"
  proof (intro allI impI)
    fix i assume i: "Suc j \<le> i \<and> i < r \<and> i < 16"
    have "unat (inp + of_nat i) = unat inp + i" using assms(2) i by (intro unat_plus) simp
    with other [of "inp + of_nat i"] i assms(1) Suc.prems(2) j show "?m (inp + of_nat i) = p ! i" by auto
  qed
  have b: "\<forall>i < 16. iv_byte ?m iv0 iv i = v ! i"
  proof (intro allI impI)
    fix i :: nat assume i: "i < 16"
    show "iv_byte ?m iv0 iv i = v ! i"
    proof (cases iv)
      case None
      then show ?thesis using Suc.prems(3) i by (simp add: iv_byte_def)
    next
      case (Some q)
      then have q: "unat q + 16 < 2 ^ 64" "unat q + 16 \<le> unat out \<or> unat out + 16 \<le> unat q"
        using assms(4) by (simp_all add: iv_apart_def)
      have "unat (q + of_nat i) = unat q + i" using q(1) i by (intro unat_plus) simp
      then have "?m (q + of_nat i) = m (q + of_nat i)" using q(2) i j by (intro other) auto
      then show ?thesis using Suc.prems(3) i Some by (simp add: iv_byte_def)
    qed
  qed
  have d: "drop j (map2 (XOR) p v) = ?x # drop (Suc j) (map2 (XOR) p v)"
    using j assms(5,6) Cons_nth_drop_Suc [of j "map2 (XOR) p v"] by simp
  have "pad_loop iv0 iv inp out r [j..<j + Suc n] m = pad_loop iv0 iv inp out r [Suc j..<Suc j + n] ?m"
    unfolding u pad_loop.simps Let_def x write_one ..
  also have "\<dots> = write_bytes ?m (out + of_nat (Suc j)) (take n (drop (Suc j) (map2 (XOR) p v)))"
    by (rule Suc.IH [OF _ a b]) (use Suc.prems(1) in simp)
  also have "\<dots> = write_bytes m (out + of_nat j) (take (Suc n) (drop j (map2 (XOR) p v)))"
    using write_bytes_append [of "[?x]" "take n (drop (Suc j) (map2 (XOR) p v))" m "out + of_nat j"] assms(5,6)
    unfolding d by (simp add: algebra_simps)
  finally show ?case .
qed simp

lemma iv_byte_bytes: "length iv0 = 16 \<Longrightarrow> i < 16 \<Longrightarrow> iv_byte m iv0 iv i = iv_bytes m iv0 iv ! i"
  by (simp add: iv_byte_def iv_bytes_def split: option.splits)

lemma cbc_enc_tail_val:
  assumes "cipher block" "length iv0 = 16" "r < 16" "r \<noteq> 0"
    "inp = out \<or> unat inp + r \<le> unat out \<or> unat out + 16 \<le> unat inp" "unat inp + r < 2 ^ 64" "unat out + 16 < 2 ^ 64"
    "iv_apart iv out" "C = cbc_enc block (iv_bytes m iv0 iv) (read_bytes m inp r)"
  shows "cbc_enc_tail block iv0 iv m inp out r = (write_bytes m out C, Some out) \<and> length C = 16"
proof -
  let ?p = "read_bytes m inp r @ replicate (16 - r) 0" and ?v = "iv_bytes m iv0 iv"
  let ?x = "map2 (XOR) ?p ?v"
  have v: "length ?v = 16" "length ?x = 16" using length_iv_bytes [OF assms(2)] assms(3) by simp_all
  have "?p ! n = 0" if "r \<le> n \<and> n < 16" for n using that by (simp add: nth_append diff_less_mono)
  then have pad: "pad_loop iv0 iv inp out r [0..<16] m = write_bytes m out ?x"
    using pad_loop_val [OF assms(5-8), of ?p ?v 0 16 m] assms(3) v iv_byte_bytes [OF assms(2)] by (simp add: nth_append)
  have r: "read_bytes (write_bytes m out ?x) out 16 = ?x" by (rule read_write [OF v(2)]) simp
  have b: "length (block ?x) = 16" using assms(1) v(2) by (simp add: cipher_def)
  have p: "take 16 (read_bytes m inp r @ replicate 16 0) = ?p" using assms(3) by (simp add: min_def)
  have ne: "read_bytes m inp r \<noteq> []" using assms(4) by (metis length_read_bytes list.size(3))
  have "cbc_enc block ?v (read_bytes m inp r) = block ?x"
    using ne assms(3) by (subst cbc_enc.simps) (simp only: if_False Let_def p, simp)
  with b r pad assms(3,4,9) write_over [of ?x "block ?x" m out] v(2) show ?thesis
    by (subst cbc_enc_tail.simps) (simp add: Let_def)
qed

lemma encrypt_val:
  assumes "cipher block" "enc_apart inp out len" "length iv = 16" "C = cbc_enc block iv (read_bytes m inp len)"
  shows "CRYPTO_cbc128_encrypt block m inp out len iv = (write_bytes m out C, drop (whole len) (iv @ C))"
proof -
  define K where "K = 16 * (len div 16)"
  let ?r = "len mod 16"
  have w: "whole len = K + whole ?r" unfolding K_def by (rule whole_split)
  have len: "len = K + ?r" using mult_div_mod_eq [of 16 len] by (simp add: K_def)
  let ?C = "cbc_enc block iv (read_bytes m inp K)"
  have "iv_bytes m iv None = iv" by (simp add: iv_bytes_def)
  with cbc_enc_blocks_val [OF assms(1,2,3) disjI1 [OF refl] K_def refl, of m]
  obtain iv' where b: "cbc_enc_blocks block iv None m inp out len = (write_bytes m out ?C, iv', inp + of_nat K, out + of_nat K, ?r)"
    "iv_bytes (write_bytes m out ?C) iv iv' = drop K (iv @ ?C)" "iv' = None \<or> iv' = Some (out + of_nat K - 16) \<and> 16 \<le> unat out + K"
    by auto
  have xs: "read_bytes m inp len = read_bytes m inp K @ read_bytes m (inp + of_nat K) ?r"
    by (subst len) (rule read_bytes_add)
  have lC: "length ?C = K" using length_cbc_enc [OF assms(1,3), of "read_bytes m inp K"] by (simp add: K_def whole_def)
  have C: "C = ?C @ cbc_enc block (drop K (iv @ ?C)) (read_bytes m (inp + of_nat K) ?r)"
    unfolding assms(4) xs
    using cbc_enc_append [OF assms(3,1), of "read_bytes m inp K" "len div 16"] by (simp add: K_def)
  show ?thesis
  proof (cases "?r = 0")
    case True
    then show ?thesis
      unfolding CRYPTO_cbc128_encrypt_def b(1) using C w b(2) by (simp add: cbc_enc_tail.simps)
  next
    case False
    then have wr: "whole ?r = 16" by (intro whole_small) simp_all
    have a: "unat inp + (K + ?r) < 2 ^ 64" "unat out + (K + 16) < 2 ^ 64"
      "inp = out \<or> unat inp + (K + ?r) \<le> unat out \<or> unat out + (K + 16) \<le> unat inp"
      using assms(2) unfolding enc_apart_def w wr len [symmetric] by auto
    have p: "unat (inp + of_nat K) = unat inp + K" "unat (out + of_nat K) = unat out + K"
      using a(1,2) by (simp_all add: unat_plus)
    let ?m = "write_bytes m out ?C"
    have rd: "read_bytes ?m (inp + of_nat K) ?r = read_bytes m (inp + of_nat K) ?r"
      by (rule read_apart) (use a p lC mod_less_divisor [of 16 len] in auto)
    have ap: "iv_apart iv' (out + of_nat K)"
      using b(3) p(2) a(2) unat_minus [of "out + of_nat K" 16] by (auto simp: iv_apart_def)
    have n: "inp + of_nat K = out + of_nat K \<or> unat (inp + of_nat K) + ?r \<le> unat (out + of_nat K) \<or> unat (out + of_nat K) + 16 \<le> unat (inp + of_nat K)"
      "unat (inp + of_nat K) + ?r < 2 ^ 64" "unat (out + of_nat K) + 16 < 2 ^ 64" "?r < 16"
      using a unfolding p by auto
    let ?D = "cbc_enc block (drop K (iv @ ?C)) (read_bytes m (inp + of_nat K) ?r)"
    have t: "cbc_enc_tail block iv iv' ?m (inp + of_nat K) (out + of_nat K) ?r = (write_bytes ?m (out + of_nat K) ?D, Some (out + of_nat K))"
      "length ?D = 16"
      using cbc_enc_tail_val [OF assms(1,3) n(4) False n(1-3) ap refl, of ?m] unfolding b(2) rd by blast+
    have m: "write_bytes ?m (out + of_nat K) ?D = write_bytes m out C"
      using write_bytes_append [of ?C ?D m out] lC t(2) a(2) by (simp add: C)
    have "read_bytes (write_bytes ?m (out + of_nat K) ?D) (out + of_nat K) 16 = ?D" by (rule read_write [OF t(2)]) simp
    then have iv: "iv_bytes (write_bytes ?m (out + of_nat K) ?D) iv (Some (out + of_nat K)) = drop (whole len) (iv @ C)"
      using assms(3) lC by (simp add: iv_bytes_def w wr C)
    show ?thesis unfolding CRYPTO_cbc128_encrypt_def b(1) Let_def prod.case t(1) by (simp only: iv [unfolded m] m)
  qed
qed

text \<open>C9: Cipher block chaining is correct, in place, on buffers apart and with overlap.  Encrypting
  \<open>len\<close> bytes in place, or to whole blocks that are apart from these bytes, writes the blocks that the mode
  defines for the zero-padded input.  Decrypting them to a buffer that starts at or before them, with
  any overlap, or behind all of their whole blocks, terminates without a failed assertion, gives the input
  back and leaves the same \<open>ivec\<close> for the next call.  Neither function writes a byte outside its output (whole
  blocks for encryption, \<open>len\<close> bytes for decryption).  No buffer, counted in whole blocks, reaches the end of the
  address space.  The assertion on the overlap lets one more case pass, an output that starts behind the
  \<open>len\<close> bytes but inside the last whole block of the input, which is left out here because its result is not
  correct (\<open>cbc_assertion_too_weak\<close>).\<close>

theorem cbc_roundtrip:
  assumes "cipher enc" "cipher dec" "\<forall>b. length b = 16 \<longrightarrow> dec (enc b) = b" "length iv = 16"
    "enc_apart inp out len" "dec_apart 0 out out2 len"
  shows "\<exists>m1 m2 iv1. CRYPTO_cbc128_encrypt enc m inp out len iv = (m1, iv1) \<and>
    read_bytes m1 out (whole len) = cbc_enc enc iv (read_bytes m inp len) \<and>
    CRYPTO_cbc128_decrypt dec m1 out out2 len iv = Some (m2, iv1) \<and>
    read_bytes m2 out2 len = read_bytes m inp len \<and>
    (\<forall>p. \<not> in_block out (whole len) p \<longrightarrow> m1 p = m p) \<and> (\<forall>p. \<not> in_block out2 len p \<longrightarrow> m2 p = m1 p)"
proof -
  let ?xs = "read_bytes m inp len"
  let ?C = "cbc_enc enc iv ?xs"
  let ?m = "write_bytes m out ?C"
  have C: "length ?C = whole len" using length_cbc_enc [OF assms(1,4), of ?xs] by simp
  have big: "whole len \<le> 2 ^ 64" "len \<le> 2 ^ 64" using assms(5) whole_ge [of len] by (auto simp: enc_apart_def)
  have r: "read_bytes ?m out (whole len) = ?C" by (rule read_write [OF C big(1)])
  have "cbc_dec dec iv ?C = take (whole len) (?xs @ replicate 16 0)"
    using cbc_inverse [OF assms(1,3,4), of ?xs] by simp
  then have d: "take len (cbc_dec dec iv ?C) = ?xs" using whole_ge [of len] by (simp add: min_def)
  have dec: "CRYPTO_cbc128_decrypt dec ?m out out2 len iv = Some (write_bytes ?m out2 ?xs, drop (whole len) (iv @ ?C))"
    using decrypt_val [OF assms(2,6,4), of ?m] unfolding r d .
  have "read_bytes (write_bytes ?m out2 ?xs) out2 len = ?xs" by (rule read_write [OF _ big(2)]) simp
  moreover have "\<not> in_block out (whole len) p \<longrightarrow> ?m p = m p" "\<not> in_block out2 len p \<longrightarrow> write_bytes ?m out2 ?xs p = ?m p" for p
    using write_bytes_frame [of out ?C p m] write_bytes_frame [of out2 ?xs p ?m] C by simp_all
  ultimately show ?thesis using encrypt_val [OF assms(1,5,4) refl, of m] dec r by blast
qed

text \<open>Twenty bytes, encrypted in place and decrypted to eight bytes before.\<close>

definition sample_enc :: "byte list \<Rightarrow> byte list" where
  "sample_enc b = rev (map (\<lambda>x. x + 1) b)"

definition sample_dec :: "byte list \<Rightarrow> byte list" where
  "sample_dec b = map (\<lambda>x. x - 1) (rev b)"

theorem cbc_roundtrip_witness:
  "\<exists>m1 m2 iv1. CRYPTO_cbc128_encrypt sample_enc (\<lambda>p. ucast p) 0x1000 0x1000 20 (replicate 16 7) = (m1, iv1) \<and>
    CRYPTO_cbc128_decrypt sample_dec m1 0x1000 0xff8 20 (replicate 16 7) = Some (m2, iv1) \<and>
    read_bytes m2 0xff8 20 = read_bytes (\<lambda>p. ucast p) 0x1000 20 \<and> m2 0x100d = m1 0x100d"
proof -
  have c: "cipher sample_enc" "cipher sample_dec" "\<forall>b. length b = 16 \<longrightarrow> sample_dec (sample_enc b) = b"
    by (simp_all add: cipher_def sample_enc_def sample_dec_def rev_map comp_def)
  have a: "enc_apart 0x1000 0x1000 20" "dec_apart 0 0x1000 0xff8 20" "\<not> in_block 0xff8 20 (0x100d :: ptr)"
    by (simp_all add: enc_apart_def dec_apart_def whole_def in_block_def)
  show ?thesis using cbc_roundtrip [OF c _ a(1,2), of "replicate 16 7" "\<lambda>p. ucast p"] a(3) by auto
qed

text \<open>
  The assertion of \<open>CRYPTO_cbc128_decrypt\<close> compares with \<open>in + len\<close>, but the last block is read whole: when
  the output starts behind the \<open>len\<close> bytes and inside this block, the decryption overwrites what it has
  still to read.
\<close>

lemma cbc_assertion_too_weak:
  fixes m :: mem
  assumes "m = (\<lambda>p. ucast p)" "iv = replicate 16 0"
  shows "\<exists>m2 iv2. CRYPTO_cbc128_decrypt rev m 0x1000 0x1014 20 iv = Some (m2, iv2) \<and>
    m2 0x1024 \<noteq> cbc_dec rev iv (read_bytes m 0x1000 32) ! 16"
proof -
  define bs where "bs = rev (read_bytes m 0x1000 16)"
  define m1 where "m1 = write_bytes m 0x1014 bs"
  define m3 where "m3 = write_bytes m 0x1014 (map2 (XOR) bs iv)"
  have bs: "length bs = 16" by (simp add: bs_def)
  have r1: "read_bytes m1 0x1014 16 = bs" unfolding m1_def by (rule read_write) (simp_all add: bs)
  have "store64 (store64 m1 0x1014 (load64 m1 0x1014 XOR iv_word m1 iv None 0)) (0x1014 + 8)
      (load64 (store64 m1 0x1014 (load64 m1 0x1014 XOR iv_word m1 iv None 0)) (0x1014 + 8) XOR
       iv_word (store64 m1 0x1014 (load64 m1 0x1014 XOR iv_word m1 iv None 0)) iv None 8) =
    write_bytes m1 0x1014 (map2 (XOR) (read_bytes m1 0x1014 16) (iv_bytes m1 iv None))"
    by (rule xor_block_mem) (simp_all add: assms(2) iv_apart_def)
  also have "\<dots> = m3"
    using write_over [of bs "map2 (XOR) bs iv" m "0x1014"] assms(2) bs unfolding r1 by (simp add: iv_bytes_def m1_def m3_def)
  finally have "cbc_dec_direct rev iv None m 0x1000 0x1014 20 = cbc_dec_direct rev iv (Some 0x1000) m3 0x1010 0x1024 4"
    by (subst cbc_dec_direct.simps) (simp add: Let_def bs_def [symmetric] m1_def [symmetric])
  also have "\<dots> = (m3, Some 0x1000, 0x1010, 0x1024, 4)" by (simp add: cbc_dec_direct.simps)
  finally have d: "cbc_dec_direct rev iv None m 0x1000 0x1014 20 = (m3, Some 0x1000, 0x1010, 0x1024, 4)" .
  define c0 where "c0 = iv_bytes m3 iv (Some 0x1000)"
  define tmp where "tmp = rev (read_bytes m3 0x1010 16)"
  have m3: "m3 0x101f = 4" "m3 0x1000 = 0"
    by (simp_all add: m3_def write_bytes_def bs_def assms rev_nth)
  have t: "tmp ! 0 = 4" "c0 ! 0 = 0"
    using m3 by (simp_all add: tmp_def c0_def iv_bytes_def rev_nth)
  have u: "[0..<4] = [0, 1, 2, 3 :: nat]" by (simp add: upt_rec)
  have "\<exists>m2 iv2. cbc_dec_tail rev c0 m3 0x1010 0x1024 4 = (m2, iv2) \<and> m2 0x1024 = tmp ! 0 XOR c0 ! 0"
    by (simp add: cbc_dec_tail.simps tmp_def [symmetric] u Let_def)
  then have "\<exists>m2 iv2. CRYPTO_cbc128_decrypt rev m 0x1000 0x1014 20 iv = Some (m2, iv2) \<and> m2 0x1024 = 4"
    by (simp add: CRYPTO_cbc128_decrypt_def d c0_def [symmetric] t)
  moreover have "cbc_dec rev iv (read_bytes m 0x1000 32) ! 16 = 0x1f"
  proof -
    have "read_bytes m 0x1000 32 = read_bytes m 0x1000 16 @ read_bytes m 0x1010 16"
      using read_bytes_add [of m "0x1000" 16 16] by simp
    moreover have "cbc_dec rev c (read_bytes m 0x1010 16) = map2 (XOR) (rev (read_bytes m 0x1010 16)) c" for c
      using cbc_dec_block [of "read_bytes m 0x1010 16" rev c "[]"] by simp
    ultimately show ?thesis by (simp add: cbc_dec_block nth_append rev_nth assms)
  qed
  ultimately show ?thesis by force
qed

end
