(* ===== verification/Spec2Isabelle.thy ===== *)
theory Spec2Isabelle
  imports Pb_Size Pb_Scalar Ber Cbb_Codec Cbb_Error Set_Of Stack_Spec Lhash_Spec Bio_Pair_Spec B64_Spec Time_Spec Bn_Conv
    Ctr_Spec Feedback_Spec Cbc_Spec
begin

text \<open>
  A verification library for the C code that NoteWithFireStore ships.  The application itself is a
  few Swift screens; its C code is under \<open>src/NoteWithFireStore/Pods/\<close>: \<open>nanopb\<close> (protocol buffers
  for the Firestore client and the data transport) and \<open>BoringSSL-GRPC\<close> (the TLS and certificate
  library below gRPC).  The library models the data-handling core of both: the code that parses and
  builds bytes that come from, or go to, the network, and the containers that code keeps its data in.

  \<^bold>\<open>How the parts interact.\<close>  \<open>nanopb\<close> encodes a structure in memory, described by an array of field
  descriptors, to an output stream, and decodes an input stream into memory; encoder and decoder
  share the field iterator.  In BoringSSL, ASN.1 and TLS messages are read with \<open>CBS\<close> and written
  with \<open>CBB\<close>; \<open>ber.c\<close> reads with the one and writes with the other.  \<open>BIO\<close> pairs carry the bytes of a
  connection between its two ends.  PEM text is base64; the times of certificates are computed on by
  \<open>time_support.c\<close>, and the numbers of keys and certificates are \<open>BIGNUM\<close>s, read from and written to
  byte strings.  The records of a connection are encrypted by a block cipher in a mode of operation;
  the mode gets the cipher as a function pointer.  \<open>stack.c\<close> and \<open>lhash.c\<close>
  are the generic array and hash table of the library, and take comparison functions, as does the
  sorting of a \<open>SET OF\<close> in \<open>cbb.c\<close>.

  \<^bold>\<open>Conventions.\<close>  The target has 64-bit pointers; C integers are words of their width, and where a
  signed computation is modelled on \<open>int\<close> the overflow is written out.  A function that can fail is a
  state function that returns an option (\<open>cfun\<close> in \<open>Prelude\<close>); \<open>None\<close> is the failure return.  A
  function that may do something undefined, fail an assertion or not return has one more \<open>option\<close>
  around its result, whose \<open>None\<close> says so.  \<open>malloc\<close> and \<open>realloc\<close> are parameters (\<open>alloc\<close>,
  \<open>realloc_ok\<close>, \<open>halloc\<close>) that say which sizes are given, so every theorem holds for every pattern
  of allocation failures unless it says otherwise; \<open>junk\<close> is what new memory holds.  Error queues
  (\<open>OPENSSL_PUT_ERROR\<close>) are write-only for this code and not modelled, but the error strings of nanopb are.

  \<^bold>\<open>Theories\<close> (paths below \<open>Pods/nanopb\<close> and \<open>Pods/BoringSSL-GRPC/crypto\<close>).
  \<^item> \<open>Prelude\<close>: machine integers, byte-addressed memory and the C heap, byte lists in both orders,
    status-returning functions, the rule collections \<open>byte_simps\<close>, \<open>mem_simps\<close>, \<open>stream_simps\<close>.
  \<^item> \<open>C_Order\<close>: the contract of comparison functions (\<open>comparator\<close>, \<open>linear_comparator\<close>), \<open>qsort\<close> as a
    sorted permutation and \<open>bsearch\<close> as a binary search (on an array out of order, where C leaves the result
    undefined, no property speaks of its result); interpreted by the order of \<open>SET OF\<close> and by addresses.
  \<^item> \<open>Pb_Types\<close>, \<open>Pb_Common\<close>: \<open>pb.h\<close> as compiled for this program (\<open>PB_FIELD_32BIT\<close>,
    \<open>PB_ENABLE_MALLOC\<close>), the streams, the C state, and the field iterator of \<open>pb_common.c\<close>.
  \<^item> \<open>Pb_Ostream\<close>, \<open>Pb_Encode\<close>: \<open>pb_encode.c\<close>; \<open>Pb_Istream\<close>, \<open>Pb_Memory\<close>, \<open>Pb_Decode\<close>: \<open>pb_decode.c\<close>.
  \<^item> \<open>Pb_Wire\<close>: the locale \<open>wire_codec\<close> of an encoder and a decoder of one wire value, interpreted for
    varints, zigzag varints, fixed-width values and tags; skipping of fields; overlong varints.
    \<open>Pb_Scalar\<close>: round trips of scalar fields through the dispatch tables.  \<open>Pb_Total\<close>: decoder and
    encoder return.  \<open>Pb_Size\<close>: the size computed on a sizing stream is the size written.
  \<^item> \<open>Cbs\<close>: \<open>bytestring/cbs.c\<close> and \<open>CRYPTO_memcmp\<close>.  \<open>Der\<close>: the formats it accepts, as functions from
    values to bytes, in the locale \<open>byte_format\<close>; each reader accepts exactly its format.
  \<^item> \<open>Cbb\<close>: \<open>bytestring/cbb.c\<close>, the builder with its chain of open children.  \<open>Cbb_Inv\<close>: the buffer
    invariant of every operation; \<open>Cbb_Error\<close>: the error flag; \<open>Cbb_Der\<close>, \<open>Cbb_Codec\<close>: what is written
    is what is read (locale \<open>cbb_codec\<close>, an extension of \<open>byte_format\<close>); \<open>Set_Of\<close>: canonical sets.
  \<^item> \<open>Ber\<close>: \<open>bytestring/ber.c\<close>.
  \<^item> \<open>Bio\<close>, \<open>Bio_Pair\<close>: \<open>bio/bio.c\<close> with the reference counts of \<open>refcount_lock.c\<close>, and \<open>bio/pair.c\<close>.
    \<open>Bio_Pair_Spec\<close>: the ring buffers implement the locale \<open>byte_queue\<close>; two users in any interleaving.
  \<^item> \<open>Const_Time\<close>: the masks of \<open>internal.h\<close>.  \<open>B64\<close>, \<open>B64_Spec\<close>: \<open>base64/base64.c\<close>.
  \<^item> \<open>Time_Support\<close>, \<open>Time_Spec\<close>: \<open>asn1/time_support.c\<close> and the Gregorian calendar.
  \<^item> \<open>Bn\<close>, \<open>Bn_Add\<close>, \<open>Bn_Bytes\<close>: \<open>bn.c\<close>, \<open>cmp.c\<close>, \<open>add.c\<close>, \<open>bytes.c\<close> of \<open>fipsmodule/bn\<close>, with the word
    loops of \<open>generic.c\<close> they use.  \<open>Bn_Words\<close>, \<open>Bn_Spec\<close>: refinement of the integers; \<open>Bn_Conv\<close>:
    the conversions to bytes and back.
  \<^item> \<open>Modes\<close>: \<open>ctr.c\<close>, \<open>ofb.c\<close>, \<open>cfb.c\<close> of \<open>fipsmodule/modes\<close> on lists; \<open>Cbc\<close>: \<open>cbc.c\<close> on memory, where the
    overlap of the buffers matters.  \<open>Modes_Spec\<close>: the locales \<open>stream_mode\<close> (a function that is the run of
    a step on bytes) and \<open>key_stream\<close>; \<open>Ctr_Spec\<close>, \<open>Feedback_Spec\<close> interpret them for each mode; \<open>Cbc_Spec\<close>.
    \<open>Byte_Val\<close>: lists of bytes as numbers, shared with the big numbers.
  \<^item> \<open>Stack\<close>, \<open>Stack_Spec\<close>: \<open>stack/stack.c\<close> and its refinement of lists.  \<open>Lhash\<close>, \<open>Lhash_Spec\<close>:
    \<open>lhash/lhash.c\<close>, the locale \<open>hash_contract\<close> and the refinement of a set.
  Each definition has the name of the C function it models; a loop has a definition of its own, named
  after its function.  The theories whose names end in \<open>_Spec\<close>, and \<open>Der\<close>, \<open>Pb_Wire\<close>, \<open>Pb_Scalar\<close>, \<open>Pb_Total\<close>,
  \<open>Pb_Size\<close>, \<open>Cbb_Inv\<close>, \<open>Cbb_Error\<close>, \<open>Cbb_Der\<close>, \<open>Cbb_Codec\<close>, \<open>Set_Of\<close>, \<open>Bn_Words\<close>, \<open>Bn_Conv\<close> and \<open>Byte_Val\<close>, hold lemmas and properties only,
  apart from the reference definitions these speak of.

  \<^bold>\<open>Fuel.\<close>  \<open>pb_decode\<close> and \<open>pb_encode\<close> recurse along pointers in the data, so they take fuel: by
  \<open>decode_returns\<close>, the nesting depth of the message type plus the bytes left in the stream, and one
  more, are enough for the decoder; by \<open>encoded_size_exact\<close>, a unit more than the nesting depth for the
  encoder.  Lists of extensions may be cyclic and have no bound.  \<open>cbs_convert_ber\<close> needs one unit more
  than its input has bytes (\<open>ber_to_der_returns\<close>).  The copying loops of a BIO pair run at most twice
  (\<open>pair_fifo\<close>).  \<open>BIO_free\<close> takes one unit for each BIO of the chain, and one more.

  \<^bold>\<open>What the properties show\<close>, by component.  nanopb: exact sizes, termination, round trips of scalars,
  tags and varints, exact skipping, and where overlong varints are rejected and where they are not.
  Bytestring: readers accept exactly what builders write (hence unique parses), no sequence of calls
  writes outside the buffer, a failed write is never lost, sets are canonical, BER conversion returns.
  BIO pair: the bytes of each direction arrive once and in order, and a reader releases a blocked
  writer.  Base64: streaming and one-shot coding agree for every way to cut the data.  Calendar:
  exact addition of offsets and the inverse.  Big numbers: addition and subtraction are those of the
  integers, byte strings round-trip.  Block cipher modes: encryption is what the mode
  defines and decryption undoes it, in place, apart and with an output before the input (CBC), and for every way
  to cut the data (CTR, OFB, CFB), the 32-bit counter included.  Stack and hash table: refinement of lists
  and sets, with the invariants of their arrays.  Five theorems record faults of the code:
  \<open>find_ber_overlooks\<close>, \<open>set_keeps_flag\<close>, \<open>varint32_bitpos_wraps\<close>, \<open>gmtime_adj_overflow\<close> and, beside the
  properties, \<open>cbc_assertion_too_weak\<close>.

  \<^bold>\<open>Not modelled.\<close>  The Swift application (user interface and calls into the SDK); the Firestore client,
  gRPC, LevelDB, Abseil and \<open>ssl/\<close> (C++); the Objective-C libraries; generated code (the descriptor
  tables of messages are a parameter of the nanopb model, protobuf tables of gRPC); the rest of
  BoringSSL's \<open>crypto/\<close> (the other big number files, the block ciphers
  themselves, GCM and CCM, digests, elliptic curves, RSA, ASN.1 templates, X.509), which rests on
  assembly, tables or number theory outside this library's scope.  Of the modelled files: 32-bit
  variants and other compile-time options that this build does not use, functions that only pass on
  to the C library, and contents of out-parameters after a failure.
\<close>

end
